(* ===== verification/Contract.thy ===== *)
theory Contract
  imports Prelude
begin

text \<open>
  The wire types the components share: the enums and DTOs of \<^verbatim>\<open>crates/zvs-contract/src\<close> and
  the permission requirement of \<^verbatim>\<open>crates/zvs-host/src/kernel/types.rs\<close>, constructor by
  constructor and field by field.
\<close>

subsection \<open>Errors\<close>

datatype app_error_code =
    Unknown | ValidationFailed | NotFound | Conflict | PermissionDenied | SecretMissing
  | SecretDecryptFailed | ProviderUnreachable | ProviderAuthFailed | ProviderSessionExpired
  | RateLimited | RunCancelled | RunFailed | ApprovalDenied | SidecarUnavailable
  | McpUnavailable | McpTimeout | NativeError | DbError | UnsupportedFormat | LimitExceeded
  | NotImplemented

record app_error =
  err_code :: app_error_code
  err_message :: string

definition app_error_new :: "app_error_code \<Rightarrow> string \<Rightarrow> app_error" where
  "app_error_new c m = \<lparr>err_code = c, err_message = m\<rparr>"

lemma app_error_new_sel [simp]:
  "err_code (app_error_new c m) = c" "err_message (app_error_new c m) = m"
  by (simp_all add: app_error_new_def)

subsection \<open>Execution policy\<close>

datatype exec_mode = AlwaysAsk | SafetyAsk | AutoBypass | NoRestrictions

definition exec_mode_as_str :: "exec_mode \<Rightarrow> string" where
  "exec_mode_as_str m = (case m of AlwaysAsk \<Rightarrow> ''always-ask'' | SafetyAsk \<Rightarrow> ''safety-ask''
     | AutoBypass \<Rightarrow> ''auto-bypass'' | NoRestrictions \<Rightarrow> ''no-restrictions'')"

datatype tool_authorisation_kind = AuthAuto | AuthGranted | AuthApproved | AuthPolicy | AuthJudge

record exec_judge =
  provider_id :: string
  model_id :: string

record exec_policy =
  mode :: exec_mode
  judge :: "exec_judge option"

definition exec_policy_default :: exec_policy where
  "exec_policy_default = \<lparr>mode = AlwaysAsk, judge = None\<rparr>"

record tool_authorisation =
  auth_kind :: tool_authorisation_kind
  auth_source :: "string option"
  auth_reason :: "string option"

definition authorisation_of :: "tool_authorisation_kind \<Rightarrow> tool_authorisation" where
  "authorisation_of k = \<lparr>auth_kind = k, auth_source = None, auth_reason = None\<rparr>"

definition from_source :: "string \<Rightarrow> tool_authorisation \<Rightarrow> tool_authorisation" where
  "from_source s a = a\<lparr>auth_source := Some s\<rparr>"

definition because_of :: "string option \<Rightarrow> tool_authorisation \<Rightarrow> tool_authorisation" where
  "because_of r a = a\<lparr>auth_reason := r\<rparr>"

lemmas authorisation_defs = authorisation_of_def from_source_def because_of_def

definition TOOL_AUTHORISATION_SOURCE_MAX :: nat where "TOOL_AUTHORISATION_SOURCE_MAX = 200"
definition TOOL_AUTHORISATION_REASON_MAX :: nat where "TOOL_AUTHORISATION_REASON_MAX = 2000"

subsection \<open>Files and processes under review\<close>

datatype file_change_kind = ChangeCreate | ChangeModify | ChangeMove | ChangeDelete

record file_diff =
  diff_path :: string
  diff_from :: "string option"
  diff_kind :: file_change_kind

datatype code_language = Python | Javascript | Powershell

record process_plan =
  program :: string
  language :: "code_language option"
  argv :: "string list"
  cwd :: string
  source :: "string option"
  packages :: "string list"
  background :: bool

record allow_rule_change =
  change_path :: string
  change_kind :: file_change_kind

datatype allow_rule_input =
    AllowFiles "allow_rule_change list" "string option"
  | AllowProcess "string list" string "string option"

fun allow_input_folder :: "allow_rule_input \<Rightarrow> string option" where
  "allow_input_folder (AllowFiles _ f) = f"
| "allow_input_folder (AllowProcess _ _ f) = f"

subsection \<open>Tools and permissions\<close>

datatype tool_tier = TierAuto | TierAsk | TierOff

datatype permission_requirement =
    ReqNone
  | ReqTool string "tool_tier option"
  | ReqAppFolder string

definition tool_key :: "permission_requirement \<Rightarrow> string option" where
  "tool_key r = (case r of ReqNone \<Rightarrow> None | ReqTool t _ \<Rightarrow> Some t | ReqAppFolder t \<Rightarrow> Some t)"

definition is_permission_scope :: "string \<Rightarrow> bool" where
  "is_permission_scope value \<longleftrightarrow>
     list_ex (\<lambda>prefix. case strip_prefix prefix value of
         None \<Rightarrow> False
       | Some rest \<Rightarrow> rest \<noteq> [] \<and> \<not> list_ex (\<lambda>c. c = CHR 0x0A \<or> c = CHR 0x0D) rest)
       [''skill:'', ''scenario:'', ''site:'']"

subsection \<open>Runs, graphs and steps\<close>

datatype run_status = Queued | Running | Blocked | Succeeded | Failed | Cancelled | Interrupted

datatype step_status = StepRunning | StepSucceeded | StepFailed | StepCancelled | StepAbandoned

datatype graph_binding = BindRun | BindNode string "string option"

record retry_policy =
  max_attempts_of :: nat
  backoff_ms :: nat

definition retry_policy_default :: retry_policy where
  "retry_policy_default = \<lparr>max_attempts_of = 1, backoff_ms = 0\<rparr>"

record graph_condition =
  cond_node :: string
  cond_field :: string
  cond_equals :: bool

record graph_node =
  node_id :: string
  node_type :: string
  node_dependencies :: "string list option"
  node_input :: "json option"
  node_bindings :: "(string \<times> graph_binding) list option"
  node_retry :: "retry_policy option"
  node_timeout_ms :: "nat option"
  node_continue_on_error :: "bool option"
  node_when :: "graph_condition option"

definition graph_node_new :: "string \<Rightarrow> string \<Rightarrow> graph_node" where
  "graph_node_new i t = \<lparr>node_id = i, node_type = t, node_dependencies = None, node_input = None,
     node_bindings = None, node_retry = None, node_timeout_ms = None,
     node_continue_on_error = None, node_when = None\<rparr>"

definition continues_on_error :: "graph_node \<Rightarrow> bool" where
  "continues_on_error n = (case node_continue_on_error n of None \<Rightarrow> False | Some b \<Rightarrow> b)"

definition dependencies :: "graph_node \<Rightarrow> string list" where
  "dependencies n = (case node_dependencies n of None \<Rightarrow> [] | Some ds \<Rightarrow> ds)"

definition graph_input :: "graph_node \<Rightarrow> json" where
  "graph_input n = (case node_input n of None \<Rightarrow> JNull | Some v \<Rightarrow> v)"

definition bindings :: "graph_node \<Rightarrow> (string \<times> graph_binding) list" where
  "bindings n = (case node_bindings n of None \<Rightarrow> [] | Some bs \<Rightarrow> bs)"

definition has_bindings :: "graph_node \<Rightarrow> bool" where
  "has_bindings n = (case node_bindings n of None \<Rightarrow> False | Some bs \<Rightarrow> bs \<noteq> [])"

definition retry :: "graph_node \<Rightarrow> retry_policy" where
  "retry n = (case node_retry n of None \<Rightarrow> retry_policy_default | Some r \<Rightarrow> r)"

record run_graph =
  nodes :: "graph_node list"
  permission_scopes_opt :: "string list option"
  allowed_tools :: "string list option"

definition permission_scopes :: "run_graph \<Rightarrow> string list" where
  "permission_scopes g = (case permission_scopes_opt g of None \<Rightarrow> [] | Some s \<Rightarrow> s)"

definition allows_tool :: "run_graph \<Rightarrow> string \<Rightarrow> bool" where
  "allows_tool g key = (case allowed_tools g of None \<Rightarrow> True | Some ts \<Rightarrow> list_ex (\<lambda>t. t = key) ts)"

lemma has_bindings_iff: "has_bindings n \<longleftrightarrow> bindings n \<noteq> []"
  by (auto simp: has_bindings_def bindings_def split: option.splits)

subsection \<open>Events\<close>

datatype delta_kind = DeltaText | DeltaReasoning

datatype outcome_status = OutOk | OutCancelled | OutFailed

record run_outcome =
  oc_status :: outcome_status
  oc_code :: "app_error_code option"
  oc_message :: "string option"

end
