(* ===== verification/ExecTable.thy ===== *)
theory ExecTable
  imports Contract
begin

text \<open>
  The execution-policy table and the actions it judges: \<^verbatim>\<open>policy/table.rs\<close> (families,
  decisions, the mode by family table) and \<^verbatim>\<open>policy/action.rs\<close> (file operations, reviewed
  actions and the family of an action).
\<close>

datatype family = FamAuto | FamBenign | FamFiles | FamBrowser | FamProcess | FamDeclared | FamFloor

datatype decision = DRun | DAsk | DReview | DDeny

definition decide :: "exec_mode \<Rightarrow> family \<Rightarrow> decision" where
  "decide m f =
     (if f = FamFloor then DDeny
      else if f = FamAuto \<or> m = NoRestrictions then DRun
      else if m = AlwaysAsk then DAsk
      else if f = FamBenign then DRun
      else if m = AutoBypass \<and> (f = FamFiles \<or> f = FamProcess) then DReview
      else DAsk)"

datatype file_operation = OpCreate | OpOverwrite | OpMove | OpMoveOnto | OpDelete

definition destructive :: "file_operation \<Rightarrow> bool" where
  "destructive x = (case x of OpOverwrite \<Rightarrow> True | OpMoveOnto \<Rightarrow> True | OpDelete \<Rightarrow> True | _ \<Rightarrow> False)"

record file_action =
  action_operation :: file_operation
  action_path :: string
  action_from :: "string option"

datatype reviewed_action =
    RPlain
  | RDeclared
  | RBrowser
  | RFiles "file_action list" "file_diff list"
  | RProcess string process_plan

datatype review_verdict =
    VRun tool_authorisation
  | VAsk "string option"
  | VDeny string

definition UNREAD_SCRIPT :: string where "UNREAD_SCRIPT = ''UNREAD_SCRIPT''"

definition files_action :: "file_diff list \<Rightarrow> (string \<Rightarrow> bool) \<Rightarrow> reviewed_action" where
  "files_action changes existed =
     RFiles (map (\<lambda>c. \<lparr>action_operation =
                         (case diff_kind c of
                            ChangeCreate \<Rightarrow> OpCreate
                          | ChangeModify \<Rightarrow> OpOverwrite
                          | ChangeDelete \<Rightarrow> OpDelete
                          | ChangeMove \<Rightarrow> (if existed (diff_path c) then OpMoveOnto else OpMove)),
                       action_path = diff_path c, action_from = diff_from c\<rparr>) changes) changes"

definition action_family :: "reviewed_action \<Rightarrow> family" where
  "action_family a = (case a of
       RPlain \<Rightarrow> FamBenign
     | RDeclared \<Rightarrow> FamDeclared
     | RBrowser \<Rightarrow> FamBrowser
     | RFiles actions _ \<Rightarrow> (if list_ex (\<lambda>x. destructive (action_operation x)) actions then FamFiles else FamBenign)
     | RProcess _ _ \<Rightarrow> FamProcess)"

subsection \<open>What the table promises\<close>

text \<open>How much a decision lets an action do without the user: the order of the table's answers.\<close>

definition freedom :: "decision \<Rightarrow> nat" where
  "freedom d = (case d of DDeny \<Rightarrow> 0 | DAsk \<Rightarrow> 1 | DReview \<Rightarrow> 2 | DRun \<Rightarrow> 3)"

definition strictness :: "exec_mode \<Rightarrow> nat" where
  "strictness m = (case m of AlwaysAsk \<Rightarrow> 3 | SafetyAsk \<Rightarrow> 2 | AutoBypass \<Rightarrow> 1 | NoRestrictions \<Rightarrow> 0)"

lemma decide_monotone: "strictness m' \<le> strictness m \<Longrightarrow> freedom (decide m f) \<le> freedom (decide m' f)"
  by (cases m; cases m'; cases f) (simp_all add: decide_def freedom_def strictness_def)

lemma decide_review_iff: "decide m f = DReview \<longleftrightarrow> m = AutoBypass \<and> (f = FamFiles \<or> f = FamProcess)"
  by (cases m; cases f) (simp_all add: decide_def)

lemma decide_deny_iff: "decide m f = DDeny \<longleftrightarrow> f = FamFloor"
  by (cases m; cases f) (simp_all add: decide_def)

lemma files_action_family:
  "action_family (files_action cs ex) = FamFiles \<longleftrightarrow>
     (\<exists>c \<in> set cs. diff_kind c \<in> {ChangeModify, ChangeDelete} \<or> (diff_kind c = ChangeMove \<and> ex (diff_path c)))"
proof -
  have "destructive (case diff_kind c of ChangeCreate \<Rightarrow> OpCreate | ChangeModify \<Rightarrow> OpOverwrite
          | ChangeDelete \<Rightarrow> OpDelete | ChangeMove \<Rightarrow> (if ex (diff_path c) then OpMoveOnto else OpMove))
        \<longleftrightarrow> diff_kind c \<in> {ChangeModify, ChangeDelete} \<or> (diff_kind c = ChangeMove \<and> ex (diff_path c))"
    for c :: file_diff
    by (cases "diff_kind c") (simp_all add: destructive_def)
  then show ?thesis by (simp add: action_family_def files_action_def list_ex_iff)
qed

end
