(* ===== verification/PolicyRules.thy ===== *)
theory PolicyRules
  imports ExecTable
begin

text \<open>
  The rule packs of the execution policy, \<^verbatim>\<open>policy/rules.rs\<close>: compiling a pack, matching files,
  argument vectors and scripts, and resolving the matched rules of an action to one outcome.

  The \<^verbatim>\<open>regex\<close> crate and \<^verbatim>\<open>serde_json\<close> are not part of the repository: a compiled pattern is
  a value of the type parameter \<open>'re\<close>, the crate's functions are the fields of
  \<open>regex_engine\<close>, and the JSON parser is an argument of \<open>compile_pack\<close>.
\<close>

record 're regex_engine =
  rx_new :: "string \<Rightarrow> 're option"
  rx_new_ci :: "string \<Rightarrow> 're option"
  rx_escape :: "char \<Rightarrow> string"
  rx_is_match :: "'re \<Rightarrow> string \<Rightarrow> bool"

datatype rule_effect = EffAllow | EffReview | EffAsk | EffDeny

datatype pack_origin = Vendor | User

record file_rule_spec =
  fspec_paths :: "string list"
  fspec_operations :: "file_operation list"

record process_rule_spec =
  pspec_argv :: "string list"
  pspec_cwd :: "string option"

record code_rule_spec =
  cspec_languages :: "code_language list"
  cspec_avoid :: "string list"

record rule_spec =
  rspec_id :: string
  rspec_effect :: rule_effect
  rspec_text :: string
  rspec_files :: "file_rule_spec option"
  rspec_process :: "process_rule_spec option"
  rspec_code :: "code_rule_spec option"

record pack_spec =
  pack_id :: string
  pack_allows :: bool
  pack_rules :: "rule_spec list"

datatype 're arg_pattern = Rest | One 're

datatype 're matcher =
    MFiles "'re list" "file_operation list"
  | MProcess "'re arg_pattern list" "'re option"
  | MCode "code_language list" "'re list"

record 're rule =
  rule_id :: string
  rule_eff :: rule_effect
  rule_text :: string
  rule_origin :: pack_origin
  rule_matcher :: "'re matcher"

record rule_text_dto =
  rt_id :: string
  rt_effect :: rule_effect
  rt_text :: string

datatype rule_outcome =
    OAllow string string
  | OReview string string
  | OAsk string string
  | ODeny string
  | OUnmatched

instantiation rule_effect :: linorder
begin

definition effect_rank :: "rule_effect \<Rightarrow> nat" where
  "effect_rank e = (case e of EffAllow \<Rightarrow> 0 | EffReview \<Rightarrow> 1 | EffAsk \<Rightarrow> 2 | EffDeny \<Rightarrow> 3)"

definition less_eq_rule_effect :: "rule_effect \<Rightarrow> rule_effect \<Rightarrow> bool" where
  "a \<le> b \<longleftrightarrow> effect_rank a \<le> effect_rank b"

definition less_rule_effect :: "rule_effect \<Rightarrow> rule_effect \<Rightarrow> bool" where
  "a < b \<longleftrightarrow> effect_rank a < effect_rank b"

instance
proof
  fix x y :: rule_effect
  show "x \<le> y \<Longrightarrow> y \<le> x \<Longrightarrow> x = y"
    by (cases x; cases y) (simp_all add: less_eq_rule_effect_def effect_rank_def)
qed (auto simp: less_eq_rule_effect_def less_rule_effect_def)

end

lemma effect_le_deny [simp]: "(e :: rule_effect) \<le> EffDeny"
  by (cases e) (simp_all add: less_eq_rule_effect_def effect_rank_def)

subsection \<open>Argument vectors\<close>

fun match_args :: "('re \<Rightarrow> string \<Rightarrow> bool) \<Rightarrow> 're arg_pattern list \<Rightarrow> string list \<Rightarrow> bool" where
  "match_args m [] args \<longleftrightarrow> args = []"
| "match_args m (Rest # tail) args \<longleftrightarrow>
     list_ex (\<lambda>skip. match_args m tail (drop skip args)) [0..<Suc (length args)]"
| "match_args m (One p # tail) args \<longleftrightarrow>
     (case args of [] \<Rightarrow> False | a # rest \<Rightarrow> m p a \<and> match_args m tail rest)"

subsection \<open>Globs\<close>

text \<open>
  One turn of the loop of \<^verbatim>\<open>translate\<close>: the text pushed for the current character, the new brace
  depth and how many further characters are consumed (\<^verbatim>\<open>index += 1\<close> inside a branch).
\<close>

definition glob_step :: "(char \<Rightarrow> string) \<Rightarrow> bool \<Rightarrow> nat \<Rightarrow> char \<Rightarrow> string \<Rightarrow> string \<times> nat \<times> nat" where
  "glob_step esc sep braces c cs =
    (if c = CHR ''{'' then (''(?:'', Suc braces, 0)
     else if c = CHR ''}'' \<and> 0 < braces then ('')'', braces - 1, 0)
     else if c = CHR '','' \<and> 0 < braces then (''|'', braces, 0)
     else if c = CHR ''*'' \<and> take 1 cs = ''*'' then
       (if take 1 (drop 1 cs) = ''/'' then (''(?:.*/)?'', braces, 2) else (''.*'', braces, 1))
     else if c = CHR ''*'' then (if sep then (''[^/]*'', braces, 0) else (''.*'', braces, 0))
     else if c = CHR ''?'' then (if sep then (''[^/]'', braces, 0) else (''.'', braces, 0))
     else (esc c, braces, 0))"

fun translate_loop :: "(char \<Rightarrow> string) \<Rightarrow> bool \<Rightarrow> nat \<Rightarrow> string \<Rightarrow> string \<times> nat" where
  "translate_loop esc sep braces [] = ([], braces)"
| "translate_loop esc sep braces (c # cs) =
     (let (t, b, k) = glob_step esc sep braces c cs;
          (out, b') = translate_loop esc sep b (drop k cs) in
      (t @ out, b'))"

definition normalised :: "string \<Rightarrow> string" where
  "normalised p = replace_char (CHR 0x5C) (CHR ''/'') p"

definition translate_source :: "(char \<Rightarrow> string) \<Rightarrow> string \<Rightarrow> bool \<Rightarrow> string option" where
  "translate_source esc pattern sep =
     (case translate_loop esc sep 0 (normalised pattern) of
        (out, braces) \<Rightarrow> if 0 < braces then None else Some (''(?i)^'' @ out @ ''$''))"

definition translate :: "'re regex_engine \<Rightarrow> string \<Rightarrow> bool \<Rightarrow> 're option" where
  "translate rx pattern sep =
     (case translate_source (rx_escape rx) pattern sep of None \<Rightarrow> None | Some s \<Rightarrow> rx_new rx s)"

definition path_glob :: "'re regex_engine \<Rightarrow> string \<Rightarrow> 're option" where
  "path_glob rx pattern = translate rx pattern True"

definition arg_glob :: "'re regex_engine \<Rightarrow> string \<Rightarrow> 're option" where
  "arg_glob rx pattern = translate rx pattern False"

fun strip_program_extension :: "string list \<Rightarrow> string \<Rightarrow> string" where
  "strip_program_extension [] name = name"
| "strip_program_extension (e # es) name =
     (case strip_suffix e name of Some stem \<Rightarrow> stem | None \<Rightarrow> strip_program_extension es name)"

definition program_name :: "string \<Rightarrow> string" where
  "program_name p = strip_program_extension [''.exe'', ''.cmd'', ''.bat'', ''.com'']
     (lower (last (split_on (CHR ''/'') (normalised p))))"

subsection \<open>Compiling a pack\<close>

definition ANY_REST :: string where "ANY_REST = ''**''"

definition compile_one :: "'re option \<Rightarrow> string + 're" where
  "compile_one r = (case r of None \<Rightarrow> Inl ''invalid pattern'' | Some re \<Rightarrow> Inr re)"

definition rule_compile :: "'re regex_engine \<Rightarrow> rule_spec \<Rightarrow> pack_origin \<Rightarrow> string + 're rule" where
  "rule_compile rx spec origin =
    (if trim (rspec_id spec) = [] \<or> trim (rspec_text spec) = []
     then Inl ''a rule needs an id and a text''
     else rbind
       (case (rspec_files spec, rspec_process spec, rspec_code spec) of
          (None, None, Some code) \<Rightarrow>
            (if cspec_languages code = [] then Inl ''no languages''
             else rbind (collect_results (\<lambda>p. compile_one (rx_new_ci rx p)) (cspec_avoid code))
                    (\<lambda>avoid. Inr (MCode (cspec_languages code) avoid)))
        | (Some files, None, None) \<Rightarrow>
            (if fspec_paths files = [] then Inl ''no paths''
             else rbind (collect_results (\<lambda>p. compile_one (path_glob rx p)) (fspec_paths files))
                    (\<lambda>paths. Inr (MFiles paths (fspec_operations files))))
        | (None, Some process, None) \<Rightarrow>
            (if (case pspec_argv process of [] \<Rightarrow> True | p # _ \<Rightarrow> p = ANY_REST)
             then Inl ''argv needs a program''
             else rbind (collect_results
                          (\<lambda>p. if p = ANY_REST then Inr Rest
                               else rbind (compile_one (arg_glob rx p)) (\<lambda>re. Inr (One re)))
                          (pspec_argv process))
                    (\<lambda>args. rbind
                       (case pspec_cwd process of
                          None \<Rightarrow> Inr None
                        | Some p \<Rightarrow> rbind (compile_one (path_glob rx p)) (\<lambda>re. Inr (Some re)))
                       (\<lambda>cwd. Inr (MProcess args cwd))))
        | _ \<Rightarrow> Inl ''exactly one of files, process or code is required'')
       (\<lambda>m. Inr \<lparr>rule_id = rspec_id spec, rule_eff = rspec_effect spec, rule_text = rspec_text spec,
                 rule_origin = origin, rule_matcher = m\<rparr>))"

definition compile_pack ::
  "'re regex_engine \<Rightarrow> (string \<Rightarrow> string + pack_spec) \<Rightarrow> string \<Rightarrow> pack_origin \<Rightarrow> string + 're rule list"
where
  "compile_pack rx parse txt origin =
     rbind (parse txt) (\<lambda>pack.
       if trim (pack_id pack) = [] then Inl ''a pack needs an id''
       else if list_ex (\<lambda>r. rspec_effect r = EffAllow) (pack_rules pack) \<and> \<not> pack_allows pack
       then Inl ''pack contains an allow rule but declares allows: false''
       else collect_results (\<lambda>r. rule_compile rx r origin) (pack_rules pack))"

subsection \<open>Matching\<close>

definition matches_file :: "'re regex_engine \<Rightarrow> 're rule \<Rightarrow> file_action \<Rightarrow> bool" where
  "matches_file rx r a = (case rule_matcher r of
       MFiles paths operations \<Rightarrow>
         (operations = [] \<or> action_operation a \<in> set operations)
         \<and> list_ex (\<lambda>p. rx_is_match rx p (normalised (action_path a))) paths
     | _ \<Rightarrow> False)"

definition matches_process :: "'re regex_engine \<Rightarrow> 're rule \<Rightarrow> string list \<Rightarrow> string \<Rightarrow> bool" where
  "matches_process rx r av folder = (case rule_matcher r of
       MProcess patterns where_ \<Rightarrow>
         (case av of
            [] \<Rightarrow> False
          | p # rest \<Rightarrow>
              match_args (rx_is_match rx) patterns (program_name p # rest)
              \<and> (case where_ of None \<Rightarrow> True | Some w \<Rightarrow> rx_is_match rx w (normalised folder)))
     | _ \<Rightarrow> False)"

definition matches_code :: "'re regex_engine \<Rightarrow> 're rule \<Rightarrow> code_language \<Rightarrow> string \<Rightarrow> bool" where
  "matches_code rx r lang src = (case rule_matcher r of
       MCode languages avoid \<Rightarrow>
         lang \<in> set languages \<and> \<not> list_ex (\<lambda>p. rx_is_match rx p src) avoid
     | _ \<Rightarrow> False)"

definition is_files :: "'re rule \<Rightarrow> bool" where
  "is_files r = (case rule_matcher r of MFiles _ _ \<Rightarrow> True | _ \<Rightarrow> False)"

definition rule_as_text :: "'re rule \<Rightarrow> rule_text_dto" where
  "rule_as_text r = \<lparr>rt_id = rule_id r, rt_effect = rule_eff r, rt_text = rule_text r\<rparr>"

subsection \<open>Resolving\<close>

text \<open>\<^verbatim>\<open>min_by_key(Reverse(effect))\<close>: the first rule of the greatest effect.\<close>

fun strongest :: "'re rule list \<Rightarrow> 're rule option" where
  "strongest [] = None"
| "strongest (r # rs) = (case strongest rs of
     None \<Rightarrow> Some r
   | Some r' \<Rightarrow> if rule_eff r < rule_eff r' then Some r' else Some r)"

definition resolve :: "'re rule list \<Rightarrow> 're rule option" where
  "resolve matched =
     (let vendor = filter (\<lambda>r. rule_origin r = Vendor) matched in
      case List.find (\<lambda>r. rule_eff r = EffDeny) vendor of
        Some r \<Rightarrow> Some r
      | None \<Rightarrow> (case strongest (filter (\<lambda>r. rule_origin r = User) matched) of
                   Some r \<Rightarrow> Some r
                 | None \<Rightarrow> strongest vendor))"

definition somes :: "'a option list \<Rightarrow> 'a list" where
  "somes xs = List.map_filter (\<lambda>x. x) xs"

definition resolve_items :: "'re rule list list \<Rightarrow> rule_outcome" where
  "resolve_items items =
     (let decided = map resolve items; flat = somes decided in
      case List.find (\<lambda>r. rule_eff r = EffDeny) flat of
        Some r \<Rightarrow> ODeny (rule_id r)
      | None \<Rightarrow>
      (case List.find (\<lambda>r. rule_eff r = EffAsk) flat of
        Some r \<Rightarrow> OAsk (rule_id r) (rule_text r)
      | None \<Rightarrow>
      (case List.find (\<lambda>r. rule_eff r = EffReview) flat of
        Some r \<Rightarrow> OReview (rule_id r) (rule_text r)
      | None \<Rightarrow>
      (case decided of
         Some first # _ \<Rightarrow>
           if list_all (\<lambda>x. x \<noteq> None) decided then OAllow (rule_id first) (rule_text first)
           else OUnmatched
       | _ \<Rightarrow> OUnmatched))))"

definition evaluate :: "'re regex_engine \<Rightarrow> 're rule list \<Rightarrow> reviewed_action \<Rightarrow> rule_outcome" where
  "evaluate rx rules a = (case a of
       RFiles actions _ \<Rightarrow>
         (let items = map (\<lambda>x. filter (\<lambda>r. matches_file rx r x) rules)
                        (filter (\<lambda>x. destructive (action_operation x)) actions) in
          if items = [] then OUnmatched else resolve_items items)
     | RProcess _ p \<Rightarrow>
         (case (language p, source p) of
            (Some lang, Some src) \<Rightarrow>
              (let code = (if src = UNREAD_SCRIPT then [] else filter (\<lambda>r. matches_code rx r lang src) rules);
                   items = (if argv p = [] then [code]
                            else [code, filter (\<lambda>r. matches_process rx r (argv p) (cwd p)) rules]) in
               resolve_items items)
          | (None, _) \<Rightarrow>
              (if argv p = [] then OUnmatched
               else resolve_items [filter (\<lambda>r. matches_process rx r (argv p) (cwd p)) rules])
          | _ \<Rightarrow> OUnmatched)
     | _ \<Rightarrow> OUnmatched)"

subsection \<open>The rule set on disk\<close>

text \<open>
  \<^verbatim>\<open>RuleSet::load\<close> reads the folder of user packs. The directory is an argument: the entries
  \<^verbatim>\<open>read_dir\<close> yields, each with its file name and what \<^verbatim>\<open>read_to_string\<close> returns for it.
\<close>

definition path_extension :: "string \<Rightarrow> string option" where
  "path_extension name =
     (let parts = split_on (CHR ''.'') name in
      if length parts < 2 \<or> (length parts = 2 \<and> hd parts = []) \<or> name = ''..'' then None
      else Some (last parts))"

definition lower_ascii :: "string \<Rightarrow> string" where
  "lower_ascii s = map (\<lambda>c. let n = of_char c :: nat in
     if 65 \<le> n \<and> n \<le> 90 then char_of (n + 32) else c) s"

fun load_files ::
  "'re regex_engine \<Rightarrow> (string \<Rightarrow> string + pack_spec) \<Rightarrow> (string \<times> (string + string)) list
    \<Rightarrow> 're rule list \<Rightarrow> string list \<Rightarrow> 're rule list \<times> string list"
where
  "load_files rx parse [] rules problems = (rules, problems)"
| "load_files rx parse ((name, content) # files) rules problems =
     (case rbind content (\<lambda>txt. compile_pack rx parse txt User) of
        Inr pack \<Rightarrow> load_files rx parse files (rules @ pack) problems
      | Inl problem \<Rightarrow> load_files rx parse files rules (problems @ [name @ '': '' @ problem]))"

definition load_rules ::
  "'re regex_engine \<Rightarrow> (string \<Rightarrow> string + pack_spec) \<Rightarrow> string
    \<Rightarrow> (string \<times> (string + string)) list option \<Rightarrow> 're rule list \<times> string list"
where
  "load_rules rx parse vendor folder =
     (let (rules, problems) = (case compile_pack rx parse vendor Vendor of
            Inr rules \<Rightarrow> (rules, [])
          | Inl problem \<Rightarrow> ([], [''vendor: '' @ problem]));
          entries = (case folder of None \<Rightarrow> [] | Some es \<Rightarrow> es);
          files = sort_key fst (filter (\<lambda>e. case path_extension (fst e) of
                     Some x \<Rightarrow> lower_ascii x = ''json'' | None \<Rightarrow> False) entries) in
      load_files rx parse files rules problems)"

definition rule_texts :: "'re rule list \<Rightarrow> bool \<Rightarrow> rule_text_dto list" where
  "rule_texts rules files = map rule_as_text (filter (\<lambda>r. is_files r = files) rules)"


subsection \<open>Argument vectors: the declarative reading\<close>

text \<open>A pattern list splits the arguments: \<open>Rest\<close> takes any run of them, \<open>One\<close> exactly one.\<close>

definition takes :: "('re \<Rightarrow> string \<Rightarrow> bool) \<Rightarrow> 're arg_pattern \<Rightarrow> string list \<Rightarrow> bool" where
  "takes m p chunk \<longleftrightarrow> (case p of Rest \<Rightarrow> True | One re \<Rightarrow> (\<exists>a. chunk = [a] \<and> m re a))"

lemma takes_simps [simp]:
  "takes m Rest chunk" "takes m (One re) chunk \<longleftrightarrow> (\<exists>a. chunk = [a] \<and> m re a)"
  by (simp_all add: takes_def)

lemma match_args_chunks:
  "match_args m ps args \<longleftrightarrow> (\<exists>chunks. list_all2 (takes m) ps chunks \<and> concat chunks = args)"
proof (induction m ps args rule: match_args.induct)
  case (2 m tail args)
  show ?case
  proof
    assume "match_args m (Rest # tail) args"
    then obtain skip where "skip \<in> set [0..<Suc (length args)]"
      and skip: "match_args m tail (drop skip args)"
      by (auto simp: list_ex_iff simp del: upt_Suc)
    with 2 obtain chunks where "list_all2 (takes m) tail chunks" "concat chunks = drop skip args"
      by blast
    then have "list_all2 (takes m) (Rest # tail) (take skip args # chunks)"
      and "concat (take skip args # chunks) = args" by simp_all
    then show "\<exists>chunks. list_all2 (takes m) (Rest # tail) chunks \<and> concat chunks = args" by blast
  next
    assume "\<exists>chunks. list_all2 (takes m) (Rest # tail) chunks \<and> concat chunks = args"
    then obtain c chunks where l: "list_all2 (takes m) tail chunks" and c: "args = c @ concat chunks"
      by (auto simp: list_all2_Cons1)
    from c have d: "concat chunks = drop (length c) args" by simp
    from c have "length c \<le> length args" by (metis le_add1 length_append)
    then have "length c \<in> set [0..<Suc (length args)]" by (simp del: upt_Suc)
    moreover from this 2 l d have "match_args m tail (drop (length c) args)" by blast
    ultimately show "match_args m (Rest # tail) args"
      by (auto simp: list_ex_iff simp del: upt_Suc)
  qed
next
  case (3 m p tail args)
  show ?case
  proof (cases args)
    case Nil
    then show ?thesis by (auto simp: list_all2_Cons1)
  next
    case (Cons a rest)
    with 3 show ?thesis by (fastforce simp: list_all2_Cons1)
  qed
qed auto

subsection \<open>Resolution lemmas\<close>

lemma strongest_None [simp]: "strongest rs = None \<longleftrightarrow> rs = []"
  by (cases rs) (auto split: option.splits)

lemma strongest_in: "strongest rs = Some r \<Longrightarrow> r \<in> set rs"
  by (induction rs arbitrary: r) (auto split: option.splits if_splits)

lemma strongest_max: "strongest rs = Some r \<Longrightarrow> q \<in> set rs \<Longrightarrow> rule_eff q \<le> rule_eff r"
proof (induction rs arbitrary: r)
  case (Cons x rs)
  show ?case
  proof (cases "strongest rs")
    case None
    with Cons.prems show ?thesis by auto
  next
    case (Some r')
    with Cons.IH [OF Some] Cons.prems show ?thesis by (force split: if_splits)
  qed
qed simp

lemma somes_simps [simp]:
  "somes [] = []" "somes (None # xs) = somes xs" "somes (Some x # xs) = x # somes xs"
  by (simp_all add: somes_def List.map_filter_simps)

lemma set_somes: "set (somes xs) = {x. Some x \<in> set xs}"
proof (induction xs)
  case (Cons x xs)
  then show ?case by (cases x) auto
qed simp

lemma resolve_in: "resolve ms = Some r \<Longrightarrow> r \<in> set ms"
  by (auto simp: resolve_def Let_def split: option.splits dest!: strongest_in find_Some_mem)

lemma resolve_None_iff [simp]: "resolve ms = None \<longleftrightarrow> ms = []"
proof
  assume h: "resolve ms = None"
  show "ms = []"
  proof (rule ccontr)
    assume "ms \<noteq> []"
    then obtain r where r: "r \<in> set ms" by (cases ms) auto
    with h show False
      by (cases "rule_origin r") (auto simp: resolve_def Let_def filter_empty_conv split: option.splits)
  qed
qed (simp add: resolve_def)

lemma resolve_vendor_deny:
  assumes "r \<in> set ms" "rule_origin r = Vendor" "rule_eff r = EffDeny"
  shows "\<exists>q. resolve ms = Some q \<and> rule_origin q = Vendor \<and> rule_eff q = EffDeny"
proof -
  let ?v = "filter (\<lambda>r. rule_origin r = Vendor) ms"
  have "List.find (\<lambda>r. rule_eff r = EffDeny) ?v \<noteq> None"
    using assms by (auto simp: find_None_all)
  then obtain q where "List.find (\<lambda>r. rule_eff r = EffDeny) ?v = Some q" by blast
  with find_Some_mem [OF this] show ?thesis by (auto simp: resolve_def Let_def)
qed

lemma resolve_user:
  assumes "\<forall>r \<in> set ms. \<not> (rule_origin r = Vendor \<and> rule_eff r = EffDeny)"
    and "u \<in> set ms" "rule_origin u = User"
  shows "\<exists>q. resolve ms = Some q \<and> rule_origin q = User \<and> rule_eff u \<le> rule_eff q"
proof -
  let ?u = "filter (\<lambda>r. rule_origin r = User) ms"
  have u: "u \<in> set ?u" using assms by simp
  then have "strongest ?u \<noteq> None" by (auto simp: filter_empty_conv)
  then obtain q where q: "strongest ?u = Some q" by blast
  have "List.find (\<lambda>r. rule_eff r = EffDeny) (filter (\<lambda>r. rule_origin r = Vendor) ms) = None"
    using assms(1) by (auto simp: find_None_all)
  with q strongest_in [OF q] strongest_max [OF q u] show ?thesis by (auto simp: resolve_def Let_def)
qed

lemma resolve_items_deny_iff:
  "(\<exists>i. resolve_items items = ODeny i) \<longleftrightarrow>
     (\<exists>ms \<in> set items. \<exists>r. resolve ms = Some r \<and> rule_eff r = EffDeny)"
proof -
  have "(\<exists>i. resolve_items items = ODeny i) \<longleftrightarrow>
      List.find (\<lambda>r. rule_eff r = EffDeny) (somes (map resolve items)) \<noteq> None"
    by (auto simp: resolve_items_def Let_def split: option.splits list.splits if_splits)
  then show ?thesis by (auto simp: find_None_all set_somes image_iff) (metis imageI)+
qed

lemma resolve_items_allow:
  assumes "resolve_items items = OAllow i t"
  shows "items \<noteq> [] \<and> (\<forall>ms \<in> set items. \<exists>r. resolve ms = Some r \<and> rule_eff r = EffAllow)"
proof -
  let ?f = "somes (map resolve items)"
  have fin: "List.find (\<lambda>r. rule_eff r = EffDeny) ?f = None"
    "List.find (\<lambda>r. rule_eff r = EffAsk) ?f = None"
    "List.find (\<lambda>r. rule_eff r = EffReview) ?f = None"
    and all: "list_all (\<lambda>x. x \<noteq> None) (map resolve items)" and ne: "items \<noteq> []"
    using assms by (auto simp: resolve_items_def Let_def split: option.splits list.splits if_splits)
  have "rule_eff r = EffAllow" if "ms \<in> set items" "resolve ms = Some r" for ms r
  proof -
    have "r \<in> set ?f" using that by (auto simp: set_somes image_iff) metis
    with fin show ?thesis by (cases "rule_eff r") (auto simp: find_None_all)
  qed
  with all ne show ?thesis by (fastforce simp: list_all_iff)
qed

subsection \<open>Literal patterns\<close>

definition glob_special :: "char \<Rightarrow> bool" where
  "glob_special c \<longleftrightarrow> c \<in> set ''*?{},''"

lemma glob_step_literal: "\<not> glob_special c \<Longrightarrow> glob_step esc sep b c cs = (esc c, b, 0)"
  by (auto simp: glob_step_def glob_special_def)

lemma translate_loop_literal:
  "\<forall>c \<in> set cs. \<not> glob_special c \<Longrightarrow> translate_loop esc sep b (cs @ rest) =
     (let (out, b') = translate_loop esc sep b rest in (concat (map esc cs) @ out, b'))"
  by (induction cs) (auto simp: glob_step_literal Let_def split: prod.splits)

lemma normalised_not_special: "\<forall>c \<in> set p. \<not> glob_special c \<Longrightarrow> \<forall>c \<in> set (normalised p). \<not> glob_special c"
  by (auto simp: normalised_def replace_char_def glob_special_def)

lemma normalised_append: "normalised (a @ b) = normalised a @ normalised b"
  by (simp add: normalised_def replace_char_def)

lemma normalised_Nil [simp]: "normalised [] = []"
  by (simp add: normalised_def replace_char_def)

lemma normalised_Cons:
  "normalised (c # cs) = (if c = CHR 0x5C then CHR ''/'' else c) # normalised cs"
  by (simp add: normalised_def replace_char_def)

subsection \<open>The items an action is judged by\<close>

text \<open>
  What must be allowed for an action to run: one item per destructive file operation; for a
  script its text and, when there is one, its command line; for a plain program its command line.
  An item is the list of the rules that match it.
\<close>

definition action_items :: "'re regex_engine \<Rightarrow> 're rule list \<Rightarrow> reviewed_action \<Rightarrow> 're rule list list" where
  "action_items rx rules a = (case a of
       RFiles actions _ \<Rightarrow> map (\<lambda>x. filter (\<lambda>r. matches_file rx r x) rules)
                             (filter (\<lambda>x. destructive (action_operation x)) actions)
     | RProcess _ p \<Rightarrow>
         (let line = (if argv p = [] then [] else [filter (\<lambda>r. matches_process rx r (argv p) (cwd p)) rules]) in
          case (language p, source p) of
            (Some lang, Some src) \<Rightarrow>
              (if src = UNREAD_SCRIPT then [] else filter (\<lambda>r. matches_code rx r lang src) rules) # line
          | (None, _) \<Rightarrow> line
          | _ \<Rightarrow> [])
     | _ \<Rightarrow> [])"

lemma resolve_items_Nil [simp]: "resolve_items [] = OUnmatched"
  by (simp add: resolve_items_def)

lemma evaluate_items: "evaluate rx rules a = resolve_items (action_items rx rules a)"
  by (cases a) (auto simp: evaluate_def action_items_def Let_def split: option.splits)

subsection \<open>Properties of the rules\<close>

text \<open>A rule's argument patterns match a command line exactly when the command line can be cut
  into consecutive pieces, one per pattern, where ** takes any piece and every other pattern takes
  exactly one argument that its glob matches.\<close>

lemma match_args_splits:
  "match_args m ps args \<longleftrightarrow> (\<exists>chunks. list_all2 (takes m) ps chunks \<and> concat chunks = args)"
  by (rule match_args_chunks)

text \<open>C1: A vendor rule that denies is final: when it matches any item of the action (a
  destructive file operation, the script or the command line), the outcome is a denial,
  whatever rules the user added and in whatever order the packs were loaded.\<close>

theorem vendor_deny_is_final:
  assumes "ms \<in> set (action_items rx rules a)" and "r \<in> set ms"
    and "rule_origin r = Vendor" and "rule_eff r = EffDeny"
  shows "\<exists>i. evaluate rx rules a = ODeny i"
  using resolve_vendor_deny [OF assms(2,3,4)] assms(1)
  by (auto simp: evaluate_items resolve_items_deny_iff)

text \<open>C2: When the rules allow a file action, every destructive operation of it is matched by an
  allow rule, no vendor deny rule matches any of them, and no user rule that matches says anything
  other than allow. Nothing slips through because another file of the same action was allowed.\<close>

theorem file_allow_covers_every_operation:
  assumes "evaluate rx rules (RFiles actions diffs) = OAllow i t"
    and "x \<in> set actions" and "destructive (action_operation x)"
  shows "(\<exists>r \<in> set rules. matches_file rx r x \<and> rule_eff r = EffAllow) \<and>
    (\<forall>r \<in> set rules. matches_file rx r x \<longrightarrow>
       (rule_origin r = Vendor \<longrightarrow> rule_eff r \<noteq> EffDeny) \<and> (rule_origin r = User \<longrightarrow> rule_eff r = EffAllow))"
proof -
  let ?ms = "filter (\<lambda>r. matches_file rx r x) rules"
  have "?ms \<in> set (action_items rx rules (RFiles actions diffs))"
    using assms(2,3) by (auto simp: action_items_def)
  with assms(1) obtain q where q: "resolve ?ms = Some q" "rule_eff q = EffAllow"
    using resolve_items_allow by (fastforce simp: evaluate_items)
  have nd: "\<forall>r \<in> set ?ms. \<not> (rule_origin r = Vendor \<and> rule_eff r = EffDeny)"
    using resolve_vendor_deny q by fastforce
  have "rule_eff r = EffAllow" if "r \<in> set ?ms" "rule_origin r = User" for r
    using resolve_user [OF nd that] q
    by (cases "rule_eff r") (auto simp: less_eq_rule_effect_def effect_rank_def)
  with resolve_in [OF q(1)] q(2) nd show ?thesis by auto
qed

text \<open>A script whose text could not be read is never allowed by the rules, whatever its
  command line: the empty list of matching code rules leaves its first item undecided.\<close>

lemma unread_script_is_never_allowed:
  fixes rx :: "'re regex_engine"
  assumes "language p = Some lang" and "source p = Some UNREAD_SCRIPT"
  shows "evaluate rx rules (RProcess tool p) \<noteq> OAllow i t"
proof
  assume "evaluate rx rules (RProcess tool p) = OAllow i t"
  moreover have "[] \<in> set (action_items rx rules (RProcess tool p))"
    using assms by (simp add: action_items_def Let_def)
  ultimately obtain r :: "'re rule" where "resolve [] = Some r"
    using resolve_items_allow by (metis evaluate_items)
  then show False by (metis option.distinct(1) resolve_None_iff)
qed

subsection \<open>Witnesses\<close>

definition literal_engine :: "string regex_engine" where
  "literal_engine = \<lparr>rx_new = (\<lambda>s. Some s), rx_new_ci = (\<lambda>s. Some s), rx_escape = (\<lambda>c. [c]),
     rx_is_match = (\<lambda>re s. re = ''(?i)^'' @ s @ ''$'')\<rparr>"

definition sample_file_rule :: "rule_effect \<Rightarrow> pack_origin \<Rightarrow> string rule" where
  "sample_file_rule e orig = \<lparr>rule_id = ''r'', rule_eff = e, rule_text = ''t'', rule_origin = orig,
     rule_matcher = MFiles [''(?i)^a$''] []\<rparr>"

definition sample_delete :: file_action where
  "sample_delete = \<lparr>action_operation = OpDelete, action_path = ''a'', action_from = None\<rparr>"

definition sample_script :: process_plan where
  "sample_script = \<lparr>program = ''python'', language = Some Python, argv = [''python''], cwd = ''c'',
     source = Some UNREAD_SCRIPT, packages = [], background = False\<rparr>"

lemma sample_match:
  "matches_file literal_engine (sample_file_rule e orig) sample_delete"
  by (simp add: matches_file_def sample_file_rule_def sample_delete_def literal_engine_def
      normalised_def replace_char_def)

theorem vendor_deny_is_final_witness:
  "\<exists>i. evaluate literal_engine [sample_file_rule EffAllow User, sample_file_rule EffDeny Vendor]
     (RFiles [sample_delete] []) = ODeny i"
proof (rule vendor_deny_is_final [where r = "sample_file_rule EffDeny Vendor"])
  show "[sample_file_rule EffAllow User, sample_file_rule EffDeny Vendor] \<in>
    set (action_items literal_engine [sample_file_rule EffAllow User, sample_file_rule EffDeny Vendor]
      (RFiles [sample_delete] []))"
    by (simp add: action_items_def sample_match) (simp add: sample_delete_def destructive_def)
qed (simp_all add: sample_file_rule_def)

lemma sample_evaluates:
  "evaluate literal_engine [sample_file_rule EffAllow User] (RFiles [sample_delete] []) = OAllow ''r'' ''t''"
  by (simp add: evaluate_items action_items_def sample_match)
     (simp add: sample_delete_def destructive_def resolve_items_def resolve_def sample_file_rule_def
       Let_def)

theorem file_allow_covers_every_operation_witness:
  "\<exists>r \<in> set [sample_file_rule EffAllow User]. matches_file literal_engine r sample_delete \<and> rule_eff r = EffAllow"
  using file_allow_covers_every_operation [OF sample_evaluates, of sample_delete]
  by (simp add: sample_delete_def destructive_def)

end
