(* ===== verification/UserRules.thy ===== *)
theory UserRules
  imports PolicyRules
begin

text \<open>
  Allow rules the user adds from the command line, \<^verbatim>\<open>policy/user_rules.rs\<close>: turning the action
  of a request into the narrowest rule that allows it, and storing it in the pack file
  \<^verbatim>\<open>user.cli.json\<close>.

  The pack file is a state of its own: \<open>None\<close> when the file is missing, else its text. The JSON
  printer and parsers (\<^verbatim>\<open>serde_json\<close>), the random rule id and the outcome of the file system
  calls are arguments.
\<close>

record files_spec =
  fs_paths :: "string list"
  fs_operations :: "file_operation list"

record process_spec =
  ps_argv :: "string list"
  ps_cwd :: "string option"

record stored_rule =
  sr_id :: string
  sr_effect :: rule_effect
  sr_text :: string
  sr_files :: "files_spec option"
  sr_process :: "process_spec option"

definition same_matcher :: "stored_rule \<Rightarrow> stored_rule \<Rightarrow> bool" where
  "same_matcher a b \<longleftrightarrow> sr_files a = sr_files b \<and> sr_process a = sr_process b"

record stored_pack =
  sp_id :: string
  sp_allows :: bool
  sp_rules :: "stored_rule list"

definition CLI_PACK_ID :: string where "CLI_PACK_ID = ''user.cli''"
definition NOTHING_TO_ALLOW :: string where "NOTHING_TO_ALLOW = ''NOTHING_TO_ALLOW''"
definition OUTSIDE_FOLDER :: string where "OUTSIDE_FOLDER = ''OUTSIDE_FOLDER''"
definition PATTERN_CHARACTERS :: string where "PATTERN_CHARACTERS = ''PATTERN_CHARACTERS''"
definition PACK_DAMAGED :: string where "PACK_DAMAGED = ''PACK_DAMAGED''"
definition PACK_NOT_SAVED :: string where "PACK_NOT_SAVED = ''PACK_NOT_SAVED''"

definition stored_pack_default :: stored_pack where
  "stored_pack_default = \<lparr>sp_id = CLI_PACK_ID, sp_allows = True, sp_rules = []\<rparr>"

record written_rule =
  wr_id :: string
  wr_text :: string

definition user_normalised :: "string \<Rightarrow> string" where
  "user_normalised p = trim_end_of (\<lambda>c. c = CHR ''/'') (replace_char (CHR 0x5C) (CHR ''/'') p)"

definition literal :: "string \<Rightarrow> app_error + string" where
  "literal p = (if list_ex (\<lambda>c. c \<in> set ''*?{},'') p
     then Inl (app_error_new ValidationFailed PATTERN_CHARACTERS) else Inr (user_normalised p))"

definition inside :: "string \<Rightarrow> string \<Rightarrow> bool" where
  "inside folder p = (let folder = lower folder; p = lower p in
     p = folder \<or> (case strip_prefix folder p of None \<Rightarrow> False | Some rest \<Rightarrow> starts_with ''/'' rest))"

definition storage_error :: app_error where
  "storage_error = app_error_new Unknown PACK_NOT_SAVED"

definition outside :: app_error where
  "outside = app_error_new ValidationFailed OUTSIDE_FOLDER"

definition change_operation :: "file_change_kind \<Rightarrow> file_operation option" where
  "change_operation k = (case k of ChangeCreate \<Rightarrow> None | ChangeModify \<Rightarrow> Some OpOverwrite
     | ChangeMove \<Rightarrow> Some OpMoveOnto | ChangeDelete \<Rightarrow> Some OpDelete)"

definition operation_name :: "file_operation \<Rightarrow> string" where
  "operation_name x = (case x of OpCreate \<Rightarrow> ''create'' | OpOverwrite \<Rightarrow> ''overwrite'' | OpMove \<Rightarrow> ''move''
     | OpMoveOnto \<Rightarrow> ''move onto'' | OpDelete \<Rightarrow> ''delete'')"

text \<open>\<^verbatim>\<open>if !xs.contains(x) { xs.push(x) }\<close> over a list.\<close>

definition push_new :: "'a \<Rightarrow> 'a list \<Rightarrow> 'a list" where
  "push_new x xs = (if x \<in> set xs then xs else xs @ [x])"

definition files_rule :: "allow_rule_change list \<Rightarrow> string option \<Rightarrow> app_error + files_spec" where
  "files_rule changes folder =
     (let dest = List.map_filter (\<lambda>c. map_option (Pair c) (change_operation (change_kind c))) changes in
      if dest = [] then Inl (app_error_new ValidationFailed NOTHING_TO_ALLOW)
      else
        let operations = fold (\<lambda>(_, x). push_new x) dest [] in
        rbind
          (case folder of
             Some folder \<Rightarrow>
               rbind (literal folder) (\<lambda>folder.
                 if list_ex (\<lambda>(c, _). \<not> inside folder (user_normalised (change_path c))) dest then Inl outside
                 else Inr [folder @ ''/**''])
           | None \<Rightarrow>
               rbind (collect_results (\<lambda>(c, _). literal (change_path c)) dest)
                 (\<lambda>ps. Inr (fold push_new ps [])))
          (\<lambda>paths. Inr \<lparr>fs_paths = paths, fs_operations = operations\<rparr>))"

definition word :: "string \<Rightarrow> bool" where
  "word a = (case a of [] \<Rightarrow> False
     | c # cs \<Rightarrow> ascii_alnum c \<and> list_all (\<lambda>x. ascii_alnum x \<or> x \<in> set ''._:-'') cs)"

definition user_program_name :: "string \<Rightarrow> string" where
  "user_program_name p = strip_program_extension [''.exe'', ''.cmd'', ''.bat'', ''.com'']
     (lower (last (split_on (CHR ''/'') (user_normalised p))))"

definition process_rule :: "string list \<Rightarrow> string \<Rightarrow> string option \<Rightarrow> app_error + process_spec" where
  "process_rule av working folder =
     (case av of
        [] \<Rightarrow> Inl (app_error_new ValidationFailed NOTHING_TO_ALLOW)
      | prog # rest \<Rightarrow>
          rbind (literal (user_program_name prog)) (\<lambda>name.
            let command = (case rest of a # _ \<Rightarrow> (if word a then [a] else []) | [] \<Rightarrow> []);
                pattern = [name] @ command @ [ANY_REST] in
            rbind
              (case folder of
                 Some folder \<Rightarrow>
                   rbind (literal folder) (\<lambda>folder.
                     if \<not> inside folder (user_normalised working) then Inl outside
                     else Inr (Some (''{'' @ folder @ '','' @ folder @ ''/**}'')))
               | None \<Rightarrow> Inr None)
              (\<lambda>w. Inr \<lparr>ps_argv = pattern, ps_cwd = w\<rparr>)))"

fun join :: "string \<Rightarrow> string list \<Rightarrow> string" where
  "join sep [] = []"
| "join sep [x] = x"
| "join sep (x # xs) = x @ sep @ join sep xs"

definition describe :: "stored_rule \<Rightarrow> string option \<Rightarrow> string" where
  "describe r folder =
     (let place = (case folder of None \<Rightarrow> ''in any folder'' | Some f \<Rightarrow> ''in '' @ user_normalised f) in
      case sr_files r of
        Some fs \<Rightarrow> ''Allowed from the CLI: '' @ join '', '' (map operation_name (fs_operations fs))
                   @ '' of '' @ join '', '' (fs_paths fs)
      | None \<Rightarrow> ''Allowed from the CLI: `''
                @ (case sr_process r of None \<Rightarrow> [] | Some p \<Rightarrow> join '' '' (ps_argv p)) @ ''` '' @ place)"

subsection \<open>Storing\<close>

text \<open>
  What the code calls outside the repository: the pack parser of \<open>compile_pack\<close>, the parser and
  printer of the stored pack, and whether creating the folder, writing the staged file and
  renaming it succeed.
\<close>

record 're pack_io =
  io_engine :: "'re regex_engine"
  io_parse :: "string \<Rightarrow> string + pack_spec"
  io_parse_stored :: "string \<Rightarrow> stored_pack option"
  io_print :: "stored_pack \<Rightarrow> string + string"
  io_create_dir :: bool
  io_write :: bool
  io_rename :: bool

text \<open>The file as read: \<open>Inl\<close> for an I/O error, \<open>Inr None\<close> for a missing file.\<close>

definition load_pack :: "'re pack_io \<Rightarrow> unit + string option \<Rightarrow> app_error + stored_pack" where
  "load_pack io file = (case file of
       Inl _ \<Rightarrow> Inl storage_error
     | Inr None \<Rightarrow> Inr stored_pack_default
     | Inr (Some txt) \<Rightarrow>
         (case compile_pack (io_engine io) (io_parse io) txt User of
            Inl _ \<Rightarrow> Inl (app_error_new Conflict PACK_DAMAGED)
          | Inr _ \<Rightarrow>
              (case io_parse_stored io txt of
                 None \<Rightarrow> Inl (app_error_new Conflict PACK_DAMAGED)
               | Some pack \<Rightarrow> Inr pack)))"

definition save_pack ::
  "'re pack_io \<Rightarrow> unit + string option \<Rightarrow> stored_pack \<Rightarrow> (app_error + unit) \<times> (unit + string option)"
where
  "save_pack io file pack =
     (case io_print io pack of
        Inl _ \<Rightarrow> (Inl storage_error, file)
      | Inr txt \<Rightarrow>
          (case compile_pack (io_engine io) (io_parse io) txt User of
             Inl _ \<Rightarrow> (Inl storage_error, file)
           | Inr _ \<Rightarrow>
               if \<not> io_create_dir io then (Inl storage_error, file)
               else if \<not> io_write io then (Inl storage_error, file)
               else if \<not> io_rename io then (Inl storage_error, file)
               else (Inr (), Inr (Some (txt @ [CHR 0x0A])))))"

definition rule_for :: "string \<Rightarrow> allow_rule_input \<Rightarrow> app_error + stored_rule" where
  "rule_for fresh input =
     (let r = \<lparr>sr_id = CLI_PACK_ID @ ''.'' @ fresh, sr_effect = EffAllow, sr_text = [],
               sr_files = None, sr_process = None\<rparr> in
      rbind
        (case input of
           AllowFiles changes folder \<Rightarrow>
             rbind (files_rule changes folder) (\<lambda>f. Inr (r\<lparr>sr_files := Some f\<rparr>))
         | AllowProcess av working folder \<Rightarrow>
             rbind (process_rule av working folder) (\<lambda>p. Inr (r\<lparr>sr_process := Some p\<rparr>)))
        (\<lambda>r. Inr (r\<lparr>sr_text := describe r (allow_input_folder input)\<rparr>)))"

definition allow ::
  "'re pack_io \<Rightarrow> string \<Rightarrow> unit + string option \<Rightarrow> allow_rule_input
    \<Rightarrow> (app_error + written_rule) \<times> (unit + string option)"
where
  "allow io fresh file input =
     (case rule_for fresh input of
        Inl e \<Rightarrow> (Inl e, file)
      | Inr r \<Rightarrow>
          (case load_pack io file of
             Inl e \<Rightarrow> (Inl e, file)
           | Inr pack \<Rightarrow>
               (case List.find (\<lambda>k. sr_effect k = EffAllow \<and> same_matcher k r) (sp_rules pack) of
                  Some k \<Rightarrow> (Inr \<lparr>wr_id = sr_id k, wr_text = sr_text k\<rparr>, file)
                | None \<Rightarrow>
                    (case save_pack io file (pack\<lparr>sp_rules := sp_rules pack @ [r]\<rparr>) of
                       (Inl e, file') \<Rightarrow> (Inl e, file')
                     | (Inr _, file') \<Rightarrow> (Inr \<lparr>wr_id = sr_id r, wr_text = sr_text r\<rparr>, file')))))"

subsection \<open>Literals become literal patterns\<close>

lemma user_normalised_set: "set (user_normalised p) \<subseteq> set (normalised p)"
  by (simp add: user_normalised_def normalised_def set_trim_end_of)

lemma normalised_user_normalised [simp]: "normalised (user_normalised p) = user_normalised p"
proof -
  have "CHR 0x5C \<notin> set (normalised p)"
    unfolding normalised_def by (rule replace_char_not_in) simp
  then have "CHR 0x5C \<notin> set (user_normalised p)"
    using user_normalised_set by blast
  then show ?thesis by (auto simp: normalised_def replace_char_def intro!: map_idI)
qed

lemma literal_Inr:
  "literal p = Inr q \<longleftrightarrow> q = user_normalised p \<and> (\<forall>c \<in> set p. \<not> glob_special c)"
  by (auto simp: literal_def list_ex_iff glob_special_def)

lemma literal_not_special:
  assumes "literal p = Inr q" shows "\<forall>c \<in> set q. \<not> glob_special c"
proof -
  have "\<forall>c \<in> set (normalised p). \<not> glob_special c"
    by (rule normalised_not_special) (use assms in \<open>simp add: literal_Inr\<close>)
  then show ?thesis using assms user_normalised_set [of p] by (auto simp: literal_Inr)
qed

lemma literal_pattern:
  assumes "literal p = Inr q"
  shows "translate_source esc q sep = Some (''(?i)^'' @ concat (map esc q) @ ''$'')"
  using translate_loop_literal [OF literal_not_special [OF assms], of esc sep 0 "[]"] assms
  by (simp add: translate_source_def literal_Inr)

lemma folder_pattern:
  assumes "literal p = Inr q"
  shows "translate_source esc (q @ ''/**'') True =
    Some (''(?i)^'' @ concat (map esc q) @ esc (CHR ''/'') @ ''.*$'')"
  using translate_loop_literal [OF literal_not_special [OF assms], of esc True 0 "''/**''"] assms
  by (simp add: translate_source_def literal_Inr normalised_append normalised_Cons glob_step_def)

lemma working_folder_pattern:
  assumes "literal p = Inr q"
  shows "translate_source esc (''{'' @ q @ '','' @ q @ ''/**}'') True =
    Some (''(?i)^(?:'' @ concat (map esc q) @ ''|'' @ concat (map esc q) @ esc (CHR ''/'') @ ''.*)$'')"
proof -
  have n: "normalised (''{'' @ q @ '','' @ q @ ''/**}'') = ''{'' @ q @ '','' @ q @ ''/**}''"
    using assms by (simp add: normalised_append normalised_Cons literal_Inr)
  have "translate_loop esc True 1 (q @ ''/**}'') = (concat (map esc q) @ esc (CHR ''/'') @ ''.*)'', 0)"
    using translate_loop_literal [OF literal_not_special [OF assms], of esc True 1 "''/**}''"]
    by (simp add: glob_step_def)
  then have "translate_loop esc True 1 (q @ '','' @ q @ ''/**}'') =
      (concat (map esc q) @ ''|'' @ concat (map esc q) @ esc (CHR ''/'') @ ''.*)'', 0)"
    using translate_loop_literal [OF literal_not_special [OF assms], of esc True 1 "'','' @ q @ ''/**}''"]
    by (simp add: glob_step_def)
  then show ?thesis
    unfolding translate_source_def n by (simp add: glob_step_def)
qed

lemma set_push_new [simp]: "set (push_new x xs) = insert x (set xs)"
  by (auto simp: push_new_def)

lemma set_fold_push_new: "set (fold push_new ys xs) = set xs \<union> set ys"
  by (induction ys arbitrary: xs) auto

definition covered_changes :: "allow_rule_change list \<Rightarrow> allow_rule_change set" where
  "covered_changes changes = {c \<in> set changes. change_operation (change_kind c) \<noteq> None}"

lemma fst_dest:
  "fst ` set (List.map_filter (\<lambda>c. map_option (Pair c) (change_operation (change_kind c))) changes)
     = covered_changes changes"
  by (force simp: List.map_filter_def covered_changes_def image_iff)

lemma collect_literals:
  assumes "collect_results (\<lambda>(c, x). literal (f c)) dest = Inr ps"
  shows "set ps = (\<lambda>c. user_normalised (f c)) ` fst ` set dest
    \<and> (\<forall>q \<in> set ps. \<exists>p. literal p = Inr q)"
proof -
  have "list_all2 (\<lambda>(c, x) q. literal (f c) = Inr q) dest ps"
    using assms by (simp add: collect_results_Inr_iff case_prod_unfold)
  then show ?thesis by (induction) (auto simp: literal_Inr)
qed

subsection \<open>Properties of the user rules\<close>

text \<open>A rule for exact files lists the paths of the destructive changes of the request and
  nothing else, and each compiles to an anchored pattern that is the escaped path itself: no
  character of a path is ever read as a wildcard.\<close>

lemma exact_file_rule_is_literal:
  assumes "files_rule changes None = Inr spec"
  shows "fs_paths spec \<noteq> []
    \<and> set (fs_paths spec) = (\<lambda>c. user_normalised (change_path c)) ` covered_changes changes
    \<and> (\<forall>p \<in> set (fs_paths spec).
         translate_source esc p True = Some (''(?i)^'' @ concat (map esc p) @ ''$''))"
proof -
  let ?dest = "List.map_filter (\<lambda>c. map_option (Pair c) (change_operation (change_kind c))) changes"
  obtain ps where ne: "?dest \<noteq> []"
    and ps: "collect_results (\<lambda>(c, x). literal (change_path c)) ?dest = Inr ps"
    and spec: "fs_paths spec = fold push_new ps []"
    using assms by (auto simp: files_rule_def Let_def rbind_Inr_iff split: if_splits)
  have s: "set (fs_paths spec) = set ps" by (simp add: spec set_fold_push_new)
  have im: "set ps = (\<lambda>c. user_normalised (change_path c)) ` covered_changes changes"
    using collect_literals [OF ps] by (simp add: fst_dest)
  have "covered_changes changes \<noteq> {}"
    using ne by (simp add: fst_dest [symmetric])
  then have "fs_paths spec \<noteq> []" using s im by auto
  moreover have "\<forall>p \<in> set ps. translate_source esc p True = Some (''(?i)^'' @ concat (map esc p) @ ''$'')"
    using collect_literals [OF ps] literal_pattern by blast
  ultimately show ?thesis using s im by simp
qed

text \<open>C3: A rule for a folder is only written when every destructive change of the request lies in
  that folder, and it compiles to the escaped folder, a slash and any rest: the folder name itself
  is never read as a wildcard.\<close>

theorem folder_rule_stays_inside:
  assumes "files_rule changes (Some folder) = Inr spec"
  shows "(\<forall>c \<in> covered_changes changes. inside (user_normalised folder) (user_normalised (change_path c)))
    \<and> fs_paths spec = [user_normalised folder @ ''/**'']
    \<and> translate_source esc (user_normalised folder @ ''/**'') True
        = Some (''(?i)^'' @ concat (map esc (user_normalised folder)) @ esc (CHR ''/'') @ ''.*$'')"
proof -
  let ?dest = "List.map_filter (\<lambda>c. map_option (Pair c) (change_operation (change_kind c))) changes"
  obtain q where q: "literal folder = Inr q"
    and ins: "\<not> list_ex (\<lambda>(c, x). \<not> inside q (user_normalised (change_path c))) ?dest"
    and spec: "fs_paths spec = [q @ ''/**'']"
    using assms by (auto simp: files_rule_def Let_def rbind_Inr_iff split: if_splits)
  have qe: "q = user_normalised folder" using q by (simp add: literal_Inr)
  have "\<forall>c \<in> fst ` set ?dest. inside q (user_normalised (change_path c))"
    using ins by (auto simp: list_ex_iff)
  then show ?thesis using spec folder_pattern [OF q] by (simp add: qe fst_dest)
qed

text \<open>A command rule for a folder pins the working folder: it is only written when the command
  runs inside the folder, its argument patterns are the program, at most one plain sub-command and
  the rest, and its folder pattern matches the folder itself or anything below it.\<close>

theorem command_rule_pins_program_and_folder:
  assumes "process_rule (prog # rest) working (Some folder) = Inr spec"
  shows "inside (user_normalised folder) (user_normalised working)
    \<and> (\<exists>command. length command \<le> 1 \<and> list_all word command \<and> command = take (length command) rest
         \<and> ps_argv spec = [user_normalised (user_program_name prog)] @ command @ [ANY_REST])
    \<and> (\<exists>w. ps_cwd spec = Some w \<and> translate_source esc w True =
          Some (''(?i)^(?:'' @ concat (map esc (user_normalised folder)) @ ''|''
                @ concat (map esc (user_normalised folder)) @ esc (CHR ''/'') @ ''.*)$''))"
proof -
  let ?command = "case rest of a # _ \<Rightarrow> (if word a then [a] else []) | [] \<Rightarrow> []"
  obtain name q where name: "literal (user_program_name prog) = Inr name"
    and q: "literal folder = Inr q" and ins: "inside q (user_normalised working)"
    and spec: "spec = \<lparr>ps_argv = [name] @ ?command @ [ANY_REST],
                       ps_cwd = Some (''{'' @ q @ '','' @ q @ ''/**}'')\<rparr>"
    using assms by (auto simp: process_rule_def Let_def rbind_Inr_iff split: if_splits)
  have "length ?command \<le> 1 \<and> list_all word ?command \<and> ?command = take (length ?command) rest"
    by (cases rest) auto
  then show ?thesis
    using spec ins working_folder_pattern [OF q] name q by (auto simp: literal_Inr)
qed

text \<open>A request that fails, for whatever reason, leaves the pack file as it was.\<close>

lemma failed_allow_leaves_the_pack:
  assumes "allow io fresh file input = (Inl e, file')"
  shows "file' = file"
  using assms by (auto simp: allow_def save_pack_def split: sum.splits option.splits if_splits prod.splits)

lemma rule_for_fresh:
  assumes "rule_for f input = Inr r"
  shows "\<exists>r'. rule_for f' input = Inr r' \<and> same_matcher r r' \<and> sr_effect r = EffAllow"
  using assms
  by (cases input) (auto simp: rule_for_def Let_def rbind_Inr_iff same_matcher_def)

lemma same_matcher_trans: "same_matcher a b \<Longrightarrow> same_matcher b c \<Longrightarrow> same_matcher a c"
  by (simp add: same_matcher_def)

lemma allow_known:
  assumes "rule_for f input = Inr r" and "load_pack io file = Inr pack"
    and "List.find (\<lambda>k. sr_effect k = EffAllow \<and> same_matcher k r) (sp_rules pack) = Some k"
  shows "allow io f file input = (Inr \<lparr>wr_id = sr_id k, wr_text = sr_text k\<rparr>, file)"
  using assms by (simp add: allow_def)

lemma same_matcher_find:
  "same_matcher r r' \<Longrightarrow> List.find (\<lambda>k. sr_effect k = EffAllow \<and> same_matcher k r') ks
     = List.find (\<lambda>k. sr_effect k = EffAllow \<and> same_matcher k r) ks"
  by (simp add: same_matcher_def)

lemma find_append: "List.find P (xs @ ys) = (case List.find P xs of None \<Rightarrow> List.find P ys | Some x \<Rightarrow> Some x)"
  by (induction xs) auto

text \<open>The same request twice is stored once: when the stored pack reads back as it was printed
  (a trailing newline does not matter to a JSON parser), the second request, with its own fresh id,
  returns the rule of the first one and leaves the file alone.\<close>

lemma allow_twice_is_stored_once:
  assumes "allow io f1 file input = (Inr w, file')"
    and round: "\<And>pack body. io_print io pack = Inr body \<Longrightarrow> io_parse_stored io (body @ [CHR 0x0A]) = Some pack"
    and newline: "\<And>body. io_parse io (body @ [CHR 0x0A]) = io_parse io body"
  shows "allow io f2 file' input = (Inr w, file')"
proof -
  obtain r pack where r: "rule_for f1 input = Inr r" and l: "load_pack io file = Inr pack"
    using assms(1) by (auto simp: allow_def split: sum.splits)
  obtain r' where r': "rule_for f2 input = Inr r'" and same: "same_matcher r r'" and eff: "sr_effect r = EffAllow"
    using rule_for_fresh [OF r] by blast
  let ?P = "\<lambda>k. sr_effect k = EffAllow \<and> same_matcher k r"
  show ?thesis
  proof (cases "List.find ?P (sp_rules pack)")
    case (Some k)
    then have "w = \<lparr>wr_id = sr_id k, wr_text = sr_text k\<rparr>" "file' = file"
      using assms(1) allow_known [OF r l] by simp_all
    with Some show ?thesis
      using allow_known [OF r' l, of k] same_matcher_find [OF same] by simp
  next
    case None
    let ?pack = "pack\<lparr>sp_rules := sp_rules pack @ [r]\<rparr>"
    obtain body where body: "io_print io ?pack = Inr body" and file': "file' = Inr (Some (body @ [CHR 0x0A]))"
      and ok: "\<exists>rs. compile_pack (io_engine io) (io_parse io) body User = Inr rs"
      and w: "w = \<lparr>wr_id = sr_id r, wr_text = sr_text r\<rparr>"
      using assms(1) r l None by (auto simp: allow_def save_pack_def split: sum.splits if_splits)
    have l': "load_pack io file' = Inr ?pack"
      using ok round [OF body] newline by (auto simp: load_pack_def file' compile_pack_def)
    have "List.find (\<lambda>k. sr_effect k = EffAllow \<and> same_matcher k r') (sp_rules ?pack) = Some r"
      using None eff by (simp add: same_matcher_find [OF same] find_append) (simp add: same_matcher_def)
    from allow_known [OF r' l' this] w show ?thesis by simp
  qed
qed

subsection \<open>Witnesses\<close>

definition sample_changes :: "allow_rule_change list" where
  "sample_changes = [\<lparr>change_path = ''C:/w/a.txt'', change_kind = ChangeDelete\<rparr>]"

lemma sample_exact: "files_rule sample_changes None =
    Inr \<lparr>fs_paths = [''C:/w/a.txt''], fs_operations = [OpDelete]\<rparr>"
  by code_simp

lemma sample_folder: "files_rule sample_changes (Some ''C:/w/'') =
    Inr \<lparr>fs_paths = [''C:/w/**''], fs_operations = [OpDelete]\<rparr>"
  by code_simp

lemma sample_command: "process_rule [''npm'', ''run'', ''x''] ''C:/w/sub'' (Some ''C:/w'') =
    Inr \<lparr>ps_argv = [''npm'', ''run'', ''**''], ps_cwd = Some ''{C:/w,C:/w/**}''\<rparr>"
  by code_simp

theorem folder_rule_stays_inside_witness:
  "inside (user_normalised ''C:/w/'') (user_normalised ''C:/w/a.txt'')"
  using folder_rule_stays_inside [OF sample_folder] by (simp add: covered_changes_def sample_changes_def change_operation_def)

text \<open>A printer and parser that do round-trip on the packs in play, and a working disk.\<close>

definition sample_rule :: stored_rule where
  "sample_rule = \<lparr>sr_id = ''user.cli.1'', sr_effect = EffAllow,
     sr_text = ''Allowed from the CLI: `npm **` in any folder'', sr_files = None,
     sr_process = Some \<lparr>ps_argv = [''npm'', ''**''], ps_cwd = None\<rparr>\<rparr>"

definition sample_pack :: stored_pack where
  "sample_pack = stored_pack_default\<lparr>sp_rules := [sample_rule]\<rparr>"

definition sample_io :: "string pack_io" where
  "sample_io = \<lparr>io_engine = literal_engine,
     io_parse = (\<lambda>_. Inr \<lparr>pack_id = CLI_PACK_ID, pack_allows = True, pack_rules = []\<rparr>),
     io_parse_stored = (\<lambda>t. Some sample_pack),
     io_print = (\<lambda>p. if p = sample_pack then Inr ''{}'' else Inl ''other''),
     io_create_dir = True, io_write = True, io_rename = True\<rparr>"

definition sample_input :: allow_rule_input where
  "sample_input = AllowProcess [''npm''] ''C:/w'' None"

lemma sample_rule_for: "rule_for ''1'' sample_input = Inr sample_rule"
  by code_simp

lemma sample_allow: "allow sample_io ''1'' (Inr None) sample_input =
    (Inr \<lparr>wr_id = ''user.cli.1'', wr_text = sr_text sample_rule\<rparr>, Inr (Some (''{}'' @ [CHR 0x0A])))"
proof -
  have "compile_pack literal_engine (io_parse sample_io) ''{}'' User = Inr []" by code_simp
  then show ?thesis
    by (simp add: allow_def sample_rule_for load_pack_def save_pack_def stored_pack_default_def)
       (simp add: sample_io_def sample_pack_def stored_pack_default_def, simp add: sample_rule_def)
qed

end
