(* ===== verification/ExecReview.thy ===== *)
theory ExecReview
  imports PolicyRules
begin

text \<open>
  The execution-policy service, \<^verbatim>\<open>policy/service.rs\<close>, and the model judge, \<^verbatim>\<open>policy/judge.rs\<close>:
  the stored policy and its repair when the judge model is gone, the verdict on an action, the
  judge's prompt and verdict, and the cap on judge calls of a run.

  The state is what the service writes: the stored policy and the calls spent per run; \<open>asked\<close>, kept for the statements
  only, is the list of the calls of the judge, each by the root run it is made for. What the service only
  reads is \<open>exec_env\<close>: the provider, model and run tables, the loaded rules, the drivers and the
  reply a driver gives within the timeout.
\<close>

subsection \<open>Fencing the action in the prompt\<close>

text \<open>\<^verbatim>\<open>str::replace\<close>: every non-overlapping occurrence, from the left; the pattern is not empty.\<close>

fun replace_all :: "string \<Rightarrow> string \<Rightarrow> string \<Rightarrow> string" where
  "replace_all p r [] = []"
| "replace_all p r (c # cs) =
     (if starts_with p (c # cs) then r @ replace_all p r (drop (length p - 1) cs)
      else c # replace_all p r cs)"

definition fenced :: "string \<Rightarrow> string" where
  "fenced s = replace_all ''<action'' ''< action'' (replace_all ''</action'' (''<'' @ [CHR 0x5C] @ ''/action'') s)"

definition judge_prompt :: "string \<Rightarrow> string \<Rightarrow> string option \<Rightarrow> string" where
  "judge_prompt action_text rules_text flagged =
     (case flagged of None \<Rightarrow> [] | Some r \<Rightarrow>
        ''Flagged rule (why the action needs review, not a verdict):'' @ [CHR 0x0A] @ r @ [CHR 0x0A, CHR 0x0A])
     @ ''Policy rules (none decided this action; deny and ask rules show what must stop, allow rules what runs without review):''
     @ [CHR 0x0A] @ rules_text @ [CHR 0x0A, CHR 0x0A] @ ''<action>'' @ [CHR 0x0A]
     @ fenced action_text @ [CHR 0x0A] @ ''</action>''"

subsection \<open>The judge's verdict\<close>

record tool_call =
  call_name :: string
  call_arguments :: string

datatype judge_failure = JError | JTimeout | JUnparseable

datatype judge_outcome = JAllow string | JAsk string | JFailed judge_failure

definition VERDICT_TOOL :: string where "VERDICT_TOOL = ''verdict''"

definition limited :: "string \<Rightarrow> nat \<Rightarrow> string" where
  "limited s n = take n s"

definition parse_verdict :: "(string \<Rightarrow> json option) \<Rightarrow> tool_call list \<Rightarrow> judge_outcome option" where
  "parse_verdict from_str calls =
     (case filter (\<lambda>c. call_name c = VERDICT_TOOL) calls of
        [c] \<Rightarrow>
          Option.bind (from_str (call_arguments c)) (\<lambda>arguments.
          Option.bind (Option.bind (obj_get arguments ''reason'') as_str) (\<lambda>raw.
            let reason = trim raw in
            if reason = [] then None
            else Option.bind (Option.bind (obj_get arguments ''decision'') as_str) (\<lambda>d.
              if d = ''allow'' then Some (JAllow (limited reason TOOL_AUTHORISATION_REASON_MAX))
              else if d = ''ask'' then Some (JAsk (limited reason TOOL_AUTHORISATION_REASON_MAX))
              else None)))
      | _ \<Rightarrow> None)"

datatype generate_reply = ReplyTimeout | ReplyError | ReplyCalls "tool_call list"

definition ask_judge :: "(string \<Rightarrow> json option) \<Rightarrow> generate_reply \<Rightarrow> judge_outcome" where
  "ask_judge from_str reply = (case reply of
       ReplyTimeout \<Rightarrow> JFailed JTimeout
     | ReplyError \<Rightarrow> JFailed JError
     | ReplyCalls calls \<Rightarrow>
         (case parse_verdict from_str calls of Some j \<Rightarrow> j | None \<Rightarrow> JFailed JUnparseable))"

subsection \<open>State and environment\<close>

datatype provider_capability = CapText | CapEmbedding | CapImage

record provider_row =
  pr_id :: string
  pr_enabled :: bool
  pr_capabilities :: "provider_capability list"

record model_row =
  mr_id :: string
  mr_external_id :: string
  mr_available :: bool

text \<open>The settings row of the policy: missing, not JSON, or JSON that decodes or does not.\<close>

datatype setting_row = NoRow | DamagedRow | Row "exec_policy option"

record exec_state =
  stored_row :: setting_row
  spent :: "string \<Rightarrow> nat"
  asked :: "string list"

record 're exec_env =
  env_engine :: "'re regex_engine"
  env_rules :: "'re rule list"
  find_provider :: "string \<Rightarrow> provider_row option"
  models_of :: "string \<Rightarrow> model_row list"
  parent_of :: "string \<Rightarrow> string option"
  text_driver :: "string \<Rightarrow> bool"
  has_providers :: bool
  from_json :: "string \<Rightarrow> json option"
  judge_reply :: "string \<Rightarrow> string \<Rightarrow> generate_reply"
  action_json :: "reviewed_action \<Rightarrow> string"
  rules_json :: "rule_text_dto list \<Rightarrow> string"
  rule_json :: "rule_text_dto \<Rightarrow> string"
  judge_calls :: nat
  cancelled_after :: bool

subsection \<open>The stored policy\<close>

definition stored :: "exec_state \<Rightarrow> app_error + exec_policy" where
  "stored s = (case stored_row s of
       NoRow \<Rightarrow> Inr exec_policy_default
     | DamagedRow \<Rightarrow> Inl (app_error_new DbError ''SETTING_DAMAGED'')
     | Row None \<Rightarrow> Inr exec_policy_default
     | Row (Some p) \<Rightarrow> Inr p)"

definition store :: "exec_state \<Rightarrow> exec_policy \<Rightarrow> exec_state" where
  "store s p = s\<lparr>stored_row := Row (Some p)\<rparr>"

definition judge_model :: "'re exec_env \<Rightarrow> exec_judge \<Rightarrow> string option" where
  "judge_model env j = (case find_provider env (provider_id j) of
       None \<Rightarrow> None
     | Some p \<Rightarrow>
         if \<not> pr_enabled p \<or> CapText \<notin> set (pr_capabilities p) then None
         else map_option mr_external_id
                (List.find (\<lambda>m. mr_available m \<and> (mr_id m = model_id j \<or> mr_external_id m = model_id j))
                   (models_of env (pr_id p))))"

definition sanitized :: "'re exec_env \<Rightarrow> exec_policy \<Rightarrow> exec_policy" where
  "sanitized env p =
     (let j = (case judge p of
                 Some j \<Rightarrow> if judge_model env j \<noteq> None then Some j else None
               | None \<Rightarrow> None);
          m = (if mode p = AutoBypass \<and> j = None then SafetyAsk else mode p) in
      \<lparr>mode = m, judge = j\<rparr>)"

definition policy_get :: "'re exec_env \<Rightarrow> exec_state \<Rightarrow> (app_error + exec_policy) \<times> exec_state" where
  "policy_get env s = (case stored s of
       Inl e \<Rightarrow> (Inl e, s)
     | Inr p \<Rightarrow> (let q = sanitized env p in (Inr q, if q \<noteq> p then store s q else s)))"

definition JUDGE_UNAVAILABLE :: string where "JUDGE_UNAVAILABLE = ''JUDGE_UNAVAILABLE''"
definition JUDGE_REQUIRED :: string where "JUDGE_REQUIRED = ''JUDGE_REQUIRED''"

definition policy_set :: "'re exec_env \<Rightarrow> exec_state \<Rightarrow> exec_policy \<Rightarrow> (app_error + exec_policy) \<times> exec_state" where
  "policy_set env s p =
     (if (case judge p of Some j \<Rightarrow> judge_model env j = None | None \<Rightarrow> False)
      then (Inl (app_error_new ValidationFailed JUDGE_UNAVAILABLE), s)
      else if mode p = AutoBypass \<and> judge p = None
      then (Inl (app_error_new ValidationFailed JUDGE_REQUIRED), s)
      else (Inr p, store s p))"

subsection \<open>Asking the judge\<close>

fun root_run_loop :: "'re exec_env \<Rightarrow> nat \<Rightarrow> string \<Rightarrow> string" where
  "root_run_loop env 0 current = current"
| "root_run_loop env (Suc n) current =
     (case parent_of env current of Some p \<Rightarrow> root_run_loop env n p | None \<Rightarrow> current)"

definition root_run :: "'re exec_env \<Rightarrow> string \<Rightarrow> string" where
  "root_run env run = root_run_loop env 8 run"

definition spend :: "'re exec_env \<Rightarrow> exec_state \<Rightarrow> string \<Rightarrow> bool \<times> exec_state" where
  "spend env s run =
     (if judge_calls env \<le> spent s run then (False, s)
      else (True, s\<lparr>spent := (spent s)(run := Suc (spent s run))\<rparr>))"

text \<open>The one place where a driver is called.\<close>

definition call_judge :: "'re exec_env \<Rightarrow> string \<Rightarrow> string \<Rightarrow> string \<Rightarrow> exec_state \<Rightarrow> judge_outcome \<times> exec_state" where
  "call_judge env root model prompt s = (ask_judge (from_json env) (judge_reply env model prompt), s\<lparr>asked := asked s @ [root]\<rparr>)"

definition cancelled_error :: app_error where
  "cancelled_error = app_error_new RunCancelled ''CANCELLED_MESSAGE''"

definition judge_action ::
  "'re exec_env \<Rightarrow> exec_state \<Rightarrow> string \<Rightarrow> exec_policy \<Rightarrow> reviewed_action \<Rightarrow> rule_text_dto option
    \<Rightarrow> (app_error + review_verdict) \<times> exec_state"
where
  "judge_action env s run policy a flagged =
     (let ask = Inr (VAsk (map_option (\<lambda>r. limited (rt_text r) TOOL_AUTHORISATION_REASON_MAX) flagged)) in
      case judge policy of
        None \<Rightarrow> (ask, s)
      | Some j \<Rightarrow>
      (case judge_model env j of
        None \<Rightarrow> (ask, s)
      | Some model \<Rightarrow>
          if \<not> has_providers env then (ask, s)
          else if \<not> text_driver env (provider_id j) then (ask, s)
          else
            (case spend env s (root_run env run) of
               (False, s') \<Rightarrow> (ask, s')
             | (True, s') \<Rightarrow>
                 let files = (case a of RFiles _ _ \<Rightarrow> True | _ \<Rightarrow> False);
                     prompt = judge_prompt (action_json env a) (rules_json env (rule_texts (env_rules env) files))
                                (map_option (rule_json env) flagged) in
                 (case call_judge env (root_run env run) model prompt s' of
                    (JAllow reason, s'') \<Rightarrow>
                      (Inr (VRun (because_of (Some reason)
                         (from_source (limited model TOOL_AUTHORISATION_SOURCE_MAX) (authorisation_of AuthJudge)))), s'')
                  | (JAsk reason, s'') \<Rightarrow> (Inr (VAsk (Some reason)), s'')
                  | (JFailed _, s'') \<Rightarrow> (if cancelled_after env then Inl cancelled_error else ask, s'')))))"

definition review :: "'re exec_env \<Rightarrow> exec_state \<Rightarrow> string \<Rightarrow> reviewed_action \<Rightarrow> (app_error + review_verdict) \<times> exec_state" where
  "review env s run a =
     (case policy_get env s of
        (Inl e, s1) \<Rightarrow> (Inl e, s1)
      | (Inr policy, s1) \<Rightarrow>
          (case decide (mode policy) (action_family a) of
             DRun \<Rightarrow> (Inr (VRun (from_source (exec_mode_as_str (mode policy)) (authorisation_of AuthPolicy))), s1)
           | DAsk \<Rightarrow> (Inr (VAsk None), s1)
           | DDeny \<Rightarrow> (Inr (VDeny ''floor''), s1)
           | DReview \<Rightarrow>
               (case evaluate (env_engine env) (env_rules env) a of
                  ODeny r \<Rightarrow> (Inr (VDeny r), s1)
                | OAsk _ t \<Rightarrow> (Inr (VAsk (Some (limited t TOOL_AUTHORISATION_REASON_MAX))), s1)
                | OAllow r t \<Rightarrow>
                    (Inr (VRun (because_of (Some (limited t TOOL_AUTHORISATION_REASON_MAX))
                       (from_source (limited r TOOL_AUTHORISATION_SOURCE_MAX) (authorisation_of AuthJudge)))), s1)
                | OReview r t \<Rightarrow> judge_action env s1 run policy a (Some \<lparr>rt_id = r, rt_effect = EffReview, rt_text = t\<rparr>)
                | OUnmatched \<Rightarrow> judge_action env s1 run policy a None)))"

text \<open>A kernel without a policy service asks (\<^verbatim>\<open>review_action\<close> of \<^verbatim>\<open>kernel/types.rs\<close>).\<close>

definition review_action ::
  "'re exec_env option \<Rightarrow> exec_state \<Rightarrow> string \<Rightarrow> reviewed_action \<Rightarrow> (app_error + review_verdict) \<times> exec_state"
where
  "review_action policy s run a = (case policy of None \<Rightarrow> (Inr (VAsk None), s) | Some env \<Rightarrow> review env s run a)"

subsection \<open>Fencing: no tag survives\<close>

definition occurs :: "string \<Rightarrow> string \<Rightarrow> bool" where
  "occurs w s \<longleftrightarrow> (\<exists>n. starts_with w (drop n s))"

lemma occurs_Nil [simp]: "w \<noteq> [] \<Longrightarrow> \<not> occurs w []"
  by (simp add: occurs_def starts_with_def)

lemma occurs_Cons: "occurs w (c # cs) \<longleftrightarrow> starts_with w (c # cs) \<or> occurs w cs"
  unfolding occurs_def
proof
  assume "\<exists>n. starts_with w (drop n (c # cs))"
  then obtain n where n: "starts_with w (drop n (c # cs))" ..
  then show "starts_with w (c # cs) \<or> (\<exists>n. starts_with w (drop n cs))"
    by (cases n) auto
next
  assume "starts_with w (c # cs) \<or> (\<exists>n. starts_with w (drop n cs))"
  then show "\<exists>n. starts_with w (drop n (c # cs))"
    by (metis drop0 drop_Suc_Cons)
qed

lemma occurs_append_plain:
  assumes "x \<notin> set u" shows "occurs (x # v) (u @ s) \<longleftrightarrow> occurs (x # v) s"
  using assms by (induction u) (auto simp: occurs_Cons starts_with_def)

lemma starts_with_Cons [simp]:
  "starts_with (x # v) (c # cs) \<longleftrightarrow> x = c \<and> starts_with v cs"
  by (auto simp: starts_with_def)

text \<open>
  A word without the opening character is at the front of the replaced text only if it was at the
  front of the original: replacing rewrites only from an opening character on.
\<close>

lemma starts_with_replace_all:
  assumes "x \<notin> set v" and "p = x # q" and "r = x # r'"
  shows "starts_with v (replace_all p r s) \<Longrightarrow> starts_with v s"
  using assms(1)
proof (induction v arbitrary: s)
  case Nil
  then show ?case by (simp add: starts_with_def)
next
  case (Cons y v)
  show ?case
  proof (cases s)
    case Nil
    with Cons.prems show ?thesis by simp
  next
    case (Cons c cs)
    with Cons.prems Cons.IH [of cs] assms(2,3) show ?thesis by (auto split: if_splits)
  qed
qed

lemma occurs_drop: "occurs w (drop n s) \<Longrightarrow> occurs w s"
  by (auto simp: occurs_def)

lemma replace_all_removes:
  assumes p: "p = x # q" and r: "r = x # r'" "x \<notin> set r'"
    and w: "w = x # v" "x \<notin> set v" "\<And>t. \<not> starts_with v (r' @ t)"
  shows "w = p \<or> \<not> occurs w s \<Longrightarrow> \<not> occurs w (replace_all p r s)"
proof (induction s rule: length_induct)
  case (1 s)
  show ?case
  proof (cases s)
    case Nil
    then show ?thesis using w by simp
  next
    case s: (Cons c cs)
    show ?thesis
    proof (cases "starts_with p (c # cs)")
      case True
      let ?d = "drop (length p - 1) cs"
      have "w = p \<or> \<not> occurs w ?d" using 1(2) occurs_drop by (auto simp: s occurs_Cons)
      moreover have "length ?d < length s" by (simp add: s)
      ultimately have "\<not> occurs w (replace_all p r ?d)" using 1(1) by blast
      then have "\<not> occurs w (r' @ replace_all p r ?d)"
        using occurs_append_plain [OF r(2)] by (simp add: w(1))
      then show ?thesis using True w(3) r(1) by (simp add: s occurs_Cons w(1))
    next
      case False
      have "w = p \<or> \<not> occurs w cs" using 1(2) by (auto simp: s occurs_Cons)
      moreover have "length cs < length s" by (simp add: s)
      ultimately have "\<not> occurs w (replace_all p r cs)" using 1(1) by blast
      moreover have "\<not> starts_with w (c # replace_all p r cs)"
        using False 1(2) starts_with_replace_all [OF w(2) p r(1), of cs] by (auto simp: s occurs_Cons w(1) p)
      ultimately show ?thesis using False by (simp add: s occurs_Cons)
    qed
  qed
qed

subsection \<open>The stored policy: lemmas\<close>

definition well_judged :: "'re exec_env \<Rightarrow> exec_policy \<Rightarrow> bool" where
  "well_judged env p \<longleftrightarrow> (mode p = AutoBypass \<longrightarrow> judge p \<noteq> None)
     \<and> (\<forall>j. judge p = Some j \<longrightarrow> judge_model env j \<noteq> None)"

lemma sanitized_well_judged: "well_judged env (sanitized env p)"
  by (auto simp: well_judged_def sanitized_def Let_def split: option.splits)

lemma sanitized_id: "well_judged env p \<Longrightarrow> sanitized env p = p"
  by (cases p) (auto simp: well_judged_def sanitized_def Let_def split: option.splits)

lemma sanitized_mode: "mode (sanitized env p) = mode p \<or> (mode p = AutoBypass \<and> mode (sanitized env p) = SafetyAsk)"
  by (auto simp: sanitized_def Let_def)

lemma policy_get_Inr:
  "policy_get env s = (Inr p, s') \<Longrightarrow> well_judged env p \<and> stored s' = Inr p \<and> spent s' = spent s"
  using sanitized_well_judged [of env p] sanitized_well_judged [of env]
  by (auto simp: policy_get_def Let_def store_def stored_def split: sum.splits if_splits) metis

lemma policy_get_spent: "spent (snd (policy_get env s)) = spent s"
  by (auto simp: policy_get_def Let_def store_def split: sum.splits)

lemma policy_get_asked: "asked (snd (policy_get env s)) = asked s"
  by (auto simp: policy_get_def Let_def store_def split: sum.splits)

text \<open>Between two states the judge was asked as often as calls were spent, and only while some were left.\<close>

definition spends_per_call :: "nat \<Rightarrow> exec_state \<Rightarrow> exec_state \<Rightarrow> bool" where
  "spends_per_call cap s s' \<longleftrightarrow> (\<exists>log. asked s' = asked s @ log
     \<and> (\<forall>r. spent s' r = spent s r + count_list log r \<and> count_list log r \<le> cap - spent s r))"

lemma spends_per_call_same: "asked s' = asked s \<Longrightarrow> spent s' = spent s \<Longrightarrow> spends_per_call cap s s'"
  by (simp add: spends_per_call_def)

lemma spends_per_call_trans:
  assumes "spends_per_call cap s s1" "spends_per_call cap s1 s2"
  shows "spends_per_call cap s s2"
proof -
  obtain l1 where l1: "asked s1 = asked s @ l1" "\<And>r. spent s1 r = spent s r + count_list l1 r \<and> count_list l1 r \<le> cap - spent s r"
    using assms(1) unfolding spends_per_call_def by blast
  obtain l2 where l2: "asked s2 = asked s1 @ l2" "\<And>r. spent s2 r = spent s1 r + count_list l2 r \<and> count_list l2 r \<le> cap - spent s1 r"
    using assms(2) unfolding spends_per_call_def by blast
  have "spent s2 r = spent s r + count_list (l1 @ l2) r \<and> count_list (l1 @ l2) r \<le> cap - spent s r" for r
    using l1(2) [of r] l2(2) [of r] by auto
  with l1(1) l2(1) show ?thesis unfolding spends_per_call_def by (intro exI [of _ "l1 @ l2"]) simp
qed

lemma judge_action_spends: "spends_per_call (judge_calls env) s (snd (judge_action env s run p a f))"
proof -
  let ?root = "root_run env run" and ?s' = "snd (judge_action env s run p a f)"
  have "?s' = s \<or> spent s ?root < judge_calls env \<and> ?s' = s\<lparr>spent := (spent s)(?root := Suc (spent s ?root)), asked := asked s @ [?root]\<rparr>"
    by (auto simp: judge_action_def Let_def spend_def call_judge_def split: option.splits judge_outcome.splits)
  then show ?thesis by (auto simp: spends_per_call_def)
qed

lemma review_spends: "spends_per_call (judge_calls env) s (snd (review env s run a))"
proof -
  obtain r s1 where g: "policy_get env s = (r, s1)" by fastforce
  have 1: "spends_per_call cap s s1" for cap
    using policy_get_spent [of env s] policy_get_asked [of env s] by (simp add: g spends_per_call_same)
  have "snd (review env s run a) = s1 \<or> (\<exists>p f. snd (review env s run a) = snd (judge_action env s1 run p a f))"
    by (auto simp: review_def g split: sum.splits decision.splits rule_outcome.splits)
  with 1 spends_per_call_trans [OF 1 judge_action_spends] show ?thesis by metis
qed

subsection \<open>Properties of the policy service\<close>

text \<open>The action shown to the judge cannot close or reopen the action block of the prompt:
  after fencing, neither tag occurs in it, whatever the agent wrote.\<close>

lemma fenced_action_has_no_tag:
  "\<not> occurs ''</action'' (fenced s) \<and> \<not> occurs ''<action'' (fenced s)"
proof -
  have first: "\<not> occurs ''</action'' (replace_all ''</action'' (''<'' @ [CHR 0x5C] @ ''/action'') s)"
    by (rule replace_all_removes [where x = "CHR ''<''" and q = "''/action''" and v = "''/action''"
          and r' = "CHR 0x5C # ''/action''"]) simp_all
  have "\<not> occurs ''</action'' (fenced s)"
    unfolding fenced_def
    by (rule replace_all_removes [where x = "CHR ''<''" and q = "''action''" and v = "''/action''"
          and r' = "'' action''"]) (use first in simp_all)
  moreover have "\<not> occurs ''<action'' (fenced s)"
    unfolding fenced_def
    by (rule replace_all_removes [where x = "CHR ''<''" and q = "''action''" and v = "''action''"
          and r' = "'' action''"]) simp_all
  ultimately show ?thesis ..
qed

text \<open>C4: An action runs without the user only on authority: the mode by family table says run, or
  the mode is auto-bypass, the action is a file change or a program, and either a rule allows it or
  no rule denies or asks and the judge's single well-formed verdict allows it.\<close>

theorem review_runs_only_with_authority:
  assumes "review env s run a = (Inr (VRun auth), s')"
  shows "\<exists>p. fst (policy_get env s) = Inr p \<and>
     (decide (mode p) (action_family a) = DRun \<and> auth_kind auth = AuthPolicy
      \<or> mode p = AutoBypass \<and> action_family a \<in> {FamFiles, FamProcess} \<and> auth_kind auth = AuthJudge
        \<and> ((\<exists>r t. evaluate (env_engine env) (env_rules env) a = OAllow r t)
           \<or> (\<exists>model prompt reason calls. judge_reply env model prompt = ReplyCalls calls
               \<and> parse_verdict (from_json env) calls = Some (JAllow reason)
               \<and> (evaluate (env_engine env) (env_rules env) a = OUnmatched
                  \<or> (\<exists>r t. evaluate (env_engine env) (env_rules env) a = OReview r t)))))"
proof -
  obtain p s1 where g: "policy_get env s = (Inr p, s1)"
    using assms by (auto simp: review_def split: sum.splits prod.splits)
  have judged: "\<exists>model prompt reason calls. judge_reply env model prompt = ReplyCalls calls
      \<and> parse_verdict (from_json env) calls = Some (JAllow reason)"
    and kind: "auth_kind auth = AuthJudge"
    if "judge_action env s1 run p a f = (Inr (VRun auth), s')" for f
    using that
    by (auto simp: judge_action_def Let_def call_judge_def ask_judge_def authorisation_defs split: option.splits prod.splits
        if_splits judge_outcome.splits generate_reply.splits bool.splits)
  show ?thesis
  proof (cases "decide (mode p) (action_family a)")
    case DReview
    then have m: "mode p = AutoBypass" "action_family a \<in> {FamFiles, FamProcess}"
      by (simp_all add: decide_review_iff)
    have "(\<exists>r t. evaluate (env_engine env) (env_rules env) a = OAllow r t) \<and> auth_kind auth = AuthJudge
        \<or> (\<exists>f. judge_action env s1 run p a f = (Inr (VRun auth), s')) \<and>
          (evaluate (env_engine env) (env_rules env) a = OUnmatched
                  \<or> (\<exists>r t. evaluate (env_engine env) (env_rules env) a = OReview r t))"
      using assms DReview g
      by (cases "evaluate (env_engine env) (env_rules env) a") (auto simp: review_def authorisation_defs)
    with m g judged kind show ?thesis by (metis fst_conv)
  qed (use assms g in \<open>auto simp: review_def authorisation_defs\<close>)
qed

text \<open>A vendor deny rule that matches stops an action under review before the judge is asked:
  the verdict is a denial and no judge call is spent.\<close>

lemma vendor_deny_stops_before_the_judge:
  assumes "fst (policy_get env s) = Inr p" and "decide (mode p) (action_family a) = DReview"
    and "ms \<in> set (action_items (env_engine env) (env_rules env) a)" and "r \<in> set ms"
    and "rule_origin r = Vendor" and "rule_eff r = EffDeny"
  shows "\<exists>i. fst (review env s run a) = Inr (VDeny i) \<and> spent (snd (review env s run a)) = spent s"
proof -
  obtain i where "evaluate (env_engine env) (env_rules env) a = ODeny i"
    using resolve_vendor_deny [OF assms(4,5,6)] assms(3) resolve_items_deny_iff [of "action_items (env_engine env) (env_rules env) a"]
    by (auto simp: evaluate_items)
  then show ?thesis
    using assms(1,2) policy_get_spent [of env s]
    by (cases "policy_get env s") (auto simp: review_def)
qed

text \<open>Reading the policy repairs it for good: the returned policy never names a judge that is
  gone and is never auto-bypass without one, a repair only ever tightens auto-bypass to safety-ask,
  and reading again returns the same policy and changes nothing.\<close>

theorem policy_get_repairs_once:
  assumes "policy_get env s = (Inr p, s')"
  shows "well_judged env p \<and> policy_get env s' = (Inr p, s')
    \<and> (\<exists>q. stored s = Inr q \<and> (mode p = mode q \<or> mode q = AutoBypass \<and> mode p = SafetyAsk))"
proof -
  have w: "well_judged env p" "stored s' = Inr p" using policy_get_Inr [OF assms] by simp_all
  then have "policy_get env s' = (Inr p, s')" by (simp add: policy_get_def sanitized_id)
  moreover obtain q where "stored s = Inr q" "p = sanitized env q"
    using assms by (auto simp: policy_get_def Let_def split: sum.splits)
  ultimately show ?thesis using w sanitized_mode [of env q] by auto
qed

text \<open>The calls of the service, each in the world as it is then; the cap is an option of the service.\<close>

datatype exec_call = CallReview string reviewed_action | CallGet | CallSet exec_policy

fun exec_calls :: "nat \<Rightarrow> ('re exec_env \<times> exec_call) list \<Rightarrow> exec_state \<Rightarrow> exec_state" where
  "exec_calls cap [] s = s"
| "exec_calls cap ((env, c) # cs) s = exec_calls cap cs (case c of
     CallReview run a \<Rightarrow> snd (review (env\<lparr>judge_calls := cap\<rparr>) s run a)
   | CallGet \<Rightarrow> snd (policy_get (env\<lparr>judge_calls := cap\<rparr>) s)
   | CallSet p \<Rightarrow> snd (policy_set (env\<lparr>judge_calls := cap\<rparr>) s p))"

lemma exec_calls_spends: "spends_per_call cap s (exec_calls cap calls s)"
proof (induction calls arbitrary: s)
  case (Cons x calls)
  obtain env c where x: "x = (env, c)" by fastforce
  let ?s1 = "exec_calls cap [x] s"
  have "spends_per_call cap s ?s1"
  proof (cases c)
    case (CallReview run a)
    then show ?thesis using review_spends [of "env\<lparr>judge_calls := cap\<rparr>" s run a] by (simp add: x)
  next
    case CallGet
    then show ?thesis by (simp add: x spends_per_call_same policy_get_spent policy_get_asked)
  next
    case (CallSet p)
    then show ?thesis by (auto simp: x policy_set_def store_def intro: spends_per_call_same)
  qed
  moreover have "exec_calls cap (x # calls) s = exec_calls cap calls ?s1" by (simp add: x)
  ultimately show ?case using spends_per_call_trans Cons.IH by metis
qed (simp add: spends_per_call_same)

text \<open>C5: The judge is asked for a root run at most as often as the cap leaves calls to it, however reviews of this and
  other runs, readings and changes of the policy follow each other, whatever the judge answers or fails to answer, and
  whatever becomes of the providers, the rules and the runs meanwhile; what is counted as spent is exactly the calls
  made.\<close>

theorem judge_calls_stay_within_the_cap:
  "\<exists>log. asked (exec_calls cap calls s) = asked s @ log \<and> count_list log r \<le> cap - spent s r
     \<and> spent (exec_calls cap calls s) r = spent s r + count_list log r"
  using exec_calls_spends [of cap s calls] unfolding spends_per_call_def by blast

subsection \<open>Witnesses\<close>

definition sample_env :: "rule_effect option \<Rightarrow> string exec_env" where
  "sample_env e = \<lparr>env_engine = literal_engine,
     env_rules = (case e of None \<Rightarrow> [] | Some eff \<Rightarrow> [sample_file_rule eff Vendor]),
     find_provider = (\<lambda>_. Some \<lparr>pr_id = ''p'', pr_enabled = True, pr_capabilities = [CapText]\<rparr>),
     models_of = (\<lambda>_. [\<lparr>mr_id = ''m'', mr_external_id = ''m'', mr_available = True\<rparr>]),
     parent_of = (\<lambda>_. None), text_driver = (\<lambda>_. True), has_providers = True,
     from_json = (\<lambda>_. Some (JObject [(''reason'', JString ''ok''), (''decision'', JString ''allow'')])),
     judge_reply = (\<lambda>_ _. ReplyCalls [\<lparr>call_name = ''verdict'', call_arguments = ''{}''\<rparr>]),
     action_json = (\<lambda>_. ''{}''), rules_json = (\<lambda>_. ''[]''), rule_json = (\<lambda>_. ''{}''),
     judge_calls = 50, cancelled_after = False\<rparr>"

definition sample_policy :: exec_policy where
  "sample_policy = \<lparr>mode = AutoBypass, judge = Some \<lparr>provider_id = ''p'', model_id = ''m''\<rparr>\<rparr>"

definition sample_exec_state :: exec_state where
  "sample_exec_state = \<lparr>stored_row = Row (Some sample_policy), spent = (\<lambda>_. 0), asked = []\<rparr>"

definition sample_files :: reviewed_action where
  "sample_files = RFiles [sample_delete] []"

lemma sample_review: "fst (review (sample_env None) sample_exec_state ''r'' sample_files) =
    Inr (VRun \<lparr>auth_kind = AuthJudge, auth_source = Some ''m'', auth_reason = Some ''ok''\<rparr>)"
  by code_simp

lemma sample_get: "policy_get (sample_env e) sample_exec_state = (Inr sample_policy, sample_exec_state)"
proof -
  have "sanitized (sample_env e) sample_policy = sample_policy"
    by (simp add: sanitized_def sample_policy_def judge_model_def sample_env_def Let_def)
  then show ?thesis by (simp add: policy_get_def stored_def sample_exec_state_def)
qed

lemma sample_decide: "decide (mode sample_policy) (action_family sample_files) = DReview"
  by code_simp

theorem review_runs_only_with_authority_witness:
  "\<exists>model prompt reason calls. judge_reply (sample_env None) model prompt = ReplyCalls calls
     \<and> parse_verdict (from_json (sample_env None)) calls = Some (JAllow reason)"
proof -
  have "review (sample_env None) sample_exec_state ''r'' sample_files =
      (Inr (VRun \<lparr>auth_kind = AuthJudge, auth_source = Some ''m'', auth_reason = Some ''ok''\<rparr>),
       snd (review (sample_env None) sample_exec_state ''r'' sample_files))"
    using sample_review by (simp add: prod_eq_iff)
  moreover have "evaluate (env_engine (sample_env None)) (env_rules (sample_env None)) sample_files = OUnmatched"
    by code_simp
  ultimately show ?thesis
    using review_runs_only_with_authority [of "sample_env None" sample_exec_state "''r''" sample_files]
    by (simp add: sample_get sample_decide)
qed

text \<open>The judge is asked for each of the first 2 of 3 calls when the cap is 2.\<close>

lemma sample_calls_asked:
  "asked (exec_calls 2 (replicate 3 (sample_env None, CallReview ''r'' sample_files)) sample_exec_state) = [''r'', ''r'']"
  by code_simp

end
