(* ===== verification/Permissions.thy ===== *)
theory Permissions
  imports Contract
begin

text \<open>
  Tool permissions: the rows and statements of \<^verbatim>\<open>data/repositories/permission.rs\<close> and the service
  over them, \<^verbatim>\<open>services/permissions.rs\<close>.

  The state is the tables the service reads and writes: the grants, the log of their uses, the
  ceilings of registered tools and the pending approvals. Each SQL statement of the repository is
  the function of the same name on these tables; a table with no \<^verbatim>\<open>ORDER BY\<close> is read in the order
  of the list, and no result below depends on it. Fresh ids and the clock are arguments.
\<close>

datatype approval_decision = Approved | Denied

record permission_row =
  perm_id :: string
  perm_subject :: string
  perm_scope :: string
  perm_tier :: tool_tier
  perm_granted_by :: string
  perm_granted_at :: int

record permission_use =
  use_grant_id :: string
  use_run_id :: string
  use_used_at :: int
  use_subject :: string
  use_scope :: string
  use_tier :: tool_tier

record tool_ceiling =
  ceil_enabled :: bool
  ceil_available :: bool
  ceil_tier :: tool_tier

record approval_row =
  appr_id :: string
  appr_run_id :: string
  appr_subject :: string
  appr_scope :: string
  appr_expires_at :: int
  appr_decision :: "approval_decision option"

record perm_db =
  grants :: "permission_row list"
  use_log :: "permission_use list"
  ceilings :: "string \<Rightarrow> tool_ceiling option"
  approvals :: "approval_row list"

subsection \<open>The repository\<close>

definition repo_list :: "perm_db \<Rightarrow> string \<Rightarrow> permission_row list" where
  "repo_list db subject = filter (\<lambda>r. perm_subject r = subject) (grants db)"

fun upsert_grant :: "permission_row \<Rightarrow> permission_row list \<Rightarrow> permission_row list" where
  "upsert_grant row [] = [row]"
| "upsert_grant row (r # rs) =
     (if perm_subject r = perm_subject row \<and> perm_scope r = perm_scope row then row # rs
      else r # upsert_grant row rs)"

definition repo_grant :: "perm_db \<Rightarrow> permission_row \<Rightarrow> perm_db" where
  "repo_grant db row = db\<lparr>grants := upsert_grant row (grants db)\<rparr>"

definition repo_revoke :: "perm_db \<Rightarrow> string \<Rightarrow> perm_db" where
  "repo_revoke db i = db\<lparr>grants := filter (\<lambda>r. perm_id r \<noteq> i) (grants db)\<rparr>"

definition repo_log :: "perm_db \<Rightarrow> permission_use \<Rightarrow> perm_db" where
  "repo_log db u = db\<lparr>use_log := use_log db @ [u]\<rparr>"

definition repo_create_approval :: "perm_db \<Rightarrow> approval_row \<Rightarrow> perm_db" where
  "repo_create_approval db row = db\<lparr>approvals := approvals db @ [row]\<rparr>"

definition repo_approval :: "perm_db \<Rightarrow> string \<Rightarrow> approval_row option" where
  "repo_approval db i = List.find (\<lambda>r. appr_id r = i) (approvals db)"

definition repo_decide :: "perm_db \<Rightarrow> string \<Rightarrow> approval_decision \<Rightarrow> perm_db" where
  "repo_decide db i d =
     db\<lparr>approvals := map (\<lambda>r. if appr_id r = i then r\<lparr>appr_decision := Some d\<rparr> else r) (approvals db)\<rparr>"

definition repo_approvals_for_run :: "perm_db \<Rightarrow> string \<Rightarrow> approval_row list" where
  "repo_approvals_for_run db run = filter (\<lambda>r. appr_run_id r = run) (approvals db)"

definition repo_pending_for_runs :: "perm_db \<Rightarrow> string list \<Rightarrow> approval_row list" where
  "repo_pending_for_runs db runs =
     (if runs = [] then []
      else sort_key appr_expires_at
             (filter (\<lambda>r. appr_run_id r \<in> set runs \<and> appr_decision r = None) (approvals db)))"

definition repo_deny_unfinished :: "perm_db \<Rightarrow> string \<Rightarrow> perm_db" where
  "repo_deny_unfinished db run =
     db\<lparr>approvals := map (\<lambda>r. if appr_run_id r = run \<and> appr_decision r = None
                              then r\<lparr>appr_decision := Some Denied\<rparr> else r) (approvals db)\<rparr>"

definition repo_tool_ceiling :: "perm_db \<Rightarrow> string \<Rightarrow> tool_ceiling option" where
  "repo_tool_ceiling db key = ceilings db key"

subsection \<open>The service\<close>

definition GLOBAL_SCOPE :: string where "GLOBAL_SCOPE = ''global''"

datatype admission = AdmAllow | AdmAsk | AdmDeny

record permission_context =
  pc_run_id :: string
  pc_scopes :: "string list"

definition rank :: "tool_tier \<Rightarrow> nat" where
  "rank t = (case t of TierAuto \<Rightarrow> 0 | TierAsk \<Rightarrow> 1 | TierOff \<Rightarrow> 2)"

definition grant_in ::
  "perm_db \<Rightarrow> string \<Rightarrow> int \<Rightarrow> string \<Rightarrow> string \<Rightarrow> tool_tier \<Rightarrow> string \<Rightarrow> (app_error + string) \<times> perm_db"
where
  "grant_in db fresh now subject scope tier granter =
     (if subject = [] then (Inl (app_error_new ValidationFailed ''subject''), db)
      else if scope \<noteq> GLOBAL_SCOPE \<and> \<not> is_permission_scope scope
      then (Inl (app_error_new ValidationFailed ''scope''), db)
      else if granter = [] then (Inl (app_error_new ValidationFailed ''grantedBy''), db)
      else (Inr fresh, repo_grant db \<lparr>perm_id = fresh, perm_subject = subject, perm_scope = scope,
                         perm_tier = tier, perm_granted_by = granter, perm_granted_at = now\<rparr>))"

text \<open>The rows a context is subject to, and the running maximum of the tiers.\<close>

definition in_scope :: "permission_context \<Rightarrow> permission_row \<Rightarrow> bool" where
  "in_scope ctx r \<longleftrightarrow> perm_scope r = GLOBAL_SCOPE \<or> perm_scope r \<in> set (pc_scopes ctx)"

definition raise_tier :: "tool_tier \<Rightarrow> tool_tier \<Rightarrow> tool_tier" where
  "raise_tier candidate tier = (if rank tier < rank candidate then candidate else tier)"

definition use_of :: "permission_context \<Rightarrow> int \<Rightarrow> permission_row \<Rightarrow> permission_use" where
  "use_of ctx now r = \<lparr>use_grant_id = perm_id r, use_run_id = pc_run_id ctx, use_used_at = now,
     use_subject = perm_subject r, use_scope = perm_scope r, use_tier = perm_tier r\<rparr>"

definition admit_subject ::
  "perm_db \<Rightarrow> int \<Rightarrow> string \<Rightarrow> permission_context \<Rightarrow> tool_tier \<Rightarrow> admission \<times> perm_db"
where
  "admit_subject db now subject ctx minimum =
     (let registered = repo_tool_ceiling db subject in
      if (case registered of Some t \<Rightarrow> \<not> ceil_enabled t \<or> \<not> ceil_available t | None \<Rightarrow> False)
      then (AdmDeny, db)
      else
        let rows = repo_list db subject;
            tier = (case List.find (\<lambda>r. perm_scope r = GLOBAL_SCOPE) rows of
                      Some r \<Rightarrow> perm_tier r | None \<Rightarrow> TierAsk);
            tier = (case registered of Some t \<Rightarrow> raise_tier (ceil_tier t) tier | None \<Rightarrow> tier);
            tier = raise_tier minimum tier;
            applicable = filter (in_scope ctx) rows;
            tier = fold (\<lambda>r. raise_tier (perm_tier r)) applicable tier in
        ((case tier of TierAuto \<Rightarrow> AdmAllow | TierAsk \<Rightarrow> AdmAsk | TierOff \<Rightarrow> AdmDeny),
         if tier = TierAuto then fold (\<lambda>r d. repo_log d (use_of ctx now r)) applicable db else db))"

definition admit_app_folder :: "perm_db \<Rightarrow> string \<Rightarrow> permission_context \<Rightarrow> admission" where
  "admit_app_folder db subject ctx =
     (let closed = (case repo_tool_ceiling db subject of
            Some t \<Rightarrow> \<not> ceil_enabled t \<or> \<not> ceil_available t \<or> ceil_tier t = TierOff | None \<Rightarrow> False);
          refused = list_ex (\<lambda>r. perm_tier r = TierOff \<and> in_scope ctx r) (repo_list db subject) in
      if closed \<or> refused then AdmDeny else AdmAllow)"

definition granted :: "perm_db \<Rightarrow> string \<Rightarrow> permission_context \<Rightarrow> bool" where
  "granted db subject ctx = list_ex (\<lambda>r. perm_tier r = TierAuto \<and> perm_scope r \<noteq> GLOBAL_SCOPE
      \<and> perm_scope r \<in> set (pc_scopes ctx)) (repo_list db subject)"

definition admit ::
  "(string \<Rightarrow> app_error + permission_requirement) \<Rightarrow> perm_db \<Rightarrow> int \<Rightarrow> string \<Rightarrow> permission_context
    \<Rightarrow> (app_error + admission) \<times> perm_db"
where
  "admit permission_of db now ty ctx =
     (case permission_of ty of
        Inl e \<Rightarrow> (Inl e, db)
      | Inr ReqNone \<Rightarrow> (Inr AdmAllow, db)
      | Inr (ReqTool tool tier) \<Rightarrow>
          (case admit_subject db now tool ctx (case tier of None \<Rightarrow> TierAuto | Some t \<Rightarrow> t) of
             (a, db') \<Rightarrow> (Inr a, db'))
      | Inr (ReqAppFolder tool) \<Rightarrow> (Inr (admit_app_folder db tool ctx), db))"

subsection \<open>The order of tiers\<close>

instantiation tool_tier :: linorder
begin

definition less_eq_tool_tier :: "tool_tier \<Rightarrow> tool_tier \<Rightarrow> bool" where
  "a \<le> b \<longleftrightarrow> rank a \<le> rank b"

definition less_tool_tier :: "tool_tier \<Rightarrow> tool_tier \<Rightarrow> bool" where
  "a < b \<longleftrightarrow> rank a < rank b"

instance
proof
  fix x y :: tool_tier
  show "x \<le> y \<Longrightarrow> y \<le> x \<Longrightarrow> x = y"
    by (cases x; cases y) (simp_all add: less_eq_tool_tier_def rank_def)
qed (auto simp: less_eq_tool_tier_def less_tool_tier_def)

end

lemma raise_tier_max: "raise_tier a b = max a b"
  by (cases a; cases b) (simp_all add: raise_tier_def rank_def max_def less_eq_tool_tier_def)

lemma tier_bounds [simp]: "TierAuto \<le> t" "t \<le> TierOff" "t \<le> TierAuto \<longleftrightarrow> t = TierAuto" "TierOff \<le> t \<longleftrightarrow> t = TierOff"
  by (cases t; simp add: less_eq_tool_tier_def rank_def)+

lemma fold_raise_Auto:
  "fold (\<lambda>r. raise_tier (perm_tier r)) rs t = TierAuto \<longleftrightarrow> t = TierAuto \<and> (\<forall>r \<in> set rs. perm_tier r = TierAuto)"
  by (induction rs arbitrary: t) (auto simp: raise_tier_def rank_def split: tool_tier.splits)

lemma fold_raise_Off:
  "fold (\<lambda>r. raise_tier (perm_tier r)) rs t = TierOff \<longleftrightarrow> t = TierOff \<or> (\<exists>r \<in> set rs. perm_tier r = TierOff)"
proof (induction rs arbitrary: t)
  case (Cons r rs)
  then show ?case by (cases t; cases "perm_tier r") (auto simp: raise_tier_def rank_def)
qed simp

lemma fold_log_grants [simp]:
  "grants (fold (\<lambda>r d. repo_log d (u r)) rs db) = grants db"
  "ceilings (fold (\<lambda>r d. repo_log d (u r)) rs db) = ceilings db"
  "approvals (fold (\<lambda>r d. repo_log d (u r)) rs db) = approvals db"
  by (induction rs arbitrary: db) (simp_all add: repo_log_def)

lemma fold_log_uses: "use_log (fold (\<lambda>r d. repo_log d (u r)) rs db) = use_log db @ map u rs"
  by (induction rs arbitrary: db) (simp_all add: repo_log_def)

lemma admit_subject_frame [simp]:
  "grants (snd (admit_subject db now s c m)) = grants db"
  "ceilings (snd (admit_subject db now s c m)) = ceilings db"
  "approvals (snd (admit_subject db now s c m)) = approvals db"
  by (auto simp: admit_subject_def Let_def)

definition one_global :: "perm_db \<Rightarrow> bool" where
  "one_global db \<longleftrightarrow> distinct (map (\<lambda>r. (perm_subject r, perm_scope r)) (grants db))"

definition open_ceiling :: "perm_db \<Rightarrow> string \<Rightarrow> bool" where
  "open_ceiling db s = (case ceilings db s of None \<Rightarrow> True | Some t \<Rightarrow> ceil_enabled t \<and> ceil_available t)"

lemma upsert_grant_keys:
  "map (\<lambda>r. (perm_subject r, perm_scope r)) (upsert_grant row rs) =
    (let ks = map (\<lambda>r. (perm_subject r, perm_scope r)) rs; k = (perm_subject row, perm_scope row) in
     if k \<in> set ks then ks else ks @ [k])"
  by (induction rs) (auto simp: Let_def)

lemma one_global_grant: "one_global db \<Longrightarrow> one_global (repo_grant db row)"
  unfolding one_global_def repo_grant_def
  by (simp add: upsert_grant_keys Let_def)

lemma one_global_revoke: "one_global db \<Longrightarrow> one_global (repo_revoke db i)"
  by (simp add: one_global_def repo_revoke_def distinct_map_filter_keep)

lemma global_find:
  assumes "one_global db" and "r \<in> set (grants db)" "perm_subject r = s" "perm_scope r = GLOBAL_SCOPE"
  shows "List.find (\<lambda>r. perm_scope r = GLOBAL_SCOPE) (repo_list db s) = Some r"
proof -
  have "List.find (\<lambda>r. perm_scope r = GLOBAL_SCOPE) (repo_list db s) \<noteq> None"
    using assms by (auto simp: find_None_all repo_list_def)
  then obtain q where q: "List.find (\<lambda>r. perm_scope r = GLOBAL_SCOPE) (repo_list db s) = Some q" by blast
  have "q = r"
    using find_Some_mem [OF q] assms distinct_map_inj [of "\<lambda>r. (perm_subject r, perm_scope r)" "grants db" q r]
    by (simp add: one_global_def repo_list_def)
  with q show ?thesis by simp
qed

lemma admit_subject_result:
  "fst (admit_subject db now s ctx m) =
    (if open_ceiling db s then
       (case fold (\<lambda>r. raise_tier (perm_tier r)) (filter (in_scope ctx) (repo_list db s))
          (raise_tier m
            ((case ceilings db s of Some t \<Rightarrow> raise_tier (ceil_tier t) | None \<Rightarrow> id)
              (case List.find (\<lambda>r. perm_scope r = GLOBAL_SCOPE) (repo_list db s) of
                 Some r \<Rightarrow> perm_tier r | None \<Rightarrow> TierAsk))) of
          TierAuto \<Rightarrow> AdmAllow | TierAsk \<Rightarrow> AdmAsk | TierOff \<Rightarrow> AdmDeny)
     else AdmDeny)"
  by (auto simp: admit_subject_def Let_def open_ceiling_def repo_tool_ceiling_def split: option.splits)

lemma admission_cases:
  "(case t of TierAuto \<Rightarrow> AdmAllow | TierAsk \<Rightarrow> AdmAsk | TierOff \<Rightarrow> AdmDeny) = AdmAllow \<longleftrightarrow> t = TierAuto"
  "(case t of TierAuto \<Rightarrow> AdmAllow | TierAsk \<Rightarrow> AdmAsk | TierOff \<Rightarrow> AdmDeny) = AdmDeny \<longleftrightarrow> t = TierOff"
  by (cases t; simp)+

lemma raise_tier_Auto: "raise_tier a b = TierAuto \<longleftrightarrow> a = TierAuto \<and> b = TierAuto"
  by (cases a; cases b) (simp_all add: raise_tier_def rank_def)

lemma raise_tier_Off: "raise_tier a b = TierOff \<longleftrightarrow> a = TierOff \<or> b = TierOff"
  by (cases a; cases b) (simp_all add: raise_tier_def rank_def)

lemma admit_subject_deny:
  assumes "r \<in> set (grants db)" "perm_subject r = s" "in_scope ctx r" "perm_tier r = TierOff"
  shows "fst (admit_subject db now s ctx m) = AdmDeny"
proof -
  have "\<exists>q \<in> set (filter (in_scope ctx) (repo_list db s)). perm_tier q = TierOff"
    using assms by (auto simp: repo_list_def)
  then show ?thesis by (simp add: admit_subject_result admission_cases fold_raise_Off)
qed

lemma admit_subject_closed:
  assumes "\<not> open_ceiling db s \<or> (\<exists>r \<in> set (grants db). perm_subject r = s \<and> in_scope ctx r \<and> perm_tier r = TierOff)"
  shows "admit_subject db now s ctx m = (AdmDeny, db)"
proof -
  have d: "fst (admit_subject db now s ctx m) = AdmDeny"
  proof (cases "open_ceiling db s")
    case True
    with assms admit_subject_deny show ?thesis by metis
  qed (simp add: admit_subject_result)
  moreover have "snd (admit_subject db now s ctx m) = db"
    using d by (auto simp: admit_subject_def Let_def split: if_splits)
  ultimately show ?thesis by (simp add: prod_eq_iff)
qed

subsection \<open>What the callers of the admission rely on\<close>

text \<open>
  The gate of a run and the approvals ask for an admission and go on unless it is denied. What they
  need of the service: a subject that is off for a context is denied, and a denial changes nothing.
\<close>

locale admission_port =
  fixes admit_op :: "'db \<Rightarrow> int \<Rightarrow> string \<Rightarrow> permission_context \<Rightarrow> tool_tier \<Rightarrow> admission \<times> 'db"
    and off :: "'db \<Rightarrow> string \<Rightarrow> permission_context \<Rightarrow> bool"
  assumes off_is_denied: "off db s ctx \<Longrightarrow> fst (admit_op db now s ctx m) = AdmDeny"
    and denial_keeps: "fst (admit_op db now s ctx m) = AdmDeny \<Longrightarrow> snd (admit_op db now s ctx m) = db"
    and admission_keeps_off: "off (snd (admit_op db now s ctx m)) s' ctx' = off db s' ctx'"
begin

lemma passes_only_when_on: "admit_op db now s ctx m = (a, db') \<Longrightarrow> a \<noteq> AdmDeny \<Longrightarrow> \<not> off db s ctx"
  using off_is_denied [of db s ctx now m] by auto

lemma still_on_afterwards: "admit_op db now s ctx m = (a, db') \<Longrightarrow> a \<noteq> AdmDeny \<Longrightarrow> \<not> off db' s ctx"
  using passes_only_when_on admission_keeps_off [of db now s ctx m s ctx] by fastforce

lemma off_answer: "off db s ctx \<Longrightarrow> admit_op db now s ctx m = (AdmDeny, db)"
  using off_is_denied denial_keeps by (metis prod.collapse)

end

definition tool_off :: "perm_db \<Rightarrow> string \<Rightarrow> permission_context \<Rightarrow> bool" where
  "tool_off db s ctx \<longleftrightarrow> \<not> open_ceiling db s \<or>
     (\<exists>r \<in> set (grants db). perm_subject r = s \<and> in_scope ctx r \<and> perm_tier r = TierOff)"

lemma tool_off_denied: "tool_off db s ctx \<Longrightarrow> admit_subject db now s ctx m = (AdmDeny, db)"
  unfolding tool_off_def by (rule admit_subject_closed)

lemma denied_keeps_tables: "fst (admit_subject db now s ctx m) = AdmDeny \<Longrightarrow> snd (admit_subject db now s ctx m) = db"
  by (auto simp: admit_subject_def Let_def split: if_splits)

interpretation perms: admission_port admit_subject tool_off
  by unfold_locales (simp_all add: tool_off_denied denied_keeps_tables, simp add: tool_off_def open_ceiling_def)

subsection \<open>Properties of the permissions\<close>

text \<open>A tool is admitted without asking exactly when its ceiling (if it is registered) is open
  and automatic, the call asks for no stricter tier, the user set it to automatic globally, and no
  row of the scopes of the run is stricter. A scoped grant can only tighten, never loosen.\<close>

lemma admit_subject_allow_iff:
  assumes "one_global db"
  shows "fst (admit_subject db now s ctx m) = AdmAllow \<longleftrightarrow>
    (\<forall>t. ceilings db s = Some t \<longrightarrow> ceil_enabled t \<and> ceil_available t \<and> ceil_tier t = TierAuto)
    \<and> m = TierAuto
    \<and> (\<exists>r \<in> set (grants db). perm_subject r = s \<and> perm_scope r = GLOBAL_SCOPE \<and> perm_tier r = TierAuto)
    \<and> (\<forall>r \<in> set (grants db). perm_subject r = s \<and> in_scope ctx r \<longrightarrow> perm_tier r = TierAuto)"
    (is "?lhs \<longleftrightarrow> ?rhs")
proof
  assume ?lhs
  then have o: "open_ceiling db s" and auto: "m = TierAuto"
    "(case ceilings db s of Some t \<Rightarrow> raise_tier (ceil_tier t) | None \<Rightarrow> id)
       (case List.find (\<lambda>r. perm_scope r = GLOBAL_SCOPE) (repo_list db s) of
          Some r \<Rightarrow> perm_tier r | None \<Rightarrow> TierAsk) = TierAuto"
    "\<forall>r \<in> set (filter (in_scope ctx) (repo_list db s)). perm_tier r = TierAuto"
    by (simp_all add: admit_subject_result admission_cases fold_raise_Auto raise_tier_Auto split: if_splits)
  from auto(2) obtain g where g: "List.find (\<lambda>r. perm_scope r = GLOBAL_SCOPE) (repo_list db s) = Some g"
    "perm_tier g = TierAuto"
    by (auto simp: raise_tier_Auto split: option.splits)
  with auto(2) o have "\<forall>t. ceilings db s = Some t \<longrightarrow> ceil_enabled t \<and> ceil_available t \<and> ceil_tier t = TierAuto"
    by (auto simp: raise_tier_Auto open_ceiling_def split: option.splits)
  with auto(1,3) g find_Some_mem [OF g(1)] show ?rhs by (auto simp: repo_list_def)
next
  assume r: ?rhs
  then obtain g where g: "g \<in> set (grants db)" "perm_subject g = s" "perm_scope g = GLOBAL_SCOPE" "perm_tier g = TierAuto"
    by blast
  have "open_ceiling db s" using r by (auto simp: open_ceiling_def split: option.splits)
  with r show ?lhs
    using global_find [OF assms g(1,2,3)] g(4)
    by (auto simp: admit_subject_result admission_cases fold_raise_Auto raise_tier_Auto repo_list_def
        split: option.splits)
qed

text \<open>C6: Switching a tool off in any applicable scope, disabling it or making it unavailable denies
  every call, and leaves the tables as they are.\<close>

theorem switched_off_tool_is_denied:
  assumes "\<not> open_ceiling db s \<or> (\<exists>r \<in> set (grants db). perm_subject r = s \<and> in_scope ctx r \<and> perm_tier r = TierOff)"
  shows "admit_subject db now s ctx m = (AdmDeny, db)"
  using assms by (rule admit_subject_closed)

text \<open>Every automatic admission is on the record: one use per applicable grant is appended to the
  log, in order, and a call that is not admitted leaves no use.\<close>

theorem admission_is_logged:
  "use_log (snd (admit_subject db now s ctx m)) = use_log db @
     (if fst (admit_subject db now s ctx m) = AdmAllow
      then map (use_of ctx now) (filter (in_scope ctx) (repo_list db s)) else [])"
  by (auto simp: admit_subject_def Let_def fold_log_uses admission_cases)

text \<open>Granting replaces the row of the same subject and scope, so a scope never holds two tiers for
  one subject, and revoking the new grant takes exactly it away.\<close>

lemma grant_then_revoke:
  assumes "one_global db" and "grant_in db fresh now s scope tier granter = (Inr i, db')"
    and "\<forall>r \<in> set (grants db). perm_id r \<noteq> fresh"
  shows "i = fresh \<and> one_global db'
    \<and> (\<forall>r \<in> set (grants db'). perm_subject r = s \<and> perm_scope r = scope \<longrightarrow> perm_tier r = tier \<and> perm_id r = fresh)
    \<and> set (grants (repo_revoke db' i)) = {r \<in> set (grants db). \<not> (perm_subject r = s \<and> perm_scope r = scope)}"
proof -
  let ?row = "\<lparr>perm_id = fresh, perm_subject = s, perm_scope = scope, perm_tier = tier,
     perm_granted_by = granter, perm_granted_at = now\<rparr>"
  have i: "i = fresh" and db': "db' = repo_grant db ?row"
    using assms(2) by (auto simp: grant_in_def split: if_splits)
  have up: "distinct (map (\<lambda>r. (perm_subject r, perm_scope r)) rs) \<Longrightarrow>
      set (upsert_grant ?row rs) = insert ?row {r \<in> set rs. \<not> (perm_subject r = s \<and> perm_scope r = scope)}" for rs
    by (induction rs) (auto simp: image_iff)
  have g: "set (grants db') = insert ?row {r \<in> set (grants db). \<not> (perm_subject r = s \<and> perm_scope r = scope)}"
    using up assms(1) by (simp add: db' repo_grant_def one_global_def)
  then show ?thesis using one_global_grant [OF assms(1)] assms(3)
    by (auto simp: i db' repo_revoke_def)
qed

subsection \<open>Witnesses\<close>

definition sample_grant :: "string \<Rightarrow> tool_tier \<Rightarrow> permission_row" where
  "sample_grant scope tier = \<lparr>perm_id = ''g'', perm_subject = ''mail.send'', perm_scope = scope,
     perm_tier = tier, perm_granted_by = ''user'', perm_granted_at = 1\<rparr>"

definition sample_db :: "permission_row list \<Rightarrow> perm_db" where
  "sample_db gs = \<lparr>grants = gs, use_log = [], ceilings = Map.empty, approvals = []\<rparr>"

definition sample_context :: permission_context where
  "sample_context = \<lparr>pc_run_id = ''r'', pc_scopes = [''skill:a'']\<rparr>"

theorem switched_off_tool_is_denied_witness:
  "fst (admit_subject (sample_db [sample_grant ''global'' TierAuto, sample_grant ''skill:a'' TierOff]) 5
     ''mail.send'' sample_context TierAuto) = AdmDeny"
proof -
  have "\<not> open_ceiling (sample_db [sample_grant ''global'' TierAuto, sample_grant ''skill:a'' TierOff]) ''mail.send''
    \<or> (\<exists>r \<in> set (grants (sample_db [sample_grant ''global'' TierAuto, sample_grant ''skill:a'' TierOff])).
        perm_subject r = ''mail.send'' \<and> in_scope sample_context r \<and> perm_tier r = TierOff)"
    by (simp add: sample_db_def sample_grant_def in_scope_def sample_context_def)
  from switched_off_tool_is_denied [OF this] show ?thesis by simp
qed

end
