(* ===== verification/Approvals.thy ===== *)
theory Approvals
  imports Permissions
begin

text \<open>
  Approval requests, \<^verbatim>\<open>services/approvals.rs\<close>: creating a request, waiting for its decision and
  deciding it, as the atomic steps of a machine in which a waiting step, the user and the clock
  interleave.

  \<^verbatim>\<open>wait\<close> is three steps: reading the row, putting the channel into the \<open>waiting\<close> map, and the end
  of the \<^verbatim>\<open>select!\<close> with \<^verbatim>\<open>settle\<close>. \<^verbatim>\<open>decide\<close> is four: the check of the row, the admission, the
  transaction, and taking the waiter out of the map and sending to it. Each holds the database or
  the map only for itself, so between these steps anything else may happen. \<open>checked\<close>, \<open>cleared\<close>
  and \<open>in_flight\<close> say how far the calls of \<^verbatim>\<open>decide\<close> have come; \<open>phase\<close> says it of \<^verbatim>\<open>wait\<close>.
\<close>

definition NO_LONGER_PENDING :: string where "NO_LONGER_PENDING = ''Approval is no longer pending''"
definition PERMISSION_REVOKED :: string where "PERMISSION_REVOKED = ''Permission revoked''"
definition MAX_TIMEOUT_MS :: nat where "MAX_TIMEOUT_MS = 2147483647"

datatype wait_phase = WIdle | WRead | WWaiting | WDone approval_decision

record appr_sys =
  sys_db :: perm_db
  waiting :: "string set"
  delivered :: "string \<Rightarrow> approval_decision option"
  checked :: "(string \<times> approval_row \<times> approval_decision) set"
  cleared :: "(string \<times> approval_row \<times> approval_decision) set"
  in_flight :: "(string \<times> approval_decision) set"
  phase :: "string \<Rightarrow> wait_phase"

text \<open>\<^verbatim>\<open>new\<close>: the timeout in nanoseconds must be whole milliseconds between 1 and the maximum.\<close>

definition approval_service_new :: "nat \<Rightarrow> app_error + nat" where
  "approval_service_new nanos =
     (let millis = nanos div 1000000 in
      if \<not> (1 \<le> millis \<and> millis \<le> MAX_TIMEOUT_MS) \<or> nanos mod 1000000 \<noteq> 0
      then Inl (app_error_new ValidationFailed ''Invalid approval timeout'') else Inr millis)"

definition create_approval :: "nat \<Rightarrow> appr_sys \<Rightarrow> int \<Rightarrow> string \<Rightarrow> string \<Rightarrow> string \<Rightarrow> string \<Rightarrow> appr_sys" where
  "create_approval timeout s now fresh run subject scope =
     s\<lparr>sys_db := repo_create_approval (sys_db s)
        \<lparr>appr_id = fresh, appr_run_id = run, appr_subject = subject, appr_scope = scope,
         appr_expires_at = now + int timeout, appr_decision = None\<rparr>\<rparr>"

definition settle_approval :: "appr_sys \<Rightarrow> string \<Rightarrow> approval_decision \<Rightarrow> appr_sys" where
  "settle_approval s i d = s\<lparr>waiting := waiting s - {i}, sys_db := repo_decide (sys_db s) i d\<rparr>"

definition wait_read :: "appr_sys \<Rightarrow> string \<Rightarrow> appr_sys" where
  "wait_read s i = s\<lparr>phase := (phase s)(i :=
     (case repo_approval (sys_db s) i of
        None \<Rightarrow> WDone Denied
      | Some row \<Rightarrow> (case appr_decision row of Some d \<Rightarrow> WDone d | None \<Rightarrow> WRead)))\<rparr>"

definition wait_insert :: "appr_sys \<Rightarrow> string \<Rightarrow> appr_sys" where
  "wait_insert s i = s\<lparr>waiting := insert i (waiting s), delivered := (delivered s)(i := None),
     phase := (phase s)(i := WWaiting)\<rparr>"

text \<open>The end of the biased \<^verbatim>\<open>select!\<close>: a delivered decision wins; a dropped sender, a cancelled
  run and the timeout are denials.\<close>

definition wait_end :: "appr_sys \<Rightarrow> string \<Rightarrow> appr_sys" where
  "wait_end s i = (let d = (case delivered s i of Some d \<Rightarrow> d | None \<Rightarrow> Denied) in
     settle_approval (s\<lparr>phase := (phase s)(i := WDone d)\<rparr>) i d)"

definition is_pending_row :: "int \<Rightarrow> string \<Rightarrow> approval_row \<Rightarrow> bool" where
  "is_pending_row now run row \<longleftrightarrow> appr_run_id row = run \<and> appr_decision row = None \<and> now < appr_expires_at row"

definition is_pending :: "appr_sys \<Rightarrow> int \<Rightarrow> string \<Rightarrow> string \<Rightarrow> bool" where
  "is_pending s now run i = (case repo_approval (sys_db s) i of None \<Rightarrow> False | Some row \<Rightarrow> is_pending_row now run row)"

text \<open>The scopes of a run's graph are read from the run table: \<open>run_scopes\<close>.\<close>

definition decide_check :: "appr_sys \<Rightarrow> int \<Rightarrow> string \<Rightarrow> string \<Rightarrow> app_error + approval_row" where
  "decide_check s now run i =
     (case repo_approval (sys_db s) i of
        None \<Rightarrow> Inl (app_error_new Conflict NO_LONGER_PENDING)
      | Some row \<Rightarrow> if is_pending_row now run row then Inr row else Inl (app_error_new Conflict NO_LONGER_PENDING))"

definition decide_admit ::
  "(string \<Rightarrow> string list) \<Rightarrow> appr_sys \<Rightarrow> int \<Rightarrow> string \<Rightarrow> approval_row \<Rightarrow> approval_decision
    \<Rightarrow> (app_error + unit) \<times> appr_sys"
where
  "decide_admit run_scopes s now run row d =
     (if d \<noteq> Approved then (Inr (), s)
      else
        let scopes = run_scopes run @ (if appr_scope row \<noteq> GLOBAL_SCOPE then [appr_scope row] else []);
            (admission, db) = admit_subject (sys_db s) now (appr_subject row)
              \<lparr>pc_run_id = run, pc_scopes = scopes\<rparr> TierAuto in
        if admission = AdmDeny
        then (Inl (app_error_new PermissionDenied PERMISSION_REVOKED), s\<lparr>sys_db := db\<rparr>)
        else (Inr (), s\<lparr>sys_db := db\<rparr>))"

text \<open>The transaction: a failing grant rolls everything back.\<close>

definition decide_commit ::
  "appr_sys \<Rightarrow> int \<Rightarrow> string \<Rightarrow> string \<Rightarrow> approval_row \<Rightarrow> approval_decision \<Rightarrow> bool
    \<Rightarrow> (app_error + unit) \<times> appr_sys"
where
  "decide_commit s now fresh i row d always =
     (case (if always \<and> d = Approved
            then grant_in (sys_db s) fresh now (appr_subject row) (appr_scope row) TierAuto ''user''
            else (Inr fresh, sys_db s)) of
        (Inl e, _) \<Rightarrow> (Inl e, s)
      | (Inr _, db) \<Rightarrow> (Inr (), s\<lparr>sys_db := repo_decide db i d, in_flight := insert (i, d) (in_flight s)\<rparr>))"

definition decide_send :: "appr_sys \<Rightarrow> string \<Rightarrow> approval_decision \<Rightarrow> appr_sys" where
  "decide_send s i d =
     (let s' = s\<lparr>in_flight := in_flight s - {(i, d)}\<rparr> in
      if i \<in> waiting s then s'\<lparr>waiting := waiting s - {i}, delivered := (delivered s)(i := Some d)\<rparr> else s')"

text \<open>A call of \<^verbatim>\<open>decide\<close> with nothing in between.\<close>

definition decide_request ::
  "(string \<Rightarrow> string list) \<Rightarrow> appr_sys \<Rightarrow> int \<Rightarrow> string \<Rightarrow> string \<Rightarrow> string \<Rightarrow> approval_decision \<Rightarrow> bool
    \<Rightarrow> (app_error + unit) \<times> appr_sys"
where
  "decide_request run_scopes s now fresh run i d always =
     (case decide_check s now run i of
        Inl e \<Rightarrow> (Inl e, s)
      | Inr row \<Rightarrow>
          (case decide_admit run_scopes s now run row d of
             (Inl e, s1) \<Rightarrow> (Inl e, s1)
           | (Inr _, s1) \<Rightarrow>
               (case decide_commit s1 now fresh i row d always of
                  (Inl e, s2) \<Rightarrow> (Inl e, s2)
                | (Inr _, s2) \<Rightarrow> (Inr (), decide_send s2 i d))))"

subsection \<open>The machine\<close>

inductive appr_step :: "(string \<Rightarrow> string list) \<Rightarrow> appr_sys \<Rightarrow> appr_sys \<Rightarrow> bool" for run_scopes where
  step_create: "repo_approval (sys_db s) i = None \<Longrightarrow>
     appr_step run_scopes s (create_approval timeout s now i run subject scope)"
| step_read: "phase s i = WIdle \<Longrightarrow> appr_step run_scopes s (wait_read s i)"
| step_insert: "phase s i = WRead \<Longrightarrow> appr_step run_scopes s (wait_insert s i)"
| step_end: "phase s i = WWaiting \<Longrightarrow> appr_step run_scopes s (wait_end s i)"
| step_check: "decide_check s now run i = Inr row \<Longrightarrow>
     appr_step run_scopes s (s\<lparr>checked := insert (i, row, d) (checked s)\<rparr>)"
| step_admit: "(i, row, d) \<in> checked s \<Longrightarrow> decide_admit run_scopes s now run row d = (Inr (), s') \<Longrightarrow>
     appr_step run_scopes s (s'\<lparr>cleared := insert (i, row, d) (cleared s)\<rparr>)"
| step_refused: "(i, row, d) \<in> checked s \<Longrightarrow> decide_admit run_scopes s now run row d = (Inl e, s') \<Longrightarrow>
     appr_step run_scopes s s'"
| step_commit: "(i, row, d) \<in> cleared s \<Longrightarrow> decide_commit s now fresh i row d always = (r, s') \<Longrightarrow>
     appr_step run_scopes s s'"
| step_send: "(i, d) \<in> in_flight s \<Longrightarrow> appr_step run_scopes s (decide_send s i d)"
| step_tables: "approvals db = approvals (sys_db s) \<Longrightarrow> appr_step run_scopes s (s\<lparr>sys_db := db\<rparr>)"

inductive_cases appr_stepE: "appr_step run_scopes s s'"

definition appr_init :: "perm_db \<Rightarrow> appr_sys" where
  "appr_init db = \<lparr>sys_db = db, waiting = {}, delivered = Map.empty, checked = {}, cleared = {},
     in_flight = {}, phase = (\<lambda>_. WIdle)\<rparr>"

inductive appr_reachable :: "(string \<Rightarrow> string list) \<Rightarrow> appr_sys \<Rightarrow> bool" for run_scopes where
  appr_start: "approvals db = [] \<Longrightarrow> appr_reachable run_scopes (appr_init db)"
| appr_next: "appr_reachable run_scopes s \<Longrightarrow> appr_step run_scopes s s' \<Longrightarrow> appr_reachable run_scopes s'"

subsection \<open>Row lemmas\<close>

lemma find_map_same_id:
  "(\<And>r. appr_id (f r) = appr_id r) \<Longrightarrow>
     List.find (\<lambda>r. appr_id r = i) (map f rs) = map_option f (List.find (\<lambda>r. appr_id r = i) rs)"
  by (induction rs) auto

lemma repo_approval_decide:
  "repo_approval (repo_decide db i d) j =
     map_option (\<lambda>r. if appr_id r = i then r\<lparr>appr_decision := Some d\<rparr> else r) (repo_approval db j)"
  by (simp add: repo_approval_def repo_decide_def find_map_same_id)

lemma repo_approval_id: "repo_approval db i = Some r \<Longrightarrow> appr_id r = i"
  by (auto simp: repo_approval_def dest: find_Some_mem)

lemma repo_approval_cong: "approvals db = approvals db' \<Longrightarrow> repo_approval db i = repo_approval db' i"
  by (simp add: repo_approval_def)

lemma create_approval_row:
  "repo_approval (sys_db (create_approval t s now i run subj sc)) j =
     (case repo_approval (sys_db s) j of Some r \<Rightarrow> Some r
      | None \<Rightarrow> if i = j then Some \<lparr>appr_id = i, appr_run_id = run, appr_subject = subj, appr_scope = sc,
                   appr_expires_at = now + int t, appr_decision = None\<rparr> else None)"
proof -
  have "List.find P (xs @ [x]) = (case List.find P xs of Some y \<Rightarrow> Some y | None \<Rightarrow> if P x then Some x else None)"
    for P :: "approval_row \<Rightarrow> bool" and xs x by (induction xs) auto
  then show ?thesis by (simp add: create_approval_def repo_create_approval_def repo_approval_def split: option.splits)
qed

lemma grant_in_approvals: "grant_in db f n s c t b = (r, db') \<Longrightarrow> approvals db' = approvals db"
  by (auto simp: grant_in_def repo_grant_def split: if_splits)

lemma decide_admit_frame:
  assumes "decide_admit rs s now run row d = (r, s')"
  obtains db where "s' = s\<lparr>sys_db := db\<rparr>" "approvals db = approvals (sys_db s)"
proof -
  have "s' = s\<lparr>sys_db := sys_db s'\<rparr> \<and> approvals (sys_db s') = approvals (sys_db s)"
    using assms by (auto simp: decide_admit_def Let_def case_prod_beta split: if_splits)
  with that show thesis by blast
qed

lemma decide_commit_cases:
  assumes "decide_commit s now fresh i row d always = (r, s')"
  obtains (failed) e where "r = Inl e" "s' = s"
  | (decided) db where "r = Inr ()" "approvals db = approvals (sys_db s)"
      "s' = s\<lparr>sys_db := repo_decide db i d, in_flight := insert (i, d) (in_flight s)\<rparr>"
proof -
  obtain g db where g: "(if always \<and> d = Approved
      then grant_in (sys_db s) fresh now (appr_subject row) (appr_scope row) TierAuto ''user''
      else (Inr fresh, sys_db s)) = (g, db)" by fastforce
  then have ap: "approvals db = approvals (sys_db s)" using grant_in_approvals by (auto split: if_splits)
  have "(r, s') = (case g of Inl e \<Rightarrow> (Inl e, s)
      | Inr _ \<Rightarrow> (Inr (), s\<lparr>sys_db := repo_decide db i d, in_flight := insert (i, d) (in_flight s)\<rparr>))"
    using assms by (simp only: decide_commit_def g prod.case)
  with ap failed decided show thesis by (auto split: sum.splits)
qed

lemma decide_check_iff:
  "decide_check s now run i = Inr row \<longleftrightarrow> repo_approval (sys_db s) i = Some row \<and> is_pending_row now run row"
  by (auto simp: decide_check_def split: option.splits)

subsection \<open>The invariant\<close>

text \<open>
  A decision has one way only: a user's call of \<^verbatim>\<open>decide\<close> that found the row pending and passed the
  admission. \<open>decided_by_call\<close> says that such a call exists; the answers on their way, delivered, on
  record and acted on are approvals only if it holds.
\<close>

definition decided_by_call :: "appr_sys \<Rightarrow> string \<Rightarrow> approval_decision \<Rightarrow> bool" where
  "decided_by_call s i d \<longleftrightarrow> (\<exists>row. (i, row, d) \<in> cleared s)"

definition calls_sound :: "appr_sys \<Rightarrow> bool" where
  "calls_sound s \<longleftrightarrow> cleared s \<subseteq> checked s
     \<and> (\<forall>(i, row, d) \<in> checked s. appr_id row = i \<and> appr_decision row = None)"

definition answers_sound :: "appr_sys \<Rightarrow> string \<Rightarrow> bool" where
  "answers_sound s i \<longleftrightarrow>
     (\<forall>d. (i, d) \<in> in_flight s \<longrightarrow> decided_by_call s i d)
     \<and> (\<forall>d. delivered s i = Some d \<longrightarrow> decided_by_call s i d)
     \<and> (\<forall>row. repo_approval (sys_db s) i = Some row \<longrightarrow> appr_decision row = Some Approved \<longrightarrow> decided_by_call s i Approved)
     \<and> (phase s i = WDone Approved \<longrightarrow> decided_by_call s i Approved)"

definition appr_inv :: "appr_sys \<Rightarrow> bool" where
  "appr_inv s \<longleftrightarrow> calls_sound s \<and> (\<forall>i. answers_sound s i)"

lemma appr_inv_iff:
  "appr_inv s \<longleftrightarrow> calls_sound s
     \<and> (\<forall>i d. (i, d) \<in> in_flight s \<longrightarrow> decided_by_call s i d)
     \<and> (\<forall>i d. delivered s i = Some d \<longrightarrow> decided_by_call s i d)
     \<and> (\<forall>i row. repo_approval (sys_db s) i = Some row \<longrightarrow> appr_decision row = Some Approved \<longrightarrow> decided_by_call s i Approved)
     \<and> (\<forall>i. phase s i = WDone Approved \<longrightarrow> decided_by_call s i Approved)"
  unfolding appr_inv_def answers_sound_def by blast

lemma create_approval_frame [simp]:
  "phase (create_approval t s now i run subj sc) = phase s"
  "delivered (create_approval t s now i run subj sc) = delivered s"
  "in_flight (create_approval t s now i run subj sc) = in_flight s"
  "checked (create_approval t s now i run subj sc) = checked s"
  "cleared (create_approval t s now i run subj sc) = cleared s"
  by (simp_all add: create_approval_def)

lemma appr_inv_create: "appr_inv s \<Longrightarrow> appr_inv (create_approval t s now i run subj sc)"
  unfolding appr_inv_iff
  by (auto simp: calls_sound_def create_approval_row decided_by_call_def
      split: option.splits if_splits)

lemma appr_inv_read: "appr_inv s \<Longrightarrow> appr_inv (wait_read s i)"
  unfolding appr_inv_iff
  by (auto simp: calls_sound_def answers_sound_def wait_read_def decided_by_call_def split: option.splits)

lemma appr_inv_insert: "appr_inv s \<Longrightarrow> appr_inv (wait_insert s i)"
  unfolding appr_inv_iff
  by (auto simp: calls_sound_def answers_sound_def wait_insert_def decided_by_call_def)

text \<open>Writing a decision keeps the invariant when the decision is a denial or was made by a call.\<close>

lemma answers_sound_decide:
  assumes "answers_sound s j" "d = Approved \<Longrightarrow> decided_by_call s i Approved"
    and "approvals db = approvals (sys_db s)"
    and "repo_approval (repo_decide db i d) j = Some row" "appr_decision row = Some Approved"
  shows "decided_by_call s j Approved"
proof -
  obtain r where r: "repo_approval (sys_db s) j = Some r" "row = (if appr_id r = i then r\<lparr>appr_decision := Some d\<rparr> else r)"
    using assms(4) repo_approval_cong [OF assms(3), of j] by (auto simp: repo_approval_decide)
  show ?thesis
  proof (cases "appr_id r = i")
    case True
    with r assms(2,5) repo_approval_id [OF r(1)] show ?thesis by simp
  next
    case False
    with r assms(1,5) show ?thesis by (simp add: answers_sound_def)
  qed
qed

lemma appr_inv_end:
  assumes "appr_inv s" shows "appr_inv (wait_end s i)"
proof -
  define d where "d = (case delivered s i of Some d \<Rightarrow> d | None \<Rightarrow> Denied)"
  have d: "d = Approved \<Longrightarrow> decided_by_call s i Approved"
    using assms by (auto simp: d_def appr_inv_def answers_sound_def split: option.splits)
  have "answers_sound (wait_end s i) j" for j
    using assms d answers_sound_decide [OF _ d refl, of j]
    by (auto simp: appr_inv_def wait_end_def settle_approval_def Let_def d_def [symmetric] answers_sound_def
        decided_by_call_def)
  then show ?thesis using assms by (simp add: appr_inv_def wait_end_def settle_approval_def Let_def calls_sound_def)
qed

lemma appr_inv_commit:
  assumes "appr_inv s" "(i, row, d) \<in> cleared s" "decide_commit s now fresh i row d always = (r, s')"
  shows "appr_inv s'"
  using assms(3)
proof (cases rule: decide_commit_cases)
  case (decided db)
  have d: "decided_by_call s i d" using assms(2) by (auto simp: decided_by_call_def)
  have "answers_sound s' j" for j
    using assms(1) d answers_sound_decide [OF _ _ decided(2), of j d i]
    by (auto simp: appr_inv_def decided(3) answers_sound_def decided_by_call_def)
  then show ?thesis using assms(1) by (simp add: appr_inv_def decided(3) calls_sound_def)
qed (use assms(1) in simp)

lemma appr_inv_send: "appr_inv s \<Longrightarrow> (i, d) \<in> in_flight s \<Longrightarrow> appr_inv (decide_send s i d)"
  unfolding appr_inv_iff
  by (auto simp: decide_send_def Let_def calls_sound_def answers_sound_def decided_by_call_def)

lemma appr_inv_tables: "appr_inv s \<Longrightarrow> approvals db = approvals (sys_db s) \<Longrightarrow> appr_inv (s\<lparr>sys_db := db\<rparr>)"
  unfolding appr_inv_iff
  by (simp add: calls_sound_def answers_sound_def decided_by_call_def repo_approval_def)

lemma decided_by_call_insert:
  "decided_by_call s i d \<Longrightarrow> decided_by_call (s\<lparr>cleared := insert e (cleared s)\<rparr>) i d"
  by (auto simp: decided_by_call_def)

lemma appr_inv_cleared: "appr_inv s \<Longrightarrow> e \<in> checked s \<Longrightarrow> appr_inv (s\<lparr>cleared := insert e (cleared s)\<rparr>)"
  unfolding appr_inv_iff
  by (auto simp: calls_sound_def intro: decided_by_call_insert)

lemma appr_inv_checked:
  "appr_inv s \<Longrightarrow> decide_check s now run i = Inr row \<Longrightarrow> appr_inv (s\<lparr>checked := insert (i, row, d) (checked s)\<rparr>)"
  unfolding appr_inv_iff
  by (auto simp: calls_sound_def answers_sound_def decided_by_call_def decide_check_iff is_pending_row_def
      dest: repo_approval_id)

lemma appr_step_inv: "appr_step rs s s' \<Longrightarrow> appr_inv s \<Longrightarrow> appr_inv s'"
proof (induction rule: appr_step.induct)
  case (step_admit i row d s now run s')
  from step_admit(2) obtain db where s': "s' = s\<lparr>sys_db := db\<rparr>" "approvals db = approvals (sys_db s)"
    by (rule decide_admit_frame)
  from appr_inv_cleared [OF appr_inv_tables [OF step_admit(3) s'(2)], of "(i, row, d)"] step_admit(1)
  show ?case by (simp add: s'(1))
next
  case (step_refused i row d s now run e s')
  from step_refused(2) obtain db where "s' = s\<lparr>sys_db := db\<rparr>" "approvals db = approvals (sys_db s)"
    by (rule decide_admit_frame)
  with step_refused show ?case by (simp add: appr_inv_tables)
qed (simp_all add: appr_inv_create appr_inv_read appr_inv_insert appr_inv_end appr_inv_commit appr_inv_send
      appr_inv_tables appr_inv_checked)

lemma appr_reachable_inv: "appr_reachable rs s \<Longrightarrow> appr_inv s"
proof (induction rule: appr_reachable.induct)
  case (appr_start db)
  then show ?case
    by (simp add: appr_inv_def appr_init_def calls_sound_def answers_sound_def repo_approval_def)
qed (blast intro: appr_step_inv)

subsection \<open>Properties of the approvals\<close>

text \<open>C7: Whatever interleaving of requests, waiting steps, decisions, timeouts and cancellations led
  here, a step that was told its action is approved was approved by a call of decide for exactly this
  request: one that found the request undecided and passed the admission. No timeout, lost channel or
  other request can approve it.\<close>

theorem approval_needs_a_decision:
  assumes "appr_reachable run_scopes s" and "phase s i = WDone Approved"
  shows "\<exists>row. (i, row, Approved) \<in> cleared s \<and> (i, row, Approved) \<in> checked s
    \<and> appr_id row = i \<and> appr_decision row = None"
proof -
  from appr_reachable_inv [OF assms(1)] have c: "calls_sound s" and "decided_by_call s i Approved"
    using assms(2) by (simp_all add: appr_inv_iff)
  then obtain row where row: "(i, row, Approved) \<in> cleared s" by (auto simp: decided_by_call_def)
  with c have "(i, row, Approved) \<in> checked s" by (auto simp: calls_sound_def)
  with c row show ?thesis by (auto simp: calls_sound_def)
qed

lemma decide_commit_decided:
  assumes "decide_commit s now fresh i row d always = (Inr u, s')"
  obtains db where "approvals db = approvals (sys_db s)"
    "s' = s\<lparr>sys_db := repo_decide db i d, in_flight := insert (i, d) (in_flight s)\<rparr>"
  using assms by (cases rule: decide_commit_cases) auto

lemma repo_approval_send [simp]:
  "sys_db (decide_send s i d) = sys_db s"
  by (simp add: decide_send_def Let_def)

text \<open>A decision is accepted only while the request is pending for that run; it is then on record
  and handed to the step that waits for it, and every later call for the same request is refused
  with a conflict and changes nothing.\<close>

lemma decided_at_most_once:
  assumes "decide_request rs s now fresh run i d always = (Inr (), s')"
  shows "is_pending s now run i
    \<and> map_option appr_decision (repo_approval (sys_db s') i) = Some (Some d)
    \<and> (if i \<in> waiting s then delivered s' i = Some d \<and> i \<notin> waiting s' else delivered s' = delivered s)
    \<and> decide_request rs' s' now' fresh' run' i d' always' = (Inl (app_error_new Conflict NO_LONGER_PENDING), s')"
proof -
  from assms obtain row s1 s2 where ck: "decide_check s now run i = Inr row"
    and ad: "decide_admit rs s now run row d = (Inr (), s1)"
    and co: "decide_commit s1 now fresh i row d always = (Inr (), s2)" and s': "s' = decide_send s2 i d"
    by (auto simp: decide_request_def split: sum.splits prod.splits)
  from ck have row: "repo_approval (sys_db s) i = Some row" "is_pending_row now run row" by (simp_all add: decide_check_iff)
  from ad obtain db1 where s1: "s1 = s\<lparr>sys_db := db1\<rparr>" "approvals db1 = approvals (sys_db s)" by (rule decide_admit_frame)
  from co obtain db2 where s2: "approvals db2 = approvals (sys_db s1)"
    "s2 = s1\<lparr>sys_db := repo_decide db2 i d, in_flight := insert (i, d) (in_flight s1)\<rparr>" by (rule decide_commit_decided)
  have "repo_approval (sys_db s') i = Some (row\<lparr>appr_decision := Some d\<rparr>)"
    using row(1) repo_approval_cong [of db2 "sys_db s" i] s1 s2 repo_approval_id [OF row(1)]
    by (simp add: s' repo_approval_decide)
  with row s1 s2 show ?thesis
    by (simp add: is_pending_def decide_request_def decide_check_def is_pending_row_def s' decide_send_def Let_def)
qed

text \<open>Approving a subject that was switched off since the request is refused: no decision is put on
  record, no grant is written and nothing is sent to the waiting step.\<close>

lemma revoked_subject_cannot_be_approved:
  assumes "repo_approval (sys_db s) i = Some row" and "is_pending_row now run row"
    and "\<not> open_ceiling (sys_db s) (appr_subject row) \<or>
      (\<exists>r \<in> set (grants (sys_db s)). perm_subject r = appr_subject row \<and> perm_tier r = TierOff
         \<and> (perm_scope r = GLOBAL_SCOPE \<or> perm_scope r \<in> set (run_scopes run) \<or> perm_scope r = appr_scope row))"
  shows "decide_request run_scopes s now fresh run i Approved always
    = (Inl (app_error_new PermissionDenied PERMISSION_REVOKED), s)"
proof -
  let ?ctx = "\<lparr>pc_run_id = run, pc_scopes =
      run_scopes run @ (if appr_scope row \<noteq> GLOBAL_SCOPE then [appr_scope row] else [])\<rparr>"
  have "\<not> open_ceiling (sys_db s) (appr_subject row) \<or>
      (\<exists>r \<in> set (grants (sys_db s)). perm_subject r = appr_subject row \<and> in_scope ?ctx r \<and> perm_tier r = TierOff)"
    using assms(3) by (auto simp: in_scope_def)
  from admit_subject_closed [OF this]
  have "admit_subject (sys_db s) now (appr_subject row) ?ctx TierAuto = (AdmDeny, sys_db s)" by simp
  with assms(1,2) show ?thesis by (simp add: decide_request_def decide_check_def decide_admit_def Let_def)
qed

subsection \<open>Witnesses\<close>

definition sample_request :: "perm_db \<Rightarrow> appr_sys" where
  "sample_request db = create_approval 60000 (appr_init db) 0 ''a'' ''r'' ''mail.send'' ''global''"

text \<open>The runs below are evaluated on the request \<open>a\<close> of the run \<open>r\<close>.\<close>

lemmas sample_run_simps = sample_request_def sample_db_def create_approval_def repo_create_approval_def
  appr_init_def wait_read_def wait_insert_def wait_end_def settle_approval_def decide_request_def decide_check_def
  decide_admit_def decide_commit_def decide_send_def is_pending_row_def repo_approval_def repo_decide_def Let_def

theorem approval_needs_a_decision_witness:
  "\<exists>s row. appr_reachable (\<lambda>_. []) s \<and> phase s ''a'' = WDone Approved \<and> (''a'', row, Approved) \<in> cleared s"
proof -
  let ?s0 = "sample_request (sample_db [])"
  let ?s2 = "wait_insert (wait_read ?s0 ''a'') ''a''"
  obtain row where row: "decide_check ?s2 1 ''r'' ''a'' = Inr row"
    by (simp add: sample_run_simps)
  let ?s3 = "?s2\<lparr>checked := insert (''a'', row, Approved) (checked ?s2)\<rparr>"
  obtain s4 where s4: "decide_admit (\<lambda>_. []) ?s3 1 ''r'' row Approved = (Inr (), s4)" "phase s4 = phase ?s3" "waiting s4 = {''a''}"
    using row by (auto simp: sample_run_simps admit_subject_def repo_tool_ceiling_def repo_list_def raise_tier_def rank_def)
  let ?s5 = "s4\<lparr>cleared := insert (''a'', row, Approved) (cleared ?s3)\<rparr>"
  obtain s6 where s6: "decide_commit ?s5 1 ''f'' ''a'' row Approved False = (Inr (), s6)" "(''a'', Approved) \<in> in_flight s6"
    "phase s6 = phase ?s5" "waiting s6 = {''a''}"
    using s4(3) by (simp add: decide_commit_def)
  let ?s7 = "decide_send s6 ''a'' Approved"
  have d7: "delivered ?s7 ''a'' = Some Approved" "phase ?s7 ''a'' = WWaiting"
    using s6(3,4) s4(2) by (simp_all add: decide_send_def Let_def wait_insert_def)
  have "appr_reachable (\<lambda>_. []) ?s0"
    unfolding sample_request_def
    by (rule appr_next [OF appr_start step_create]) (simp_all add: sample_db_def appr_init_def repo_approval_def)
  then have "appr_reachable (\<lambda>_. []) (wait_read ?s0 ''a'')"
    by (rule appr_next) (simp add: step_read sample_request_def appr_init_def create_approval_def)
  then have "appr_reachable (\<lambda>_. []) ?s2" by (rule appr_next) (rule step_insert, simp add: sample_run_simps)
  then have "appr_reachable (\<lambda>_. []) ?s3" using step_check [OF row] by (rule appr_next)
  then have "appr_reachable (\<lambda>_. []) ?s5" by (rule appr_next) (rule step_admit [OF _ s4(1)], simp)
  then have "appr_reachable (\<lambda>_. []) s6" by (rule appr_next) (rule step_commit [OF _ s6(1)], simp)
  then have "appr_reachable (\<lambda>_. []) ?s7" using step_send [OF s6(2)] by (rule appr_next)
  then have r: "appr_reachable (\<lambda>_. []) (wait_end ?s7 ''a'')" by (rule appr_next) (rule step_end [OF d7(2)])
  moreover have p: "phase (wait_end ?s7 ''a'') ''a'' = WDone Approved"
    using d7(1) by (simp add: wait_end_def settle_approval_def Let_def)
  ultimately show ?thesis using approval_needs_a_decision [OF r p] by blast
qed

text \<open>
  The gap between reading the row and putting the channel into the map: a user whose approval falls
  into it is told that it was accepted, and it is on record; the step finds no answer, times out,
  runs on as denied and overwrites the record. The failure is on the safe side.
\<close>

theorem accepted_approval_can_be_lost:
  "let s1 = wait_read (sample_request (sample_db [])) ''a'';
       (r, s2) = decide_request (\<lambda>_. []) s1 1 ''f'' ''r'' ''a'' Approved False;
       s3 = wait_end (wait_insert s2 ''a'') ''a'' in
   r = Inr ()
   \<and> map_option appr_decision (repo_approval (sys_db s2) ''a'') = Some (Some Approved)
   \<and> phase s3 ''a'' = WDone Denied
   \<and> map_option appr_decision (repo_approval (sys_db s3) ''a'') = Some (Some Denied)"
  by (simp add: sample_run_simps admit_subject_def repo_tool_ceiling_def repo_list_def raise_tier_def rank_def)

end
