(* ===== verification/Gate.thy ===== *)
theory Gate
  imports ExecReview Approvals
begin

text \<open>
  The gate of a run, \<^verbatim>\<open>services/runs.rs\<close> (\<^verbatim>\<open>Gate\<close> and the admission hook), with the parts of the
  step's context it writes to (\<^verbatim>\<open>kernel/types.rs\<close>): whether a node or a tool call of the model may
  run, and on whose authority.

  While a step waits for an approval the rest of the system runs on: \<open>answer\<close> is an arbitrary function
  that gives the decision and the world as it is by then.
\<close>

datatype admission_origin = OriginGraph | OriginModel

datatype run_kind = KindChat | KindScenario | KindAgentic | KindJob | KindIndexing | KindDownload | KindBrowser
  | KindSkill | KindSubagent

record gate_run =
  gr_id :: string
  gr_kind :: run_kind
  gr_subject_id :: "string option"
  gr_graph :: run_graph

record deferred_approval =
  def_subject :: string
  def_scope :: string

record step_context =
  sc_run_id :: string
  sc_deferring :: bool
  sc_recording :: bool

record gate_world =
  gw_db :: perm_db
  gw_exec :: exec_state
  gw_deferred :: "deferred_approval option"
  gw_authorisation :: "tool_authorisation option"
  gw_uses :: "(string \<times> int) list"

record 're gate_env =
  ge_run :: "string \<Rightarrow> gate_run option"
  ge_tools :: bool
  ge_policy :: "'re exec_env option"
  ge_now :: int
  ge_later :: int
  ge_fresh :: string
  ge_timeout :: nat
  ge_answer :: "gate_world \<Rightarrow> string \<Rightarrow> (app_error + approval_decision) \<times> gate_world"
  ge_emit :: "app_error option"

subsection \<open>The step's context\<close>

definition defer_approval :: "step_context \<Rightarrow> deferred_approval \<Rightarrow> gate_world \<Rightarrow> bool \<times> gate_world" where
  "defer_approval ctx a w = (if \<not> sc_deferring ctx then (False, w) else (True, w\<lparr>gw_deferred := Some a\<rparr>))"

definition authorise :: "'re gate_env \<Rightarrow> step_context \<Rightarrow> tool_authorisation \<Rightarrow> gate_world \<Rightarrow> (app_error + unit) \<times> gate_world" where
  "authorise env ctx a w =
     (if \<not> sc_recording ctx then (Inr (), w)
      else ((case ge_emit env of Some e \<Rightarrow> Inl e | None \<Rightarrow> Inr ()), w\<lparr>gw_authorisation := Some a\<rparr>))"

subsection \<open>The gate\<close>

definition RUN_NOT_FOUND :: string where "RUN_NOT_FOUND = ''RUN_NOT_FOUND''"
definition OUTSIDE_ALLOWED_TOOLS :: string where "OUTSIDE_ALLOWED_TOOLS = ''OUTSIDE_ALLOWED_TOOLS''"

definition read_run :: "'re gate_env \<Rightarrow> string \<Rightarrow> app_error + gate_run" where
  "read_run env i = (case ge_run env i of Some r \<Rightarrow> Inr r | None \<Rightarrow> Inl (app_error_new NotFound RUN_NOT_FOUND))"

definition run_permission_context :: "gate_run \<Rightarrow> permission_context" where
  "run_permission_context run = \<lparr>pc_run_id = gr_id run,
     pc_scopes = permission_scopes (gr_graph run) @
       (case gr_subject_id run of
          Some s \<Rightarrow> if gr_kind run = KindScenario then [''scenario:'' @ s] else []
        | None \<Rightarrow> [])\<rparr>"

definition check_enabled :: "'re gate_env \<Rightarrow> perm_db \<Rightarrow> string \<Rightarrow> app_error + unit" where
  "check_enabled env db tool =
     (if ge_tools env \<and> \<not> open_ceiling db tool
      then Inl (app_error_new PermissionDenied ''Tool disabled'') else Inr ())"

definition outside_allowed :: "admission_origin \<Rightarrow> gate_run \<Rightarrow> string \<Rightarrow> bool" where
  "outside_allowed origin run tool \<longleftrightarrow> origin = OriginModel \<and> \<not> allows_tool (gr_graph run) tool"

definition gate_app_folder ::
  "'re gate_env \<Rightarrow> string \<Rightarrow> step_context \<Rightarrow> admission_origin \<Rightarrow> gate_world \<Rightarrow> (app_error + unit) \<times> gate_world"
where
  "gate_app_folder env tool ctx origin w =
     (case read_run env (sc_run_id ctx) of
        Inl e \<Rightarrow> (Inl e, w)
      | Inr run \<Rightarrow>
          if outside_allowed origin run tool then (Inl (app_error_new PermissionDenied OUTSIDE_ALLOWED_TOOLS), w)
          else
            (case check_enabled env (gw_db w) tool of
               Inl e \<Rightarrow> (Inl e, w)
             | Inr _ \<Rightarrow>
                 (case admit_app_folder (gw_db w) tool (run_permission_context run) of
                    AdmDeny \<Rightarrow> (Inl (app_error_new PermissionDenied ''Permission denied''), w)
                  | _ \<Rightarrow> authorise env ctx (authorisation_of AuthAuto) w)))"

definition shortcut :: "run_kind \<Rightarrow> string \<Rightarrow> bool" where
  "shortcut kind tool \<longleftrightarrow>
     (kind \<in> {KindChat, KindSkill, KindScenario, KindAgentic} \<and> tool = ''llm.generate'')
     \<or> (kind = KindChat \<and> tool = ''vector.search'')
     \<or> (kind = KindIndexing \<and> tool = ''vector.index'')
     \<or> (kind = KindDownload \<and> tool = ''download.fetch'')"

definition request_row :: "'re gate_env \<Rightarrow> string \<Rightarrow> string \<Rightarrow> string \<Rightarrow> approval_row" where
  "request_row env run tool scope = \<lparr>appr_id = ge_fresh env, appr_run_id = run, appr_subject = tool,
     appr_scope = scope, appr_expires_at = ge_now env + int (ge_timeout env), appr_decision = None\<rparr>"

text \<open>Asking the user, and looking again once the answer has come.\<close>

definition ask_user_for ::
  "'re gate_env \<Rightarrow> gate_run \<Rightarrow> string \<Rightarrow> string \<Rightarrow> tool_tier \<Rightarrow> string option \<Rightarrow> step_context \<Rightarrow> gate_world
    \<Rightarrow> (app_error + unit) \<times> gate_world"
where
  "ask_user_for env run tool scope minimum reason ctx w =
     (let w1 = w\<lparr>gw_db := repo_create_approval (gw_db w) (request_row env (gr_id run) tool scope)\<rparr> in
      case ge_answer env w1 (ge_fresh env) of
        (Inl e, w2) \<Rightarrow> (Inl e, w2)
      | (Inr decision, w2) \<Rightarrow>
          if decision \<noteq> Approved then (Inl (app_error_new ApprovalDenied ''Approval denied''), w2)
          else
            (case admit_subject (gw_db w2) (ge_later env) tool (run_permission_context run) minimum of
               (again, db3) \<Rightarrow>
                 let w3 = w2\<lparr>gw_db := db3\<rparr> in
                 if again = AdmDeny then (Inl (app_error_new PermissionDenied ''Permission revoked''), w3)
                 else authorise env ctx (because_of reason (authorisation_of AuthApproved)) w3))"

definition ask_for_tool ::
  "'re gate_env \<Rightarrow> gate_run \<Rightarrow> string \<Rightarrow> tool_tier \<Rightarrow> step_context \<Rightarrow> gate_world \<Rightarrow> (app_error + unit) \<times> gate_world"
where
  "ask_for_tool env run tool minimum ctx w =
     (let scope = (case pc_scopes (run_permission_context run) of [] \<Rightarrow> ''global'' | s # _ \<Rightarrow> s) in
      case defer_approval ctx \<lparr>def_subject = tool, def_scope = scope\<rparr> w of
        (True, w1) \<Rightarrow> (Inr (), w1)
      | (False, w1) \<Rightarrow>
          (case review_action (ge_policy env) (gw_exec w1) (sc_run_id ctx) (if minimum = TierAsk then RDeclared else RPlain) of
             (r, ex) \<Rightarrow>
               let w2 = w1\<lparr>gw_exec := ex\<rparr> in
               (case r of
                  Inl e \<Rightarrow> (Inl e, w2)
                | Inr (VRun a) \<Rightarrow> authorise env ctx a w2
                | Inr (VDeny rule) \<Rightarrow> (Inl (app_error_new PermissionDenied ''RULE_DENIED''), w2)
                | Inr (VAsk reason) \<Rightarrow> ask_user_for env run tool scope minimum reason ctx w2)))"

definition gate_tool ::
  "'re gate_env \<Rightarrow> string \<Rightarrow> tool_tier option \<Rightarrow> step_context \<Rightarrow> admission_origin \<Rightarrow> gate_world \<Rightarrow> (app_error + unit) \<times> gate_world"
where
  "gate_tool env tool tier ctx origin w =
     (case read_run env (sc_run_id ctx) of
        Inl e \<Rightarrow> (Inl e, w)
      | Inr run \<Rightarrow>
          if outside_allowed origin run tool then (Inl (app_error_new PermissionDenied OUTSIDE_ALLOWED_TOOLS), w)
          else if origin = OriginGraph \<and> shortcut (gr_kind run) tool then (Inr (), w)
          else
            (case check_enabled env (gw_db w) tool of
               Inl e \<Rightarrow> (Inl e, w)
             | Inr _ \<Rightarrow>
                 let ctx' = run_permission_context run;
                     minimum = (case tier of Some t \<Rightarrow> t | None \<Rightarrow> TierAuto) in
                 (case admit_subject (gw_db w) (ge_now env) tool ctx' minimum of
                    (a, db1) \<Rightarrow>
                      let w1 = w\<lparr>gw_db := db1\<rparr> in
                      (case a of
                         AdmAllow \<Rightarrow> authorise env ctx (authorisation_of (if granted db1 tool ctx' then AuthGranted else AuthAuto)) w1
                       | AdmDeny \<Rightarrow> (Inl (app_error_new PermissionDenied ''Permission denied''), w1)
                       | AdmAsk \<Rightarrow> ask_for_tool env run tool minimum ctx w1))))"

definition record_use :: "'re gate_env \<Rightarrow> string \<Rightarrow> gate_world \<Rightarrow> gate_world" where
  "record_use env tool w =
     (if ge_tools env \<and> ceilings (gw_db w) tool \<noteq> None then w\<lparr>gw_uses := gw_uses w @ [(tool, ge_later env)]\<rparr> else w)"

definition gate_hook ::
  "'re gate_env \<Rightarrow> permission_requirement \<Rightarrow> step_context \<Rightarrow> admission_origin \<Rightarrow> gate_world \<Rightarrow> (app_error + unit) \<times> gate_world"
where
  "gate_hook env requirement ctx origin w =
     (case requirement of
        ReqNone \<Rightarrow> (Inr (), w)
      | ReqTool tool tier \<Rightarrow>
          (case gate_tool env tool tier ctx origin w of
             (Inl e, w') \<Rightarrow> (Inl e, w') | (Inr _, w') \<Rightarrow> (Inr (), record_use env tool w'))
      | ReqAppFolder tool \<Rightarrow>
          (case gate_app_folder env tool ctx origin w of
             (Inl e, w') \<Rightarrow> (Inl e, w') | (Inr _, w') \<Rightarrow> (Inr (), record_use env tool w')))"

text \<open>A tool call of the model may raise the tier its node asks for (\<^verbatim>\<open>invoke_tool\<close> of the scheduler).\<close>

definition raise_requirement :: "tool_tier option \<Rightarrow> permission_requirement \<Rightarrow> permission_requirement" where
  "raise_requirement minimum r = (case r of
     ReqTool tool tier \<Rightarrow> if minimum = Some TierAsk \<and> tier \<noteq> Some TierOff then ReqTool tool (Some TierAsk) else r
   | ReqAppFolder tool \<Rightarrow> if minimum = Some TierAsk then ReqTool tool (Some TierAsk) else r
   | ReqNone \<Rightarrow> ReqNone)"

subsection \<open>What a passed gate means\<close>

definition minimum_of :: "tool_tier option \<Rightarrow> tool_tier" where
  "minimum_of tier = (case tier of Some t \<Rightarrow> t | None \<Rightarrow> TierAuto)"

lemma minimum_of_Some [simp]: "minimum_of (Some t) = t"
  by (simp add: minimum_of_def)

definition review_of ::
  "'re gate_env \<Rightarrow> tool_tier \<Rightarrow> step_context \<Rightarrow> gate_world \<Rightarrow> (app_error + review_verdict) \<times> exec_state"
where
  "review_of env minimum ctx w = review_action (ge_policy env) (gw_exec w) (sc_run_id ctx) (if minimum = TierAsk then RDeclared else RPlain)"

definition approved_by_user :: "'re gate_env \<Rightarrow> gate_run \<Rightarrow> string \<Rightarrow> bool" where
  "approved_by_user env run tool \<longleftrightarrow> (\<exists>w1 w2. repo_approval (gw_db w1) (ge_fresh env) \<noteq> None
     \<and> ge_answer env w1 (ge_fresh env) = (Inr Approved, w2) \<and> \<not> tool_off (gw_db w2) tool (run_permission_context run))"

lemma find_append_Some: "P x \<Longrightarrow> List.find P (xs @ [x]) \<noteq> None"
  by (induction xs) auto

lemma ask_user_for_passes:
  assumes "ask_user_for env run tool scope minimum reason ctx w = (Inr (), w')"
  shows "approved_by_user env run tool"
proof -
  let ?w1 = "w\<lparr>gw_db := repo_create_approval (gw_db w) (request_row env (gr_id run) tool scope)\<rparr>"
  obtain r w2 where r: "ge_answer env ?w1 (ge_fresh env) = (r, w2)" by (metis prod.collapse)
  with assms have a: "r = Inr Approved" by (auto simp: ask_user_for_def Let_def split: sum.splits if_splits)
  obtain again db3 where again: "admit_subject (gw_db w2) (ge_later env) tool (run_permission_context run) minimum = (again, db3)"
    by (metis prod.collapse)
  with assms r a have "again \<noteq> AdmDeny" by (auto simp: ask_user_for_def Let_def)
  with again have "\<not> tool_off (gw_db w2) tool (run_permission_context run)" by (rule perms.passes_only_when_on)
  moreover have "repo_approval (gw_db ?w1) (ge_fresh env) \<noteq> None"
    using find_append_Some [of "\<lambda>r. appr_id r = ge_fresh env" "request_row env (gr_id run) tool scope"]
    by (simp add: repo_approval_def repo_create_approval_def request_row_def)
  ultimately show ?thesis unfolding approved_by_user_def using r a by blast
qed

lemma ask_for_tool_passes:
  assumes "ask_for_tool env run tool minimum ctx w = (Inr (), w')" "\<not> sc_deferring ctx"
  shows "(\<exists>a ex. review_of env minimum ctx w = (Inr (VRun a), ex))
    \<or> (\<exists>reason ex. review_of env minimum ctx w = (Inr (VAsk reason), ex)) \<and> approved_by_user env run tool"
proof -
  obtain r ex where r: "review_of env minimum ctx w = (r, ex)" by (metis prod.collapse)
  with assms show ?thesis
    by (auto simp: ask_for_tool_def defer_approval_def review_of_def Let_def split: sum.splits review_verdict.splits
        dest: ask_user_for_passes)
qed

lemma gate_tool_open:
  assumes "gate_tool env tool tier ctx origin w = (Inr (), w')" "read_run env (sc_run_id ctx) = Inr run"
    and "\<not> (origin = OriginGraph \<and> shortcut (gr_kind run) tool)"
  obtains a db1 where "check_enabled env (gw_db w) tool = Inr ()"
    "admit_subject (gw_db w) (ge_now env) tool (run_permission_context run) (minimum_of tier) = (a, db1)" "a \<noteq> AdmDeny"
    "a = AdmAsk \<Longrightarrow> ask_for_tool env run tool (minimum_of tier) ctx (w\<lparr>gw_db := db1\<rparr>) = (Inr (), w')"
proof -
  obtain a db1 where a: "admit_subject (gw_db w) (ge_now env) tool (run_permission_context run) (minimum_of tier) = (a, db1)"
    by (metis prod.collapse)
  have "\<not> outside_allowed origin run tool" using assms(1,2) by (auto simp: gate_tool_def)
  moreover from this have c: "check_enabled env (gw_db w) tool = Inr ()"
    using assms by (cases "check_enabled env (gw_db w) tool") (auto simp: gate_tool_def)
  ultimately show thesis using assms a
    by (intro that [OF c a]) (auto simp: gate_tool_def minimum_of_def [symmetric])
qed

text \<open>C14: What passes the gate has passed it on authority, in one of five ways. A node of the graph passes at once when
  its tool is what the kind of its run is for (\<open>shortcut\<close>), even if the tool is switched off. Everything else passes
  only when the tool is enabled and not switched off in any applicable scope, and, for a call of the model, on the
  list of the run; and then the permissions admit it without asking; or the step defers the question, which the gate
  leaves on the step for its node to put; or the execution policy has reviewed the call and lets it run; or the user
  approved this very request and the tool was not switched off while the step waited. This holds whatever else
  happens during the wait.\<close>

theorem gate_needs_authority:
  assumes "gate_tool env tool tier ctx origin w = (Inr (), w')" and "read_run env (sc_run_id ctx) = Inr run"
  shows "origin = OriginGraph \<and> shortcut (gr_kind run) tool \<and> w' = w
    \<or> \<not> tool_off (gw_db w) tool (run_permission_context run) \<and> (origin = OriginGraph \<or> allows_tool (gr_graph run) tool)
      \<and> (case admit_subject (gw_db w) (ge_now env) tool (run_permission_context run) (minimum_of tier) of
         (AdmAllow, _) \<Rightarrow> True
       | (AdmAsk, db1) \<Rightarrow>
           if sc_deferring ctx then map_option def_subject (gw_deferred w') = Some tool
           else (\<exists>a ex. review_of env (minimum_of tier) ctx (w\<lparr>gw_db := db1\<rparr>) = (Inr (VRun a), ex))
             \<or> (\<exists>reason ex. review_of env (minimum_of tier) ctx (w\<lparr>gw_db := db1\<rparr>) = (Inr (VAsk reason), ex))
                \<and> approved_by_user env run tool
       | (AdmDeny, _) \<Rightarrow> False)"
proof (cases "origin = OriginGraph \<and> shortcut (gr_kind run) tool")
  case True
  with assms show ?thesis by (auto simp: gate_tool_def outside_allowed_def)
next
  case False
  from gate_tool_open [OF assms False] obtain a db1 where
    a: "admit_subject (gw_db w) (ge_now env) tool (run_permission_context run) (minimum_of tier) = (a, db1)" "a \<noteq> AdmDeny"
    and ask: "a = AdmAsk \<Longrightarrow> ask_for_tool env run tool (minimum_of tier) ctx (w\<lparr>gw_db := db1\<rparr>) = (Inr (), w')" by blast
  from a have "\<not> tool_off (gw_db w) tool (run_permission_context run)" by (rule perms.passes_only_when_on)
  moreover have "origin = OriginGraph \<or> allows_tool (gr_graph run) tool"
    using assms by (cases origin) (auto simp: gate_tool_def outside_allowed_def split: if_splits)
  moreover have "if sc_deferring ctx then map_option def_subject (gw_deferred w') = Some tool
      else (\<exists>b ex. review_of env (minimum_of tier) ctx (w\<lparr>gw_db := db1\<rparr>) = (Inr (VRun b), ex))
      \<or> (\<exists>reason ex. review_of env (minimum_of tier) ctx (w\<lparr>gw_db := db1\<rparr>) = (Inr (VAsk reason), ex))
        \<and> approved_by_user env run tool" if "a = AdmAsk"
    using ask_for_tool_passes [OF ask [OF that]] ask [OF that] by (auto simp: ask_for_tool_def defer_approval_def Let_def)
  ultimately show ?thesis using a by (cases a) simp_all
qed

text \<open>A tool that is switched off, disabled or unavailable never passes the gate, for a node of the
  graph (unless its tool is what its run is for) or a call of the model, with or without deferral; nothing is written and nobody is asked.\<close>

lemma closed_tool_never_passes:
  assumes "read_run env (sc_run_id ctx) = Inr run" and "tool_off (gw_db w) tool (run_permission_context run)"
    and "\<not> (origin = OriginGraph \<and> shortcut (gr_kind run) tool)"
  shows "\<exists>m. gate_tool env tool tier ctx origin w = (Inl (app_error_new PermissionDenied m), w)"
  using assms(1,3) perms.off_answer [OF assms(2), of "ge_now env" "minimum_of tier"]
  by (auto simp: gate_tool_def check_enabled_def minimum_of_def)

text \<open>The model cannot reach a tool outside the run's allow-list: the call is refused before any
  admission, any review and any question, and leaves the world as it was.\<close>

lemma model_stays_in_the_allow_list:
  assumes "read_run env (sc_run_id ctx) = Inr run" and "\<not> allows_tool (gr_graph run) tool"
    and "tool_key requirement = Some tool"
  shows "gate_hook env requirement ctx OriginModel w = (Inl (app_error_new PermissionDenied OUTSIDE_ALLOWED_TOOLS), w)"
  using assms
  by (cases requirement) (auto simp: gate_hook_def gate_tool_def gate_app_folder_def outside_allowed_def tool_key_def)

lemma ask_minimum_never_allows: "fst (admit_subject db now s ctx TierAsk) \<noteq> AdmAllow"
  by (simp add: admit_subject_result admission_cases fold_raise_Auto raise_tier_Auto)

lemma off_minimum_denies: "fst (admit_subject db now s ctx TierOff) = AdmDeny"
  by (simp add: admit_subject_result admission_cases fold_raise_Off raise_tier_Off)

text \<open>A model's call that is raised to asking is never let through by a permission alone, not even by
  a grant made for good: the step defers the question, or the call passes after a review or a user's approval.\<close>

lemma raised_gate_asks:
  assumes "gate_hook env (raise_requirement (Some TierAsk) r) ctx OriginModel w = (Inr (), w')" "tool_key r = Some tool"
  shows "\<exists>run. read_run env (sc_run_id ctx) = Inr run
    \<and> (if sc_deferring ctx then map_option def_subject (gw_deferred w') = Some tool
       else (\<exists>a ex. review_of env TierAsk ctx w = (Inr (VRun a), ex)) \<or> approved_by_user env run tool)"
proof -
  from assms obtain tier w1 where g: "gate_tool env tool tier ctx OriginModel w = (Inr (), w1)" "w' = record_use env tool w1"
    and tier: "tier = Some TierAsk \<or> tier = Some TierOff"
    by (auto simp: gate_hook_def raise_requirement_def tool_key_def split: prod.splits sum.splits permission_requirement.splits if_splits)
  from g(1) obtain run where run: "read_run env (sc_run_id ctx) = Inr run" by (auto simp: gate_tool_def split: sum.splits)
  have "\<not> (OriginModel = OriginGraph \<and> shortcut (gr_kind run) tool)" by simp
  from gate_tool_open [OF g(1) run this] obtain a db1 where
    a: "admit_subject (gw_db w) (ge_now env) tool (run_permission_context run) (minimum_of tier) = (a, db1)" "a \<noteq> AdmDeny"
    and ask: "a = AdmAsk \<Longrightarrow> ask_for_tool env run tool (minimum_of tier) ctx (w\<lparr>gw_db := db1\<rparr>) = (Inr (), w1)" by blast
  have "tier = Some TierAsk" using tier a off_minimum_denies by (metis fst_conv minimum_of_Some)
  moreover from this a(1) have "a \<noteq> AdmAllow" using ask_minimum_never_allows by (metis fst_conv minimum_of_Some)
  ultimately have passed: "ask_for_tool env run tool TierAsk ctx (w\<lparr>gw_db := db1\<rparr>) = (Inr (), w1)" using a(2) ask by (cases a) simp_all
  have "gw_deferred w' = gw_deferred w1" by (simp add: g(2) record_use_def)
  moreover have "review_of env TierAsk ctx (w\<lparr>gw_db := db1\<rparr>) = review_of env TierAsk ctx w" by (simp add: review_of_def)
  ultimately show ?thesis
    using passed ask_for_tool_passes [OF passed] run
    by (auto simp: ask_for_tool_def defer_approval_def Let_def)
qed

subsection \<open>Witnesses\<close>

definition sample_gate_run :: gate_run where
  "sample_gate_run = \<lparr>gr_id = ''r'', gr_kind = KindAgentic, gr_subject_id = None,
     gr_graph = \<lparr>nodes = [], permission_scopes_opt = None, allowed_tools = Some [''mail.send'']\<rparr>\<rparr>"

definition sample_step :: step_context where
  "sample_step = \<lparr>sc_run_id = ''r'', sc_deferring = False, sc_recording = True\<rparr>"

definition sample_world :: "perm_db \<Rightarrow> gate_world" where
  "sample_world db = \<lparr>gw_db = db, gw_exec = sample_exec_state, gw_deferred = None, gw_authorisation = None, gw_uses = []\<rparr>"

text \<open>A user who approves, while nothing else happens.\<close>

definition sample_gate_env :: "string gate_env" where
  "sample_gate_env = \<lparr>ge_run = [''r'' \<mapsto> sample_gate_run], ge_tools = True, ge_policy = None, ge_now = 1, ge_later = 2,
     ge_fresh = ''a'', ge_timeout = 60000, ge_answer = (\<lambda>w i. (Inr Approved, w\<lparr>gw_db := repo_decide (gw_db w) i Approved\<rparr>)),
     ge_emit = None\<rparr>"

lemmas sample_gate_simps = sample_gate_env_def sample_world_def sample_step_def sample_gate_run_def sample_db_def
  gate_tool_def read_run_def outside_allowed_def allows_tool_def check_enabled_def open_ceiling_def shortcut_def
  run_permission_context_def permission_scopes_def admit_subject_def repo_tool_ceiling_def repo_list_def GLOBAL_SCOPE_def
  raise_tier_def rank_def ask_for_tool_def defer_approval_def review_action_def ask_user_for_def repo_create_approval_def
  repo_decide_def request_row_def authorise_def Let_def

lemma sample_gate_passes:
  "\<exists>w'. gate_tool sample_gate_env ''mail.send'' None sample_step OriginModel (sample_world (sample_db [])) = (Inr (), w')"
  by (simp add: sample_gate_simps)

theorem gate_needs_authority_witness:
  "approved_by_user sample_gate_env sample_gate_run ''mail.send''"
proof -
  obtain w' where g: "gate_tool sample_gate_env ''mail.send'' None sample_step OriginModel (sample_world (sample_db [])) = (Inr (), w')"
    using sample_gate_passes by blast
  have r: "read_run sample_gate_env (sc_run_id sample_step) = Inr sample_gate_run" by (simp add: sample_gate_simps)
  from gate_needs_authority [OF g r] show ?thesis
    by (simp add: review_of_def sample_gate_simps minimum_of_def)
qed

end
