(* ===== verification/NodeRegistry.thy ===== *)
theory NodeRegistry
  imports Contract
begin

text \<open>
  The registry of node types, \<^verbatim>\<open>kernel/registry.rs\<close>: registration, look-up, the choice of the node
  that serves a tool, and the validation of a run's graph.

  A node implementation (\<^verbatim>\<open>NodeDef\<close>) is a parameter: a \<open>registered_node\<close> carries what the registry
  asks it for. The JSON schemas it keeps come from the \<^verbatim>\<open>schemars\<close> crate.
\<close>

subsection \<open>The registry\<close>

record registered_node =
  rn_type :: string
  rn_permission :: permission_requirement
  rn_defers_approval :: bool
  rn_side_effect :: bool
  rn_input_schema :: json
  rn_output_schema :: json
  rn_permission_for :: "json \<Rightarrow> permission_requirement"

type_synonym registry = "registered_node list"

definition side_effect_free :: "registered_node \<Rightarrow> bool" where
  "side_effect_free n \<longleftrightarrow> \<not> rn_side_effect n"

definition register :: "registry \<Rightarrow> registered_node \<Rightarrow> (app_error + unit) \<times> registry" where
  "register reg n =
     (if list_ex (\<lambda>m. rn_type m = rn_type n) reg
      then (Inl (app_error_new Conflict (''Duplicate node type: '' @ rn_type n)), reg)
      else (Inr (), reg @ [n]))"

definition unregister :: "registry \<Rightarrow> string \<Rightarrow> bool \<times> registry" where
  "unregister reg ty = (let kept = filter (\<lambda>m. rn_type m \<noteq> ty) reg in (length kept \<noteq> length reg, kept))"

definition find_node :: "registry \<Rightarrow> string \<Rightarrow> registered_node option" where
  "find_node reg ty = List.find (\<lambda>m. rn_type m = ty) reg"

definition get_node :: "registry \<Rightarrow> string \<Rightarrow> app_error + registered_node" where
  "get_node reg ty = (case find_node reg ty of
     Some n \<Rightarrow> Inr n | None \<Rightarrow> Inl (app_error_new ValidationFailed (''UNKNOWN_NODE_TYPE '' @ ty)))"

definition for_tool :: "registry \<Rightarrow> string \<Rightarrow> registered_node option" where
  "for_tool reg k =
     (let candidates = filter (\<lambda>n. tool_key (rn_permission n) = Some k) reg in
      case List.find (\<lambda>n. rn_type n = k) candidates of
        Some n \<Rightarrow> Some n
      | None \<Rightarrow> (case candidates of [] \<Rightarrow> None | n # _ \<Rightarrow> Some n))"

definition can_resume :: "registry \<Rightarrow> run_graph \<Rightarrow> bool" where
  "can_resume reg g = list_all (\<lambda>n. case find_node reg (node_type n) of None \<Rightarrow> False | Some r \<Rightarrow> side_effect_free r) (nodes g)"

subsection \<open>Validation of a graph\<close>

definition invalid :: "string \<Rightarrow> app_error" where
  "invalid m = app_error_new ValidationFailed m"

definition is_object :: "json \<Rightarrow> bool" where
  "is_object v = (case v of JObject _ \<Rightarrow> True | _ \<Rightarrow> False)"

definition binding_source_ok :: "string list \<Rightarrow> graph_binding \<Rightarrow> bool" where
  "binding_source_ok deps b = (case b of BindRun \<Rightarrow> True | BindNode n _ \<Rightarrow> n \<in> set deps)"

definition validate_node :: "registry \<Rightarrow> string list \<Rightarrow> graph_node \<Rightarrow> app_error + unit" where
  "validate_node reg ids n =
     rbind (get_node reg (node_type n)) (\<lambda>_.
       let deps = dependencies n in
       if length (remdups deps) \<noteq> length deps then Inl (invalid ''DUPLICATE_DEPENDENCY'')
       else if list_ex (\<lambda>d. d \<notin> set ids) deps then Inl (invalid ''UNKNOWN_DEPENDENCY'')
       else if list_ex (\<lambda>(_, b). \<not> binding_source_ok deps b) (bindings n) then Inl (invalid ''BINDING_NOT_A_DEPENDENCY'')
       else if has_bindings n \<and> \<not> is_object (graph_input n) then Inl (invalid ''BINDINGS_NEED_OBJECT'')
       else Inr ())"

definition ready_nodes :: "graph_node list \<Rightarrow> string list \<Rightarrow> string list" where
  "ready_nodes ns completed =
     map node_id (filter (\<lambda>n. node_id n \<notin> set completed \<and> list_all (\<lambda>d. d \<in> set completed) (dependencies n)) ns)"

text \<open>The set \<^verbatim>\<open>completed\<close> is a list without repetition, grown by insertion.\<close>

lemma length_fold_insert: "length xs \<le> length (fold List.insert ys xs)"
proof (induction ys arbitrary: xs)
  case (Cons y ys)
  have "length xs \<le> length (List.insert y xs)" by (simp add: List.insert_def)
  also have "\<dots> \<le> length (fold List.insert ys (List.insert y xs))" by (rule Cons)
  finally show ?case by simp
qed simp

lemma fold_insert_grows:
  assumes "ys \<noteq> []" "\<forall>y \<in> set ys. y \<notin> set xs"
  shows "length xs < length (fold List.insert ys xs)"
proof -
  obtain y ys' where "ys = y # ys'" using assms(1) by (cases ys) auto
  with assms(2) length_fold_insert [of "y # xs" ys'] show ?thesis by simp
qed

function kahn :: "graph_node list \<Rightarrow> nat \<Rightarrow> string list \<Rightarrow> app_error + unit" where
  "kahn ns count completed =
     (if length completed < count then
        let ready = ready_nodes ns completed in
        if ready = [] then Inl (invalid ''GRAPH_HAS_CYCLE'')
        else kahn ns count (fold List.insert ready completed)
      else Inr ())"
  by pat_completeness auto
termination
proof (relation "measure (\<lambda>(ns, count, completed). count - length completed)")
  fix ns :: "graph_node list" and count :: nat and completed ready
  assume "length completed < count" "ready = ready_nodes ns completed" "ready \<noteq> []"
  moreover from this have "length completed < length (fold List.insert ready completed)"
    by (intro fold_insert_grows) (auto simp: ready_nodes_def)
  ultimately show "((ns, count, fold List.insert ready completed), ns, count, completed)
      \<in> measure (\<lambda>(ns, count, completed). count - length completed)" by simp
qed simp

declare kahn.simps [simp del]

definition validate_graph :: "registry \<Rightarrow> run_graph \<Rightarrow> app_error + unit" where
  "validate_graph reg g =
     (let ids = remdups (map node_id (nodes g)) in
      if length ids \<noteq> length (nodes g) then Inl (invalid ''DUPLICATE_NODE_ID'')
      else rbind (collect_results (validate_node reg ids) (nodes g)) (\<lambda>_. kahn (nodes g) (length ids) []))"

subsection \<open>Graphs that validate\<close>

definition dep_edges :: "graph_node list \<Rightarrow> (string \<times> string) set" where
  "dep_edges ns = {(d, node_id n) |d n. n \<in> set ns \<and> d \<in> set (dependencies n)}"

definition node_ok :: "registry \<Rightarrow> string list \<Rightarrow> graph_node \<Rightarrow> bool" where
  "node_ok reg ids n \<longleftrightarrow> find_node reg (node_type n) \<noteq> None
     \<and> distinct (dependencies n) \<and> set (dependencies n) \<subseteq> set ids
     \<and> (\<forall>(k, b) \<in> set (bindings n). binding_source_ok (dependencies n) b)
     \<and> (bindings n \<noteq> [] \<longrightarrow> is_object (graph_input n))"

definition valid_graph :: "registry \<Rightarrow> run_graph \<Rightarrow> bool" where
  "valid_graph reg g \<longleftrightarrow> distinct (map node_id (nodes g))
     \<and> (\<forall>n \<in> set (nodes g). node_ok reg (map node_id (nodes g)) n) \<and> acyclic (dep_edges (nodes g))"

lemma validate_node_iff: "validate_node reg ids n = Inr () \<longleftrightarrow> node_ok reg ids n"
  by (auto simp: validate_node_def node_ok_def rbind_Inr_iff get_node_def list_ex_iff has_bindings_iff Let_def
      length_remdups_eq split: option.splits)

lemma collect_validate_iff:
  "(\<exists>us. collect_results (validate_node reg ids) ns = Inr us) \<longleftrightarrow> (\<forall>n \<in> set ns. node_ok reg ids n)"
proof
  assume "\<exists>us. collect_results (validate_node reg ids) ns = Inr us"
  then show "\<forall>n \<in> set ns. node_ok reg ids n"
    by (auto simp: collect_results_Inr_iff validate_node_iff list_all2_conv_all_nth in_set_conv_nth)
next
  assume "\<forall>n \<in> set ns. node_ok reg ids n"
  then have "collect_results (validate_node reg ids) ns = Inr (map (\<lambda>_. ()) ns)"
    by (simp add: collect_results_Inr_iff list_all2_map2 validate_node_iff list_all2_same)
  then show "\<exists>us. collect_results (validate_node reg ids) ns = Inr us" ..
qed

lemma finite_dep_edges: "finite (dep_edges ns)"
proof -
  have "dep_edges ns = (\<Union>n \<in> set ns. (\<lambda>d. (d, node_id n)) ` set (dependencies n))"
    by (auto simp: dep_edges_def)
  then show ?thesis by simp
qed

lemma set_fold_insert: "set (fold List.insert ys xs) = set ys \<union> set xs"
  by (induction ys arbitrary: xs) auto

lemma distinct_fold_insert: "distinct xs \<Longrightarrow> distinct (fold List.insert ys xs)"
  by (induction ys arbitrary: xs) auto

lemma set_ready_nodes:
  "set (ready_nodes ns c) = {node_id n |n. n \<in> set ns \<and> node_id n \<notin> set c \<and> set (dependencies n) \<subseteq> set c}"
  by (auto simp: ready_nodes_def list_all_iff)

text \<open>When the loop succeeds, every node is well-founded below: it was ready after its dependencies.\<close>

lemma kahn_accessible:
  assumes "kahn ns (length ns) c = Inr ()" "distinct (map node_id ns)"
    and "distinct c" "set c \<subseteq> set (map node_id ns)" "\<forall>x \<in> set c. x \<in> Wellfounded.acc (dep_edges ns)"
  shows "\<forall>x \<in> set (map node_id ns). x \<in> Wellfounded.acc (dep_edges ns)"
  using assms
proof (induction ns "length ns" c rule: kahn.induct)
  case (1 ns c)
  show ?case
  proof (cases "length c < length ns")
    case False
    then have "card (set (map node_id ns)) \<le> card (set c)"
      using "1.prems"(2,3) by (simp add: distinct_card del: set_map)
    with "1.prems"(4) have "set c = set (map node_id ns)" by (intro card_seteq) auto
    with "1.prems"(5) show ?thesis by simp
  next
    case True
    let ?r = "ready_nodes ns c"
    from True "1.prems"(1) have ne: "?r \<noteq> []" and nxt: "kahn ns (length ns) (fold List.insert ?r c) = Inr ()"
      by (subst (asm) kahn.simps; simp add: Let_def split: if_splits)+
    have "\<forall>x \<in> set ?r. x \<in> Wellfounded.acc (dep_edges ns)"
    proof
      fix x assume "x \<in> set ?r"
      then obtain n where n: "n \<in> set ns" "x = node_id n" "set (dependencies n) \<subseteq> set c" by (auto simp: set_ready_nodes)
      show "x \<in> Wellfounded.acc (dep_edges ns)"
      proof (rule accI)
        fix y assume "(y, x) \<in> dep_edges ns"
        then obtain m where "m \<in> set ns" "node_id m = x" "y \<in> set (dependencies m)" by (auto simp: dep_edges_def)
        with n "1.prems"(2) have "y \<in> set (dependencies n)" by (metis distinct_map_inj)
        with n(3) "1.prems"(5) show "y \<in> Wellfounded.acc (dep_edges ns)" by blast
      qed
    qed
    moreover have "set ?r \<subseteq> set (map node_id ns)" by (auto simp: set_ready_nodes)
    ultimately show ?thesis using "1.prems" by (intro "1.hyps" [OF True refl ne nxt])
        (auto simp: set_fold_insert distinct_fold_insert)
  qed
qed

text \<open>When the graph is acyclic the loop never finds itself without a ready node.\<close>

lemma kahn_succeeds:
  assumes "acyclic (dep_edges ns)" "distinct (map node_id ns)" "\<forall>n \<in> set ns. set (dependencies n) \<subseteq> set (map node_id ns)"
    and "distinct c" "set c \<subseteq> set (map node_id ns)"
  shows "kahn ns (length ns) c = Inr ()"
  using assms
proof (induction ns "length ns" c rule: kahn.induct)
  case (1 ns c)
  show ?case
  proof (cases "length c < length ns")
    case False
    then show ?thesis by (subst kahn.simps) simp
  next
    case True
    let ?r = "ready_nodes ns c"
    have "card (set c) < card (set (map node_id ns))"
      using True "1.prems"(2,4) by (simp add: distinct_card del: set_map)
    then have "set (map node_id ns) - set c \<noteq> {}" using "1.prems"(5) by auto
    then have ne: "?r \<noteq> []"
    proof -
      have "wf (dep_edges ns)" using "1.prems"(1) finite_dep_edges by (rule finite_acyclic_wf [rotated])
      with \<open>set (map node_id ns) - set c \<noteq> {}\<close> obtain x where x: "x \<in> set (map node_id ns) - set c" "\<And>y. (y, x) \<in> dep_edges ns \<Longrightarrow> y \<notin> set (map node_id ns) - set c"
        by (meson wfE_min all_not_in_conv)
      then obtain n where n: "n \<in> set ns" "x = node_id n" by auto
      have "set (dependencies n) \<subseteq> set c"
      proof
        fix d assume d: "d \<in> set (dependencies n)"
        then have "(d, x) \<in> dep_edges ns" using n by (auto simp: dep_edges_def)
        with x(2) d n(1) "1.prems"(3) show "d \<in> set c" by blast
      qed
      with n x(1) have "x \<in> set ?r" by (auto simp: set_ready_nodes)
      then show ?thesis by auto
    qed
    have "kahn ns (length ns) (fold List.insert ?r c) = Inr ()"
      using "1.prems" by (intro "1.hyps" [OF True refl ne])
        (auto simp: set_fold_insert distinct_fold_insert set_ready_nodes)
    with True ne show ?thesis by (subst kahn.simps) (simp add: Let_def)
  qed
qed

lemma validate_graph_valid: "validate_graph reg g = Inr () \<longleftrightarrow> valid_graph reg g"
proof (cases "distinct (map node_id (nodes g))")
  case False
  then have "length (remdups (map node_id (nodes g))) \<noteq> length (nodes g)"
    using length_remdups_eq [of "map node_id (nodes g)"] by simp
  with False show ?thesis by (simp add: validate_graph_def valid_graph_def)
next
  case True
  let ?ns = "nodes g" and ?ids = "map node_id (nodes g)"
  from True have ids: "remdups ?ids = ?ids" by (simp add: distinct_remdups_id)
  have "validate_graph reg g = Inr () \<longleftrightarrow> (\<forall>n \<in> set ?ns. node_ok reg ?ids n) \<and> kahn ?ns (length ?ns) [] = Inr ()"
    unfolding validate_graph_def Let_def ids
    using collect_validate_iff [of reg ?ids ?ns] by (auto simp: rbind_Inr_iff)
  moreover have "kahn ?ns (length ?ns) [] = Inr () \<longleftrightarrow> acyclic (dep_edges ?ns)" if ok: "\<forall>n \<in> set ?ns. node_ok reg ?ids n"
  proof
    assume "kahn ?ns (length ?ns) [] = Inr ()"
    then have acc: "\<forall>x \<in> set ?ids. x \<in> Wellfounded.acc (dep_edges ?ns)" by (rule kahn_accessible) (use True in auto)
    have "x \<in> Wellfounded.acc (dep_edges ?ns)" for x
    proof (cases "x \<in> set ?ids")
      case False
      show ?thesis by (rule accI) (use False in \<open>auto simp: dep_edges_def\<close>)
    qed (use acc in blast)
    then show "acyclic (dep_edges ?ns)" by (intro wf_acyclic acc_wfI) blast
  next
    assume "acyclic (dep_edges ?ns)"
    then show "kahn ?ns (length ?ns) [] = Inr ()"
      using True ok by (intro kahn_succeeds) (auto simp: node_ok_def)
  qed
  ultimately show ?thesis using True unfolding valid_graph_def by blast
qed

subsection \<open>Properties of the registry\<close>

lemma find_node_register:
  assumes "register reg n = (Inr (), reg')"
  shows "find_node reg' ty = (if ty = rn_type n then Some n else find_node reg ty)"
proof -
  from assms have fresh: "\<forall>m \<in> set reg. rn_type m \<noteq> rn_type n" and reg': "reg' = reg @ [n]"
    by (auto simp: register_def list_ex_iff split: if_splits)
  have "List.find P (xs @ [x]) = (case List.find P xs of Some y \<Rightarrow> Some y | None \<Rightarrow> if P x then Some x else None)"
    for P :: "registered_node \<Rightarrow> bool" and xs x by (induction xs) auto
  moreover have "List.find (\<lambda>m. rn_type m = rn_type n) reg = None" using fresh by (simp add: find_None_all)
  ultimately show ?thesis by (auto simp: find_node_def reg' split: option.splits)
qed

text \<open>C8: Validation accepts exactly the well-formed graphs: unique ids, registered types, distinct known
  dependencies, bindings that read a dependency into an object, and no cycle. In particular the loop
  that looks for a cycle always ends with the right answer.\<close>

theorem validate_graph_iff: "validate_graph reg g = Inr () \<longleftrightarrow> valid_graph reg g"
  by (rule validate_graph_valid)

definition distinct_types :: "registry \<Rightarrow> bool" where
  "distinct_types reg \<longleftrightarrow> distinct (map rn_type reg)"

text \<open>Registration keeps the types unique: a second node of a type is refused with a conflict and
  changes nothing, a new one is found under its type and shadows nothing, and unregistering it gives
  back the registry as it was.\<close>

lemma register_then_unregister:
  assumes "distinct_types reg"
  shows "case register reg n of
      (Inl e, reg') \<Rightarrow> reg' = reg \<and> err_code e = Conflict \<and> find_node reg (rn_type n) \<noteq> None
    | (Inr _, reg') \<Rightarrow> distinct_types reg'
        \<and> (\<forall>ty. find_node reg' ty = (if ty = rn_type n then Some n else find_node reg ty))
        \<and> unregister reg' (rn_type n) = (True, reg)"
proof (cases "list_ex (\<lambda>m. rn_type m = rn_type n) reg")
  case True
  then show ?thesis by (auto simp: register_def list_ex_iff find_node_def find_None_all)
next
  case False
  then have r: "register reg n = (Inr (), reg @ [n])" and fresh: "\<forall>m \<in> set reg. rn_type m \<noteq> rn_type n"
    by (auto simp: register_def list_ex_iff)
  moreover from fresh have "filter (\<lambda>m. rn_type m \<noteq> rn_type n) reg = reg" by (simp add: filter_id_conv)
  ultimately show ?thesis using assms find_node_register [OF r]
    by (auto simp: distinct_types_def unregister_def)
qed

text \<open>The node that serves a tool declares that tool as its permission; a node of that very type is
  preferred, and there is none only if no registered node declares the tool.\<close>

theorem for_tool_declares_the_tool:
  "case for_tool reg k of
     Some n \<Rightarrow> n \<in> set reg \<and> tool_key (rn_permission n) = Some k
       \<and> ((\<exists>m \<in> set reg. rn_type m = k \<and> tool_key (rn_permission m) = Some k) \<longrightarrow> rn_type n = k)
   | None \<Rightarrow> \<forall>n \<in> set reg. tool_key (rn_permission n) \<noteq> Some k"
proof (cases "List.find (\<lambda>n. rn_type n = k) (filter (\<lambda>n. tool_key (rn_permission n) = Some k) reg)")
  case (Some n)
  with find_Some_mem [OF Some] show ?thesis by (simp add: for_tool_def)
next
  case None
  then have no: "\<forall>m \<in> set reg. tool_key (rn_permission m) = Some k \<longrightarrow> rn_type m \<noteq> k" by (simp add: find_None_all)
  show ?thesis
  proof (cases "filter (\<lambda>n. tool_key (rn_permission n) = Some k) reg")
    case Nil
    with None show ?thesis by (simp add: for_tool_def filter_empty_conv)
  next
    case (Cons n ns)
    then have "n \<in> set (filter (\<lambda>n. tool_key (rn_permission n) = Some k) reg)" by simp
    then have "n \<in> set reg" "tool_key (rn_permission n) = Some k" by simp_all
    then show ?thesis using None no by (auto simp: for_tool_def Cons split: if_splits)
  qed
qed

subsection \<open>Witnesses\<close>

definition sample_node_type :: "string \<Rightarrow> registered_node" where
  "sample_node_type ty = \<lparr>rn_type = ty, rn_permission = ReqTool ty None, rn_defers_approval = False,
     rn_side_effect = True, rn_input_schema = JNull, rn_output_schema = JNull, rn_permission_for = (\<lambda>_. ReqTool ty None)\<rparr>"

end
