(* ===== verification/StepRules.thy ===== *)
theory StepRules
  imports NodeRegistry
begin

text \<open>
  The rules of \<^verbatim>\<open>kernel/scheduler.rs\<close> that look at one node at a time: its input from bindings
  (\<^verbatim>\<open>bind\<close>, \<^verbatim>\<open>project\<close>), whether it is skipped, its retries, and what the checkpoints of an earlier
  execution say about it (\<^verbatim>\<open>load_checkpoints\<close>). The scheduler's \<^verbatim>\<open>State\<close> is the record
  \<open>sched_state\<close>; its hash maps are association lists with distinct keys.

  \<^verbatim>\<open>i64\<close> values are unbounded integers: the contract bounds attempts by 100, the back-off by a minute
  and a graph by its number of nodes, so the products and sums below stay far from \<open>2^63\<close>.
\<close>

type_synonym 'v table = "(string \<times> 'v) list"

definition tbl_get :: "'v table \<Rightarrow> string \<Rightarrow> 'v option" where
  "tbl_get t k = map_of t k"

definition tbl_put :: "string \<Rightarrow> 'v \<Rightarrow> 'v table \<Rightarrow> 'v table" where
  "tbl_put k v t = AList.update k v t"

definition tbl_ok :: "'v table \<Rightarrow> bool" where
  "tbl_ok t \<longleftrightarrow> distinct (map fst t)"

lemma tbl_get_put [simp]: "tbl_get (tbl_put k v t) k' = (if k' = k then Some v else tbl_get t k')"
  by (simp add: tbl_get_def tbl_put_def update_conv')

lemma tbl_get_Nil [simp]: "tbl_get [] k = None"
  by (simp add: tbl_get_def)

lemma tbl_ok_put [simp]: "tbl_ok t \<Longrightarrow> tbl_ok (tbl_put k v t)"
  by (simp add: tbl_ok_def tbl_put_def distinct_update)

lemma tbl_ok_Nil [simp]: "tbl_ok []"
  by (simp add: tbl_ok_def)

lemma tbl_keys: "tbl_get t k \<noteq> None \<longleftrightarrow> k \<in> fst ` set t"
  by (simp add: tbl_get_def map_of_eq_None_iff)

lemma tbl_length: "tbl_ok t \<Longrightarrow> length t = card {k. tbl_get t k \<noteq> None}"
proof -
  assume "tbl_ok t"
  then have "card (set (map fst t)) = length t" unfolding tbl_ok_def by (metis distinct_card length_map)
  moreover have "set (map fst t) = {k. tbl_get t k \<noteq> None}" using tbl_keys [of t] by auto
  ultimately show ?thesis by simp
qed

subsection \<open>Rows and state\<close>

record step_row =
  step_id :: string
  step_run_id :: string
  step_node_id :: string
  step_type :: string
  step_status_of :: step_status
  step_input :: json
  step_output :: json
  step_error :: "string option"
  step_started_at :: int
  step_finished_at :: "int option"
  attempt :: int

record sched_state =
  pending_gates :: nat
  completed :: "step_row table"
  skipped :: "string set"
  attempts :: "int table"
  latest :: "step_row table"
  ready_at :: "int table"
  failure :: "string option"
  failure_code :: app_error_code

definition sched_state_new :: sched_state where
  "sched_state_new = \<lparr>pending_gates = 0, completed = [], skipped = {}, attempts = [], latest = [],
     ready_at = [], failure = None, failure_code = RunFailed\<rparr>"

definition EXHAUSTED_MESSAGE :: string where "EXHAUSTED_MESSAGE = ''EXHAUSTED_MESSAGE''"

definition to_i64 :: "nat \<Rightarrow> int" where
  "to_i64 n = (if int n \<le> 9223372036854775807 then int n else 9223372036854775807)"

definition max_attempts :: "graph_node \<Rightarrow> int" where
  "max_attempts n = to_i64 (max_attempts_of (retry n))"

definition backoff :: "graph_node \<Rightarrow> int" where
  "backoff n = to_i64 (backoff_ms (retry n))"

definition failure_output :: "string option \<Rightarrow> json" where
  "failure_output m = JObject [(''error'', JString (case m of Some s \<Rightarrow> s | None \<Rightarrow> EXHAUSTED_MESSAGE))]"

subsection \<open>Input of a node\<close>

text \<open>\<^verbatim>\<open>str::parse::<usize>\<close>: an optional plus sign and decimal digits, within 64 bits.\<close>

definition digit_value :: "char \<Rightarrow> nat option" where
  "digit_value c = (let n = of_char c :: nat in if 48 \<le> n \<and> n \<le> 57 then Some (n - 48) else None)"

fun digits_value :: "nat \<Rightarrow> string \<Rightarrow> nat option" where
  "digits_value acc [] = Some acc"
| "digits_value acc (c # cs) = (case digit_value c of None \<Rightarrow> None | Some d \<Rightarrow> digits_value (10 * acc + d) cs)"

definition parse_usize :: "string \<Rightarrow> nat option" where
  "parse_usize s =
     (let ds = (case s of CHR ''+'' # rest \<Rightarrow> rest | _ \<Rightarrow> s) in
      if ds = [] then None
      else (case digits_value 0 ds of Some n \<Rightarrow> if n < 2 ^ 64 then Some n else None | None \<Rightarrow> None))"

definition project_step :: "string \<Rightarrow> json \<Rightarrow> json option" where
  "project_step segment current = (case current of
     JObject m \<Rightarrow> map_of m segment
   | JArray items \<Rightarrow> (case parse_usize segment of
        Some i \<Rightarrow> if i < length items then Some (items ! i) else None | None \<Rightarrow> None)
   | _ \<Rightarrow> None)"

fun project_path :: "string list \<Rightarrow> json \<Rightarrow> json option" where
  "project_path [] v = Some v"
| "project_path (p # ps) v = (case project_step p v of None \<Rightarrow> None | Some w \<Rightarrow> project_path ps w)"

definition project :: "json \<Rightarrow> string \<Rightarrow> json" where
  "project v path = (case project_path (filter (\<lambda>p. p \<noteq> []) (split_on (CHR ''.'') path)) v of
     Some w \<Rightarrow> w | None \<Rightarrow> JNull)"

definition binding_value :: "json \<Rightarrow> step_row table \<Rightarrow> graph_binding \<Rightarrow> json" where
  "binding_value run_input rows b = (case b of
     BindRun \<Rightarrow> run_input
   | BindNode n path \<Rightarrow> (case tbl_get rows n of
        None \<Rightarrow> JNull
      | Some step \<Rightarrow> project (step_output step) (case path of Some p \<Rightarrow> p | None \<Rightarrow> [])))"

definition bind_input :: "json \<Rightarrow> sched_state \<Rightarrow> graph_node \<Rightarrow> json" where
  "bind_input run_input z n =
     (if \<not> has_bindings n then graph_input n
      else JObject (fold (\<lambda>(k, b). obj_insert k (binding_value run_input (completed z) b)) (bindings n)
             (case graph_input n of JObject m \<Rightarrow> m | _ \<Rightarrow> [])))"

definition skips :: "graph_node \<Rightarrow> sched_state \<Rightarrow> bool" where
  "skips n z \<longleftrightarrow>
     (case node_when n of
        None \<Rightarrow> False
      | Some w \<Rightarrow> cond_node w \<in> skipped z
          \<or> Option.bind (Option.bind (tbl_get (completed z) (cond_node w)) (\<lambda>s. obj_get (step_input s) (cond_field w))) as_bool
              \<noteq> Some (cond_equals w))
     \<or> (dependencies n \<noteq> [] \<and> list_all (\<lambda>d. d \<in> skipped z) (dependencies n))"

definition skipped_step :: "string \<Rightarrow> string \<Rightarrow> int \<Rightarrow> graph_node \<Rightarrow> step_row" where
  "skipped_step fresh run_id now n = \<lparr>step_id = fresh, step_run_id = run_id, step_node_id = node_id n,
     step_type = node_type n, step_status_of = StepSucceeded, step_input = JNull, step_output = JNull,
     step_error = None, step_started_at = now, step_finished_at = Some now, attempt = 0\<rparr>"

subsection \<open>Checkpoints\<close>

definition load_step :: "graph_node list \<Rightarrow> step_row \<Rightarrow> sched_state \<Rightarrow> sched_state" where
  "load_step ns step z =
     (case List.find (\<lambda>n. node_id n = step_node_id step) ns of
        None \<Rightarrow> z
      | Some n \<Rightarrow>
          let i = step_node_id step;
              z = (if attempt step > (case tbl_get (latest z) i of None \<Rightarrow> 0 | Some l \<Rightarrow> attempt l)
                   then z\<lparr>latest := tbl_put i step (latest z)\<rparr> else z);
              z = z\<lparr>attempts := tbl_put i (max (case tbl_get (attempts z) i of None \<Rightarrow> 0 | Some a \<Rightarrow> a) (attempt step)) (attempts z)\<rparr> in
          if step_status_of step = StepSucceeded then z\<lparr>completed := tbl_put i step (completed z)\<rparr>
          else if step_status_of step = StepFailed then
            if continues_on_error n \<and> max_attempts n \<le> attempt step
            then z\<lparr>completed := tbl_put i (step\<lparr>step_output := failure_output (step_error step)\<rparr>) (completed z)\<rparr>
            else z\<lparr>ready_at := tbl_put i ((case step_finished_at step of None \<Rightarrow> 0 | Some t \<Rightarrow> t) + backoff n * attempt step) (ready_at z)\<rparr>
          else z)"

definition load_checkpoints :: "graph_node list \<Rightarrow> step_row list \<Rightarrow> sched_state \<Rightarrow> sched_state" where
  "load_checkpoints ns steps z = fold (load_step ns) steps z"

subsection \<open>What the checkpoints establish\<close>

definition checkpoint_ok :: "graph_node list \<Rightarrow> sched_state \<Rightarrow> bool" where
  "checkpoint_ok ns z \<longleftrightarrow> tbl_ok (completed z)
     \<and> (\<forall>i. tbl_get (completed z) i \<noteq> None \<longrightarrow> i \<in> set (map node_id ns))
     \<and> (\<forall>i l. tbl_get (latest z) i = Some l \<longrightarrow> (\<exists>a. tbl_get (attempts z) i = Some a \<and> attempt l \<le> a))"

lemma load_step_ok: "checkpoint_ok ns z \<Longrightarrow> checkpoint_ok ns (load_step ns s z)"
proof (cases "List.find (\<lambda>n. node_id n = step_node_id s) ns")
  case (Some n)
  have mem: "step_node_id s \<in> node_id ` set ns" using find_Some_mem [OF Some] by force
  assume ok: "checkpoint_ok ns z"
  show ?thesis
  proof (cases "tbl_get (latest z) (step_node_id s)")
    case None
    with ok Some mem show ?thesis by (auto simp: checkpoint_ok_def load_step_def Let_def max_def)
  next
    case l: (Some l)
    with ok obtain a where a: "tbl_get (attempts z) (step_node_id s) = Some a" "attempt l \<le> a"
      unfolding checkpoint_ok_def by blast
    with ok Some mem l show ?thesis by (auto simp: checkpoint_ok_def load_step_def Let_def max_def)
  qed
qed (simp add: load_step_def)

lemma load_checkpoints_ok: "checkpoint_ok ns z \<Longrightarrow> checkpoint_ok ns (load_checkpoints ns steps z)"
  unfolding load_checkpoints_def by (induction steps arbitrary: z) (auto simp: load_step_ok)

lemma checkpoint_ok_new [simp]: "checkpoint_ok ns sched_state_new"
  by (simp add: checkpoint_ok_def sched_state_new_def)

lemma load_step_frame [simp]:
  "pending_gates (load_step ns s z) = pending_gates z" "skipped (load_step ns s z) = skipped z"
  "failure (load_step ns s z) = failure z" "failure_code (load_step ns s z) = failure_code z"
  by (simp_all add: load_step_def Let_def split: option.splits)

lemma load_checkpoints_frame [simp]:
  "pending_gates (load_checkpoints ns ss z) = pending_gates z" "skipped (load_checkpoints ns ss z) = skipped z"
  "failure (load_checkpoints ns ss z) = failure z" "failure_code (load_checkpoints ns ss z) = failure_code z"
  unfolding load_checkpoints_def by (induction ss arbitrary: z) simp_all

subsection \<open>Properties of bindings and paths\<close>

lemma fold_obj_insert:
  "distinct (map fst bs) \<Longrightarrow> map_of (fold (\<lambda>(k, b). obj_insert k (f b)) bs m) k
     = (case map_of bs k of Some b \<Rightarrow> Some (f b) | None \<Rightarrow> map_of m k)"
proof (induction bs arbitrary: m)
  case (Cons kb bs)
  then have "map_of bs (fst kb) = None" by (simp add: map_of_eq_None_iff)
  with Cons show ?case by (cases kb) (auto split: option.split)
qed simp

text \<open>A node with bindings runs on an object in which every bound key holds the value of its source,
  the run's input or the projected output of the completed node, and every other key is the one of
  the node's own input.\<close>

lemma bound_input_reads_its_sources:
  assumes "has_bindings n" and "distinct (map fst (bindings n))"
  shows "\<exists>m. bind_input ri z n = JObject m
    \<and> (\<forall>k. map_of m k = (case map_of (bindings n) k of
          Some b \<Rightarrow> Some (binding_value ri (completed z) b)
        | None \<Rightarrow> (case graph_input n of JObject m0 \<Rightarrow> map_of m0 k | _ \<Rightarrow> None)))"
proof -
  let ?m0 = "case graph_input n of JObject m \<Rightarrow> m | _ \<Rightarrow> []"
  have "bind_input ri z n = JObject (fold (\<lambda>(k, b). obj_insert k (binding_value ri (completed z) b)) (bindings n) ?m0)"
    using assms(1) by (simp add: bind_input_def)
  moreover have "map_of ?m0 k = (case graph_input n of JObject m0 \<Rightarrow> map_of m0 k | _ \<Rightarrow> None)" for k
    by (simp split: json.split)
  ultimately show ?thesis using fold_obj_insert [OF assms(2)] by metis
qed

lemma split_on_append: "split_on c (p @ c # q) = split_on c p @ split_on c q"
proof (induction p)
  case (Cons x p)
  then show ?case by (cases "split_on c p") (auto split: list.splits)
qed simp

lemma project_path_append: "project_path (ps @ qs) v = Option.bind (project_path ps v) (project_path qs)"
  by (induction ps arbitrary: v) (auto split: option.split)

text \<open>Projection composes: a path through a dot is the path after it applied to what the path before
  it selects, and a part that selects nothing yields null all the way.\<close>

theorem project_composes: "project v (p @ CHR ''.'' # q) = project (project v p) q"
proof -
  let ?ps = "filter (\<lambda>s. s \<noteq> []) (split_on (CHR ''.'') p)" and ?qs = "filter (\<lambda>s. s \<noteq> []) (split_on (CHR ''.'') q)"
  have null: "project_path qs JNull = None \<or> project_path qs JNull = Some JNull" for qs
    by (cases qs) (auto simp: project_step_def)
  have "project v (p @ CHR ''.'' # q) = (case Option.bind (project_path ?ps v) (project_path ?qs) of Some w \<Rightarrow> w | None \<Rightarrow> JNull)"
    by (simp add: project_def split_on_append project_path_append)
  also have "\<dots> = project (project v p) q"
    using null [of ?qs] by (cases "project_path ?ps v") (auto simp: project_def)
  finally show ?thesis .
qed

end
