(* ===== verification/Scheduler.thy ===== *)
theory Scheduler
  imports StepRules
begin

text \<open>
  The scheduler of a run, \<^verbatim>\<open>kernel/scheduler.rs\<close>, as a state machine.

  \<^item> \<open>sched\<close> is the \<^verbatim>\<open>Scheduler\<close> with what \<^verbatim>\<open>drive\<close> keeps on its stack (\<open>running\<close>, and the futures
    in \<open>active\<close> as \<open>tasks\<close>), the rows of the run in the database, and the events it published.
  \<^item> The driver's place in \<^verbatim>\<open>drive\<close> and \<^verbatim>\<open>execute\<close> is \<open>driver\<close>: in the middle of the \<^verbatim>\<open>for\<close> loop over the
    nodes, waiting, pausing, draining after an end or an error, or done.
  \<^item> A task is pushed, then polled for the first time (\<open>start_task\<close>: the row of the attempt is
    inserted), works, and returns (\<open>complete_node\<close>). Node code is a parameter; nested approvals and
    questions open and close gates; a node's future that is dropped while it waits at a gate (a step
    that times out) never closes it.
  \<^item> Every database write may fail: the \<open>db\<close> arguments carry the error of a commit.
  \<^item> The driver, the tasks, the clock, cancellation and the gates interleave in any order.
\<close>

subsection \<open>State\<close>

datatype finish = FinSucceeded | FinFailed | FinCancelled | FinInterrupted

definition finish_status :: "finish \<Rightarrow> run_status" where
  "finish_status f = (case f of FinSucceeded \<Rightarrow> Succeeded | FinFailed \<Rightarrow> Failed | FinCancelled \<Rightarrow> Cancelled
     | FinInterrupted \<Rightarrow> Interrupted)"

datatype sched_event =
    EvStatus run_status
  | EvEnd run_outcome
  | EvStep step_row
  | EvProgress nat nat
  | EvNodeLog string

datatype node_outcome = NodeDone "app_error + json" | NodeAbandoned

datatype task = Pushed graph_node | Working graph_node step_row | Returned graph_node "app_error + unit"

fun task_node :: "task \<Rightarrow> graph_node" where
  "task_node (Pushed n) = n"
| "task_node (Working n _) = n"
| "task_node (Returned n _) = n"

datatype driver_at =
    AtStart
  | AtScan "graph_node list" "int option" bool
  | AtWait "int option"
  | AtPause int
  | AtDrain
  | AtError app_error
  | AtEnd "app_error + unit"

record run_row =
  rr_id :: string
  rr_status :: run_status
  rr_graph :: run_graph
  rr_input :: json
  rr_concurrency :: int
  rr_started_at :: "int option"

record sched =
  st :: sched_state
  tasks :: "task table"
  running :: "string list"
  cancelled :: bool
  stopping :: bool
  terminal :: bool
  finishing :: bool
  step_rows :: "step_row list"
  run_status_of :: run_status
  run_outcome_of :: "run_outcome option"
  run_error :: "string option"
  events :: "sched_event list"
  clock :: int
  driver :: driver_at
  gates :: "string list"
  leaked :: nat

definition sched_new :: "run_row \<Rightarrow> step_row list \<Rightarrow> int \<Rightarrow> sched" where
  "sched_new run rows now = \<lparr>st = sched_state_new, tasks = [], running = [], cancelled = False, stopping = False,
     terminal = False, finishing = False, step_rows = rows, run_status_of = rr_status run, run_outcome_of = None,
     run_error = None, events = [], clock = now, driver = AtStart, gates = [], leaked = 0\<rparr>"

definition sorted_nodes :: "run_row \<Rightarrow> graph_node list" where
  "sorted_nodes run = sort_key node_id (nodes (rr_graph run))"

definition concurrency :: "run_row \<Rightarrow> nat" where
  "concurrency run = max 1 (if 0 \<le> rr_concurrency run then nat (rr_concurrency run) else 1)"

definition total_nodes :: "run_row \<Rightarrow> nat" where
  "total_nodes run = length (nodes (rr_graph run))"

subsection \<open>Events, status and end\<close>

definition publish :: "sched_event list \<Rightarrow> sched \<Rightarrow> sched" where
  "publish es s = (if terminal s then s else s\<lparr>events := events s @ es\<rparr>)"

definition progress :: "run_row \<Rightarrow> sched \<Rightarrow> sched_event" where
  "progress run s = EvProgress (length (completed (st s))) (total_nodes run)"

definition set_status :: "run_status \<Rightarrow> app_error option \<Rightarrow> sched \<Rightarrow> (app_error + unit) \<times> sched" where
  "set_status status db s = (case db of
     Some e \<Rightarrow> (Inl e, s)
   | None \<Rightarrow> (Inr (), publish [EvStatus status] (s\<lparr>run_status_of := status\<rparr>)))"

definition CANCELLED_MESSAGE :: string where "CANCELLED_MESSAGE = ''CANCELLED_MESSAGE''"
definition INTERRUPTED_MESSAGE :: string where "INTERRUPTED_MESSAGE = ''INTERRUPTED_MESSAGE''"
definition ABANDONED_MESSAGE :: string where "ABANDONED_MESSAGE = ''ABANDONED_MESSAGE''"
definition NO_READY_NODES :: string where "NO_READY_NODES = ''NO_READY_NODES''"

definition finish_outcome :: "finish \<Rightarrow> string option \<Rightarrow> app_error_code \<Rightarrow> run_outcome" where
  "finish_outcome f error code = (case f of
     FinSucceeded \<Rightarrow> \<lparr>oc_status = OutOk, oc_code = None, oc_message = None\<rparr>
   | FinCancelled \<Rightarrow> \<lparr>oc_status = OutCancelled, oc_code = Some RunCancelled,
       oc_message = Some (case error of Some m \<Rightarrow> m | None \<Rightarrow> CANCELLED_MESSAGE)\<rparr>
   | FinFailed \<Rightarrow> \<lparr>oc_status = OutFailed, oc_code = Some code,
       oc_message = Some (case error of Some m \<Rightarrow> m | None \<Rightarrow> CANCELLED_MESSAGE)\<rparr>
   | FinInterrupted \<Rightarrow> \<lparr>oc_status = OutFailed, oc_code = Some code,
       oc_message = Some (case error of Some m \<Rightarrow> m | None \<Rightarrow> INTERRUPTED_MESSAGE)\<rparr>)"

definition finish_run ::
  "finish \<Rightarrow> string option \<Rightarrow> app_error_code option \<Rightarrow> app_error option \<Rightarrow> sched \<Rightarrow> (app_error + unit) \<times> sched"
where
  "finish_run f error code db s =
     (if terminal s \<or> finishing s then (Inr (), s)
      else
        let outcome = finish_outcome f error (case code of Some c \<Rightarrow> c | None \<Rightarrow> failure_code (st s)) in
        (case db of
           Some e \<Rightarrow> (Inl e, s\<lparr>finishing := False\<rparr>)
         | None \<Rightarrow> (Inr (), s\<lparr>finishing := True, terminal := True, run_status_of := finish_status f,
             run_outcome_of := Some outcome, run_error := error,
             events := events s @ [EvStatus (finish_status f), EvEnd outcome]\<rparr>)))"

subsection \<open>The driver\<close>

definition loop_head :: "run_row \<Rightarrow> sched \<Rightarrow> sched" where
  "loop_head run s =
     (if \<not> cancelled s \<and> length (completed (st s)) < total_nodes run
      then s\<lparr>driver := AtScan (sorted_nodes run) None False\<rparr> else s\<lparr>driver := AtDrain\<rparr>)"

text \<open>An error of \<^verbatim>\<open>drive\<close> ends in \<^verbatim>\<open>execute\<close>, which cancels and drains.\<close>

definition drive_fails :: "app_error \<Rightarrow> sched \<Rightarrow> sched" where
  "drive_fails e s = s\<lparr>cancelled := True, driver := AtError e\<rparr>"

text \<open>\<open>db1\<close>: reading the steps; \<open>db2\<close>: writing the start and the status; \<open>db3\<close>: the progress event.\<close>

definition drive_start ::
  "registry \<Rightarrow> run_row \<Rightarrow> app_error option \<Rightarrow> app_error option \<Rightarrow> app_error option \<Rightarrow> sched \<Rightarrow> sched"
where
  "drive_start reg run db1 db2 db3 s =
     (case db1 of Some e \<Rightarrow> drive_fails e s
      | None \<Rightarrow>
        let s1 = s\<lparr>st := load_checkpoints (nodes (rr_graph run)) (step_rows s) (st s)\<rparr> in
        (case validate_graph reg (rr_graph run) of
           Inl e \<Rightarrow> drive_fails e s1
         | Inr _ \<Rightarrow>
             (case set_status Running db2 s1 of
                (Inl e, s2) \<Rightarrow> drive_fails e s2
              | (Inr _, s2) \<Rightarrow>
                  (case db3 of Some e \<Rightarrow> drive_fails e s2
                   | None \<Rightarrow> loop_head run (publish [progress run s2] s2)))))"

datatype scan_flow = ScanContinue | ScanBreak

definition exhausted :: "sched_state \<Rightarrow> graph_node \<Rightarrow> step_row option" where
  "exhausted z n = (case tbl_get (latest z) (node_id n) of
     Some p \<Rightarrow> if step_status_of p = StepFailed \<and> max_attempts n \<le> attempt p then Some p else None
   | None \<Rightarrow> None)"

definition scan_node ::
  "run_row \<Rightarrow> string \<Rightarrow> graph_node \<Rightarrow> int option \<Rightarrow> bool \<Rightarrow> sched \<Rightarrow> scan_flow \<times> int option \<times> bool \<times> sched"
where
  "scan_node run fresh n next progressed s =
     (let z = st s; i = node_id n in
      if 0 < pending_gates z \<or> concurrency run \<le> length (running s) then (ScanBreak, next, progressed, s)
      else if tbl_get (completed z) i \<noteq> None \<or> i \<in> set (running s)
           \<or> \<not> list_all (\<lambda>d. tbl_get (completed z) d \<noteq> None) (dependencies n)
      then (ScanContinue, next, progressed, s)
      else (case exhausted z n of
          Some p \<Rightarrow> (ScanBreak, next, progressed,
             s\<lparr>st := z\<lparr>failure := Some (case step_error p of Some m \<Rightarrow> m | None \<Rightarrow> EXHAUSTED_MESSAGE)\<rparr>, cancelled := True\<rparr>)
        | None \<Rightarrow>
            if skips n z
            then (ScanContinue, next, True,
              s\<lparr>st := z\<lparr>skipped := insert i (skipped z),
                         completed := tbl_put i (skipped_step fresh (rr_id run) (clock s) n) (completed z)\<rparr>\<rparr>)
            else
              let due = (case tbl_get (ready_at z) i of Some t \<Rightarrow> t | None \<Rightarrow> 0) in
              if clock s < due
              then (ScanContinue, Some (case next of None \<Rightarrow> due | Some c \<Rightarrow> min c due), progressed, s)
              else (ScanContinue, next, progressed,
                s\<lparr>running := i # running s, tasks := tbl_put i (Pushed n) (tasks s)\<rparr>)))"

definition scan_step :: "run_row \<Rightarrow> string \<Rightarrow> sched \<Rightarrow> sched" where
  "scan_step run fresh s = (case driver s of
     AtScan (n # ns) next progressed \<Rightarrow>
       (case scan_node run fresh n next progressed s of
          (ScanContinue, next', progressed', s') \<Rightarrow> s'\<lparr>driver := AtScan ns next' progressed'\<rparr>
        | (ScanBreak, next', progressed', s') \<Rightarrow> s'\<lparr>driver := AtScan [] next' progressed'\<rparr>)
   | AtScan [] next progressed \<Rightarrow>
       if cancelled s then s\<lparr>driver := AtDrain\<rparr>
       else if tasks s \<noteq> [] then s\<lparr>driver := AtWait next\<rparr>
       else (case next of
           Some due \<Rightarrow> s\<lparr>driver := AtPause due\<rparr>
         | None \<Rightarrow>
             if \<not> progressed \<and> length (completed (st s)) < total_nodes run
             then drive_fails (app_error_new Unknown NO_READY_NODES) s
             else loop_head run s)
   | _ \<Rightarrow> s)"

text \<open>\<^verbatim>\<open>pause\<close> ends when its time has come or the run is cancelled.\<close>

definition pause_over :: "int \<Rightarrow> sched \<Rightarrow> bool" where
  "pause_over due s \<longleftrightarrow> due \<le> clock s \<or> cancelled s"

definition end_pause :: "run_row \<Rightarrow> sched \<Rightarrow> sched" where
  "end_pause run s = (case driver s of
     AtPause due \<Rightarrow> if pause_over due s then loop_head run s else s
   | AtWait (Some due) \<Rightarrow> if pause_over due s then loop_head run s else s
   | _ \<Rightarrow> s)"

definition drop_task :: "string \<Rightarrow> sched \<Rightarrow> sched" where
  "drop_task i s = s\<lparr>tasks := filter (\<lambda>(k, t). k \<noteq> i) (tasks s)\<rparr>"

definition settle :: "string \<Rightarrow> sched \<Rightarrow> sched" where
  "settle i s = (drop_task i s)\<lparr>running := remove1 i (running s)\<rparr>"

text \<open>The driver takes a returned task out of \<^verbatim>\<open>active\<close>: while it waits, while it drains after the
  loop, and in \<^verbatim>\<open>execute\<close> after an error.\<close>

definition take_returned :: "run_row \<Rightarrow> string \<Rightarrow> sched \<Rightarrow> sched" where
  "take_returned run i s = (case tbl_get (tasks s) i of
     Some (Returned n r) \<Rightarrow>
       (case driver s of
          AtWait _ \<Rightarrow> (case r of Inl e \<Rightarrow> drive_fails e (settle i s) | Inr _ \<Rightarrow> loop_head run (settle i s))
        | AtDrain \<Rightarrow> (case r of Inl e \<Rightarrow> drive_fails e (settle i s) | Inr _ \<Rightarrow> settle i s)
        | AtError _ \<Rightarrow> drop_task i s
        | _ \<Rightarrow> s)
   | _ \<Rightarrow> s)"

definition end_drive :: "app_error option \<Rightarrow> sched \<Rightarrow> sched" where
  "end_drive db s = (case driver s of
     AtDrain \<Rightarrow>
       if tasks s \<noteq> [] then s
       else if stopping s then s\<lparr>driver := AtEnd (Inr ())\<rparr>
       else (case (case failure (st s) of
               Some m \<Rightarrow> finish_run FinFailed (Some m) None db s
             | None \<Rightarrow> if cancelled s then finish_run FinCancelled None None db s
                       else finish_run FinSucceeded None None db s) of
          (Inl e, s') \<Rightarrow> drive_fails e s'
        | (Inr _, s') \<Rightarrow> s'\<lparr>driver := AtEnd (Inr ())\<rparr>)
   | AtError e \<Rightarrow>
       if tasks s \<noteq> [] then s
       else if stopping s then s\<lparr>driver := AtEnd (Inr ())\<rparr>
       else (case finish_run FinFailed (Some (err_message e)) None db s of (r, s') \<Rightarrow> s'\<lparr>driver := AtEnd r\<rparr>)
   | _ \<Rightarrow> s)"

subsection \<open>The tasks\<close>

text \<open>
  \<^verbatim>\<open>commit_step\<close>: \<^verbatim>\<open>add_step\<close> inserts the row; \<^verbatim>\<open>update_step\<close> writes the status, the input, the output,
  the error and the end of the row with that id. A failed commit writes nothing.
\<close>

definition update_row :: "step_row \<Rightarrow> step_row \<Rightarrow> step_row" where
  "update_row new r = r\<lparr>step_status_of := step_status_of new, step_input := step_input new,
     step_output := step_output new, step_error := step_error new, step_finished_at := step_finished_at new\<rparr>"

definition commit_step :: "run_row \<Rightarrow> step_row \<Rightarrow> bool \<Rightarrow> app_error option \<Rightarrow> sched \<Rightarrow> (app_error + unit) \<times> sched" where
  "commit_step run row inserting db s = (case db of
     Some e \<Rightarrow> (Inl e, s)
   | None \<Rightarrow> (Inr (), publish (EvStep row # (if inserting then [] else [progress run s]))
       (s\<lparr>step_rows := (if inserting then step_rows s @ [row]
          else map (\<lambda>r. if step_id r = step_id row then update_row row r else r) (step_rows s))\<rparr>)))"

definition return_task :: "graph_node \<Rightarrow> (app_error + unit) \<times> sched \<Rightarrow> sched" where
  "return_task n rs = (snd rs)\<lparr>tasks := tbl_put (node_id n) (Returned n (fst rs)) (tasks (snd rs))\<rparr>"

text \<open>The first poll of \<^verbatim>\<open>run_node\<close>.\<close>

definition start_task :: "run_row \<Rightarrow> string \<Rightarrow> app_error option \<Rightarrow> string \<Rightarrow> sched \<Rightarrow> sched" where
  "start_task run fresh db i s = (case tbl_get (tasks s) i of
     Some (Pushed n) \<Rightarrow>
       let z = st s;
           a = (case tbl_get (attempts z) i of Some a \<Rightarrow> a | None \<Rightarrow> 0) + 1;
           z' = z\<lparr>attempts := tbl_put i a (attempts z)\<rparr>;
           row = \<lparr>step_id = fresh, step_run_id = rr_id run, step_node_id = i, step_type = node_type n,
                  step_status_of = StepRunning, step_input = bind_input (rr_input run) z' n, step_output = JNull,
                  step_error = None, step_started_at = clock s, step_finished_at = None, attempt = a\<rparr> in
       (case commit_step run row True db (s\<lparr>st := z'\<rparr>) of
          (Inl e, s') \<Rightarrow> return_task n (Inl e, s')
        | (Inr _, s') \<Rightarrow> s'\<lparr>tasks := tbl_put i (Working n row) (tasks s')\<rparr>)
   | _ \<Rightarrow> s)"

text \<open>What the spawned work answers: the guards of \<^verbatim>\<open>run_node\<close> around the node's own code, which is the
  parameter \<open>exec\<close> (\<open>None\<close>: it did not finish within the node's timeout). \<open>c0\<close> and \<open>c1\<close> are the
  readings of the cancellation token.\<close>

definition cancelled_err :: app_error where
  "cancelled_err = app_error_new RunCancelled CANCELLED_MESSAGE"

definition work_result ::
  "registry \<Rightarrow> (permission_requirement \<Rightarrow> app_error + unit) option \<Rightarrow> bool \<Rightarrow> bool \<Rightarrow> graph_node \<Rightarrow> json
    \<Rightarrow> (registered_node \<Rightarrow> json \<Rightarrow> (app_error + json) option) \<Rightarrow> app_error + json"
where
  "work_result reg admit c0 c1 n input exec =
     (if c0 then Inl cancelled_err
      else rbind (get_node reg (node_type n)) (\<lambda>d.
        let requirement = rn_permission_for d input in
        rbind (case admit of
            Some gate \<Rightarrow> gate requirement
          | None \<Rightarrow> if tool_key requirement \<noteq> None then Inl (app_error_new PermissionDenied ''NO_PERMISSION_SERVICE'') else Inr ())
          (\<lambda>_. if c1 then Inl cancelled_err
               else (case exec d input of
                   Some r \<Rightarrow> r
                 | None \<Rightarrow> Inl (app_error_new RunFailed ''STEP_TIMED_OUT'')))))"

definition is_permission_failure :: "app_error \<Rightarrow> bool" where
  "is_permission_failure e \<longleftrightarrow> err_code e = ApprovalDenied \<or> err_code e = PermissionDenied"

definition fail_node :: "graph_node \<Rightarrow> step_row \<Rightarrow> app_error \<Rightarrow> sched \<Rightarrow> sched" where
  "fail_node n row e s =
     (let z = st s; i = node_id n;
          z = z\<lparr>ready_at := tbl_put i (clock s + backoff n * attempt row) (ready_at z)\<rparr>;
          z = (if is_permission_failure e then z\<lparr>failure_code := err_code e\<rparr> else z) in
      if \<not> is_permission_failure e \<and> max_attempts n \<le> attempt row \<and> continues_on_error n
      then s\<lparr>st := z\<lparr>completed := tbl_put i (row\<lparr>step_output := failure_output (Some (err_message e))\<rparr>) (completed z)\<rparr>\<rparr>
      else if is_permission_failure e \<or> max_attempts n \<le> attempt row
      then s\<lparr>st := z\<lparr>failure := Some (err_message e)\<rparr>, cancelled := True\<rparr>
      else s\<lparr>st := z\<rparr>)"

text \<open>The end of \<^verbatim>\<open>run_node\<close>: \<open>ev\<close> is the failure of the log event of an abandoned node, \<open>db\<close> of the row.\<close>

definition record_step :: "run_row \<Rightarrow> graph_node \<Rightarrow> step_row \<Rightarrow> app_error option \<Rightarrow> sched \<Rightarrow> sched" where
  "record_step run n row db s =
     return_task n (commit_step run row False db (s\<lparr>st := (st s)\<lparr>latest := tbl_put (node_id n) row (latest (st s))\<rparr>\<rparr>))"

definition complete_node ::
  "run_row \<Rightarrow> node_outcome \<Rightarrow> app_error option \<Rightarrow> app_error option \<Rightarrow> string \<Rightarrow> sched \<Rightarrow> sched"
where
  "complete_node run outcome ev db i s = (case tbl_get (tasks s) i of
     Some (Working n row0) \<Rightarrow>
       let row = row0\<lparr>step_finished_at := Some (clock s)\<rparr> in
       (case outcome of
          NodeAbandoned \<Rightarrow>
            let row = row\<lparr>step_status_of := StepAbandoned, step_error := Some ABANDONED_MESSAGE\<rparr> in
            (case ev of Some e \<Rightarrow> return_task n (Inl e, s)
             | None \<Rightarrow> record_step run n row db (publish [EvNodeLog ABANDONED_MESSAGE] s))
        | NodeDone r \<Rightarrow>
            if cancelled s
            then record_step run n (row\<lparr>step_status_of := StepCancelled, step_error := Some CANCELLED_MESSAGE\<rparr>) db s
            else (case r of
                Inl e \<Rightarrow>
                  let row = row\<lparr>step_status_of := StepFailed, step_error := Some (err_message e)\<rparr> in
                  record_step run n row db (fail_node n row e s)
              | Inr out \<Rightarrow>
                  let row = row\<lparr>step_status_of := StepSucceeded, step_output := out\<rparr> in
                  record_step run n row db
                    (s\<lparr>st := (st s)\<lparr>completed := tbl_put i row (completed (st s))\<rparr>\<rparr>)))
   | _ \<Rightarrow> s)"

subsection \<open>What a working node may do\<close>

definition live :: "string \<Rightarrow> sched \<Rightarrow> bool" where
  "live i s = (case tbl_get (tasks s) i of Some (Working _ _) \<Rightarrow> True | _ \<Rightarrow> False)"

datatype node_event = NodeEnds run_outcome | NodeLogs string

definition node_emit :: "string \<Rightarrow> node_event \<Rightarrow> sched \<Rightarrow> (app_error + unit) \<times> sched" where
  "node_emit i ev s =
     (if \<not> live i s \<or> cancelled s then (Inr (), s)
      else (case ev of
          NodeEnds _ \<Rightarrow> (Inl (app_error_new Unknown ''ONLY_KERNEL_ENDS''), s)
        | NodeLogs m \<Rightarrow> (Inr (), publish [EvNodeLog m] s)))"

text \<open>\<^verbatim>\<open>gate_finished\<close> and the two sides of an approval or a question.\<close>

definition close_gate :: "string \<Rightarrow> app_error option \<Rightarrow> sched \<Rightarrow> (app_error + unit) \<times> sched" where
  "close_gate i db s =
     (let remaining = pending_gates (st s) - 1;
          s' = s\<lparr>st := (st s)\<lparr>pending_gates := remaining\<rparr>, gates := remove1 i (gates s)\<rparr> in
      if live i s' \<and> \<not> cancelled s' \<and> remaining = 0 then set_status Running db s' else (Inr (), s'))"

definition open_gate :: "string \<Rightarrow> app_error option \<Rightarrow> app_error option \<Rightarrow> sched \<Rightarrow> (app_error + unit) \<times> sched" where
  "open_gate i db db' s =
     (if \<not> live i s \<or> cancelled s then (Inl cancelled_err, s)
      else
        (case set_status Blocked db (s\<lparr>st := (st s)\<lparr>pending_gates := pending_gates (st s) + 1\<rparr>, gates := i # gates s\<rparr>) of
           (Inl e, s') \<Rightarrow> (case close_gate i db' s' of (Inl e', s'') \<Rightarrow> (Inl e', s'') | (Inr _, s'') \<Rightarrow> (Inl e, s''))
         | (Inr _, s') \<Rightarrow> (Inr (), s')))"

text \<open>A future that is dropped while it waits at a gate runs nothing of what follows.\<close>

definition drop_gate :: "string \<Rightarrow> sched \<Rightarrow> sched" where
  "drop_gate i s = s\<lparr>gates := remove1 i (gates s), leaked := leaked s + 1\<rparr>"

subsection \<open>The machine\<close>

text \<open>The futures in \<^verbatim>\<open>active\<close> are only polled while the driver awaits \<^verbatim>\<open>active.next()\<close>.\<close>

definition polling :: "sched \<Rightarrow> bool" where
  "polling s = (case driver s of AtWait _ \<Rightarrow> True | AtDrain \<Rightarrow> True | AtError _ \<Rightarrow> True | _ \<Rightarrow> False)"

inductive sched_step :: "registry \<Rightarrow> run_row \<Rightarrow> sched \<Rightarrow> sched \<Rightarrow> bool" for reg run where
  driver_starts: "driver s = AtStart \<Longrightarrow> sched_step reg run s (drive_start reg run db1 db2 db3 s)"
| driver_scans: "driver s = AtScan ns next progressed \<Longrightarrow> sched_step reg run s (scan_step run fresh s)"
| driver_pauses: "sched_step reg run s (end_pause run s)"
| driver_takes: "sched_step reg run s (take_returned run i s)"
| driver_ends: "sched_step reg run s (end_drive db s)"
| task_starts: "polling s \<Longrightarrow> sched_step reg run s (start_task run fresh db i s)"
| task_works: "polling s \<Longrightarrow> i \<notin> set (gates s) \<Longrightarrow> tbl_get (tasks s) i = Some (Working n row) \<Longrightarrow>
    sched_step reg run s (complete_node run (NodeDone (work_result reg admit c0 c1 n (step_input row) exec)) ev db i s)"
| task_panics: "polling s \<Longrightarrow> i \<notin> set (gates s) \<Longrightarrow>
    sched_step reg run s (complete_node run (NodeDone (Inl (app_error_new Unknown ''NODE_PANICKED''))) ev db i s)"
| task_abandoned: "polling s \<Longrightarrow> cancelled s \<Longrightarrow> sched_step reg run s (complete_node run NodeAbandoned ev db i s)"
| node_emits: "sched_step reg run s (snd (node_emit i event s))"
| gate_opens: "sched_step reg run s (snd (open_gate i db db' s))"
| gate_closes: "i \<in> set (gates s) \<Longrightarrow> sched_step reg run s (snd (close_gate i db s))"
| gate_drops: "i \<in> set (gates s) \<Longrightarrow> sched_step reg run s (drop_gate i s)"
| user_cancels: "sched_step reg run s (s\<lparr>cancelled := True\<rparr>)"
| app_suspends: "sched_step reg run s (s\<lparr>stopping := True, cancelled := True\<rparr>)"
| clock_advances: "clock s \<le> now \<Longrightarrow> sched_step reg run s (s\<lparr>clock := now\<rparr>)"

inductive sched_reachable :: "registry \<Rightarrow> run_row \<Rightarrow> step_row list \<Rightarrow> sched \<Rightarrow> bool" for reg run rows where
  sched_starts: "sched_reachable reg run rows (sched_new run rows now)"
| sched_goes: "sched_reachable reg run rows s \<Longrightarrow> sched_step reg run s s' \<Longrightarrow> sched_reachable reg run rows s'"

end
