(* ===== verification/SchedulerProps.thy ===== *)
theory SchedulerProps
  imports Scheduler
begin

text \<open>
  The invariants of the scheduler's machine and what they give: the bound on running nodes, the
  order of dependencies, the single end of a run, what success means, the bound on attempts, and
  when a run can find itself without a ready node.
\<close>

subsection \<open>Frames\<close>

lemma publish_frame [state_simps]:
  "st (publish es s) = st s" "tasks (publish es s) = tasks s" "running (publish es s) = running s"
  "cancelled (publish es s) = cancelled s" "stopping (publish es s) = stopping s" "terminal (publish es s) = terminal s"
  "finishing (publish es s) = finishing s" "step_rows (publish es s) = step_rows s"
  "run_status_of (publish es s) = run_status_of s" "run_outcome_of (publish es s) = run_outcome_of s"
  "clock (publish es s) = clock s" "driver (publish es s) = driver s" "gates (publish es s) = gates s"
  "leaked (publish es s) = leaked s"
  by (simp_all add: publish_def)

lemma set_status_frame [state_simps]:
  "st (snd (set_status x db s)) = st s" "tasks (snd (set_status x db s)) = tasks s"
  "running (snd (set_status x db s)) = running s" "cancelled (snd (set_status x db s)) = cancelled s"
  "stopping (snd (set_status x db s)) = stopping s" "terminal (snd (set_status x db s)) = terminal s"
  "finishing (snd (set_status x db s)) = finishing s" "run_outcome_of (snd (set_status x db s)) = run_outcome_of s"
  "driver (snd (set_status x db s)) = driver s" "gates (snd (set_status x db s)) = gates s"
  "leaked (snd (set_status x db s)) = leaked s" "clock (snd (set_status x db s)) = clock s"
  "step_rows (snd (set_status x db s)) = step_rows s"
  by (simp_all add: set_status_def state_simps split: option.split)

lemma commit_step_frame [state_simps]:
  "st (snd (commit_step run row b db s)) = st s" "tasks (snd (commit_step run row b db s)) = tasks s"
  "running (snd (commit_step run row b db s)) = running s" "cancelled (snd (commit_step run row b db s)) = cancelled s"
  "stopping (snd (commit_step run row b db s)) = stopping s" "terminal (snd (commit_step run row b db s)) = terminal s"
  "finishing (snd (commit_step run row b db s)) = finishing s"
  "run_outcome_of (snd (commit_step run row b db s)) = run_outcome_of s"
  "driver (snd (commit_step run row b db s)) = driver s" "gates (snd (commit_step run row b db s)) = gates s"
  "leaked (snd (commit_step run row b db s)) = leaked s" "clock (snd (commit_step run row b db s)) = clock s"
  by (simp_all add: commit_step_def state_simps split: option.split)

lemma return_task_frame [state_simps]:
  "st (return_task n rs) = st (snd rs)" "running (return_task n rs) = running (snd rs)"
  "cancelled (return_task n rs) = cancelled (snd rs)" "stopping (return_task n rs) = stopping (snd rs)"
  "terminal (return_task n rs) = terminal (snd rs)" "finishing (return_task n rs) = finishing (snd rs)"
  "run_outcome_of (return_task n rs) = run_outcome_of (snd rs)" "driver (return_task n rs) = driver (snd rs)"
  "gates (return_task n rs) = gates (snd rs)" "leaked (return_task n rs) = leaked (snd rs)"
  "events (return_task n rs) = events (snd rs)"
  "tasks (return_task n rs) = tbl_put (node_id n) (Returned n (fst rs)) (tasks (snd rs))"
  by (simp_all add: return_task_def)

lemma finish_run_frame [state_simps]:
  "st (snd (finish_run f e c db s)) = st s" "tasks (snd (finish_run f e c db s)) = tasks s"
  "running (snd (finish_run f e c db s)) = running s" "cancelled (snd (finish_run f e c db s)) = cancelled s"
  "driver (snd (finish_run f e c db s)) = driver s" "gates (snd (finish_run f e c db s)) = gates s"
  "leaked (snd (finish_run f e c db s)) = leaked s"
  by (simp_all add: finish_run_def Let_def split: option.split)

lemma finish_run_rows: "step_rows (snd (finish_run f e c db s)) = step_rows s"
  by (simp add: finish_run_def Let_def split: option.split)

lemma loop_head_frame [state_simps]:
  "st (loop_head run s) = st s" "tasks (loop_head run s) = tasks s" "running (loop_head run s) = running s"
  "cancelled (loop_head run s) = cancelled s" "terminal (loop_head run s) = terminal s"
  "finishing (loop_head run s) = finishing s" "gates (loop_head run s) = gates s" "leaked (loop_head run s) = leaked s"
  "events (loop_head run s) = events s" "run_outcome_of (loop_head run s) = run_outcome_of s"
  by (simp_all add: loop_head_def)

lemma drive_fails_frame [state_simps]:
  "st (drive_fails e s) = st s" "tasks (drive_fails e s) = tasks s" "running (drive_fails e s) = running s"
  "cancelled (drive_fails e s) = True" "terminal (drive_fails e s) = terminal s"
  "finishing (drive_fails e s) = finishing s" "gates (drive_fails e s) = gates s" "leaked (drive_fails e s) = leaked s"
  "events (drive_fails e s) = events s" "run_outcome_of (drive_fails e s) = run_outcome_of s"
  "driver (drive_fails e s) = AtError e"
  by (simp_all add: drive_fails_def)

lemma driver_loop_head: "driver (loop_head run s) =
    (if \<not> cancelled s \<and> length (completed (st s)) < total_nodes run then AtScan (sorted_nodes run) None False else AtDrain)"
  by (simp add: loop_head_def)

lemma tbl_get_filter: "tbl_get (filter (\<lambda>(k, t). k \<noteq> i) ts) j = (if j = i then None else tbl_get ts j)"
  by (induction ts) (auto simp: tbl_get_def)

lemma tbl_ok_filter: "tbl_ok ts \<Longrightarrow> tbl_ok (filter P ts)"
  by (simp add: tbl_ok_def distinct_map_filter_keep)

lemma drop_task_frame [state_simps]:
  "st (drop_task i s) = st s" "running (drop_task i s) = running s" "cancelled (drop_task i s) = cancelled s"
  "terminal (drop_task i s) = terminal s" "finishing (drop_task i s) = finishing s" "gates (drop_task i s) = gates s"
  "leaked (drop_task i s) = leaked s" "events (drop_task i s) = events s" "driver (drop_task i s) = driver s"
  "run_outcome_of (drop_task i s) = run_outcome_of s"
  by (simp_all add: drop_task_def)

lemma get_drop_task [state_simps]: "tbl_get (tasks (drop_task i s)) j = (if j = i then None else tbl_get (tasks s) j)"
  by (simp add: drop_task_def tbl_get_filter)

lemma settle_frame [state_simps]:
  "st (settle i s) = st s" "running (settle i s) = remove1 i (running s)" "cancelled (settle i s) = cancelled s"
  "terminal (settle i s) = terminal s" "finishing (settle i s) = finishing s" "gates (settle i s) = gates s"
  "leaked (settle i s) = leaked s" "events (settle i s) = events s" "driver (settle i s) = driver s"
  "run_outcome_of (settle i s) = run_outcome_of s" "tasks (settle i s) = tasks (drop_task i s)"
  by (simp_all add: settle_def state_simps)

lemma fail_node_frame [state_simps]:
  "tasks (fail_node n row e s) = tasks s" "running (fail_node n row e s) = running s"
  "terminal (fail_node n row e s) = terminal s" "finishing (fail_node n row e s) = finishing s"
  "gates (fail_node n row e s) = gates s" "leaked (fail_node n row e s) = leaked s"
  "events (fail_node n row e s) = events s" "driver (fail_node n row e s) = driver s"
  "run_outcome_of (fail_node n row e s) = run_outcome_of s"
  "pending_gates (st (fail_node n row e s)) = pending_gates (st s)"
  "attempts (st (fail_node n row e s)) = attempts (st s)"
  by (simp_all add: fail_node_def Let_def)

lemma fail_node_cancels: "cancelled s \<Longrightarrow> cancelled (fail_node n row e s)"
  by (simp add: fail_node_def Let_def)

lemma record_step_frame [state_simps]:
  "running (record_step run n row db s) = running s" "cancelled (record_step run n row db s) = cancelled s"
  "terminal (record_step run n row db s) = terminal s" "finishing (record_step run n row db s) = finishing s"
  "gates (record_step run n row db s) = gates s" "leaked (record_step run n row db s) = leaked s"
  "driver (record_step run n row db s) = driver s" "run_outcome_of (record_step run n row db s) = run_outcome_of s"
  "completed (st (record_step run n row db s)) = completed (st s)"
  "attempts (st (record_step run n row db s)) = attempts (st s)"
  "pending_gates (st (record_step run n row db s)) = pending_gates (st s)"
  "failure (st (record_step run n row db s)) = failure (st s)"
  by (simp_all add: record_step_def state_simps)

lemma tasks_record_step [state_simps]:
  "tasks (record_step run n row db s) =
     tbl_put (node_id n) (Returned n (case db of Some e \<Rightarrow> Inl e | None \<Rightarrow> Inr ())) (tasks s)"
  by (simp add: record_step_def state_simps) (simp add: commit_step_def split: option.split)

lemma live_frame: "tasks s' = tasks s \<Longrightarrow> live i s' = live i s"
  by (simp add: live_def)

lemma close_gate_frame [state_simps]:
  "tasks (snd (close_gate i db s)) = tasks s" "running (snd (close_gate i db s)) = running s"
  "cancelled (snd (close_gate i db s)) = cancelled s" "terminal (snd (close_gate i db s)) = terminal s"
  "finishing (snd (close_gate i db s)) = finishing s" "driver (snd (close_gate i db s)) = driver s"
  "leaked (snd (close_gate i db s)) = leaked s" "gates (snd (close_gate i db s)) = remove1 i (gates s)"
  "completed (st (snd (close_gate i db s))) = completed (st s)" "attempts (st (snd (close_gate i db s))) = attempts (st s)"
  "failure (st (snd (close_gate i db s))) = failure (st s)" "skipped (st (snd (close_gate i db s))) = skipped (st s)"
  "pending_gates (st (snd (close_gate i db s))) = pending_gates (st s) - 1"
  "run_outcome_of (snd (close_gate i db s)) = run_outcome_of s" "clock (snd (close_gate i db s)) = clock s"
  by (simp_all add: close_gate_def Let_def state_simps)

definition gate_added :: "string \<Rightarrow> sched \<Rightarrow> sched" where
  "gate_added i s = s\<lparr>st := (st s)\<lparr>pending_gates := pending_gates (st s) + 1\<rparr>, gates := i # gates s\<rparr>"

lemma open_gate_state:
  "snd (open_gate i db db' s) =
     (if \<not> live i s \<or> cancelled s then s
      else if db = None then snd (set_status Blocked None (gate_added i s))
      else snd (close_gate i db' (gate_added i s)))"
  by (cases db) (auto simp: open_gate_def set_status_def gate_added_def split: prod.split sum.split)

lemma open_gate_frame [state_simps]:
  "tasks (snd (open_gate i db db' s)) = tasks s" "running (snd (open_gate i db db' s)) = running s"
  "cancelled (snd (open_gate i db db' s)) = cancelled s" "terminal (snd (open_gate i db db' s)) = terminal s"
  "finishing (snd (open_gate i db db' s)) = finishing s" "driver (snd (open_gate i db db' s)) = driver s"
  "leaked (snd (open_gate i db db' s)) = leaked s" "completed (st (snd (open_gate i db db' s))) = completed (st s)"
  "attempts (st (snd (open_gate i db db' s))) = attempts (st s)" "failure (st (snd (open_gate i db db' s))) = failure (st s)"
  "skipped (st (snd (open_gate i db db' s))) = skipped (st s)"
  "run_outcome_of (snd (open_gate i db db' s)) = run_outcome_of s" "clock (snd (open_gate i db db' s)) = clock s"
  by (simp_all add: open_gate_state state_simps gate_added_def)

lemma node_emit_state: "snd (node_emit i ev s) = s \<or> (\<exists>m. snd (node_emit i ev s) = publish [EvNodeLog m] s)"
  by (cases ev) (auto simp: node_emit_def)

lemma node_emit_rows: "step_rows (snd (node_emit i ev s)) = step_rows s"
  using node_emit_state [of i ev s] by (auto simp: state_simps)

lemma node_emit_frame [state_simps]:
  "st (snd (node_emit i ev s)) = st s" "tasks (snd (node_emit i ev s)) = tasks s"
  "running (snd (node_emit i ev s)) = running s" "cancelled (snd (node_emit i ev s)) = cancelled s"
  "terminal (snd (node_emit i ev s)) = terminal s" "finishing (snd (node_emit i ev s)) = finishing s"
  "driver (snd (node_emit i ev s)) = driver s" "gates (snd (node_emit i ev s)) = gates s"
  "leaked (snd (node_emit i ev s)) = leaked s" "run_outcome_of (snd (node_emit i ev s)) = run_outcome_of s"
  using node_emit_state [of i ev s] by (auto simp: state_simps)

lemma gate_rows:
  "step_rows (snd (close_gate i db s)) = step_rows s" "step_rows (snd (open_gate i db db' s)) = step_rows s"
  by (simp_all add: open_gate_state state_simps close_gate_def Let_def gate_added_def)

subsection \<open>What one step of the loop over the nodes does\<close>

definition done_node :: "string \<Rightarrow> sched \<Rightarrow> bool" where
  "done_node i s \<longleftrightarrow> tbl_get (completed (st s)) i \<noteq> None"

definition ready_in :: "graph_node \<Rightarrow> sched \<Rightarrow> bool" where
  "ready_in n s \<longleftrightarrow> \<not> done_node (node_id n) s \<and> node_id n \<notin> set (running s) \<and> (\<forall>d \<in> set (dependencies n). done_node d s)"

lemma scan_node_cases:
  assumes "scan_node run fresh n next p s = (flow, next', p', s')"
  obtains (full) "flow = ScanBreak" "next' = next" "p' = p" "s' = s" "0 < pending_gates (st s) \<or> concurrency run \<le> length (running s)"
  | (waits) "flow = ScanContinue" "next' = next" "p' = p" "s' = s" "\<not> ready_in n s"
  | (exhausted) m where "flow = ScanBreak" "next' = next" "p' = p" "s' = s\<lparr>st := (st s)\<lparr>failure := Some m\<rparr>, cancelled := True\<rparr>" "ready_in n s"
  | (skipped) step where "flow = ScanContinue" "next' = next" "p'" "ready_in n s"
      "s' = s\<lparr>st := (st s)\<lparr>skipped := insert (node_id n) (skipped (st s)), completed := tbl_put (node_id n) step (completed (st s))\<rparr>\<rparr>"
  | (later) due where "flow = ScanContinue" "next' = Some due" "p' = p" "s' = s" "ready_in n s"
  | (pushed) "flow = ScanContinue" "next' = next" "p' = p" "ready_in n s" "length (running s) < concurrency run"
      "s' = s\<lparr>running := node_id n # running s, tasks := tbl_put (node_id n) (Pushed n) (tasks s)\<rparr>"
proof -
  let ?full = "0 < pending_gates (st s) \<or> concurrency run \<le> length (running s)"
  consider (a) ?full | (b) "\<not> ?full" "\<not> ready_in n s" | (c) "\<not> ?full" "ready_in n s" by blast
  then show thesis
  proof cases
    case a
    then have "scan_node run fresh n next p s = (ScanBreak, next, p, s)" by (simp add: scan_node_def Let_def)
    with assms a full show thesis by simp
  next
    case b
    then have "scan_node run fresh n next p s = (ScanContinue, next, p, s)"
      unfolding ready_in_def done_node_def scan_node_def Let_def list_all_iff by (subst if_not_P) auto
    with assms b waits show thesis by simp
  next
    case c
    note eq = assms [unfolded scan_node_def Let_def list_all_iff if_not_P [OF c(1)]]
    from c(2) have nr: "\<not> (tbl_get (completed (st s)) (node_id n) \<noteq> None \<or> node_id n \<in> set (running s) \<or>
        \<not> (\<forall>d\<in>set (dependencies n). tbl_get (completed (st s)) d \<noteq> None))" by (auto simp: ready_in_def done_node_def)
    note eq2 = eq [unfolded if_not_P [OF nr]]
    show thesis
    proof (cases "exhausted (st s) n")
      case (Some q)
      with eq2 c exhausted show thesis by auto
    next
      case None
      show thesis
      proof (cases "skips n (st s)")
        case True
        with eq2 None c skipped show thesis by auto
      next
        case False
        with eq2 None c later pushed show thesis by (auto split: if_splits)
      qed
    qed
  qed
qed

subsection \<open>What the end of a task does\<close>

lemma complete_node_idle: "(\<And>n row. tbl_get (tasks s) i \<noteq> Some (Working n row)) \<Longrightarrow> complete_node run oc ev db i s = s"
  by (auto simp: complete_node_def split: option.split task.split)

lemma complete_node_effect:
  assumes w: "tbl_get (tasks s) i = Some (Working n row)" and i: "node_id n = i"
    and ab: "oc = NodeAbandoned \<Longrightarrow> cancelled s"
  obtains r where
    "tasks (complete_node run oc ev db i s) = tbl_put i (Returned n r) (tasks s)"
    "running (complete_node run oc ev db i s) = running s" "gates (complete_node run oc ev db i s) = gates s"
    "leaked (complete_node run oc ev db i s) = leaked s" "driver (complete_node run oc ev db i s) = driver s"
    "terminal (complete_node run oc ev db i s) = terminal s" "finishing (complete_node run oc ev db i s) = finishing s"
    "run_outcome_of (complete_node run oc ev db i s) = run_outcome_of s"
    "pending_gates (st (complete_node run oc ev db i s)) = pending_gates (st s)"
    "attempts (st (complete_node run oc ev db i s)) = attempts (st s)"
    "cancelled s \<Longrightarrow> cancelled (complete_node run oc ev db i s)"
    "completed (st (complete_node run oc ev db i s)) = completed (st s)
     \<or> (\<exists>c. completed (st (complete_node run oc ev db i s)) = tbl_put i c (completed (st s)))"
    "cancelled (complete_node run oc ev db i s) \<or> done_node i (complete_node run oc ev db i s)
     \<or> attempt row < max_attempts n \<or> (\<exists>e. r = Inl e)"
proof -
  let ?s' = "complete_node run oc ev db i s"
  let ?row = "row\<lparr>step_finished_at := Some (clock s)\<rparr>"
  consider (ab) e where "oc = NodeAbandoned" "ev = Some e" | (ab2) "oc = NodeAbandoned" "ev = None"
    | (ca) r where "oc = NodeDone r" "cancelled s" | (er) e where "oc = NodeDone (Inl e)" "\<not> cancelled s"
    | (ok) out where "oc = NodeDone (Inr out)" "\<not> cancelled s"
    by (cases oc; cases ev) (metis sum.exhaust)+
  then show thesis
  proof cases
    case (ab e)
    then have "?s' = return_task n (Inl e, s)" using w by (simp add: complete_node_def Let_def)
    then show thesis using i by (intro that [of "Inl e"]) (simp_all add: state_simps)
  next
    case ab2
    then have "?s' = record_step run n (?row\<lparr>step_status_of := StepAbandoned, step_error := Some ABANDONED_MESSAGE\<rparr>) db
        (publish [EvNodeLog ABANDONED_MESSAGE] s)" using w by (simp add: complete_node_def Let_def)
    then show thesis using i ab ab2 by (intro that) (simp_all add: state_simps)
  next
    case (ca r)
    then have "?s' = record_step run n (?row\<lparr>step_status_of := StepCancelled, step_error := Some CANCELLED_MESSAGE\<rparr>) db s"
      using w by (simp add: complete_node_def Let_def)
    then show thesis using i ca by (intro that) (simp_all add: state_simps)
  next
    case (er e)
    let ?r = "?row\<lparr>step_status_of := StepFailed, step_error := Some (err_message e)\<rparr>"
    have s': "?s' = record_step run n ?r db (fail_node n ?r e s)"
      using w er by (simp add: complete_node_def Let_def)
    have "completed (st (fail_node n ?r e s)) = completed (st s)
        \<or> (\<exists>c. completed (st (fail_node n ?r e s)) = tbl_put i c (completed (st s)))"
      by (auto simp: fail_node_def Let_def i)
    moreover have "cancelled (fail_node n ?r e s) \<or> done_node i (fail_node n ?r e s) \<or> attempt row < max_attempts n"
      by (auto simp: fail_node_def Let_def i done_node_def)
    ultimately show thesis using i er s' by (intro that) (auto simp: state_simps done_node_def)
  next
    case (ok out)
    let ?r = "?row\<lparr>step_status_of := StepSucceeded, step_output := out\<rparr>"
    have "?s' = record_step run n ?r db (s\<lparr>st := (st s)\<lparr>completed := tbl_put i ?r (completed (st s))\<rparr>\<rparr>)"
      using w ok by (simp add: complete_node_def Let_def)
    then show thesis using i ok by (intro that) (auto simp: state_simps done_node_def)
  qed
qed

subsection \<open>The core invariant: tasks, dependencies and concurrency\<close>

definition task_ok :: "run_row \<Rightarrow> sched \<Rightarrow> string \<Rightarrow> task \<Rightarrow> bool" where
  "task_ok run s i t \<longleftrightarrow> node_id (task_node t) = i \<and> task_node t \<in> set (nodes (rr_graph run)) \<and> i \<in> set (running s)
     \<and> (\<forall>d \<in> set (dependencies (task_node t)). done_node d s)"

definition core_inv :: "run_row \<Rightarrow> sched \<Rightarrow> bool" where
  "core_inv run s \<longleftrightarrow> tbl_ok (completed (st s)) \<and> (\<forall>i. done_node i s \<longrightarrow> i \<in> node_id ` set (nodes (rr_graph run)))
     \<and> tbl_ok (tasks s) \<and> (\<forall>i t. tbl_get (tasks s) i = Some t \<longrightarrow> task_ok run s i t)
     \<and> distinct (running s) \<and> length (running s) \<le> concurrency run
     \<and> (\<forall>ns a b. driver s = AtScan ns a b \<longrightarrow> set ns \<subseteq> set (nodes (rr_graph run)))"

lemma core_inv_task: "core_inv run s \<Longrightarrow> tbl_get (tasks s) i = Some t \<Longrightarrow> task_ok run s i t"
  unfolding core_inv_def by blast

lemma core_inv_task_id: "core_inv run s \<Longrightarrow> tbl_get (tasks s) i = Some t \<Longrightarrow> node_id (task_node t) = i"
  using core_inv_task by (fastforce simp: task_ok_def)

lemma core_inv_same:
  assumes "core_inv run s" "completed (st s') = completed (st s)" "tasks s' = tasks s" "running s' = running s"
    and "\<And>ns a b. driver s' = AtScan ns a b \<Longrightarrow> set ns \<subseteq> set (nodes (rr_graph run))"
  shows "core_inv run s'"
  using assms by (simp add: core_inv_def task_ok_def done_node_def)

lemma core_inv_completed:
  assumes "core_inv run s" "completed (st s') = tbl_put i c (completed (st s))" "i \<in> node_id ` set (nodes (rr_graph run))"
    and "tasks s' = tasks s" "running s' = running s"
    and "\<And>ns a b. driver s' = AtScan ns a b \<Longrightarrow> set ns \<subseteq> set (nodes (rr_graph run))"
  shows "core_inv run s'"
  using assms by (auto simp: core_inv_def task_ok_def done_node_def)

lemma set_sorted_nodes [simp]: "set (sorted_nodes run) = set (nodes (rr_graph run))"
  by (simp add: sorted_nodes_def)

lemma core_inv_loop_head: "core_inv run s \<Longrightarrow> core_inv run (loop_head run s)"
  by (rule core_inv_same [of run s]) (auto simp: state_simps driver_loop_head split: if_splits)

lemma core_inv_drive_fails: "core_inv run s \<Longrightarrow> core_inv run (drive_fails e s)"
  by (rule core_inv_same [of run s]) (auto simp: state_simps)

lemma core_inv_drop_task: "core_inv run s \<Longrightarrow> core_inv run (drop_task i s)"
  unfolding core_inv_def
  by (auto simp: state_simps task_ok_def done_node_def) (simp add: drop_task_def tbl_ok_filter)

lemma core_inv_settle:
  assumes "core_inv run s" shows "core_inv run (settle i s)"
proof -
  have "length (remove1 i (running s)) \<le> length (running s)" by (simp add: length_remove1)
  with assms show ?thesis unfolding core_inv_def
    by (auto simp: state_simps task_ok_def done_node_def) (simp add: drop_task_def tbl_ok_filter)
qed

lemma core_inv_start:
  assumes "core_inv run s" "tasks s = []" "completed (st s) = []" "latest (st s) = []" "attempts (st s) = []"
  shows "core_inv run (drive_start reg run db1 db2 db3 s)"
proof -
  let ?s1 = "s\<lparr>st := load_checkpoints (nodes (rr_graph run)) (step_rows s) (st s)\<rparr>"
  have "checkpoint_ok (nodes (rr_graph run)) (st s)" using assms(3-) by (simp add: checkpoint_ok_def)
  then have ok: "checkpoint_ok (nodes (rr_graph run)) (st ?s1)" by (simp add: load_checkpoints_ok)
  have s1: "core_inv run ?s1" using assms(1,2) ok by (auto simp: core_inv_def checkpoint_ok_def done_node_def)
  have s2: "core_inv run (snd (set_status Running db2 ?s1))"
    by (rule core_inv_same [OF s1]) (use s1 in \<open>auto simp: state_simps core_inv_def\<close>)
  have s3: "core_inv run (publish es (snd (set_status Running db2 ?s1)))" for es
    by (rule core_inv_same [OF s2]) (use s1 in \<open>auto simp: state_simps core_inv_def\<close>)
  show ?thesis
    using assms(1) s1 s2 s3
    by (auto simp: drive_start_def Let_def case_prod_beta core_inv_drive_fails core_inv_loop_head
        split: option.split sum.split)
qed

lemma core_inv_scan_node:
  assumes "core_inv run s" "n \<in> set (nodes (rr_graph run))" "scan_node run fresh n a b s = (flow, a', b', s')"
  shows "core_inv run s' \<and> driver s' = driver s"
  using assms(3)
proof (cases rule: scan_node_cases)
  case (exhausted m)
  have "core_inv run s'" by (rule core_inv_same [OF assms(1)]) (use exhausted(4) assms(1) in \<open>auto simp: core_inv_def\<close>)
  then show ?thesis by (simp add: exhausted(4))
next
  case (skipped step)
  have "core_inv run s'" using skipped(5) assms(1,2)
    by (intro core_inv_completed [OF assms(1), of _ "node_id n" step]) (auto simp: core_inv_def)
  then show ?thesis by (simp add: skipped(5))
next
  case pushed
  then show ?thesis using assms(1,2)
    by (auto simp: core_inv_def task_ok_def done_node_def ready_in_def)
qed (use assms(1) in auto)

lemma core_inv_driver:
  "core_inv run s \<Longrightarrow> (\<And>ns a b. d = AtScan ns a b \<Longrightarrow> set ns \<subseteq> set (nodes (rr_graph run))) \<Longrightarrow> core_inv run (s\<lparr>driver := d\<rparr>)"
  by (rule core_inv_same [of run s]) auto

lemma core_inv_scan_step:
  assumes "core_inv run s" shows "core_inv run (scan_step run fresh s)"
proof (cases "driver s")
  case (AtScan ns a b)
  show ?thesis
  proof (cases ns)
    case Nil
    then show ?thesis using assms AtScan
      by (auto simp: scan_step_def core_inv_drive_fails core_inv_loop_head intro!: core_inv_driver split: option.split)
  next
    case (Cons n ns')
    obtain flow a' b' s' where eq: "scan_node run fresh n a b s = (flow, a', b', s')" by (metis prod_cases4)
    have ns: "set ns \<subseteq> set (nodes (rr_graph run))" using assms AtScan by (auto simp: core_inv_def)
    then have "core_inv run s'" using core_inv_scan_node [OF assms _ eq] Cons by auto
    then show ?thesis using AtScan Cons eq ns by (cases flow) (auto simp: scan_step_def intro!: core_inv_driver)
  qed
qed (use assms in \<open>simp_all add: scan_step_def\<close>)

lemma core_inv_complete:
  assumes "core_inv run s" "oc = NodeAbandoned \<Longrightarrow> cancelled s"
  shows "core_inv run (complete_node run oc ev db i s)"
proof (cases "\<exists>n row. tbl_get (tasks s) i = Some (Working n row)")
  case True
  then obtain n row where w: "tbl_get (tasks s) i = Some (Working n row)" by blast
  have ok: "task_ok run s i (Working n row)" using assms(1) w by (auto simp: core_inv_def)
  then have i: "node_id n = i" by (simp add: task_ok_def)
  show ?thesis
  proof (rule complete_node_effect [OF w i assms(2), where run = run and ev = ev and db = db], assumption)
    fix r
    assume *: "tasks (complete_node run oc ev db i s) = tbl_put i (Returned n r) (tasks s)"
      "running (complete_node run oc ev db i s) = running s" "driver (complete_node run oc ev db i s) = driver s"
      "completed (st (complete_node run oc ev db i s)) = completed (st s)
       \<or> (\<exists>c. completed (st (complete_node run oc ev db i s)) = tbl_put i c (completed (st s)))"
    from *(4) show "core_inv run (complete_node run oc ev db i s)"
      using assms(1) ok *(1-3) by (auto simp: core_inv_def task_ok_def done_node_def split: if_splits)
  qed
qed (use assms(1) in \<open>simp add: complete_node_idle\<close>)

lemma start_task_idle: "(\<And>n. tbl_get (tasks s) i \<noteq> Some (Pushed n)) \<Longrightarrow> start_task run fresh db i s = s"
  by (auto simp: start_task_def split: option.split task.split)

lemma start_task_effect:
  assumes p: "tbl_get (tasks s) i = Some (Pushed n)" and i: "node_id n = i"
  defines "a \<equiv> (case tbl_get (attempts (st s)) i of Some a \<Rightarrow> a | None \<Rightarrow> 0) + 1"
  obtains t where
    "tasks (start_task run fresh db i s) = tbl_put i t (tasks s)"
    "(\<exists>row. t = Working n row \<and> attempt row = a) \<or> (\<exists>e. t = Returned n (Inl e))"
    "st (start_task run fresh db i s) = (st s)\<lparr>attempts := tbl_put i a (attempts (st s))\<rparr>"
    "running (start_task run fresh db i s) = running s" "gates (start_task run fresh db i s) = gates s"
    "leaked (start_task run fresh db i s) = leaked s" "driver (start_task run fresh db i s) = driver s"
    "terminal (start_task run fresh db i s) = terminal s" "finishing (start_task run fresh db i s) = finishing s"
    "run_outcome_of (start_task run fresh db i s) = run_outcome_of s"
    "cancelled (start_task run fresh db i s) = cancelled s"
    "\<exists>es. events (start_task run fresh db i s) = events s @ es \<and> (terminal s \<longrightarrow> es = []) \<and> (\<forall>oc. EvEnd oc \<notin> set es)"
proof -
  let ?z' = "(st s)\<lparr>attempts := tbl_put i a (attempts (st s))\<rparr>"
  let ?row = "\<lparr>step_id = fresh, step_run_id = rr_id run, step_node_id = i, step_type = node_type n,
                  step_status_of = StepRunning, step_input = bind_input (rr_input run) ?z' n, step_output = JNull,
                  step_error = None, step_started_at = clock s, step_finished_at = None, attempt = a\<rparr>"
  show thesis
  proof (cases db)
    case (Some e)
    then have "start_task run fresh db i s = return_task n (Inl e, s\<lparr>st := ?z'\<rparr>)"
      using p by (simp add: start_task_def Let_def commit_step_def a_def)
    then show thesis using i by (intro that [of "Returned n (Inl e)"]) (simp_all add: state_simps)
  next
    case None
    let ?s1 = "publish [EvStep ?row] (s\<lparr>st := ?z', step_rows := step_rows s @ [?row]\<rparr>)"
    have "start_task run fresh db i s = ?s1\<lparr>tasks := tbl_put i (Working n ?row) (tasks ?s1)\<rparr>"
      using p None by (simp add: start_task_def Let_def a_def commit_step_def)
    then show thesis by (intro that [of "Working n ?row"]) (simp_all add: state_simps, simp add: publish_def)
  qed
qed

lemma core_inv_start_task:
  assumes "core_inv run s" shows "core_inv run (start_task run fresh db i s)"
proof (cases "\<exists>n. tbl_get (tasks s) i = Some (Pushed n)")
  case True
  then obtain n where p: "tbl_get (tasks s) i = Some (Pushed n)" by blast
  have ok: "task_ok run s i (Pushed n)" using assms p by (auto simp: core_inv_def)
  then have i: "node_id n = i" by (simp add: task_ok_def)
  show ?thesis
  proof (rule start_task_effect [OF p i, where run = run and fresh = fresh and db = db], goal_cases)
    case (1 t)
    from 1(2) have "task_node t = n" by auto
    with 1(1,3,4,7) assms ok show ?case by (auto simp: core_inv_def task_ok_def done_node_def)
  qed
qed (use assms in \<open>simp add: start_task_idle\<close>)

lemma core_inv_take: "core_inv run s \<Longrightarrow> core_inv run (take_returned run i s)"
  by (auto simp: take_returned_def core_inv_drive_fails core_inv_settle core_inv_loop_head core_inv_drop_task
      split: option.split task.split driver_at.split sum.split)

lemma core_inv_end_drive:
  assumes "core_inv run s" shows "core_inv run (end_drive db s)"
proof -
  have f: "core_inv run (snd (finish_run f e c db s))" for f e c
    by (rule core_inv_same [OF assms]) (use assms in \<open>auto simp: state_simps core_inv_def\<close>)
  then show ?thesis using assms
    by (auto simp: end_drive_def case_prod_beta core_inv_drive_fails intro!: core_inv_driver
        split: driver_at.split sum.split option.split)
qed

lemma core_inv_step:
  assumes "sched_step reg run s s'" "core_inv run s"
    and "driver s = AtStart \<Longrightarrow> tasks s = [] \<and> completed (st s) = [] \<and> latest (st s) = [] \<and> attempts (st s) = []"
  shows "core_inv run s'"
  using assms
proof (cases rule: sched_step.cases)
  case (driver_starts db1 db2 db3)
  then show ?thesis using assms(2,3) by (auto intro: core_inv_start)
next
  case driver_pauses
  then show ?thesis using assms(2)
    by (auto simp: end_pause_def core_inv_loop_head split: driver_at.split option.split)
next
  case (node_emits i event)
  show ?thesis unfolding node_emits
    by (rule core_inv_same [OF assms(2)]) (use assms(2) in \<open>auto simp: state_simps core_inv_def\<close>)
next
  case (gate_opens i db db')
  show ?thesis unfolding gate_opens
    by (rule core_inv_same [OF assms(2)]) (use assms(2) in \<open>auto simp: state_simps core_inv_def\<close>)
next
  case (gate_closes i db)
  show ?thesis unfolding gate_closes(1)
    by (rule core_inv_same [OF assms(2)]) (use assms(2) in \<open>auto simp: state_simps core_inv_def\<close>)
next
  case (gate_drops i)
  show ?thesis unfolding gate_drops(1)
    by (rule core_inv_same [OF assms(2)]) (use assms(2) in \<open>auto simp: drop_gate_def core_inv_def\<close>)
next
  case (task_works i n row admit c0 c1 exec ev db)
  show ?thesis unfolding task_works(1) by (rule core_inv_complete [OF assms(2)]) (use task_works in simp)
next
  case (task_panics i ev db)
  show ?thesis unfolding task_panics(1) by (rule core_inv_complete [OF assms(2)]) (use task_panics in simp)
next
  case (task_abandoned ev db i)
  show ?thesis unfolding task_abandoned(1) by (rule core_inv_complete [OF assms(2)]) (use task_abandoned in simp)
next
  case user_cancels
  show ?thesis unfolding user_cancels by (rule core_inv_same [OF assms(2)]) (use assms(2) in \<open>auto simp: core_inv_def\<close>)
next
  case app_suspends
  show ?thesis unfolding app_suspends by (rule core_inv_same [OF assms(2)]) (use assms(2) in \<open>auto simp: core_inv_def\<close>)
next
  case (clock_advances now)
  show ?thesis unfolding clock_advances(1)
    by (rule core_inv_same [OF assms(2)]) (use assms(2) in \<open>auto simp: core_inv_def\<close>)
qed (simp_all add: core_inv_scan_step core_inv_start_task core_inv_take core_inv_end_drive assms(2))

lemma start_never_returns [simp]:
  "driver (drive_start reg run db1 db2 db3 s) \<noteq> AtStart"
  by (auto simp: drive_start_def Let_def drive_fails_def loop_head_def split: option.split sum.split prod.split)

definition fresh_inv :: "sched \<Rightarrow> bool" where
  "fresh_inv s \<longleftrightarrow> (driver s = AtStart \<longrightarrow> st s = sched_state_new \<and> tasks s = [] \<and> running s = [] \<and> gates s = [] \<and> leaked s = 0)"

lemma complete_node_driver [simp]: "driver (complete_node run oc ev db i s) = driver s"
  by (auto simp: complete_node_def Let_def state_simps split: option.split task.split node_outcome.split sum.split)

lemma start_task_driver [simp]: "driver (start_task run fresh db i s) = driver s"
  by (auto simp: start_task_def Let_def state_simps case_prod_beta split: option.split task.split sum.split)

lemma scan_step_not_start:
  assumes "driver s = AtScan ns a b" shows "driver (scan_step run fresh s) \<noteq> AtStart"
proof (cases ns)
  case Nil
  with assms show ?thesis by (auto simp: scan_step_def driver_loop_head state_simps split: option.split)
next
  case (Cons n ns')
  obtain flow a' b' s' where eq: "scan_node run fresh n a b s = (flow, a', b', s')" by (metis prod_cases4)
  show ?thesis by (cases flow) (simp_all add: scan_step_def assms Cons eq)
qed

lemma driver_start_only:
  assumes "sched_step reg run s s'" "driver s' = AtStart"
  shows "driver s = AtStart"
  using assms
proof (cases rule: sched_step.cases)
  case (driver_scans ns due progressed fresh)
  then show ?thesis using assms(2) by (simp add: scan_step_not_start)
next
  case driver_pauses
  then show ?thesis using assms(2) by (auto simp: end_pause_def loop_head_def split: driver_at.splits option.splits if_splits)
next
  case (driver_takes i)
  then show ?thesis using assms(2)
    by (auto simp: take_returned_def loop_head_def drive_fails_def state_simps
        split: option.splits task.splits driver_at.splits sum.splits if_splits)
next
  case (driver_ends db)
  then show ?thesis using assms(2)
    by (auto simp: end_drive_def drive_fails_def case_prod_beta split: driver_at.splits sum.splits if_splits)
next
  case (task_starts fresh db i)
  then show ?thesis using assms(2) by simp
next
  case (task_works i n row admit c0 c1 exec ev db)
  then show ?thesis using assms(2) by simp
qed (auto simp: polling_def state_simps drop_gate_def)

lemma fresh_inv_step:
  assumes "sched_step reg run s s'" "fresh_inv s" shows "fresh_inv s'"
proof (cases "driver s' = AtStart")
  case True
  with driver_start_only [OF assms(1)] have a: "driver s = AtStart" by simp
  then have f: "st s = sched_state_new" "tasks s = []" "running s = []" "gates s = []" "leaked s = 0"
    using assms(2) by (simp_all add: fresh_inv_def)
  have nl: "\<not> live i s" for i by (simp add: live_def f)
  from assms(1) show ?thesis using a f True
  proof (cases rule: sched_step.cases)
    case (driver_takes i)
    then have "s' = s" by (simp add: take_returned_def f)
    then show ?thesis using assms(2) by simp
  next
    case (gate_opens i db db')
    then have "s' = s" by (simp add: open_gate_state nl)
    then show ?thesis using assms(2) by simp
  qed (auto simp: fresh_inv_def polling_def end_pause_def end_drive_def node_emit_def nl)
qed (simp add: fresh_inv_def)

lemma reachable_core: "sched_reachable reg run rows s \<Longrightarrow> core_inv run s \<and> fresh_inv s"
proof (induction rule: sched_reachable.induct)
  case (sched_starts now)
  then show ?case by (simp add: core_inv_def fresh_inv_def sched_new_def done_node_def sched_state_new_def)
next
  case (sched_goes s s')
  then have "core_inv run s'"
    by (intro core_inv_step [OF sched_goes(2)]) (auto simp: fresh_inv_def sched_state_new_def)
  with sched_goes show ?case by (blast intro: fresh_inv_step)
qed

subsection \<open>The loop and the end of the run\<close>

definition in_loop :: "sched \<Rightarrow> bool" where
  "in_loop s = (case driver s of AtScan _ _ _ \<Rightarrow> True | AtWait _ \<Rightarrow> True | AtPause _ \<Rightarrow> True | AtDrain \<Rightarrow> True | _ \<Rightarrow> False)"

definition ended :: "sched \<Rightarrow> bool" where
  "ended s = (case driver s of AtEnd _ \<Rightarrow> True | _ \<Rightarrow> False)"

definition all_done :: "run_row \<Rightarrow> sched \<Rightarrow> bool" where
  "all_done run s \<longleftrightarrow> total_nodes run \<le> length (completed (st s))"

definition succeeded :: "sched \<Rightarrow> bool" where
  "succeeded s \<longleftrightarrow> (\<exists>oc. run_outcome_of s = Some oc \<and> oc_status oc = OutOk)"

definition loop_inv :: "registry \<Rightarrow> run_row \<Rightarrow> sched \<Rightarrow> bool" where
  "loop_inv reg run s \<longleftrightarrow> (in_loop s \<longrightarrow> valid_graph reg (rr_graph run))
     \<and> (driver s = AtDrain \<and> \<not> cancelled s \<longrightarrow> all_done run s)
     \<and> (succeeded s \<longrightarrow> ended s \<and> all_done run s \<and> failure (st s) = None \<and> valid_graph reg (rr_graph run))
     \<and> (terminal s \<longrightarrow> ended s) \<and> (terminal s \<longleftrightarrow> run_outcome_of s \<noteq> None)"

lemma length_tbl_put: "length t \<le> length (tbl_put k v t)"
  by (induction t) (auto simp: tbl_put_def)

lemma loop_inv_loop_head:
  assumes "loop_inv reg run s" "valid_graph reg (rr_graph run)" "\<not> terminal s"
  shows "loop_inv reg run (loop_head run s)"
  using assms by (auto simp: loop_inv_def loop_head_def all_done_def succeeded_def in_loop_def)

lemma loop_inv_drive_fails: "loop_inv reg run s \<Longrightarrow> \<not> terminal s \<Longrightarrow> loop_inv reg run (drive_fails e s)"
  by (auto simp: loop_inv_def drive_fails_def all_done_def succeeded_def in_loop_def)

lemma loop_inv_same:
  assumes "loop_inv reg run s" "driver s' = driver s" "length (completed (st s)) \<le> length (completed (st s'))"
    "cancelled s \<Longrightarrow> cancelled s'" "terminal s' = terminal s" "run_outcome_of s' = run_outcome_of s"
    "ended s \<Longrightarrow> failure (st s') = failure (st s)"
  shows "loop_inv reg run s'"
  using assms by (auto simp: loop_inv_def in_loop_def ended_def all_done_def succeeded_def)

lemma loop_inv_finish:
  assumes "loop_inv reg run s" "\<not> terminal s" "f = FinSucceeded \<Longrightarrow> all_done run s \<and> failure (st s) = None \<and> valid_graph reg (rr_graph run)"
    "finish_run f e c db s = (r, s')" "\<not> finishing s"
  shows "loop_inv reg run (s'\<lparr>driver := AtEnd x\<rparr>) \<and> (r \<noteq> Inr () \<longrightarrow> s' = s)"
  using assms by (cases f) (auto simp: finish_run_def Let_def loop_inv_def in_loop_def ended_def all_done_def succeeded_def
      finish_outcome_def split: option.splits)

definition flags_inv :: "sched \<Rightarrow> bool" where
  "flags_inv s \<longleftrightarrow> finishing s = terminal s"

lemma flags_inv_finish: "flags_inv s \<Longrightarrow> flags_inv (snd (finish_run f e c db s))"
  by (auto simp: flags_inv_def finish_run_def Let_def split: option.split)

lemma loop_inv_at_end:
  "loop_inv reg run s \<Longrightarrow> \<not> terminal s \<Longrightarrow> loop_inv reg run (s\<lparr>driver := AtEnd r\<rparr>)"
  by (auto simp: loop_inv_def in_loop_def succeeded_def)

definition chosen_end :: "sched \<Rightarrow> finish \<times> string option" where
  "chosen_end s = (case failure (st s) of Some m \<Rightarrow> (FinFailed, Some m)
     | None \<Rightarrow> if cancelled s then (FinCancelled, None) else (FinSucceeded, None))"

lemma end_drive_drain:
  assumes "driver s = AtDrain"
  shows "end_drive db s =
    (if tasks s \<noteq> [] then s else if stopping s then s\<lparr>driver := AtEnd (Inr ())\<rparr>
     else (case finish_run (fst (chosen_end s)) (snd (chosen_end s)) None db s of
        (Inl e, s') \<Rightarrow> drive_fails e s' | (Inr _, s') \<Rightarrow> s'\<lparr>driver := AtEnd (Inr ())\<rparr>))"
  using assms by (auto simp: end_drive_def chosen_end_def split: option.split)

lemma loop_inv_end_drive:
  assumes "loop_inv reg run s" "flags_inv s"
  shows "loop_inv reg run (end_drive db s) \<and> flags_inv (end_drive db s)"
proof -
  have nt: "\<not> terminal s" "\<not> finishing s" if "driver s = AtDrain \<or> (\<exists>e. driver s = AtError e)"
    using that assms by (auto simp: loop_inv_def ended_def flags_inv_def)
  show ?thesis
  proof (cases "driver s")
    case AtDrain
    obtain r s' where fr: "finish_run (fst (chosen_end s)) (snd (chosen_end s)) None db s = (r, s')" by (metis prod.collapse)
    have ok: "all_done run s \<and> failure (st s) = None \<and> valid_graph reg (rr_graph run)"
      if "fst (chosen_end s) = FinSucceeded"
      using that assms(1) AtDrain by (auto simp: chosen_end_def loop_inv_def in_loop_def split: option.splits if_splits)
    from loop_inv_finish [OF assms(1) nt(1) ok fr nt(2)] AtDrain
    have l: "loop_inv reg run (s'\<lparr>driver := AtEnd x\<rparr>)" "r \<noteq> Inr () \<longrightarrow> s' = s" for x by blast+
    have "flags_inv s'" using flags_inv_finish [OF assms(2)] fr by (metis snd_conv)
    then show ?thesis
      using l assms fr nt AtDrain
      by (cases r) (auto simp: end_drive_drain loop_inv_at_end loop_inv_drive_fails flags_inv_def state_simps)
  next
    case (AtError e)
    obtain r s' where fr: "finish_run FinFailed (Some (err_message e)) None db s = (r, s')" by (metis prod.collapse)
    from loop_inv_finish [OF assms(1) nt(1) _ fr nt(2)] AtError
    have l: "loop_inv reg run (s'\<lparr>driver := AtEnd x\<rparr>)" for x by blast
    have "flags_inv s'" using flags_inv_finish [OF assms(2)] fr by (metis snd_conv)
    then show ?thesis
      using l assms fr nt AtError by (auto simp: end_drive_def loop_inv_at_end flags_inv_def)
  qed (use assms in \<open>simp_all add: end_drive_def\<close>)
qed

lemma loop_inv_scan_step:
  assumes "loop_inv reg run s" "\<not> ended s" shows "loop_inv reg run (scan_step run fresh s)"
proof -
  have nt: "\<not> terminal s" using assms by (auto simp: loop_inv_def)
  show ?thesis
  proof (cases "driver s")
    case (AtScan ns a b)
    have v: "valid_graph reg (rr_graph run)" using assms AtScan by (auto simp: loop_inv_def in_loop_def)
    have drv: "loop_inv reg run (s\<lparr>driver := d\<rparr>)" if "d = AtDrain \<Longrightarrow> cancelled s" for d
      using assms nt v that by (auto simp: loop_inv_def in_loop_def succeeded_def)
    show ?thesis
    proof (cases ns)
      case Nil
      then show ?thesis using assms AtScan nt v drv
        by (auto simp: scan_step_def loop_inv_drive_fails loop_inv_loop_head split: option.split)
    next
      case (Cons n ns')
      obtain flow a' b' s' where eq: "scan_node run fresh n a b s = (flow, a', b', s')" by (metis prod_cases4)
      have "length (completed (st s)) \<le> length (completed (st s')) \<and> driver s' = driver s \<and> (cancelled s \<longrightarrow> cancelled s')
          \<and> terminal s' = terminal s \<and> run_outcome_of s' = run_outcome_of s"
        using eq by (cases rule: scan_node_cases) (auto simp: length_tbl_put)
      then have "loop_inv reg run s'" using assms by (intro loop_inv_same [OF assms(1)]) auto
      then have "loop_inv reg run (s'\<lparr>driver := AtScan x y z\<rparr>)" for x y z
        using \<open>length _ \<le> _ \<and> _\<close> nt v by (auto simp: loop_inv_def in_loop_def succeeded_def)
      then show ?thesis by (cases flow) (simp_all add: scan_step_def AtScan Cons eq)
    qed
  qed (use assms in \<open>simp_all add: scan_step_def\<close>)
qed

lemma loop_inv_complete:
  assumes "loop_inv reg run s" "core_inv run s" "oc = NodeAbandoned \<Longrightarrow> cancelled s" "polling s"
  shows "loop_inv reg run (complete_node run oc ev db i s)"
proof (cases "\<exists>n row. tbl_get (tasks s) i = Some (Working n row)")
  case True
  then obtain n row where w: "tbl_get (tasks s) i = Some (Working n row)" by blast
  from core_inv_task_id [OF assms(2) this] have i: "node_id n = i" by simp
  have ne: "\<not> ended s" using assms(4) by (auto simp: ended_def polling_def split: driver_at.splits)
  show ?thesis
  proof (rule complete_node_effect [OF w i assms(3), where run = run and ev = ev and db = db], assumption, goal_cases)
    case (1 r)
    show ?case by (rule loop_inv_same [OF assms(1)]) (use 1 ne in \<open>auto simp: length_tbl_put\<close>)
  qed
qed (use assms(1) in \<open>simp add: complete_node_idle\<close>)

lemma loop_inv_start_task:
  assumes "loop_inv reg run s" "core_inv run s" shows "loop_inv reg run (start_task run fresh db i s)"
proof (cases "\<exists>n. tbl_get (tasks s) i = Some (Pushed n)")
  case True
  then obtain n where p: "tbl_get (tasks s) i = Some (Pushed n)" by blast
  from core_inv_task_id [OF assms(2) this] have i: "node_id n = i" by simp
  show ?thesis
  proof (rule start_task_effect [OF p i, where run = run and fresh = fresh and db = db], goal_cases)
    case (1 t)
    show ?case by (rule loop_inv_same [OF assms(1)]) (use 1 in auto)
  qed
qed (use assms(1) in \<open>simp add: start_task_idle\<close>)

lemma loop_inv_take:
  assumes "loop_inv reg run s" shows "loop_inv reg run (take_returned run i s)"
proof -
  have st: "loop_inv reg run (settle i s)" "loop_inv reg run (drop_task i s)"
    by (rule loop_inv_same [OF assms]; simp add: state_simps)+
  have "\<not> terminal s \<and> (in_loop s \<longrightarrow> valid_graph reg (rr_graph run))" if "\<not> ended s"
    using assms that by (auto simp: loop_inv_def)
  with assms st show ?thesis
    by (auto simp: take_returned_def in_loop_def ended_def loop_inv_drive_fails loop_inv_loop_head state_simps
        split: option.split task.split driver_at.splits sum.split)
qed

lemma loop_inv_start:
  assumes "loop_inv reg run s" "driver s = AtStart" shows "loop_inv reg run (drive_start reg run db1 db2 db3 s)"
proof -
  have nt: "\<not> terminal s" "run_outcome_of s = None" using assms by (auto simp: loop_inv_def ended_def)
  then have *: "loop_inv reg run s'" if "driver s' = AtStart" "terminal s' = terminal s" "run_outcome_of s' = run_outcome_of s" for s'
    using that by (auto simp: loop_inv_def in_loop_def succeeded_def)
  show ?thesis using assms nt
    by (auto simp: drive_start_def Let_def case_prod_beta validate_graph_valid [symmetric] * state_simps
        intro!: loop_inv_drive_fails loop_inv_loop_head split: option.split sum.split)
qed

lemma flags_of_steps [simp]:
  "terminal (complete_node run oc ev db i s) = terminal s" "finishing (complete_node run oc ev db i s) = finishing s"
  "terminal (start_task run fresh db i s) = terminal s" "finishing (start_task run fresh db i s) = finishing s"
  "terminal (take_returned run i s) = terminal s" "finishing (take_returned run i s) = finishing s"
  "terminal (end_pause run s) = terminal s" "finishing (end_pause run s) = finishing s"
  "terminal (drive_start reg run db db2 db3 s) = terminal s" "finishing (drive_start reg run db db2 db3 s) = finishing s"
  by (auto simp: complete_node_def start_task_def take_returned_def end_pause_def drive_start_def Let_def case_prod_beta state_simps
      split: option.split task.split node_outcome.split sum.split driver_at.split)

lemma flags_of_scan [simp]: "terminal (scan_step run fresh s) = terminal s" "finishing (scan_step run fresh s) = finishing s"
proof -
  have "terminal (scan_step run fresh s) = terminal s \<and> finishing (scan_step run fresh s) = finishing s"
  proof (cases "\<exists>n ns a b. driver s = AtScan (n # ns) a b")
    case True
    then obtain n ns a b where d: "driver s = AtScan (n # ns) a b" by blast
    obtain flow a' b' s' where eq: "scan_node run fresh n a b s = (flow, a', b', s')" by (metis prod_cases4)
    then have "terminal s' = terminal s \<and> finishing s' = finishing s" by (cases rule: scan_node_cases) auto
    then show ?thesis by (cases flow) (simp_all add: scan_step_def d eq)
  qed (auto simp: scan_step_def state_simps split: driver_at.split list.split option.split)
  then show "terminal (scan_step run fresh s) = terminal s" "finishing (scan_step run fresh s) = finishing s" by auto
qed

lemma flags_inv_step:
  assumes "sched_step reg run s s'" "flags_inv s" shows "flags_inv s'"
  using assms(1)
proof (cases rule: sched_step.cases)
  case (driver_ends db)
  have "finishing (end_drive db s) = terminal (end_drive db s)"
    using assms(2) flags_inv_finish [OF assms(2)]
    by (auto simp: end_drive_def case_prod_beta state_simps flags_inv_def split: driver_at.split option.split sum.split)
  then show ?thesis by (simp add: flags_inv_def driver_ends)
qed (use assms(2) in \<open>simp_all add: flags_inv_def state_simps drop_gate_def\<close>)

lemma loop_inv_step:
  assumes "sched_step reg run s s'" "loop_inv reg run s" "core_inv run s" "flags_inv s"
  shows "loop_inv reg run s'"
  using assms(1)
proof (cases rule: sched_step.cases)
  case (driver_starts db1 db2 db3)
  with loop_inv_start [OF assms(2)] show ?thesis by simp
next
  case (driver_scans ns due progressed fresh)
  then have "\<not> ended s" by (simp add: ended_def)
  with driver_scans(1) loop_inv_scan_step [OF assms(2)] show ?thesis by simp
next
  case driver_pauses
  have "\<not> terminal s \<and> valid_graph reg (rr_graph run)" if "in_loop s"
    using assms(2) that by (auto simp: loop_inv_def in_loop_def ended_def split: driver_at.splits)
  then show ?thesis using driver_pauses assms(2)
    by (auto simp: end_pause_def in_loop_def loop_inv_loop_head split: driver_at.splits option.splits)
next
  case (driver_takes i)
  with loop_inv_take [OF assms(2)] show ?thesis by simp
next
  case (driver_ends db)
  with loop_inv_end_drive [OF assms(2,4)] show ?thesis by simp
next
  case (task_starts fresh db i)
  with loop_inv_start_task [OF assms(2,3)] show ?thesis by simp
next
  case (task_works i n row admit c0 c1 exec ev db)
  show ?thesis unfolding task_works(1) by (rule loop_inv_complete [OF assms(2,3)]) (use task_works in simp_all)
next
  case (task_panics i ev db)
  show ?thesis unfolding task_panics(1) by (rule loop_inv_complete [OF assms(2,3)]) (use task_panics in simp_all)
next
  case (task_abandoned ev db i)
  show ?thesis unfolding task_abandoned(1) by (rule loop_inv_complete [OF assms(2,3)]) (use task_abandoned in simp_all)
qed (auto intro!: loop_inv_same [OF assms(2)] simp: state_simps drop_gate_def)

subsection \<open>The events of a run end once\<close>

definition grows :: "sched \<Rightarrow> sched \<Rightarrow> bool" where
  "grows s s' \<longleftrightarrow> terminal s' = terminal s \<and> run_outcome_of s' = run_outcome_of s
     \<and> (\<exists>es. events s' = events s @ es \<and> (terminal s \<longrightarrow> es = []) \<and> (\<forall>oc. EvEnd oc \<notin> set es))"

lemma grows_same: "events s' = events s \<Longrightarrow> terminal s' = terminal s \<Longrightarrow> run_outcome_of s' = run_outcome_of s \<Longrightarrow> grows s s'"
  by (simp add: grows_def)

lemma grows_trans: "grows s s' \<Longrightarrow> grows s' s'' \<Longrightarrow> grows s s''"
  unfolding grows_def by (auto 0 4)

lemma grows_publish: "\<forall>oc. EvEnd oc \<notin> set es \<Longrightarrow> grows s (publish es s)"
  by (simp add: grows_def publish_def)

lemma grows_emit: "grows s (snd (node_emit i ev s))"
  using node_emit_state [of i ev s] by (auto intro: grows_same intro!: grows_publish)

lemma grows_set_status: "grows s (snd (set_status x db s))"
  by (cases db) (simp_all add: set_status_def grows_def publish_def)

lemma grows_commit_step: "grows s (snd (commit_step run row b db s))"
  by (cases db) (simp_all add: commit_step_def grows_def publish_def progress_def)

lemma grows_record_step: "grows s (record_step run n row db s)"
proof -
  let ?s1 = "s\<lparr>st := (st s)\<lparr>latest := tbl_put (node_id n) row (latest (st s))\<rparr>\<rparr>"
  have "grows s ?s1" by (rule grows_same) simp_all
  moreover have "grows ?s1 (snd (commit_step run row False db ?s1))" by (rule grows_commit_step)
  moreover have "grows (snd (commit_step run row False db ?s1)) (record_step run n row db s)"
    by (rule grows_same) (simp_all add: record_step_def state_simps)
  ultimately show ?thesis by (blast intro: grows_trans)
qed

lemma grows_complete: "grows s (complete_node run oc ev db i s)"
proof -
  have r: "grows s (record_step run n row db s1)" if "grows s s1" for n row s1
    using that grows_record_step by (rule grows_trans)
  have f: "grows s (fail_node n row e s)" for n row e by (rule grows_same) (simp_all add: state_simps)
  show ?thesis
    by (auto simp: complete_node_def Let_def state_simps intro!: r f grows_publish grows_same
        split: option.split task.split node_outcome.split sum.split)
qed

lemma grows_start_task:
  assumes "core_inv run s" shows "grows s (start_task run fresh db i s)"
proof (cases "\<exists>n. tbl_get (tasks s) i = Some (Pushed n)")
  case True
  then obtain n where p: "tbl_get (tasks s) i = Some (Pushed n)" by blast
  from core_inv_task_id [OF assms this] have i: "node_id n = i" by simp
  show ?thesis
    by (rule start_task_effect [OF p i, where run = run and fresh = fresh and db = db]) (simp add: grows_def)
qed (simp add: start_task_idle grows_same)

lemma grows_gates: "grows s (snd (close_gate i db s))" "grows s (snd (open_gate i db db' s))"
proof -
  have c: "grows s (snd (close_gate i db s))" for s db
  proof -
    have "grows s (snd (set_status Running db (s\<lparr>st := z, gates := gs\<rparr>)))" for z gs
      by (rule grows_trans [OF grows_same grows_set_status]) simp_all
    then show ?thesis by (auto simp: close_gate_def Let_def intro: grows_same)
  qed
  have a: "grows s (gate_added i s)" by (rule grows_same) (simp_all add: gate_added_def)
  show "grows s (snd (close_gate i db s))" by (rule c)
  show "grows s (snd (open_gate i db db' s))"
    by (auto simp: open_gate_state intro: grows_same grows_trans [OF a c] grows_trans [OF a grows_set_status])
qed

lemma grows_scan: "grows s (scan_step run fresh s)"
proof (cases "\<exists>n ns a b. driver s = AtScan (n # ns) a b")
  case True
  then obtain n ns a b where d: "driver s = AtScan (n # ns) a b" by blast
  obtain flow a' b' s' where eq: "scan_node run fresh n a b s = (flow, a', b', s')" by (metis prod_cases4)
  then have "events s' = events s \<and> terminal s' = terminal s \<and> run_outcome_of s' = run_outcome_of s"
    by (cases rule: scan_node_cases) auto
  then show ?thesis by (cases flow) (simp_all add: scan_step_def d eq grows_same)
qed (auto simp: scan_step_def state_simps intro!: grows_same split: driver_at.split list.split option.split)

lemma grows_start: "grows s (drive_start reg run db1 db2 db3 s)"
proof -
  have a: "grows s (snd (set_status Running db2 (s\<lparr>st := z\<rparr>)))" for z
    by (rule grows_trans [OF grows_same grows_set_status]) simp_all
  have b: "grows s (publish [progress run s'] (snd (set_status Running db2 (s\<lparr>st := z\<rparr>))))" for z s'
    by (rule grows_trans [OF a grows_publish]) (simp add: progress_def)
  have l: "grows s (loop_head run s')" "grows s (drive_fails e s')" if "grows s s'" for s' e
    using that by (auto simp: grows_def state_simps)
  show ?thesis
    by (auto simp: drive_start_def Let_def case_prod_beta intro!: l a b intro: grows_same split: option.split sum.split)
qed

definition events_inv :: "sched \<Rightarrow> bool" where
  "events_inv s \<longleftrightarrow> (terminal s \<longleftrightarrow> run_outcome_of s \<noteq> None)
     \<and> filter (\<lambda>e. \<exists>oc. e = EvEnd oc) (events s) = (case run_outcome_of s of None \<Rightarrow> [] | Some oc \<Rightarrow> [EvEnd oc])
     \<and> (\<forall>oc. run_outcome_of s = Some oc \<longrightarrow> last (events s) = EvEnd oc)"

lemma events_inv_grows: "grows s s' \<Longrightarrow> events_inv s \<Longrightarrow> events_inv s'"
proof -
  assume g: "grows s s'" and e: "events_inv s"
  then obtain es where es: "events s' = events s @ es" "terminal s \<longrightarrow> es = []" "\<forall>oc. EvEnd oc \<notin> set es"
    "terminal s' = terminal s" "run_outcome_of s' = run_outcome_of s"
    by (auto simp: grows_def)
  have "filter (\<lambda>e. \<exists>oc. e = EvEnd oc) es = []" using es(3) by (auto simp: filter_empty_conv)
  with e es show ?thesis by (auto simp: events_inv_def)
qed

lemma events_inv_finish: "events_inv s \<Longrightarrow> flags_inv s \<Longrightarrow> events_inv (snd (finish_run f e c db s))"
  by (auto simp: finish_run_def Let_def events_inv_def flags_inv_def split: option.splits)

lemma events_inv_step:
  assumes "sched_step reg run s s'" "events_inv s" "flags_inv s" "core_inv run s" shows "events_inv s'"
  using assms(1)
proof (cases rule: sched_step.cases)
  case (driver_ends db)
  have d: "events_inv (s'\<lparr>driver := x\<rparr>)" "events_inv (drive_fails e s')" if "events_inv s'" for s' x e
    using that by (auto simp: events_inv_def state_simps)
  show ?thesis unfolding driver_ends
    by (auto simp: end_drive_def case_prod_beta assms(2) intro!: d events_inv_finish assms
        split: driver_at.split option.split sum.split)
qed (auto intro!: events_inv_grows [OF _ assms(2)] grows_complete grows_start_task [OF assms(4)] grows_gates grows_scan grows_start grows_emit
      intro: grows_same simp: take_returned_def end_pause_def state_simps drop_gate_def
      split: option.split task.split driver_at.split sum.split)

subsection \<open>Gates, and the loop that finds no ready node\<close>

definition gate_inv :: "sched \<Rightarrow> bool" where
  "gate_inv s \<longleftrightarrow> pending_gates (st s) = length (gates s) + leaked s \<and> (\<not> cancelled s \<longrightarrow> (\<forall>i \<in> set (gates s). live i s))"

lemma gate_inv_same:
  assumes "gate_inv s" "pending_gates (st s') = pending_gates (st s)" "gates s' = gates s" "leaked s' = leaked s"
    and "cancelled s \<Longrightarrow> cancelled s'" "\<And>i. \<not> cancelled s' \<Longrightarrow> i \<in> set (gates s) \<Longrightarrow> live i s \<Longrightarrow> live i s'"
  shows "gate_inv s'"
  using assms by (auto simp: gate_inv_def)

lemma gate_inv_quiet:
  assumes "gate_inv s" "pending_gates (st s') = pending_gates (st s)" "gates s' = gates s" "leaked s' = leaked s"
    and "cancelled s \<Longrightarrow> cancelled s'" "tasks s' = tasks s"
  shows "gate_inv s'"
  using assms by (auto simp: gate_inv_def live_def)

lemma gate_inv_complete:
  assumes "gate_inv s" "core_inv run s" "oc = NodeAbandoned \<Longrightarrow> cancelled s" "i \<notin> set (gates s) \<or> cancelled s"
  shows "gate_inv (complete_node run oc ev db i s)"
proof (cases "\<exists>n row. tbl_get (tasks s) i = Some (Working n row)")
  case True
  then obtain n row where w: "tbl_get (tasks s) i = Some (Working n row)" by blast
  from core_inv_task_id [OF assms(2) this] have i: "node_id n = i" by simp
  show ?thesis
  proof (rule complete_node_effect [OF w i assms(3), where run = run and ev = ev and db = db], assumption, goal_cases)
    case (1 r)
    show ?case by (rule gate_inv_same [OF assms(1)]) (use 1 assms(4) in \<open>auto simp: live_def\<close>)
  qed
qed (use assms(1) in \<open>simp add: complete_node_idle\<close>)

lemma gate_inv_start_task:
  assumes "gate_inv s" "core_inv run s" shows "gate_inv (start_task run fresh db i s)"
proof (cases "\<exists>n. tbl_get (tasks s) i = Some (Pushed n)")
  case True
  then obtain n where p: "tbl_get (tasks s) i = Some (Pushed n)" by blast
  from core_inv_task_id [OF assms(2) this] have i: "node_id n = i" by simp
  show ?thesis
  proof (rule start_task_effect [OF p i, where run = run and fresh = fresh and db = db], goal_cases)
    case (1 t)
    show ?case by (rule gate_inv_same [OF assms(1)]) (use 1 p in \<open>auto simp: live_def\<close>)
  qed
qed (use assms(1) in \<open>simp add: start_task_idle\<close>)

lemma gate_inv_scan:
  assumes "gate_inv s" "core_inv run s" shows "gate_inv (scan_step run fresh s)"
proof (cases "\<exists>n ns a b. driver s = AtScan (n # ns) a b")
  case True
  then obtain n ns a b where d: "driver s = AtScan (n # ns) a b" by blast
  obtain flow a' b' s' where eq: "scan_node run fresh n a b s = (flow, a', b', s')" by (metis prod_cases4)
  have run: "i \<in> set (running s)" if "live i s" for i
    using that core_inv_task [OF assms(2), of i] by (auto simp: live_def task_ok_def split: option.splits)
  from eq have "gate_inv s'"
  proof (cases rule: scan_node_cases)
    case pushed
    have "node_id n \<notin> set (running s)" using pushed(4) by (simp add: ready_in_def)
    then show ?thesis using pushed run
      by (intro gate_inv_same [OF assms(1)]) (auto simp: live_def)
  qed (use assms(1) in \<open>auto intro: gate_inv_same [OF assms(1)] simp: live_def\<close>)
  then have "gate_inv (s'\<lparr>driver := x\<rparr>)" for x by (rule gate_inv_same) (auto simp: live_def)
  then show ?thesis by (cases flow) (simp_all add: scan_step_def d eq)
qed (auto simp: scan_step_def state_simps live_def intro!: gate_inv_same [OF assms(1)]
      split: driver_at.split list.split option.split)

lemma gate_inv_take:
  assumes "gate_inv s" shows "gate_inv (take_returned run i s)"
proof (cases "\<exists>n r. tbl_get (tasks s) i = Some (Returned n r)")
  case True
  then obtain n r where r: "tbl_get (tasks s) i = Some (Returned n r)" by blast
  then have l: "live j s \<Longrightarrow> live j (settle i s)" "live j s \<Longrightarrow> live j (drop_task i s)" for j
    by (auto simp: live_def state_simps)
  have "gate_inv (settle i s)" "gate_inv (drop_task i s)"
    by (rule gate_inv_same [OF assms]; simp add: state_simps l)+
  moreover have "gate_inv (loop_head run s')" "gate_inv (drive_fails e s')" if "gate_inv s'" for s' e
    by (rule gate_inv_same [OF that]; simp add: state_simps live_def)+
  ultimately show ?thesis using assms by (simp add: take_returned_def r split: driver_at.split sum.split)
qed (use assms in \<open>auto simp: take_returned_def split: option.split task.split\<close>)

lemma gate_inv_close:
  assumes "gate_inv s" "i \<in> set (gates s)" shows "gate_inv (snd (close_gate i db s))"
proof -
  obtain k where k: "length (gates s) = Suc k" using assms(2) by (cases "gates s") auto
  have "set (remove1 i (gates s)) \<subseteq> set (gates s)" by (rule set_remove1_subset)
  moreover have "pending_gates (st s) - 1 = length (remove1 i (gates s)) + leaked s"
    using assms k by (simp add: gate_inv_def length_remove1)
  ultimately show ?thesis using assms
    by (auto simp: gate_inv_def state_simps live_def)
qed

lemma gate_inv_open:
  assumes "gate_inv s" shows "gate_inv (snd (open_gate i db db' s))"
proof (cases "live i s \<and> \<not> cancelled s")
  case True
  then have a: "gate_inv (gate_added i s)" using assms by (auto simp: gate_inv_def gate_added_def live_def)
  have "gate_inv (snd (set_status Blocked None (gate_added i s)))"
    by (rule gate_inv_same [OF a]) (auto simp: state_simps live_def)
  moreover have "gate_inv (snd (close_gate i db' (gate_added i s)))"
    by (rule gate_inv_close [OF a]) (simp add: gate_added_def)
  ultimately show ?thesis using True by (simp add: open_gate_state)
qed (use assms in \<open>auto simp: open_gate_state\<close>)

lemma gate_inv_start: "gate_inv s \<Longrightarrow> gate_inv (drive_start reg run db1 db2 db3 s)"
proof -
  assume g: "gate_inv s"
  show ?thesis by (rule gate_inv_quiet [OF g])
    (auto simp: drive_start_def Let_def case_prod_beta state_simps live_def split: option.split sum.split)
qed

lemma gate_inv_step:
  assumes "sched_step reg run s s'" "gate_inv s" "core_inv run s" shows "gate_inv s'"
  using assms(1)
proof (cases rule: sched_step.cases)
  case (driver_ends db)
  have "tasks (end_drive db s) = tasks s \<and> (cancelled s \<longrightarrow> cancelled (end_drive db s)) \<and> gates (end_drive db s) = gates s
      \<and> leaked (end_drive db s) = leaked s \<and> st (end_drive db s) = st s"
    by (auto simp: end_drive_def case_prod_beta state_simps split: driver_at.split option.split sum.split)
  then show ?thesis unfolding driver_ends by (intro gate_inv_same [OF assms(2)]) (auto simp: live_def)
next
  case (gate_drops i)
  have "set (remove1 i (gates s)) \<subseteq> set (gates s)" by (rule set_remove1_subset)
  moreover obtain k where "length (gates s) = Suc k" using gate_drops(2) by (cases "gates s") auto
  ultimately show ?thesis using assms(2) gate_drops by (auto simp: gate_inv_def drop_gate_def live_def length_remove1)
next
  case (task_works i n row admit c0 c1 exec ev db)
  show ?thesis unfolding task_works(1) by (rule gate_inv_complete [OF assms(2,3)]) (use task_works in simp_all)
next
  case (task_panics i ev db)
  show ?thesis unfolding task_panics(1) by (rule gate_inv_complete [OF assms(2,3)]) (use task_panics in simp_all)
next
  case (task_abandoned ev db i)
  show ?thesis unfolding task_abandoned(1) by (rule gate_inv_complete [OF assms(2,3)]) (use task_abandoned in simp_all)
next
  case (task_starts fresh db i)
  with gate_inv_start_task [OF assms(2,3)] show ?thesis by simp
next
  case (driver_scans ns due progressed fresh)
  with gate_inv_scan [OF assms(2,3)] show ?thesis by simp
next
  case driver_pauses
  show ?thesis unfolding driver_pauses
    by (rule gate_inv_same [OF assms(2)]) (auto simp: end_pause_def state_simps live_def split: driver_at.split option.split)
next
  case (node_emits i event)
  show ?thesis unfolding node_emits by (rule gate_inv_quiet [OF assms(2)]) (simp_all add: state_simps)
next
  case user_cancels
  show ?thesis unfolding user_cancels by (rule gate_inv_quiet [OF assms(2)]) simp_all
next
  case app_suspends
  show ?thesis unfolding app_suspends by (rule gate_inv_quiet [OF assms(2)]) simp_all
next
  case (clock_advances now)
  show ?thesis unfolding clock_advances(1) by (rule gate_inv_quiet [OF assms(2)]) simp_all
qed (use assms(2) in \<open>simp_all add: gate_inv_start gate_inv_take gate_inv_close gate_inv_open\<close>)

lemma complete_node_tasks:
  "tbl_get (tasks s) j = Some t \<Longrightarrow> \<exists>t'. tbl_get (tasks (complete_node run oc ev db i s)) j = Some t'"
  "running (complete_node run oc ev db i s) = running s"
  by (auto simp: complete_node_def Let_def state_simps split: option.split task.split node_outcome.split sum.split)

definition exact_inv :: "sched \<Rightarrow> bool" where
  "exact_inv s \<longleftrightarrow> (in_loop s \<or> driver s = AtStart \<longrightarrow> (\<forall>i \<in> set (running s). tbl_get (tasks s) i \<noteq> None))"

lemma exact_inv_same:
  assumes "exact_inv s" "running s' = running s" "\<And>i. tbl_get (tasks s) i \<noteq> None \<Longrightarrow> tbl_get (tasks s') i \<noteq> None"
    and "in_loop s' \<or> driver s' = AtStart \<Longrightarrow> in_loop s \<or> driver s = AtStart"
  shows "exact_inv s'"
  using assms by (auto simp: exact_inv_def)

lemma in_loop_loop_head: "in_loop (loop_head run s)"
  by (simp add: loop_head_def in_loop_def)

lemma exact_inv_loop_head:
  "exact_inv s \<Longrightarrow> in_loop s \<or> driver s = AtStart \<Longrightarrow> exact_inv (loop_head run s)"
  by (auto simp: exact_inv_def state_simps)

lemma exact_inv_drive_fails: "exact_inv (drive_fails e s)"
  by (simp add: exact_inv_def drive_fails_def in_loop_def)

lemma exact_inv_take:
  assumes "exact_inv s" "core_inv run s" shows "exact_inv (take_returned run i s)"
proof -
  have "distinct (running s)" using assms(2) by (simp add: core_inv_def)
  then have st: "exact_inv (settle i s)" using assms(1) by (auto simp: exact_inv_def state_simps in_loop_def)
  show ?thesis using assms(1) st
    by (auto simp: take_returned_def in_loop_def exact_inv_drive_fails intro!: exact_inv_loop_head
        split: option.split task.split driver_at.split sum.split)
       (auto simp: exact_inv_def in_loop_def state_simps)
qed

lemma exact_inv_scan:
  assumes "exact_inv s" shows "exact_inv (scan_step run fresh s)"
proof (cases "\<exists>n ns a b. driver s = AtScan (n # ns) a b")
  case True
  then obtain n ns a b where d: "driver s = AtScan (n # ns) a b" by blast
  then have r: "\<forall>i \<in> set (running s). tbl_get (tasks s) i \<noteq> None" using assms by (auto simp: exact_inv_def in_loop_def)
  obtain flow a' b' s' where eq: "scan_node run fresh n a b s = (flow, a', b', s')" by (metis prod_cases4)
  then have "\<forall>i \<in> set (running s'). tbl_get (tasks s') i \<noteq> None" using r by (cases rule: scan_node_cases) auto
  then show ?thesis by (cases flow) (simp_all add: scan_step_def d eq exact_inv_def)
next
  case False
  show ?thesis
  proof (cases "\<exists>a b. driver s = AtScan [] a b")
    case True
    then obtain a b where d: "driver s = AtScan [] a b" by blast
    then have "\<forall>i \<in> set (running s). tbl_get (tasks s) i \<noteq> None" using assms by (auto simp: exact_inv_def in_loop_def)
    then show ?thesis by (auto simp: scan_step_def d exact_inv_def state_simps split: option.split)
  next
    case no: False
    have "scan_step run fresh s = s" using False no
      by (auto simp: scan_step_def split: driver_at.split list.split)
    with assms show ?thesis by simp
  qed
qed

lemma exact_inv_step:
  assumes "sched_step reg run s s'" "exact_inv s" "core_inv run s" shows "exact_inv s'"
  using assms(1)
proof (cases rule: sched_step.cases)
  case (driver_starts db1 db2 db3)
  have *: "exact_inv s1" if "driver s1 = AtStart" "running s1 = running s" "tasks s1 = tasks s" for s1
    using assms(2) driver_starts that by (auto simp: exact_inv_def)
  show ?thesis unfolding driver_starts(1) using driver_starts(2)
    by (auto simp: drive_start_def Let_def case_prod_beta state_simps exact_inv_drive_fails
        intro!: exact_inv_loop_head * split: option.split sum.split)
next
  case (driver_scans ns due progressed fresh)
  with exact_inv_scan [OF assms(2)] show ?thesis by simp
next
  case driver_pauses
  show ?thesis unfolding driver_pauses using assms(2)
    by (auto simp: end_pause_def in_loop_def intro!: exact_inv_loop_head split: driver_at.split option.split)
next
  case (driver_takes i)
  with exact_inv_take [OF assms(2,3)] show ?thesis by simp
next
  case (driver_ends db)
  have "exact_inv (s1\<lparr>driver := AtEnd r\<rparr>)" for s1 r by (simp add: exact_inv_def in_loop_def)
  then show ?thesis unfolding driver_ends using assms(2)
    by (auto simp: end_drive_def case_prod_beta exact_inv_drive_fails split: driver_at.split option.split sum.split)
next
  case (task_starts fresh db i)
  have "tbl_get (tasks (start_task run fresh db i s)) j \<noteq> None" if "tbl_get (tasks s) j \<noteq> None" for j
    using that by (auto simp: start_task_def Let_def case_prod_beta state_simps split: option.split task.split sum.split)
  moreover have "running (start_task run fresh db i s) = running s"
    by (auto simp: start_task_def Let_def case_prod_beta state_simps split: option.split task.split sum.split)
  ultimately show ?thesis unfolding task_starts(1) by (intro exact_inv_same [OF assms(2)]) (auto simp: in_loop_def)
next
  case (task_works i n row admit c0 c1 exec ev db)
  then show ?thesis by (intro exact_inv_same [OF assms(2)]) (auto simp: in_loop_def complete_node_tasks)
next
  case (task_panics i ev db)
  then show ?thesis by (intro exact_inv_same [OF assms(2)]) (auto simp: in_loop_def complete_node_tasks)
next
  case (task_abandoned ev db i)
  then show ?thesis by (intro exact_inv_same [OF assms(2)]) (auto simp: in_loop_def complete_node_tasks)
qed (use assms(2) in \<open>auto simp: exact_inv_def in_loop_def state_simps drop_gate_def\<close>)

text \<open>While the loop scans with nothing pushed, nothing skipped and nothing due later, no gate leaked and
  no cancellation, every node already looked at is not ready.\<close>

definition scan_inv :: "run_row \<Rightarrow> sched \<Rightarrow> bool" where
  "scan_inv run s \<longleftrightarrow> (\<forall>ns. driver s = AtScan ns None False \<and> \<not> cancelled s \<and> tasks s = [] \<and> leaked s = 0 \<longrightarrow>
     (\<exists>pre. sorted_nodes run = pre @ ns \<and> (\<forall>n \<in> set pre. \<not> ready_in n s)))"

lemma scan_inv_same:
  assumes "scan_inv run s" "driver s' = driver s" "cancelled s \<Longrightarrow> cancelled s'" "tasks s' = [] \<Longrightarrow> tasks s = []"
    "leaked s \<le> leaked s'" "completed (st s') = completed (st s)" "running s' = running s"
  shows "scan_inv run s'"
  using assms by (auto simp: scan_inv_def ready_in_def done_node_def)

lemma scan_inv_off: "(\<And>ns a b. driver s = AtScan ns a b \<Longrightarrow> ns = sorted_nodes run) \<Longrightarrow> scan_inv run s"
  by (auto simp: scan_inv_def)

lemma scan_inv_loop_head: "scan_inv run (loop_head run s)"
  by (rule scan_inv_off) (auto simp: loop_head_def split: if_splits)

lemma scan_inv_drive_fails: "scan_inv run (drive_fails e s)"
  by (rule scan_inv_off) (simp add: drive_fails_def)

lemma scan_inv_scan:
  assumes "scan_inv run s" "gate_inv s" "exact_inv s" shows "scan_inv run (scan_step run fresh s)"
proof (cases "\<exists>n ns a b. driver s = AtScan (n # ns) a b")
  case True
  then obtain n ns a b where d: "driver s = AtScan (n # ns) a b" by blast
  obtain flow a' b' s' where eq: "scan_node run fresh n a b s = (flow, a', b', s')" by (metis prod_cases4)
  have quiet: "pending_gates (st s) = 0 \<and> running s = []" if "\<not> cancelled s" "tasks s = []" "leaked s = 0"
  proof -
    have "live i s \<longleftrightarrow> False" for i using that(2) by (simp add: live_def)
    then have "gates s = []" using assms(2) that(1) by (cases "gates s") (auto simp: gate_inv_def)
    moreover have "set (running s) = {}" using assms(3) d that(2) by (auto simp: exact_inv_def in_loop_def)
    ultimately show ?thesis using assms(2) that(3) by (simp add: gate_inv_def)
  qed
  have conc: "1 \<le> concurrency run" by (simp add: concurrency_def)
  show ?thesis unfolding scan_inv_def
  proof (intro allI impI)
    fix ms
    assume h: "driver (scan_step run fresh s) = AtScan ms None False \<and> \<not> cancelled (scan_step run fresh s)
      \<and> tasks (scan_step run fresh s) = [] \<and> leaked (scan_step run fresh s) = 0"
    then have h': "\<not> cancelled s'" "tasks s' = []" "leaked s' = 0" "a' = None" "\<not> b'" "ms = (if flow = ScanContinue then ns else [])"
      using d eq by (cases flow; simp add: scan_step_def)+
    have sc: "completed (st (scan_step run fresh s)) = completed (st s')" "running (scan_step run fresh s) = running s'"
      using d eq by (cases flow; simp add: scan_step_def)+
    from eq show "\<exists>pre. sorted_nodes run = pre @ ms \<and> (\<forall>m \<in> set pre. \<not> ready_in m (scan_step run fresh s))"
    proof (cases rule: scan_node_cases)
      case full
      with quiet h' conc show ?thesis by auto
    next
      case waits
      then have "driver s = AtScan (n # ns) None False \<and> \<not> cancelled s \<and> tasks s = [] \<and> leaked s = 0"
        using d h' by auto
      with assms(1) obtain pre where "sorted_nodes run = pre @ n # ns" "\<forall>m \<in> set pre. \<not> ready_in m s"
        unfolding scan_inv_def by blast
      with waits h'(6) sc show ?thesis
        by (intro exI [of _ "pre @ [n]"]) (auto simp: ready_in_def done_node_def)
    next
      case pushed
      have "tbl_get (tasks s') (node_id n) \<noteq> None" by (simp add: pushed(6))
      then show ?thesis using h'(2) by simp
    qed (use h' in auto)
  qed
next
  case False
  show ?thesis
  proof (cases "\<exists>a b. driver s = AtScan [] a b")
    case True
    then show ?thesis
      by (intro scan_inv_off) (auto simp: scan_step_def drive_fails_def driver_loop_head split: if_splits option.splits)
  next
    case no: False
    have "scan_step run fresh s = s" using False no
      by (auto simp: scan_step_def split: driver_at.split list.split)
    with assms show ?thesis by simp
  qed
qed

lemma scan_inv_step:
  assumes "sched_step reg run s s'" "scan_inv run s" "gate_inv s" "exact_inv s" shows "scan_inv run s'"
  using assms(1)
proof (cases rule: sched_step.cases)
  case (driver_starts db1 db2 db3)
  have "scan_inv run (drive_start reg run db1 db2 db3 s)"
    by (auto simp: drive_start_def Let_def case_prod_beta scan_inv_drive_fails scan_inv_loop_head split: option.split sum.split)
  with driver_starts show ?thesis by simp
next
  case (driver_scans ns due progressed fresh)
  with scan_inv_scan [OF assms(2-4)] show ?thesis by simp
next
  case driver_pauses
  then show ?thesis using assms(2) by (auto simp: end_pause_def scan_inv_loop_head split: driver_at.split option.split)
next
  case (driver_takes i)
  have "scan_inv run (settle i s)" if "driver s = AtDrain" for i by (rule scan_inv_off) (simp add: state_simps that)
  moreover have "scan_inv run (drop_task i s)" if "driver s = AtError e" for i e by (rule scan_inv_off) (simp add: state_simps that)
  ultimately show ?thesis using driver_takes assms(2)
    by (auto simp: take_returned_def scan_inv_loop_head scan_inv_drive_fails
        split: option.split task.split driver_at.split sum.split)
next
  case (driver_ends db)
  have "scan_inv run (s1\<lparr>driver := AtEnd r\<rparr>)" for s1 r by (rule scan_inv_off) simp
  then show ?thesis unfolding driver_ends using assms(2)
    by (auto simp: end_drive_def case_prod_beta scan_inv_drive_fails split: driver_at.split option.split sum.split)
next
  case (task_starts fresh db i)
  then show ?thesis by (intro scan_inv_off) (auto simp: polling_def)
next
  case (task_works i n row admit c0 c1 exec ev db)
  then show ?thesis by (intro scan_inv_off) (auto simp: polling_def)
next
  case (task_panics i ev db)
  then show ?thesis by (intro scan_inv_off) (auto simp: polling_def)
next
  case (task_abandoned ev db i)
  then show ?thesis by (intro scan_inv_off) (auto simp: polling_def)
qed (auto intro!: scan_inv_same [OF assms(2)] simp: state_simps drop_gate_def)

subsection \<open>All invariants of a reachable state\<close>

definition run_inv :: "registry \<Rightarrow> run_row \<Rightarrow> sched \<Rightarrow> bool" where
  "run_inv reg run s \<longleftrightarrow> core_inv run s \<and> fresh_inv s \<and> flags_inv s \<and> loop_inv reg run s \<and> events_inv s
     \<and> gate_inv s \<and> exact_inv s \<and> scan_inv run s"

theorem reachable_run_inv: "sched_reachable reg run rows s \<Longrightarrow> run_inv reg run s"
proof (induction rule: sched_reachable.induct)
  case (sched_starts now)
  then show ?case
    by (simp add: run_inv_def core_inv_def fresh_inv_def flags_inv_def loop_inv_def events_inv_def gate_inv_def
        exact_inv_def scan_inv_def sched_new_def done_node_def sched_state_new_def in_loop_def ended_def succeeded_def)
next
  case (sched_goes s s')
  note i = sched_goes.IH [unfolded run_inv_def] and st = sched_goes.hyps(2)
  have "core_inv run s'"
    using i by (intro core_inv_step [OF st]) (auto simp: fresh_inv_def sched_state_new_def)
  with i show ?case unfolding run_inv_def
    using fresh_inv_step [OF st] flags_inv_step [OF st] loop_inv_step [OF st] events_inv_step [OF st]
      gate_inv_step [OF st] exact_inv_step [OF st] scan_inv_step [OF st] by blast
qed

subsection \<open>Properties of the scheduler\<close>

lemmas run_inv_parts = reachable_run_inv [unfolded run_inv_def]

text \<open>C10: At no time do more nodes run than the run's concurrency allows (at least one), no node runs
  twice at once, and every task belongs to a running node of the graph.\<close>

theorem concurrency_is_bounded:
  assumes "sched_reachable reg run rows s"
  shows "length (running s) \<le> concurrency run \<and> distinct (running s)
    \<and> (\<forall>i t. tbl_get (tasks s) i = Some t \<longrightarrow> i \<in> set (running s) \<and> node_id (task_node t) = i
        \<and> task_node t \<in> set (nodes (rr_graph run)))"
  using run_inv_parts [OF assms] by (auto simp: core_inv_def task_ok_def)

text \<open>C9: A node is only started after every node it depends on has completed, whatever order the
  tasks, the driver, cancellation and the user interleave in.\<close>

theorem dependencies_complete_first:
  assumes "sched_reachable reg run rows s" and "tbl_get (tasks s) i = Some t"
  shows "\<forall>d \<in> set (dependencies (task_node t)). tbl_get (completed (st s)) d \<noteq> None"
proof -
  have "core_inv run s" using run_inv_parts [OF assms(1)] by simp
  from core_inv_task [OF this assms(2)] show ?thesis by (simp add: task_ok_def done_node_def)
qed

text \<open>C11: A run publishes its end once, as its last event, exactly when it has an outcome; once it has
  ended nothing is published any more.\<close>

theorem run_ends_once:
  assumes "sched_reachable reg run rows s"
  shows "filter (\<lambda>e. \<exists>oc. e = EvEnd oc) (events s) = (case run_outcome_of s of None \<Rightarrow> [] | Some oc \<Rightarrow> [EvEnd oc])
    \<and> (\<forall>oc. run_outcome_of s = Some oc \<longrightarrow> last (events s) = EvEnd oc)
    \<and> (terminal s \<longleftrightarrow> run_outcome_of s \<noteq> None)"
  using run_inv_parts [OF assms] by (simp add: events_inv_def)

lemma all_done_nodes:
  assumes "core_inv run s" "all_done run s" "distinct (map node_id (nodes (rr_graph run)))"
  shows "\<forall>n \<in> set (nodes (rr_graph run)). done_node (node_id n) s"
proof -
  let ?ids = "node_id ` set (nodes (rr_graph run))" and ?c = "{i. done_node i s}"
  have ok: "tbl_ok (completed (st s))" and sub: "?c \<subseteq> ?ids" using assms(1) by (auto simp: core_inv_def)
  have "card ?ids = total_nodes run" using distinct_card [OF assms(3)] by (simp add: total_nodes_def)
  moreover have "card ?c = length (completed (st s))" using tbl_length [OF ok] by (simp add: done_node_def)
  ultimately have "card ?ids \<le> card ?c" using assms(2) by (simp add: all_done_def)
  then have "?c = ?ids" using sub by (intro card_seteq) auto
  then show ?thesis by blast
qed

text \<open>A run is reported as successful only when every node of its graph has completed and no failure
  was recorded.\<close>

lemma success_means_all_completed:
  assumes "sched_reachable reg run rows s" and "run_outcome_of s = Some oc" and "oc_status oc = OutOk"
  shows "failure (st s) = None \<and> (\<forall>n \<in> set (nodes (rr_graph run)). tbl_get (completed (st s)) (node_id n) \<noteq> None)"
proof -
  have inv: "core_inv run s" "loop_inv reg run s" using run_inv_parts [OF assms(1)] by simp_all
  have "succeeded s" using assms(2,3) by (simp add: succeeded_def)
  with inv(2) have "all_done run s" "failure (st s) = None" "valid_graph reg (rr_graph run)" by (auto simp: loop_inv_def)
  with all_done_nodes [OF inv(1)] show ?thesis by (auto simp: valid_graph_def done_node_def)
qed

text \<open>An acyclic graph with nodes left has a node whose dependencies are all done.\<close>

lemma some_node_is_ready:
  assumes "valid_graph reg (rr_graph run)" "core_inv run s" "running s = []" "\<not> all_done run s"
  shows "\<exists>n \<in> set (nodes (rr_graph run)). ready_in n s"
proof -
  let ?ns = "nodes (rr_graph run)" and ?left = "{i \<in> node_id ` set (nodes (rr_graph run)). \<not> done_node i s}"
  have d: "distinct (map node_id ?ns)" and acyc: "acyclic (dep_edges ?ns)"
    and known: "\<forall>n \<in> set ?ns. set (dependencies n) \<subseteq> node_id ` set ?ns"
    using assms(1) by (auto simp: valid_graph_def node_ok_def)
  have "?left \<noteq> {}"
  proof
    assume none: "?left = {}"
    have "node_id ` set ?ns \<subseteq> {i. done_node i s}" using none by blast
    moreover have "finite {i. done_node i s}"
      using assms(2) by (auto simp: core_inv_def intro: finite_subset [of _ "node_id ` set ?ns"])
    ultimately have "card (node_id ` set ?ns) \<le> card {i. done_node i s}" by (simp add: card_mono)
    moreover have "card (node_id ` set ?ns) = total_nodes run" using distinct_card [OF d] by (simp add: total_nodes_def)
    moreover have "card {i. done_node i s} = length (completed (st s))"
      using assms(2) tbl_length [of "completed (st s)"] by (simp add: core_inv_def done_node_def)
    ultimately show False using assms(4) by (simp add: all_done_def)
  qed
  moreover have "wf (dep_edges ?ns)" using acyc finite_dep_edges by (rule finite_acyclic_wf [rotated])
  ultimately obtain i where i: "i \<in> ?left" "\<And>j. (j, i) \<in> dep_edges ?ns \<Longrightarrow> j \<notin> ?left"
    by (meson wfE_min all_not_in_conv)
  then obtain n where n: "n \<in> set ?ns" "node_id n = i" by auto
  have "done_node e s" if "e \<in> set (dependencies n)" for e
    using i(2) [of e] known n that by (auto simp: dep_edges_def)
  then show ?thesis using n i(1) assms(3) by (intro bexI [OF _ n(1)]) (auto simp: ready_in_def)
qed

text \<open>C12: A run whose graph validates does not get stuck: the driver gives up with no ready node only if
  a node's future was dropped while it waited at an approval or a question, so that its gate is still
  counted as open.\<close>

theorem stuck_only_by_a_leaked_gate:
  assumes "sched_reachable reg run rows s" and "driver s = AtScan ns due progressed"
    and "driver (scan_step run fresh s) = AtError e"
  shows "e = app_error_new Unknown NO_READY_NODES \<and> 0 < leaked s"
proof -
  have inv: "core_inv run s" "loop_inv reg run s" "gate_inv s" "exact_inv s" "scan_inv run s"
    using run_inv_parts [OF assms(1)] by simp_all
  have ns: "ns = []"
  proof (rule ccontr)
    assume "ns \<noteq> []"
    then obtain n ns' where n: "ns = n # ns'" by (cases ns) auto
    obtain flow a' b' s' where eq: "scan_node run fresh n due progressed s = (flow, a', b', s')" by (metis prod_cases4)
    show False using assms(2,3) n eq by (cases flow) (simp_all add: scan_step_def)
  qed
  with assms(2,3) have h: "\<not> cancelled s" "tasks s = []" "due = None" "\<not> progressed" "\<not> all_done run s"
    and e: "e = app_error_new Unknown NO_READY_NODES"
    by (auto simp: scan_step_def all_done_def drive_fails_def loop_head_def split: if_splits option.splits)
  have "0 < leaked s"
  proof (rule ccontr)
    assume "\<not> 0 < leaked s"
    then obtain pre where pre: "sorted_nodes run = pre" "\<forall>n \<in> set pre. \<not> ready_in n s"
      using inv(5) assms(2) ns h unfolding scan_inv_def by auto
    have "running s = []" using inv(4) assms(2) h(2) by (auto simp: exact_inv_def in_loop_def)
    moreover have "valid_graph reg (rr_graph run)" using inv(2) assms(2) by (auto simp: loop_inv_def in_loop_def)
    ultimately obtain n where "n \<in> set (nodes (rr_graph run))" "ready_in n s"
      using some_node_is_ready inv(1) h(5) by blast
    with pre show False by (metis set_sorted_nodes)
  qed
  with e show ?thesis by simp
qed

subsection \<open>Attempts\<close>

definition tried :: "string \<Rightarrow> sched \<Rightarrow> int" where
  "tried i s = (case tbl_get (attempts (st s)) i of Some a \<Rightarrow> a | None \<Rightarrow> 0)"

definition task_tries :: "sched \<Rightarrow> graph_node \<Rightarrow> task option \<Rightarrow> bool" where
  "task_tries s n t \<longleftrightarrow> (case t of
     None \<Rightarrow> cancelled s \<and> (\<forall>ns a b. driver s \<noteq> AtScan ns a b) \<or> done_node (node_id n) s \<or> tried (node_id n) s < max_attempts n
   | Some (Pushed _) \<Rightarrow> tried (node_id n) s < max_attempts n
   | Some (Working _ row) \<Rightarrow> attempt row = tried (node_id n) s
   | Some (Returned _ r) \<Rightarrow> (\<exists>e. r = Inl e) \<or> cancelled s \<or> done_node (node_id n) s \<or> tried (node_id n) s < max_attempts n)"

definition tries_inv :: "run_row \<Rightarrow> sched \<Rightarrow> bool" where
  "tries_inv run s \<longleftrightarrow> (driver s = AtStart \<longrightarrow> step_rows s = []) \<and> (\<forall>e. driver s = AtError e \<longrightarrow> cancelled s)
     \<and> (\<forall>n \<in> set (nodes (rr_graph run)). tried (node_id n) s \<le> max_attempts n
          \<and> task_tries s n (tbl_get (tasks s) (node_id n)))"

lemma tries_inv_same:
  assumes "tries_inv run s" "attempts (st s') = attempts (st s)" "\<And>i. done_node i s \<Longrightarrow> done_node i s'"
    and "tasks s' = tasks s" "cancelled s \<Longrightarrow> cancelled s'"
    and "\<And>ns a b. driver s' = AtScan ns a b \<Longrightarrow> cancelled s' \<Longrightarrow> \<exists>ns a b. driver s = AtScan ns a b"
    and "driver s' = AtStart \<Longrightarrow> driver s = AtStart \<and> step_rows s' = step_rows s"
    and "\<And>e. driver s' = AtError e \<Longrightarrow> cancelled s' \<or> (\<exists>e. driver s = AtError e)"
  shows "tries_inv run s'"
  using assms unfolding tries_inv_def task_tries_def tried_def
  by (fastforce split: option.splits task.splits)

lemma tries_inv_loop_head:
  "tries_inv run s \<Longrightarrow> tries_inv run (loop_head run s)"
  by (erule tries_inv_same) (auto simp: state_simps driver_loop_head done_node_def split: if_splits)

lemma tries_inv_drive_fails: "tries_inv run s \<Longrightarrow> tries_inv run (drive_fails e s)"
  by (erule tries_inv_same) (auto simp: state_simps done_node_def)

text \<open>A node whose id is unique is the node of its task.\<close>

lemma task_of_node:
  assumes "core_inv run s" "distinct (map node_id (nodes (rr_graph run)))" "n \<in> set (nodes (rr_graph run))"
    and "tbl_get (tasks s) (node_id n) = Some t"
  shows "task_node t = n"
  using core_inv_task [OF assms(1,4)] distinct_map_inj [OF assms(2)] assms(3) by (auto simp: task_ok_def)

lemma tries_inv_complete:
  assumes "tries_inv run s" "core_inv run s" "distinct (map node_id (nodes (rr_graph run)))"
    and "oc = NodeAbandoned \<Longrightarrow> cancelled s" "driver s \<noteq> AtStart"
  shows "tries_inv run (complete_node run oc ev db i s)"
proof (cases "\<exists>n row. tbl_get (tasks s) i = Some (Working n row)")
  case True
  then obtain n row where w: "tbl_get (tasks s) i = Some (Working n row)" by blast
  have ok: "n \<in> set (nodes (rr_graph run))" "node_id n = i" using core_inv_task [OF assms(2) w] by (auto simp: task_ok_def)
  have row: "attempt row = tried i s" "tried i s \<le> max_attempts n"
    using assms(1) ok w by (auto simp: tries_inv_def task_tries_def)
  show ?thesis
  proof (rule complete_node_effect [OF w ok(2) assms(4), where run = run and ev = ev and db = db], assumption, goal_cases)
    case (1 r)
    let ?s' = "complete_node run oc ev db i s"
    have tr: "tried j ?s' = tried j s" for j using 1(10) by (simp add: tried_def)
    have mono: "done_node j ?s'" if "done_node j s" for j using 1(12) that by (auto simp: done_node_def)
    show ?case unfolding tries_inv_def
    proof (intro conjI ballI impI)
      fix m assume m: "m \<in> set (nodes (rr_graph run))"
      show "tried (node_id m) ?s' \<le> max_attempts m" using assms(1) m by (simp add: tr tries_inv_def)
      show "task_tries ?s' m (tbl_get (tasks ?s') (node_id m))"
      proof (cases "node_id m = i")
        case True
        then have "m = n" using distinct_map_inj [OF assms(3) m ok(1)] ok(2) by simp
        then show ?thesis using 1(1,13) True row by (auto simp: task_tries_def tr)
      next
        case False
        then have t: "tbl_get (tasks ?s') (node_id m) = tbl_get (tasks s) (node_id m)" using 1(1) by simp
        have "task_tries s m (tbl_get (tasks s) (node_id m))" using assms(1) m by (simp add: tries_inv_def)
        then show ?thesis using 1(5,11) mono unfolding t task_tries_def
          by (auto simp: tr split: option.splits task.splits)
      qed
    qed (use 1(5,11) assms(1,5) in \<open>auto simp: tries_inv_def\<close>)
  qed
qed (use assms(1) in \<open>simp add: complete_node_idle\<close>)

lemma tries_inv_start_task:
  assumes "tries_inv run s" "core_inv run s" "distinct (map node_id (nodes (rr_graph run)))" "driver s \<noteq> AtStart"
  shows "tries_inv run (start_task run fresh db i s)"
proof (cases "\<exists>n. tbl_get (tasks s) i = Some (Pushed n)")
  case True
  then obtain n where p: "tbl_get (tasks s) i = Some (Pushed n)" by blast
  have ok: "n \<in> set (nodes (rr_graph run))" "node_id n = i" using core_inv_task [OF assms(2) p] by (auto simp: task_ok_def)
  have lt: "tried i s < max_attempts n" using assms(1) ok p by (auto simp: tries_inv_def task_tries_def)
  show ?thesis
  proof (rule start_task_effect [OF p ok(2), where run = run and fresh = fresh and db = db], goal_cases)
    case (1 t)
    let ?s' = "start_task run fresh db i s"
    have tr: "tried j ?s' = (if j = i then tried i s + 1 else tried j s)" for j using 1(3) by (simp add: tried_def)
    have dn: "done_node j ?s' = done_node j s" for j using 1(3) by (simp add: done_node_def)
    show ?case unfolding tries_inv_def
    proof (intro conjI ballI impI)
      fix m assume m: "m \<in> set (nodes (rr_graph run))"
      have mn: "node_id m = i \<Longrightarrow> m = n" using distinct_map_inj [OF assms(3) m ok(1)] ok(2) by simp
      show "tried (node_id m) ?s' \<le> max_attempts m" using assms(1) m lt mn by (auto simp: tr tries_inv_def)
      show "task_tries ?s' m (tbl_get (tasks ?s') (node_id m))"
      proof (cases "node_id m = i")
        case True
        then show ?thesis using 1(1) 1(2) [folded tried_def] tr [of i] by (auto simp: task_tries_def)
      next
        case False
        then have t: "tbl_get (tasks ?s') (node_id m) = tbl_get (tasks s) (node_id m)" using 1(1) by simp
        have "task_tries s m (tbl_get (tasks s) (node_id m))" using assms(1) m by (simp add: tries_inv_def)
        then show ?thesis using 1(7,11) False unfolding t task_tries_def
          by (auto simp: tr dn split: option.splits task.splits)
      qed
    qed (use 1(7,11) assms(1,4) in \<open>auto simp: tries_inv_def\<close>)
  qed
qed (use assms(1) in \<open>simp add: start_task_idle\<close>)

lemma tries_inv_gone:
  assumes "tries_inv run s" "core_inv run s" "distinct (map node_id (nodes (rr_graph run)))"
    and r: "tbl_get (tasks s) i = Some (Returned n r)" "r = Inr () \<or> cancelled s"
    and "\<forall>ns a b. driver s \<noteq> AtScan ns a b" "driver s \<noteq> AtStart"
    and s': "st s' = st s" "cancelled s' = cancelled s" "driver s' = driver s"
      "\<And>j. tbl_get (tasks s') j = (if j = i then None else tbl_get (tasks s) j)"
  shows "tries_inv run s'"
proof -
  have tr: "tried j s' = tried j s" "done_node j s' = done_node j s" for j by (simp_all add: tried_def done_node_def s')
  have "task_tries s' m (tbl_get (tasks s') (node_id m))" if m: "m \<in> set (nodes (rr_graph run))" for m
  proof (cases "node_id m = i")
    case True
    then have "task_tries s m (Some (Returned n r))" using assms(1) m r(1) by (auto simp: tries_inv_def)
    then show ?thesis using True r(2) assms(6) by (auto simp: task_tries_def tr s')
  next
    case False
    have "task_tries s m (tbl_get (tasks s) (node_id m))" using assms(1) m by (simp add: tries_inv_def)
    then show ?thesis using False assms(6) by (auto simp: task_tries_def tr s' split: option.splits task.splits)
  qed
  then show ?thesis using assms(1,7) by (simp add: tries_inv_def tr s')
qed

lemma settle_drive_fails: "drive_fails e (settle i s) = settle i (drive_fails e s)"
  by (simp add: drive_fails_def settle_def drop_task_def)

lemma tries_inv_take:
  assumes "tries_inv run s" "core_inv run s" "distinct (map node_id (nodes (rr_graph run)))"
  shows "tries_inv run (take_returned run i s)"
proof (cases "\<exists>n r. tbl_get (tasks s) i = Some (Returned n r)")
  case True
  then obtain n r where r: "tbl_get (tasks s) i = Some (Returned n r)" by blast
  have ok: "tries_inv run (settle i s)" if "r = Inr ()" "driver s = AtDrain \<or> (\<exists>d. driver s = AtWait d)"
    by (rule tries_inv_gone [OF assms r]) (use that in \<open>auto simp: state_simps\<close>)
  have er: "tries_inv run (drive_fails e (settle i s))" if "driver s = AtDrain \<or> (\<exists>d. driver s = AtWait d)" for e
    unfolding settle_drive_fails
    by (rule tries_inv_gone [OF tries_inv_drive_fails [OF assms(1)] core_inv_drive_fails [OF assms(2)] assms(3)])
       (use that r in \<open>auto simp: state_simps\<close>)
  have dr: "tries_inv run (drop_task i s)" if "driver s = AtError e" for e
    by (rule tries_inv_gone [OF assms r]) (use that assms(1) in \<open>auto simp: state_simps tries_inv_def\<close>)
  show ?thesis
  proof (cases "driver s")
    case (AtWait d)
    with ok er r show ?thesis by (cases r) (simp_all add: take_returned_def tries_inv_loop_head)
  next
    case AtDrain
    with ok er r show ?thesis by (cases r) (simp_all add: take_returned_def)
  next
    case (AtError e)
    with dr r show ?thesis by (simp add: take_returned_def)
  qed (use assms(1) r in \<open>simp_all add: take_returned_def\<close>)
qed (use assms(1) in \<open>auto simp: take_returned_def split: option.split task.split\<close>)

lemma tries_inv_scan:
  assumes "tries_inv run s" "core_inv run s" "distinct (map node_id (nodes (rr_graph run)))" "driver s = AtScan ns a b"
  shows "tries_inv run (scan_step run fresh s)"
proof (cases ns)
  case Nil
  have d: "tries_inv run (s\<lparr>driver := x\<rparr>)" if "\<forall>ns a b. x \<noteq> AtScan ns a b" "x \<noteq> AtStart" "\<forall>e. x \<noteq> AtError e" for x
    by (rule tries_inv_same [OF assms(1)]) (use that in \<open>auto simp: done_node_def\<close>)
  show ?thesis using Nil assms
    by (auto simp: scan_step_def tries_inv_drive_fails tries_inv_loop_head intro!: d split: option.split)
next
  case (Cons n ns')
  obtain flow a' b' s' where eq: "scan_node run fresh n a b s = (flow, a', b', s')" by (metis prod_cases4)
  have n: "n \<in> set (nodes (rr_graph run))" using assms(2,4) Cons by (auto simp: core_inv_def)
  have drv: "tries_inv run (s1\<lparr>driver := AtScan x y z\<rparr>)"
    if "tries_inv run s1" "driver s1 = AtScan ns a b" for s1 x y z
    by (rule tries_inv_same [OF that(1)]) (use that(2) in \<open>auto simp: done_node_def\<close>)
  from eq have "tries_inv run s' \<and> driver s' = AtScan ns a b"
  proof (cases rule: scan_node_cases)
    case (exhausted m)
    have "tries_inv run s'" by (rule tries_inv_same [OF assms(1)]) (use exhausted assms(4) in \<open>auto simp: done_node_def\<close>)
    with exhausted assms(4) show ?thesis by simp
  next
    case (skipped step)
    have "tries_inv run s'" by (rule tries_inv_same [OF assms(1)]) (use skipped assms(4) in \<open>auto simp: done_node_def\<close>)
    with skipped assms(4) show ?thesis by simp
  next
    case pushed
    have idle: "tbl_get (tasks s) (node_id n) = None"
      using pushed(4) core_inv_task [OF assms(2), of "node_id n"]
      by (cases "tbl_get (tasks s) (node_id n)") (auto simp: ready_in_def task_ok_def)
    moreover have "task_tries s n (tbl_get (tasks s) (node_id n))" using assms(1) n by (simp add: tries_inv_def)
    ultimately have "tried (node_id n) s < max_attempts n"
      using assms(4) pushed(4) by (auto simp: task_tries_def ready_in_def)
    moreover have tr: "tried j s' = tried j s" "done_node j s' = done_node j s" for j
      by (simp_all add: tried_def done_node_def pushed)
    moreover have "task_tries s' m (tbl_get (tasks s') (node_id m))" if m: "m \<in> set (nodes (rr_graph run))" "node_id m \<noteq> node_id n" for m
    proof -
      have "task_tries s m (tbl_get (tasks s) (node_id m))" using assms(1) m by (simp add: tries_inv_def)
      moreover have "cancelled s' = cancelled s" "driver s' = driver s" "tbl_get (tasks s') (node_id m) = tbl_get (tasks s) (node_id m)"
        using m by (simp_all add: pushed)
      ultimately show ?thesis by (auto simp: task_tries_def tr split: option.splits task.splits)
    qed
    moreover have "m = n" if "m \<in> set (nodes (rr_graph run))" "node_id m = node_id n" for m
      using distinct_map_inj [OF assms(3) that(1) n that(2)] .
    ultimately have "task_tries s' m (tbl_get (tasks s') (node_id m))" if "m \<in> set (nodes (rr_graph run))" for m
      using that by (cases "node_id m = node_id n") (auto simp: pushed task_tries_def tried_def)
    then show ?thesis using assms(1,4) by (simp add: tries_inv_def tr) (simp add: pushed)
  qed (use assms in auto)
  then show ?thesis using drv by (cases flow) (simp_all add: scan_step_def assms(4) Cons eq)
qed

lemma polling_not_start: "polling s \<Longrightarrow> driver s \<noteq> AtStart"
  by (auto simp: polling_def)

lemma tries_inv_step:
  assumes "sched_step reg run s s'" "tries_inv run s" "core_inv run s" "fresh_inv s"
    and d: "distinct (map node_id (nodes (rr_graph run)))"
  shows "tries_inv run s'"
  using assms(1)
proof (cases rule: sched_step.cases)
  case (driver_starts db1 db2 db3)
  have z: "load_checkpoints (nodes (rr_graph run)) (step_rows s) (st s) = st s"
    using assms(2) driver_starts(2) by (simp add: tries_inv_def load_checkpoints_def)
  have a: "tries_inv run (publish es (snd (set_status Running db2 (s\<lparr>st := st s\<rparr>))))" "tries_inv run (snd (set_status Running db2 s))" for es
    by (rule tries_inv_same [OF assms(2)]; use assms(2) driver_starts(2) in \<open>simp add: state_simps done_node_def\<close>)+
  show ?thesis unfolding driver_starts(1) using assms(2) a
    by (auto simp: drive_start_def Let_def z case_prod_beta intro!: tries_inv_drive_fails tries_inv_loop_head split: option.split sum.split)
next
  case (driver_scans ns due progressed fresh)
  with tries_inv_scan [OF assms(2,3) d] show ?thesis by simp
next
  case driver_pauses
  then show ?thesis using assms(2) by (auto simp: end_pause_def tries_inv_loop_head split: driver_at.split option.split)
next
  case (driver_takes i)
  with tries_inv_take [OF assms(2,3) d] show ?thesis by simp
next
  case (driver_ends db)
  have e: "tries_inv run (s1\<lparr>driver := AtEnd r\<rparr>)" if "st s1 = st s" "tasks s1 = tasks s" "cancelled s1 = cancelled s" for s1 r
    by (rule tries_inv_same [OF assms(2)]) (use that in \<open>auto simp: done_node_def\<close>)
  have f: "tries_inv run (snd (finish_run x y z db s))" for x y z
    by (rule tries_inv_same [OF assms(2)]) (use assms(2) in \<open>auto simp: state_simps done_node_def finish_run_rows\<close>)
  show ?thesis unfolding driver_ends using assms(2)
    by (auto simp: end_drive_def case_prod_beta state_simps intro!: e f tries_inv_drive_fails
        split: driver_at.split option.split sum.split)
next
  case (task_starts fresh db i)
  then show ?thesis using tries_inv_start_task [OF assms(2,3) d polling_not_start] by simp
next
  case (task_works i n row admit c0 c1 exec ev db)
  show ?thesis unfolding task_works(1) by (rule tries_inv_complete [OF assms(2,3) d]) (use task_works polling_not_start in auto)
next
  case (task_panics i ev db)
  show ?thesis unfolding task_panics(1) by (rule tries_inv_complete [OF assms(2,3) d]) (use task_panics polling_not_start in auto)
next
  case (task_abandoned ev db i)
  show ?thesis unfolding task_abandoned(1) by (rule tries_inv_complete [OF assms(2,3) d]) (use task_abandoned polling_not_start in auto)
next
  case (node_emits i event)
  show ?thesis unfolding node_emits
    by (rule tries_inv_same [OF assms(2)]) (auto simp: state_simps done_node_def node_emit_rows)
next
  case (gate_opens i db db')
  show ?thesis unfolding gate_opens
    by (rule tries_inv_same [OF assms(2)]) (use assms(4) in \<open>auto simp: state_simps done_node_def gate_rows\<close>)
next
  case (gate_closes i db)
  show ?thesis unfolding gate_closes(1)
    by (rule tries_inv_same [OF assms(2)]) (use assms(4) gate_closes in \<open>auto simp: state_simps done_node_def gate_rows\<close>)
qed (auto intro!: tries_inv_same [OF assms(2)] simp: done_node_def drop_gate_def)

text \<open>C13: In a run that starts without checkpoints no node is started more often than its retry policy
  allows, whatever fails, is cancelled or is abandoned.\<close>

theorem attempts_stay_within_the_policy:
  assumes "sched_reachable reg run [] s" and "distinct (map node_id (nodes (rr_graph run)))"
    and "\<forall>n \<in> set (nodes (rr_graph run)). 1 \<le> max_attempts n"
    and "n \<in> set (nodes (rr_graph run))" and "tbl_get (attempts (st s)) (node_id n) = Some a"
  shows "a \<le> max_attempts n"
proof -
  from assms(1) have "tries_inv run s"
  proof (induction rule: sched_reachable.induct)
    case (sched_starts now)
    show ?case using assms(3)
      by (auto simp: tries_inv_def task_tries_def tried_def sched_new_def sched_state_new_def)
  next
    case (sched_goes s s')
    then show ?case using reachable_core [OF sched_goes(1)] by (intro tries_inv_step [OF sched_goes(2)]) (auto intro: assms(2))
  qed
  then have "tried (node_id n) s \<le> max_attempts n" using assms(4) by (simp add: tries_inv_def)
  with assms(5) show ?thesis by (simp add: tried_def)
qed

subsection \<open>Executions\<close>

text \<open>Commands that name one step each, so that an execution can be evaluated.\<close>

datatype command =
    DoStart
  | DoScan
  | DoEnd
  | DoTake string
  | DoBegin string string
  | DoWork string "(app_error + json) option"
  | DoOpenGate string
  | DoDropGate string
  | DoCancel

definition step_with :: "registry \<Rightarrow> run_row \<Rightarrow> command \<Rightarrow> sched \<Rightarrow> sched option" where
  "step_with reg run c s = (case c of
     DoStart \<Rightarrow> if driver s = AtStart then Some (drive_start reg run None None None s) else None
   | DoScan \<Rightarrow> (case driver s of AtScan _ _ _ \<Rightarrow> Some (scan_step run ''k'' s) | _ \<Rightarrow> None)
   | DoEnd \<Rightarrow> Some (end_drive None s)
   | DoTake i \<Rightarrow> Some (take_returned run i s)
   | DoBegin i fresh \<Rightarrow> if polling s then Some (start_task run fresh None i s) else None
   | DoWork i r \<Rightarrow> (case tbl_get (tasks s) i of
        Some (Working n row) \<Rightarrow>
          if polling s \<and> i \<notin> set (gates s)
          then Some (complete_node run (NodeDone (work_result reg (Some (\<lambda>_. Inr ())) False False n (step_input row) (\<lambda>_ _. r)))
                       None None i s)
          else None
      | _ \<Rightarrow> None)
   | DoOpenGate i \<Rightarrow> Some (snd (open_gate i None None s))
   | DoDropGate i \<Rightarrow> if i \<in> set (gates s) then Some (drop_gate i s) else None
   | DoCancel \<Rightarrow> Some (s\<lparr>cancelled := True\<rparr>))"

fun steps_with :: "registry \<Rightarrow> run_row \<Rightarrow> command list \<Rightarrow> sched \<Rightarrow> sched option" where
  "steps_with reg run [] s = Some s"
| "steps_with reg run (c # cs) s = (case step_with reg run c s of Some s' \<Rightarrow> steps_with reg run cs s' | None \<Rightarrow> None)"

lemma step_with_step: "step_with reg run c s = Some s' \<Longrightarrow> sched_step reg run s s'"
  by (auto simp: step_with_def intro: sched_step.intros split: command.splits if_splits driver_at.splits option.splits task.splits)

lemma steps_with_reachable:
  "steps_with reg run cs s = Some s' \<Longrightarrow> sched_reachable reg run rows s \<Longrightarrow> sched_reachable reg run rows s'"
proof (induction cs arbitrary: s)
  case (Cons c cs)
  from Cons.prems(1) obtain s1 where s1: "step_with reg run c s = Some s1" "steps_with reg run cs s1 = Some s'"
    by (auto split: option.splits)
  from s1(2) show ?case by (rule Cons.IH) (rule sched_goes [OF Cons.prems(2) step_with_step [OF s1(1)]])
qed simp

definition sample_graph_node :: "string \<Rightarrow> string list \<Rightarrow> graph_node" where
  "sample_graph_node i ds = (graph_node_new i ''t'')\<lparr>node_dependencies := Some ds,
     node_retry := Some \<lparr>max_attempts_of = 2, backoff_ms = 0\<rparr>\<rparr>"

definition sample_run :: "graph_node list \<Rightarrow> run_row" where
  "sample_run ns = \<lparr>rr_id = ''r'', rr_status = Queued,
     rr_graph = \<lparr>nodes = ns, permission_scopes_opt = None, allowed_tools = None\<rparr>, rr_input = JNull,
     rr_concurrency = 1, rr_started_at = None\<rparr>"

definition sample_chain :: run_row where
  "sample_chain = sample_run [sample_graph_node ''b'' [''a''], sample_graph_node ''a'' []]"

definition sample_registry :: registry where
  "sample_registry = [sample_node_type ''t'']"

definition sample_execution :: "command list" where
  "sample_execution = [DoStart, DoScan, DoScan, DoScan, DoBegin ''a'' ''1'', DoWork ''a'' (Some (Inr JNull)), DoTake ''a'',
     DoScan, DoScan, DoScan, DoBegin ''b'' ''2'', DoWork ''b'' (Some (Inr JNull)), DoTake ''b'', DoEnd]"

lemma sample_execution_ends:
  "map_option (\<lambda>s. (run_status_of s, run_outcome_of s, length (step_rows s)))
     (steps_with sample_registry sample_chain sample_execution (sched_new sample_chain [] 5))
   = Some (Succeeded, Some \<lparr>oc_status = OutOk, oc_code = None, oc_message = None\<rparr>, 2)"
  by code_simp

lemma sample_reachable:
  "steps_with reg run cs (sched_new run rows now) = Some s \<Longrightarrow> sched_reachable reg run rows s"
  using steps_with_reachable sched_starts by blast

subsection \<open>Witnesses\<close>

definition sample_prefix :: "nat \<Rightarrow> sched option" where
  "sample_prefix k = steps_with sample_registry sample_chain (take k sample_execution) (sched_new sample_chain [] 5)"

lemma sample_prefix_reachable: "sample_prefix k = Some s \<Longrightarrow> sched_reachable sample_registry sample_chain [] s"
  unfolding sample_prefix_def by (rule sample_reachable)

theorem concurrency_is_bounded_witness:
  "\<exists>s. sample_prefix 5 = Some s \<and> running s = [''a''] \<and> length (running s) \<le> concurrency sample_chain"
proof -
  have "map_option running (sample_prefix 5) = Some [''a'']" by code_simp
  then obtain s where s: "sample_prefix 5 = Some s" "running s = [''a'']" by auto
  with concurrency_is_bounded [OF sample_prefix_reachable [OF s(1)]] show ?thesis by blast
qed

theorem dependencies_complete_first_witness:
  "\<exists>s. sample_prefix 10 = Some s \<and> tbl_get (completed (st s)) ''a'' \<noteq> None
     \<and> tbl_get (tasks s) ''b'' = Some (Pushed (sample_graph_node ''b'' [''a'']))"
proof -
  have "map_option (\<lambda>s. tbl_get (tasks s) ''b'') (sample_prefix 10) = Some (Some (Pushed (sample_graph_node ''b'' [''a''])))"
    by code_simp
  then obtain s where s: "sample_prefix 10 = Some s" "tbl_get (tasks s) ''b'' = Some (Pushed (sample_graph_node ''b'' [''a'']))"
    by auto
  from dependencies_complete_first [OF sample_prefix_reachable [OF s(1)] s(2)] s
  show ?thesis by (simp add: sample_graph_node_def dependencies_def)
qed

theorem run_ends_once_witness:
  "\<exists>s oc. sample_prefix 14 = Some s \<and> run_outcome_of s = Some oc \<and> last (events s) = EvEnd oc"
proof -
  have "map_option run_outcome_of (sample_prefix 14) = Some (Some \<lparr>oc_status = OutOk, oc_code = None, oc_message = None\<rparr>)"
    by code_simp
  then obtain s where s: "sample_prefix 14 = Some s" "run_outcome_of s = Some \<lparr>oc_status = OutOk, oc_code = None, oc_message = None\<rparr>"
    by auto
  from run_ends_once [OF sample_prefix_reachable [OF s(1)]] s show ?thesis by blast
qed

theorem attempts_stay_within_the_policy_witness:
  "\<exists>s a. sample_prefix 14 = Some s \<and> tbl_get (attempts (st s)) ''a'' = Some a \<and> a \<le> 2"
proof -
  have "map_option (\<lambda>s. tbl_get (attempts (st s)) ''a'') (sample_prefix 14) = Some (Some 1)" by code_simp
  then obtain s where s: "sample_prefix 14 = Some s" "tbl_get (attempts (st s)) ''a'' = Some 1" by auto
  have d: "distinct (map node_id (nodes (rr_graph sample_chain)))"
    and m: "\<forall>n \<in> set (nodes (rr_graph sample_chain)). 1 \<le> max_attempts n"
    and n: "sample_graph_node ''a'' [] \<in> set (nodes (rr_graph sample_chain))"
    by (simp_all add: sample_chain_def sample_run_def sample_graph_node_def graph_node_new_def max_attempts_def retry_def to_i64_def)
  have "(1::int) \<le> max_attempts (sample_graph_node ''a'' [])"
    by (rule attempts_stay_within_the_policy [OF sample_prefix_reachable [OF s(1)] d m n])
       (use s(2) in \<open>simp add: sample_graph_node_def graph_node_new_def\<close>)
  with s show ?thesis by auto
qed

text \<open>A step that times out while it waits for an approval, on a node that may be tried again.\<close>

definition sample_leak :: run_row where
  "sample_leak = sample_run [sample_graph_node ''a'' []]"

definition leak_execution :: "command list" where
  "leak_execution = [DoStart, DoScan, DoScan, DoBegin ''a'' ''1'', DoOpenGate ''a'', DoDropGate ''a'', DoWork ''a'' None,
     DoTake ''a'', DoScan]"

theorem stuck_only_by_a_leaked_gate_witness:
  "\<exists>s. steps_with sample_registry sample_leak leak_execution (sched_new sample_leak [] 5) = Some s
     \<and> driver (scan_step sample_leak ''k'' s) = AtError (app_error_new Unknown NO_READY_NODES) \<and> 0 < leaked s"
proof -
  have "map_option (\<lambda>s. (driver s, driver (scan_step sample_leak ''k'' s)))
      (steps_with sample_registry sample_leak leak_execution (sched_new sample_leak [] 5))
    = Some (AtScan [] None False, AtError (app_error_new Unknown NO_READY_NODES))" by code_simp
  then obtain s where s: "steps_with sample_registry sample_leak leak_execution (sched_new sample_leak [] 5) = Some s"
    "driver s = AtScan [] None False" "driver (scan_step sample_leak ''k'' s) = AtError (app_error_new Unknown NO_READY_NODES)"
    by auto
  from stuck_only_by_a_leaked_gate [OF sample_reachable [OF s(1)] s(2,3)] s show ?thesis by blast
qed

text \<open>The run then fails for want of ready nodes although the node has a second attempt left.\<close>

theorem timeout_at_a_gate_fails_the_run:
  "map_option (\<lambda>s. (run_status_of s, run_error s, tbl_get (attempts (st s)) ''a'', pending_gates (st s)))
     (steps_with sample_registry sample_leak (leak_execution @ [DoScan, DoEnd]) (sched_new sample_leak [] 5))
   = Some (Failed, Some NO_READY_NODES, Some 1, 1)
   \<and> max_attempts (sample_graph_node ''a'' []) = 2"
  by code_simp

end
