(* ===== verification/EventBus.thy ===== *)
theory EventBus
  imports StepRules
begin

text \<open>
  The event bus, \<^verbatim>\<open>platform/events.rs\<close>: sinks and subscribers, the streams that are live, and the
  numbering of a stream's events.

  A sink is known by its name. What a sink answers to an event, the clock and the fresh identifiers
  are parameters: \<open>be_takes\<close> is the answer of \<^verbatim>\<open>EventSink::deliver\<close>, and a stream reads the clock once
  for each number it gives out, so \<open>now n\<close> is the reading for the event numbered \<open>n\<close>. The calls
  of sinks and of the recorder are kept as lists. Locks are never poisoned here, and the numbers stay
  below \<open>2^64\<close>.
\<close>

subsection \<open>Events\<close>

type_synonym json_map = "(string \<times> json) list"

datatype question_kind = QuestionText | QuestionSingle | QuestionMultiple

record question_option =
  qo_id :: string
  qo_label :: string
  qo_description :: "string option"

record question =
  q_id :: string
  q_title :: string
  q_kind :: question_kind
  q_options :: "question_option list"
  q_allow_other :: bool

record question_request =
  qr_id :: string
  qr_run_id :: string
  qr_conversation_id :: "string option"
  qr_questions :: "question list"

datatype host_event_draft =
    EToken string "delta_kind option"
  | EProgress nat nat
  | EStep json_map
  | ELog json_map
  | EApproval json_map
  | EQuestion question_request
  | EEnd run_outcome

fun is_end :: "host_event_draft \<Rightarrow> bool" where
  "is_end (EEnd _) = True"
| "is_end _ = False"

fun is_token :: "host_event_draft \<Rightarrow> bool" where
  "is_token (EToken _ _) = True"
| "is_token _ = False"

lemma is_tokenE: "is_token d \<Longrightarrow> (\<And>x k. d = EToken x k \<Longrightarrow> P) \<Longrightarrow> P"
  by (cases d) auto

record host_event =
  ev_stream :: string
  ev_seq :: nat
  ev_ts :: int
  ev_body :: host_event_draft

definition host_event_new :: "string \<Rightarrow> nat \<Rightarrow> int \<Rightarrow> host_event_draft \<Rightarrow> host_event" where
  "host_event_new stream n ts body = \<lparr>ev_stream = stream, ev_seq = n, ev_ts = ts, ev_body = body\<rparr>"

lemma host_event_new_sel [simp]:
  "ev_stream (host_event_new i n ts d) = i" "ev_seq (host_event_new i n ts d) = n"
  "ev_ts (host_event_new i n ts d) = ts" "ev_body (host_event_new i n ts d) = d"
  by (simp_all add: host_event_new_def)

subsection \<open>The bus\<close>

datatype bus_error = Disposed | AlreadyOpen

record bus =
  bus_sink :: "string option"
  bus_subscribers :: "(nat \<times> string) list"
  bus_next_subscriber :: nat
  bus_live :: "string set"
  bus_disposed :: bool
  bus_recorded :: "host_event list"
  bus_recorder_closed :: bool
  bus_delivered :: "(string \<times> host_event) list"

record bus_env =
  be_recorder :: bool
  be_takes :: "string \<Rightarrow> host_event \<Rightarrow> bool"

definition bus_new :: bus where
  "bus_new = \<lparr>bus_sink = None, bus_subscribers = [], bus_next_subscriber = 1, bus_live = {}, bus_disposed = False,
     bus_recorded = [], bus_recorder_closed = False, bus_delivered = []\<rparr>"

definition attach :: "string \<Rightarrow> bus \<Rightarrow> bus" where
  "attach sink b = b\<lparr>bus_sink := Some sink\<rparr>"

definition detach :: "bus \<Rightarrow> bus" where
  "detach b = b\<lparr>bus_sink := None\<rparr>"

definition bus_subscribe :: "string \<Rightarrow> bus \<Rightarrow> nat \<times> bus" where
  "bus_subscribe sink b = (bus_next_subscriber b,
     b\<lparr>bus_next_subscriber := bus_next_subscriber b + 1, bus_subscribers := bus_subscribers b @ [(bus_next_subscriber b, sink)]\<rparr>)"

definition bus_unsubscribe :: "nat \<Rightarrow> bus \<Rightarrow> bus" where
  "bus_unsubscribe i b = b\<lparr>bus_subscribers := filter (\<lambda>(known, _). known \<noteq> i) (bus_subscribers b)\<rparr>"

definition deliver_to_subscribers :: "bus_env \<Rightarrow> host_event \<Rightarrow> bus \<Rightarrow> bus" where
  "deliver_to_subscribers env e b =
     (let subscribers = bus_subscribers b;
          failed = map fst (filter (\<lambda>(_, sink). \<not> be_takes env sink e) subscribers);
          b1 = b\<lparr>bus_delivered := bus_delivered b @ map (\<lambda>(_, sink). (sink, e)) subscribers\<rparr> in
      if failed = [] then b1
      else b1\<lparr>bus_subscribers := filter (\<lambda>(i, _). i \<notin> set failed) (bus_subscribers b1)\<rparr>)"

definition deliver :: "bus_env \<Rightarrow> host_event \<Rightarrow> bus \<Rightarrow> bus" where
  "deliver env e b =
     (let b1 = (if be_recorder env then b\<lparr>bus_recorded := bus_recorded b @ [e]\<rparr> else b);
          b2 = deliver_to_subscribers env e b1 in
      case bus_sink b2 of
        None \<Rightarrow> b2
      | Some sink \<Rightarrow> b2\<lparr>bus_delivered := bus_delivered b2 @ [(sink, e)]\<rparr>)"

definition release :: "string \<Rightarrow> bus \<Rightarrow> bus" where
  "release i b = b\<lparr>bus_live := bus_live b - {i}\<rparr>"

definition dispose :: "bus_env \<Rightarrow> bus \<Rightarrow> bus" where
  "dispose env b = b\<lparr>bus_disposed := True, bus_live := {}, bus_recorder_closed := be_recorder env \<or> bus_recorder_closed b\<rparr>"

subsection \<open>Streams\<close>

record stream_handle =
  st_id :: string
  st_seq :: nat
  st_closed :: bool
  st_record :: bool
  st_recorded :: "host_event list"

record stream_options =
  so_id :: "string option"
  so_next_seq :: "nat option"
  so_record :: bool

definition open_stream_with :: "stream_options \<Rightarrow> string \<Rightarrow> bus \<Rightarrow> (bus_error + stream_handle) \<times> bus" where
  "open_stream_with options fresh b =
     (if bus_disposed b then (Inl Disposed, b)
      else
        let i = (case so_id options of Some i \<Rightarrow> i | None \<Rightarrow> fresh) in
        if i \<in> bus_live b then (Inl AlreadyOpen, b)
        else (Inr \<lparr>st_id = i, st_seq = (case so_next_seq options of Some n \<Rightarrow> n | None \<Rightarrow> 0), st_closed = False,
                st_record = so_record options, st_recorded = []\<rparr>,
              b\<lparr>bus_live := insert i (bus_live b)\<rparr>))"

definition open_stream :: "string \<Rightarrow> bus \<Rightarrow> (bus_error + stream_handle) \<times> bus" where
  "open_stream = open_stream_with \<lparr>so_id = None, so_next_seq = None, so_record = False\<rparr>"

text \<open>The drafts of one call get their numbers; what follows an end is dropped.\<close>

fun number_drafts :: "string \<Rightarrow> (nat \<Rightarrow> int) \<Rightarrow> host_event_draft list \<Rightarrow> nat \<Rightarrow> bool \<Rightarrow> host_event list \<times> nat \<times> bool" where
  "number_drafts i now [] n closed = ([], n, closed)"
| "number_drafts i now (d # ds) n closed =
     (if closed then number_drafts i now ds n closed
      else (case number_drafts i now ds (n + 1) (is_end d) of
              (es, n', closed') \<Rightarrow> (host_event_new i n (now n) d # es, n', closed')))"

definition hook :: "host_event \<Rightarrow> stream_handle \<Rightarrow> stream_handle" where
  "hook e st = (if st_record st then st\<lparr>st_recorded := st_recorded st @ [e]\<rparr> else st)"

fun hand_out :: "bus_env \<Rightarrow> host_event list \<Rightarrow> stream_handle \<Rightarrow> bus \<Rightarrow> stream_handle \<times> bus" where
  "hand_out env [] st b = (st, b)"
| "hand_out env (e # es) st b =
     hand_out env es (hook e st) (deliver env e (if is_end (ev_body e) then release (st_id st) b else b))"

definition publish_with ::
  "bus_env \<Rightarrow> (nat \<Rightarrow> int) \<Rightarrow> host_event_draft list \<Rightarrow> (host_event list \<Rightarrow> 'w \<Rightarrow> ('e + unit) \<times> 'w)
    \<Rightarrow> stream_handle \<Rightarrow> bus \<Rightarrow> 'w \<Rightarrow> ('e + host_event list) \<times> stream_handle \<times> bus \<times> 'w"
where
  "publish_with env now drafts persist_events st b w =
     (case number_drafts (st_id st) now drafts (st_seq st) (st_closed st) of
        (evs, n, closed) \<Rightarrow>
          (case persist_events evs w of
             (Inl e, w1) \<Rightarrow> (Inl e, st, b, w1)
           | (Inr _, w1) \<Rightarrow>
               (case hand_out env evs (st\<lparr>st_seq := n, st_closed := closed\<rparr>) b of
                  (st1, b1) \<Rightarrow> (Inr evs, st1, b1, w1))))"

definition publish_one :: "bus_env \<Rightarrow> (nat \<Rightarrow> int) \<Rightarrow> host_event_draft \<Rightarrow> bool \<Rightarrow> stream_handle \<Rightarrow> bus \<Rightarrow> stream_handle \<times> bus" where
  "publish_one env now draft ending st b =
     (if st_closed st then (st, b)
      else
        let e = host_event_new (st_id st) (st_seq st) (now (st_seq st)) draft;
            st1 = hook e (st\<lparr>st_seq := st_seq st + 1\<rparr>);
            (st2, b2) = (if ending then (st1\<lparr>st_closed := True\<rparr>, release (st_id st) b) else (st1, b)) in
        (st2, deliver env e b2))"

definition emit_draft :: "bus_env \<Rightarrow> (nat \<Rightarrow> int) \<Rightarrow> host_event_draft \<Rightarrow> stream_handle \<Rightarrow> bus \<Rightarrow> stream_handle \<times> bus" where
  "emit_draft env now draft = publish_one env now draft False"

definition end_stream :: "bus_env \<Rightarrow> (nat \<Rightarrow> int) \<Rightarrow> run_outcome \<Rightarrow> stream_handle \<Rightarrow> bus \<Rightarrow> stream_handle \<times> bus" where
  "end_stream env now outcome = publish_one env now (EEnd outcome) True"

subsection \<open>The numbering of a stream\<close>

text \<open>What one or more calls may do to a stream: \<open>es\<close> takes it from number \<open>n\<close> to \<open>n'\<close>.\<close>

definition numbered_run :: "string \<Rightarrow> nat \<Rightarrow> bool \<Rightarrow> host_event list \<Rightarrow> nat \<Rightarrow> bool \<Rightarrow> bool" where
  "numbered_run i n closed es n' closed' \<longleftrightarrow>
     n \<le> n' \<and> map ev_seq es = [n..<n'] \<and> (\<forall>e \<in> set es. ev_stream e = i)
     \<and> (\<forall>e \<in> set (butlast es). \<not> is_end (ev_body e))
     \<and> (closed' \<longleftrightarrow> closed \<or> (\<exists>e \<in> set es. is_end (ev_body e))) \<and> (closed \<longrightarrow> es = [])"

lemma numbered_run_refl [simp]: "numbered_run i n c [] n c"
  by (simp add: numbered_run_def)

lemma numbered_run_single: "ev_stream e = i \<Longrightarrow> ev_seq e = n \<Longrightarrow> numbered_run i n False [e] (Suc n) (is_end (ev_body e))"
  by (simp add: numbered_run_def)

lemma numbered_run_append:
  assumes "numbered_run i n c es n1 c1" "numbered_run i n1 c1 es' n2 c2"
  shows "numbered_run i n c (es @ es') n2 c2"
proof -
  have le: "n \<le> n1" "n1 \<le> n2" and "map ev_seq es = [n..<n1]" "map ev_seq es' = [n1..<n2]"
    using assms unfolding numbered_run_def by blast+
  moreover have "[n..<n2] = [n..<n1] @ [n1..<n2]" using le upt_add_eq_append [of n n1 "n2 - n1"] by simp
  ultimately have 1: "map ev_seq (es @ es') = [n..<n2]" by simp
  have s: "\<forall>e \<in> set (es @ es'). ev_stream e = i" using assms unfolding numbered_run_def by auto
  have 2: "\<forall>e \<in> set (butlast (es @ es')). \<not> is_end (ev_body e)"
  proof (cases "es' = []")
    case True
    then show ?thesis using assms(1) by (simp add: numbered_run_def)
  next
    case False
    then have "\<not> c1" using assms(2) by (auto simp: numbered_run_def)
    with False assms show ?thesis unfolding numbered_run_def by (auto simp: butlast_append)
  qed
  have 3: "c2 \<longleftrightarrow> c \<or> (\<exists>e \<in> set (es @ es'). is_end (ev_body e))" using assms unfolding numbered_run_def by auto
  have 4: "c \<longrightarrow> es @ es' = []" using assms unfolding numbered_run_def by auto
  from le 1 s 2 3 4 show ?thesis unfolding numbered_run_def by simp
qed

lemma numbered_run_Cons:
  "ev_stream e = i \<Longrightarrow> ev_seq e = n \<Longrightarrow> numbered_run i (Suc n) (is_end (ev_body e)) es n' c'
    \<Longrightarrow> numbered_run i n False (e # es) n' c'"
  using numbered_run_append [OF numbered_run_single, of e i n es n' c'] by simp

lemma number_drafts_run: "number_drafts i now ds n c = (es, n', c') \<Longrightarrow> numbered_run i n c es n' c'"
proof (induction ds arbitrary: n c es n' c')
  case (Cons d ds)
  show ?case
  proof (cases c)
    case True
    then show ?thesis using Cons by simp
  next
    case False
    obtain es1 n1 c1 where d: "number_drafts i now ds (n + 1) (is_end d) = (es1, n1, c1)" by (metis prod.collapse)
    with Cons.prems False have "es = host_event_new i n (now n) d # es1" "n' = n1" "c' = c1" by auto
    then show ?thesis using Cons.IH [OF d] False by (simp add: numbered_run_Cons)
  qed
qed simp

lemma number_drafts_bodies: "number_drafts i now ds n False = (es, n', c') \<Longrightarrow> \<not> list_ex is_end (butlast ds) \<Longrightarrow> map ev_body es = ds"
proof (induction ds arbitrary: n es n' c')
  case (Cons d ds)
  obtain es1 n1 c1 where d: "number_drafts i now ds (n + 1) (is_end d) = (es1, n1, c1)" by (metis prod.collapse)
  with Cons.prems have es: "es = host_event_new i n (now n) d # es1" by auto
  show ?case
  proof (cases ds)
    case Nil
    with d es show ?thesis by simp
  next
    case (Cons d' ds')
    with Cons.prems have "\<not> is_end d" by simp
    with d have "number_drafts i now ds (n + 1) False = (es1, n1, c1)" by simp
    from Cons.IH [OF this] Cons.prems Cons es show ?thesis by simp
  qed
qed simp

lemma release_frame [simp]:
  "bus_recorded (release i b) = bus_recorded b" "bus_live (release i b) = bus_live b - {i}"
  by (simp_all add: release_def)

lemma deliver_to_subscribers_frame [simp]:
  "bus_recorded (deliver_to_subscribers env e b) = bus_recorded b" "bus_live (deliver_to_subscribers env e b) = bus_live b"
  by (simp_all add: deliver_to_subscribers_def Let_def)

lemma deliver_frame [simp]:
  "bus_recorded (deliver env e b) = bus_recorded b @ (if be_recorder env then [e] else [])" "bus_live (deliver env e b) = bus_live b"
  by (simp_all add: deliver_def Let_def split: option.split)

lemma hook_frame [simp]: "st_id (hook e st) = st_id st" "st_seq (hook e st) = st_seq st" "st_closed (hook e st) = st_closed st"
  by (simp_all add: hook_def)

lemma hand_out_frame:
  "hand_out env es st b = (st', b') \<Longrightarrow> st_id st' = st_id st \<and> st_seq st' = st_seq st \<and> st_closed st' = st_closed st
     \<and> bus_recorded b' = bus_recorded b @ (if be_recorder env then es else [])
     \<and> bus_live b' = bus_live b - (if list_ex (\<lambda>e. is_end (ev_body e)) es then {st_id st} else {})"
  by (induction es arbitrary: st b) (force split: if_splits)+

lemma publish_with_err:
  "publish_with env now ds f st b w = (Inl e, st', b', w') \<Longrightarrow> st' = st \<and> b' = b"
  by (auto simp: publish_with_def split: prod.splits sum.splits)

lemma publish_with_ok:
  assumes "publish_with env now ds f st b w = (Inr es, st', b', w')"
  shows "numbered_run (st_id st) (st_seq st) (st_closed st) es (st_seq st') (st_closed st')" "st_id st' = st_id st"
    "bus_recorded b' = bus_recorded b @ (if be_recorder env then es else [])" "f es w = (Inr (), w')"
    "number_drafts (st_id st) now ds (st_seq st) (st_closed st) = (es, st_seq st', st_closed st')"
  using assms
  by (auto simp: publish_with_def split: prod.splits sum.splits dest!: hand_out_frame intro: number_drafts_run)

text \<open>The calls on one stream, in the order its lock lets them in.\<close>

datatype 'w stream_call =
    CallPublish "host_event_draft list" "host_event list \<Rightarrow> 'w \<Rightarrow> (app_error + unit) \<times> 'w"
  | CallEmit host_event_draft
  | CallEnd run_outcome

fun do_call :: "bus_env \<Rightarrow> (nat \<Rightarrow> int) \<Rightarrow> 'w stream_call \<Rightarrow> stream_handle \<times> bus \<times> 'w \<Rightarrow> stream_handle \<times> bus \<times> 'w" where
  "do_call env now (CallPublish ds f) (st, b, w) = snd (publish_with env now ds f st b w)"
| "do_call env now (CallEmit d) (st, b, w) = (case emit_draft env now d st b of (st1, b1) \<Rightarrow> (st1, b1, w))"
| "do_call env now (CallEnd out) (st, b, w) = (case end_stream env now out st b of (st1, b1) \<Rightarrow> (st1, b1, w))"

text \<open>What a reader of the stream should see, said without a bus: each call tells a batch of events, its drafts up to the
  first end with the next numbers, or nothing when the stream is closed. A batch that cannot be stored is not told and
  uses no number. Drafts published together close the stream when one of them is an end, and so does \<open>CallEnd\<close>; \<open>CallEmit\<close>
  passes on whatever it is given and never closes.\<close>

fun up_to_end :: "host_event_draft list \<Rightarrow> host_event_draft list" where
  "up_to_end [] = []"
| "up_to_end (d # ds) = d # (if is_end d then [] else up_to_end ds)"

definition batch :: "string \<Rightarrow> (nat \<Rightarrow> int) \<Rightarrow> nat \<Rightarrow> bool \<Rightarrow> host_event_draft list \<Rightarrow> host_event list" where
  "batch i now n closed ds = (if closed then [] else
     map2 (\<lambda>k d. host_event_new i k (now k) d) [n..<n + length (up_to_end ds)] (up_to_end ds))"

fun told :: "string \<Rightarrow> (nat \<Rightarrow> int) \<Rightarrow> 'w stream_call list \<Rightarrow> nat \<Rightarrow> bool \<Rightarrow> 'w \<Rightarrow> host_event list \<times> nat \<times> bool \<times> 'w" where
  "told i now [] n closed w = ([], n, closed, w)"
| "told i now (CallPublish ds f # cs) n closed w =
     (let es = batch i now n closed ds in
      case f es w of
        (Inl e, w1) \<Rightarrow> told i now cs n closed w1
      | (Inr _, w1) \<Rightarrow> apfst ((@) es) (told i now cs (n + length es) (closed \<or> list_ex is_end ds) w1))"
| "told i now (CallEmit d # cs) n closed w =
     (let es = batch i now n closed [d] in apfst ((@) es) (told i now cs (n + length es) closed w))"
| "told i now (CallEnd out # cs) n closed w =
     (let es = batch i now n closed [EEnd out] in apfst ((@) es) (told i now cs (n + length es) True w))"

lemma batch_closed [simp]: "batch i now n True ds = []"
  by (simp add: batch_def)

lemma batch_Nil [simp]: "batch i now n c [] = []"
  by (simp add: batch_def)

lemma batch_Cons: "batch i now n False (d # ds) = host_event_new i n (now n) d # batch i now (Suc n) (is_end d) ds"
  by (simp add: batch_def upt_conv_Cons del: upt_Suc)

lemma number_drafts_batch:
  "number_drafts i now ds n c = (batch i now n c ds, n + length (batch i now n c ds), c \<or> list_ex is_end ds)"
proof (induction ds arbitrary: n c)
  case (Cons d ds)
  then show ?case by (cases c) (auto simp: batch_Cons)
qed simp

lemma deliver_delivers: "\<exists>ds. bus_delivered (deliver env e b) = bus_delivered b @ ds \<and> snd ` set ds \<subseteq> {e}"
proof -
  let ?subs = "map (\<lambda>(_, sink). (sink, e)) (bus_subscribers b)"
  have "bus_delivered (deliver env e b) = bus_delivered b @ (?subs @ (case bus_sink b of None \<Rightarrow> [] | Some sink \<Rightarrow> [(sink, e)]))"
    by (auto simp: deliver_def deliver_to_subscribers_def Let_def split: option.split)
  then show ?thesis by (intro exI conjI) (auto split: option.splits)
qed

text \<open>What a call that tells \<open>es\<close> does to the bus and the stream's own hook.\<close>

definition tells :: "bus_env \<Rightarrow> host_event list \<Rightarrow> stream_handle \<times> bus \<Rightarrow> stream_handle \<times> bus \<Rightarrow> bool" where
  "tells env es s s' \<longleftrightarrow> (case (s, s') of ((st, b), (st', b')) \<Rightarrow>
     st_id st' = st_id st \<and> st_record st' = st_record st
     \<and> bus_recorded b' = bus_recorded b @ (if be_recorder env then es else [])
     \<and> st_recorded st' = st_recorded st @ (if st_record st then es else [])
     \<and> (\<exists>ds. bus_delivered b' = bus_delivered b @ ds \<and> snd ` set ds \<subseteq> set es))"

lemma tells_Nil [simp]: "tells env [] s s"
  by (auto simp: tells_def split: prod.split)

lemma tells_append:
  assumes "tells env es s s1" "tells env es' s1 s2"
  shows "tells env (es @ es') s s2"
proof -
  obtain st b st1 b1 st2 b2 where s: "s = (st, b)" "s1 = (st1, b1)" "s2 = (st2, b2)" by (metis surj_pair)
  obtain ds where ds: "bus_delivered b1 = bus_delivered b @ ds" "snd ` set ds \<subseteq> set es" using assms(1) by (auto simp: tells_def s)
  obtain ds' where "bus_delivered b2 = bus_delivered b1 @ ds'" "snd ` set ds' \<subseteq> set es'" using assms(2) by (auto simp: tells_def s)
  with ds have "\<exists>xs. bus_delivered b2 = bus_delivered b @ xs \<and> snd ` set xs \<subseteq> set (es @ es')"
    by (intro exI [of _ "ds @ ds'"]) auto
  with assms show ?thesis by (auto simp: tells_def s)
qed

lemma tells_one: "tells env [e] (st, b) (hook e st, deliver env e b)"
  using deliver_delivers [of env e b] by (simp add: tells_def hook_def)

lemma tells_frame:
  "tells env es (st, b) (st', b') \<Longrightarrow> tells env es (st\<lparr>st_seq := n, st_closed := c\<rparr>, b) (st', b')"
  "tells env es (st, b) (st', b') \<Longrightarrow> tells env es (st, release i b) (st', b')"
  "tells env es (st, b) (st', b') \<Longrightarrow> tells env es (st, b) (st'\<lparr>st_seq := n, st_closed := c\<rparr>, b')"
  by (simp_all add: tells_def release_def)

lemma hand_out_tells: "hand_out env es st b = (st', b') \<Longrightarrow> tells env es (st, b) (st', b')"
proof (induction es arbitrary: st b)
  case (Cons e es)
  let ?b = "if is_end (ev_body e) then release (st_id st) b else b"
  have "tells env [e] (st, ?b) (hook e st, deliver env e ?b)" by (rule tells_one)
  then have "tells env [e] (st, b) (hook e st, deliver env e ?b)" by (auto simp: tells_def release_def split: if_splits)
  from tells_append [OF this Cons.IH] Cons.prems show ?case by simp
qed simp

lemma publish_one_tells:
  assumes "publish_one env now d ending st b = (st', b')"
  shows "tells env (batch (st_id st) now (st_seq st) (st_closed st) [d]) (st, b) (st', b')"
    "st_seq st' = st_seq st + length (batch (st_id st) now (st_seq st) (st_closed st) [d])"
    "st_closed st' \<longleftrightarrow> st_closed st \<or> ending"
proof -
  let ?e = "host_event_new (st_id st) (st_seq st) (now (st_seq st)) d"
  show "tells env (batch (st_id st) now (st_seq st) (st_closed st) [d]) (st, b) (st', b')"
  proof (cases "st_closed st")
    case True
    with assms show ?thesis by (simp add: publish_one_def)
  next
    case False
    let ?b = "if ending then release (st_id st) b else b"
    have "st' = (hook ?e st)\<lparr>st_seq := st_seq st + 1, st_closed := ending\<rparr>" "b' = deliver env ?e ?b"
      using assms False by (auto simp: publish_one_def Let_def hook_def split: if_splits)
    moreover have "tells env [?e] (st, ?b) (hook ?e st, deliver env ?e ?b)" by (rule tells_one)
    ultimately show ?thesis using False by (auto simp: batch_Cons tells_def release_def split: if_splits)
  qed
  show "st_seq st' = st_seq st + length (batch (st_id st) now (st_seq st) (st_closed st) [d])" "st_closed st' \<longleftrightarrow> st_closed st \<or> ending"
    using assms by (cases "st_closed st"; auto simp: publish_one_def Let_def hook_def batch_Cons split: if_splits)+
qed

lemma calls_tell:
  assumes "fold (do_call env now) calls (st, b, w) = (st', b', w')"
    and "told (st_id st) now calls (st_seq st) (st_closed st) w = (es, n, closed, w'')"
  shows "tells env es (st, b) (st', b') \<and> st_seq st' = n \<and> st_closed st' = closed \<and> w' = w''"
  using assms
proof (induction calls arbitrary: st b w es)
  case (Cons c cs)
  show ?case
  proof (cases c)
    case (CallPublish ds f)
    let ?es = "batch (st_id st) now (st_seq st) (st_closed st) ds"
    obtain r w1 where r: "f ?es w = (r, w1)" by fastforce
    show ?thesis
    proof (cases r)
      case (Inl e)
      with r CallPublish have "do_call env now c (st, b, w) = (st, b, w1)" by (simp add: publish_with_def number_drafts_batch)
      with Cons.prems Cons.IH [of st b w1] r Inl CallPublish show ?thesis by simp
    next
      case (Inr u)
      let ?st = "st\<lparr>st_seq := st_seq st + length ?es, st_closed := st_closed st \<or> list_ex is_end ds\<rparr>"
      obtain st1 b1 where h: "hand_out env ?es ?st b = (st1, b1)" by fastforce
      have "tells env ?es (?st, b) (st1, b1)" by (rule hand_out_tells [OF h])
      then have t: "tells env ?es (st, b) (st1, b1)" by (simp add: tells_def)
      have frame: "st_id st1 = st_id st" "st_seq st1 = st_seq st + length ?es" "st_closed st1 = (st_closed st \<or> list_ex is_end ds)"
        using hand_out_frame [OF h] by simp_all
      have "do_call env now c (st, b, w) = (st1, b1, w1)" using r Inr CallPublish h by (simp add: publish_with_def number_drafts_batch)
      with Cons.prems Cons.IH [of st1 b1 w1] r Inr CallPublish frame tells_append [OF t] show ?thesis
        by (fastforce simp: Let_def apfst_def map_prod_def split: prod.splits)
    qed
  next
    case (CallEmit d)
    obtain st1 b1 where p: "publish_one env now d False st b = (st1, b1)" by fastforce
    note one = publish_one_tells [OF p]
    have "st_id st1 = st_id st" using one(1) by (simp add: tells_def)
    with Cons.prems Cons.IH [of st1 b1 w] p one(2,3) CallEmit tells_append [OF one(1)] show ?thesis
      by (fastforce simp: emit_draft_def Let_def apfst_def map_prod_def split: prod.splits)
  next
    case (CallEnd out)
    obtain st1 b1 where p: "publish_one env now (EEnd out) True st b = (st1, b1)" by fastforce
    note one = publish_one_tells [OF p]
    have "st_id st1 = st_id st" using one(1) by (simp add: tells_def)
    with Cons.prems Cons.IH [of st1 b1 w] p one(2,3) CallEnd tells_append [OF one(1)] show ?thesis
      by (fastforce simp: end_stream_def Let_def apfst_def map_prod_def split: prod.splits)
  qed
qed simp

text \<open>What is told is numbered without a gap.\<close>

definition gapless :: "string \<Rightarrow> nat \<Rightarrow> bool \<Rightarrow> host_event list \<Rightarrow> nat \<Rightarrow> bool \<Rightarrow> bool" where
  "gapless i n closed es n' closed' \<longleftrightarrow> n \<le> n' \<and> map ev_seq es = [n..<n'] \<and> list_all (\<lambda>e. ev_stream e = i) es
     \<and> (if closed then es = [] \<and> closed' else closed' \<longrightarrow> es \<noteq> [] \<and> is_end (ev_body (last es)))"

lemma gapless_append:
  assumes "gapless i n c es n1 c1" "gapless i n1 c1 es' n2 c2"
  shows "gapless i n c (es @ es') n2 c2"
proof -
  have "[n..<n2] = [n..<n1] @ [n1..<n2]" if "n \<le> n1" "n1 \<le> n2" using that upt_add_eq_append [of n n1 "n2 - n1"] by simp
  with assms show ?thesis by (auto simp: gapless_def split: if_splits)
qed

lemma gapless_batch: "gapless i n c (batch i now n c ds) (n + length (batch i now n c ds)) (c \<or> list_ex is_end ds)"
proof (induction ds arbitrary: n c)
  case (Cons d ds)
  show ?case
  proof (cases c)
    case False
    have "gapless i n False [host_event_new i n (now n) d] (Suc n) (is_end d)" by (simp add: gapless_def)
    from gapless_append [OF this Cons.IH] False show ?thesis by (simp add: batch_Cons)
  qed (simp add: gapless_def)
qed (simp add: gapless_def)

lemma gapless_opened: "gapless i n c es n' c' \<Longrightarrow> gapless i n c es n' c"
  by (auto simp: gapless_def split: if_splits)

lemma told_gapless: "told i now calls n c w = (es, n', c', w') \<Longrightarrow> gapless i n c es n' c'"
proof (induction calls arbitrary: n c w es)
  case (Cons call calls)
  show ?case
  proof (cases call)
    case (CallPublish ds f)
    obtain r w1 where r: "f (batch i now n c ds) w = (r, w1)" by fastforce
    with Cons CallPublish gapless_append [OF gapless_batch [of i n c now ds]] show ?thesis
      by (cases r) (auto simp: Let_def apfst_def map_prod_def split: prod.splits)
  next
    case (CallEmit d)
    with Cons gapless_append [OF gapless_opened [OF gapless_batch [of i n c now "[d]"]]] show ?thesis
      by (auto simp: Let_def apfst_def map_prod_def split: prod.splits)
  next
    case (CallEnd out)
    with Cons gapless_append [OF gapless_batch [of i n c now "[EEnd out]"]] show ?thesis
      by (auto simp: Let_def apfst_def map_prod_def split: prod.splits)
  qed
qed (simp add: gapless_def)

text \<open>C15: Over any sequence of calls on a stream, some of which may fail to persist, the recorder and the stream's hook
  see exactly what \<open>told\<close> says: the drafts of each call in order, nothing of a call whose events could not be stored
  (which uses no number either), nothing after the stream was closed; window and subscribers see no other event. These
  events carry the identifier of the stream and consecutive numbers from the one it was opened with, and the event
  that closed the stream is an end and the last of them.\<close>

theorem stream_is_gapless:
  assumes "fold (do_call env now) calls (st, b, w) = (st', b', w')"
    and "told (st_id st) now calls (st_seq st) (st_closed st) w = (es, n, closed, w'')"
  shows "bus_recorded b' = bus_recorded b @ (if be_recorder env then es else [])
    \<and> st_recorded st' = st_recorded st @ (if st_record st then es else [])
    \<and> (\<exists>ds. bus_delivered b' = bus_delivered b @ ds \<and> snd ` set ds \<subseteq> set es)
    \<and> st_seq st' = n \<and> st_closed st' = closed \<and> w' = w''
    \<and> gapless (st_id st) (st_seq st) (st_closed st) es n closed"
  using calls_tell [OF assms] told_gapless [OF assms(2)] by (simp add: tells_def)

definition sample_stream :: stream_handle where
  "sample_stream = \<lparr>st_id = ''s'', st_seq = 7, st_closed = False, st_record = False, st_recorded = []\<rparr>"

definition sample_calls :: "nat stream_call list" where
  "sample_calls = [CallEmit (EProgress 0 1), CallPublish [EProgress 1 1] (\<lambda>_ w. (Inl (app_error_new DbError ''disk''), w)),
     CallPublish [EProgress 1 1, EEnd \<lparr>oc_status = OutOk, oc_code = None, oc_message = None\<rparr>, ELog []] (\<lambda>es w. (Inr (), w + length es)),
     CallEmit (ELog [])]"

text \<open>The publication refused by the disk is not told, and the number 8 goes to the next event.\<close>

lemma sample_told: "map (\<lambda>e. (ev_seq e, is_end (ev_body e))) (fst (told ''s'' int sample_calls 7 False 0)) = [(7, False), (8, False), (9, True)]"
  by (simp add: sample_calls_def batch_def host_event_new_def)

theorem stream_is_gapless_witness:
  "\<exists>st' b' w'. fold (do_call \<lparr>be_recorder = True, be_takes = \<lambda>_ _. True\<rparr> int) sample_calls (sample_stream, bus_new, 0) = (st', b', w')
    \<and> map (\<lambda>e. (ev_seq e, is_end (ev_body e))) (bus_recorded b') = [(7, False), (8, False), (9, True)]"
proof -
  let ?env = "\<lparr>be_recorder = True, be_takes = \<lambda>_ _. True\<rparr>"
  obtain st' b' w' where r: "fold (do_call ?env int) sample_calls (sample_stream, bus_new, 0) = (st', b', w')"
    by (metis prod_cases3)
  have i: "told (st_id sample_stream) int sample_calls (st_seq sample_stream) (st_closed sample_stream) 0 = told ''s'' int sample_calls 7 False 0"
    by (simp add: sample_stream_def)
  obtain es n closed w'' where t: "told (st_id sample_stream) int sample_calls (st_seq sample_stream) (st_closed sample_stream) 0 = (es, n, closed, w'')"
    by (metis prod_cases4)
  from sample_told [folded i, unfolded t fst_conv] have "map (\<lambda>e. (ev_seq e, is_end (ev_body e))) es = [(7, False), (8, False), (9, True)]" .
  moreover have "bus_recorded b' = es" using stream_is_gapless [OF r t] by (simp add: bus_new_def)
  ultimately show ?thesis using r by simp
qed

lemma sample_calls_run:
  "map ev_seq (bus_recorded (fst (snd (fold (do_call \<lparr>be_recorder = True, be_takes = \<lambda>_ _. True\<rparr> int) sample_calls (sample_stream, bus_new, 0)))))
    = [7, 8, 9]"
  by code_simp

end
