(* ===== verification/RunStream.thy ===== *)
theory RunStream
  imports EventBus "HOL-Library.Multiset"
begin

text \<open>
  The stream of a run: the observers of runs and the merging of tokens (\<^verbatim>\<open>kernel/stream.rs\<close>), the
  stored events (\<^verbatim>\<open>data/repositories/run.rs\<close>) and the unit of work that stores before it publishes
  (\<^verbatim>\<open>RunStream::token\<close>, \<^verbatim>\<open>RunStream::commit\<close>). The lock \<^verbatim>\<open>gate\<close> orders the operations of one
  stream, so they are functions on its state.

  A stored event is written as JSON and read back as it was; an object keeps its keys in a list whose
  order no comparison of the program depends on (\<^verbatim>\<open>Map::remove\<close> may move a key). Statements that the
  database refuses and transactions that do not commit are parameters.
\<close>

subsection \<open>Stored events\<close>

datatype data_error = DataApp app_error | DataSqlite

definition INTERNAL_MESSAGE :: string where "INTERNAL_MESSAGE = ''INTERNAL_MESSAGE''"

record run_db =
  rd_events :: "(string \<times> host_event) list"
  rd_steps :: "step_row list"

definition data_failure :: "data_error \<Rightarrow> app_error" where
  "data_failure e = (case e of DataApp a \<Rightarrow> a | DataSqlite \<Rightarrow> app_error_new Unknown INTERNAL_MESSAGE)"

definition transaction :: "bool \<Rightarrow> ('db \<Rightarrow> data_error + 'a \<times> 'db) \<Rightarrow> 'db \<Rightarrow> (app_error + 'a) \<times> 'db" where
  "transaction commits work db =
     (case work db of
        Inl e \<Rightarrow> (Inl (data_failure e), db)
      | Inr (v, db') \<Rightarrow> if commits then (Inr v, db') else (Inl (data_failure DataSqlite), db))"

definition STEP_PAYLOAD :: "string list" where "STEP_PAYLOAD = [''input'', ''output'']"

definition kernel_step :: "json_map \<Rightarrow> bool" where
  "kernel_step step = list_all (\<lambda>k. map_of step k \<noteq> None) [''id'', ''runId'', ''nodeId'', ''attempt'']"

definition lean_event :: "host_event \<Rightarrow> host_event option" where
  "lean_event e =
     (case ev_body e of
        EStep step \<Rightarrow>
          if \<not> kernel_step step then None
          else Some (host_event_new (ev_stream e) (ev_seq e) (ev_ts e) (EStep (fold AList.delete STEP_PAYLOAD step)))
      | _ \<Rightarrow> None)"

definition is_lean :: "host_event \<Rightarrow> bool" where
  "is_lean e = (case ev_body e of EStep step \<Rightarrow> kernel_step step \<and> map_of step ''output'' = None | _ \<Rightarrow> False)"

definition step_status_str :: "step_status \<Rightarrow> string" where
  "step_status_str s = (case s of StepRunning \<Rightarrow> ''running'' | StepSucceeded \<Rightarrow> ''succeeded'' | StepFailed \<Rightarrow> ''failed''
     | StepCancelled \<Rightarrow> ''cancelled'' | StepAbandoned \<Rightarrow> ''abandoned'')"

definition hydrate :: "(string \<times> step_row) list \<Rightarrow> host_event \<Rightarrow> host_event" where
  "hydrate steps e =
     (if \<not> is_lean e then e
      else (case ev_body e of
        EStep step \<Rightarrow>
          let row = Option.bind (Option.bind (map_of step ''id'') as_str) (map_of steps);
              settled = (case row of None \<Rightarrow> False
                         | Some r \<Rightarrow> map_of step ''status'' = Some (JString (step_status_str (step_status_of r))));
              inp = (case row of None \<Rightarrow> JNull | Some r \<Rightarrow> step_input r);
              out = (case row of None \<Rightarrow> JNull | Some r \<Rightarrow> if settled then step_output r else JNull) in
          e\<lparr>ev_body := EStep (obj_insert ''output'' out (obj_insert ''input'' inp step))\<rparr>
      | _ \<Rightarrow> e))"

definition lean :: "host_event \<Rightarrow> host_event" where
  "lean e = (case lean_event e of Some e' \<Rightarrow> e' | None \<Rightarrow> e)"

definition append_event :: "(string \<Rightarrow> host_event \<Rightarrow> bool) \<Rightarrow> string \<Rightarrow> host_event \<Rightarrow> run_db \<Rightarrow> data_error + run_db" where
  "append_event refuses run e db =
     (if refuses run e \<or> list_ex (\<lambda>(r, x). r = run \<and> ev_seq x = ev_seq e) (rd_events db) then Inl DataSqlite
      else Inr (db\<lparr>rd_events := rd_events db @ [(run, lean e)]\<rparr>))"

definition stored_events :: "string \<Rightarrow> run_db \<Rightarrow> host_event list" where
  "stored_events run db = sort_key ev_seq (map snd (filter (\<lambda>(r, _). r = run) (rd_events db)))"

definition run_steps :: "string \<Rightarrow> run_db \<Rightarrow> step_row list" where
  "run_steps run db = sort_key step_id (filter (\<lambda>s. step_run_id s = run) (rd_steps db))"

definition run_events :: "string \<Rightarrow> run_db \<Rightarrow> host_event list" where
  "run_events run db =
     (let events = stored_events run db in
      if list_ex is_lean events
      then map (hydrate (rev (map (\<lambda>s. (step_id s, s)) (run_steps run db)))) events
      else events)"

definition next_sequence :: "string \<Rightarrow> run_db \<Rightarrow> nat" where
  "next_sequence run db =
     (case rev (stored_events run db) of [] \<Rightarrow> 0 | e # _ \<Rightarrow> ev_seq e + 1)"

text \<open>\<^verbatim>\<open>persist\<close>: every event in order, the first refusal ends it.\<close>

fun persist :: "('db \<Rightarrow> host_event \<Rightarrow> data_error + 'db) \<Rightarrow> host_event list \<Rightarrow> 'db \<Rightarrow> data_error + 'db" where
  "persist store [] db = Inr db"
| "persist store (e # es) db = rbind (store db e) (persist store es)"

subsection \<open>Observers\<close>

record observers =
  ob_observers :: "(nat \<times> string) list table"
  ob_watchers :: "string list"
  ob_next :: nat
  ob_calls :: "(string \<times> string \<times> host_event) list"

definition observers_add :: "string \<Rightarrow> string \<Rightarrow> observers \<Rightarrow> nat \<times> observers" where
  "observers_add run observer o' =
     (let token = ob_next o';
          known = (case tbl_get (ob_observers o') run of Some l \<Rightarrow> l | None \<Rightarrow> []) in
      (token, o'\<lparr>ob_next := token + 1, ob_observers := tbl_put run (known @ [(token, observer)]) (ob_observers o')\<rparr>))"

definition observers_watch :: "string \<Rightarrow> observers \<Rightarrow> observers" where
  "observers_watch w o' = o'\<lparr>ob_watchers := ob_watchers o' @ [w]\<rparr>"

definition observers_remove :: "string \<Rightarrow> nat \<Rightarrow> observers \<Rightarrow> observers" where
  "observers_remove run token o' =
     (case tbl_get (ob_observers o') run of
        None \<Rightarrow> o'
      | Some l \<Rightarrow>
          let l' = filter (\<lambda>(candidate, _). candidate \<noteq> token) l in
          o'\<lparr>ob_observers := (if l' = [] then AList.delete run (ob_observers o') else tbl_put run l' (ob_observers o'))\<rparr>)"

definition observers_clear :: "observers \<Rightarrow> observers" where
  "observers_clear o' = o'\<lparr>ob_observers := [], ob_watchers := []\<rparr>"

definition observers_count :: "string \<Rightarrow> observers \<Rightarrow> nat" where
  "observers_count run o' = (case tbl_get (ob_observers o') run of Some l \<Rightarrow> length l | None \<Rightarrow> 0)"

definition notify :: "string \<Rightarrow> host_event \<Rightarrow> observers \<Rightarrow> observers" where
  "notify run e o' =
     (let current = (case tbl_get (ob_observers o') run of Some l \<Rightarrow> map snd l | None \<Rightarrow> []);
          o1 = (if is_end (ev_body e) then o'\<lparr>ob_observers := AList.delete run (ob_observers o')\<rparr> else o') in
      o1\<lparr>ob_calls := ob_calls o1 @ map (\<lambda>x. (x, run, e)) (current @ ob_watchers o1)\<rparr>)"

subsection \<open>The token buffer\<close>

definition TOKEN_FLUSH_MS :: int where "TOKEN_FLUSH_MS = 250"

record token_buffer =
  merged :: "host_event option"
  since :: int

definition token_buffer_default :: token_buffer where
  "token_buffer_default = \<lparr>merged = None, since = 0\<rparr>"

definition buffer_take :: "token_buffer \<Rightarrow> host_event option \<times> token_buffer" where
  "buffer_take b = (merged b, b\<lparr>merged := None\<rparr>)"

definition buffer_start :: "host_event \<Rightarrow> token_buffer \<Rightarrow> token_buffer" where
  "buffer_start e b = b\<lparr>merged := Some e, since := ev_ts e\<rparr>"

definition buffer_merge :: "host_event \<Rightarrow> string \<Rightarrow> delta_kind option \<Rightarrow> token_buffer \<Rightarrow> host_event list \<times> token_buffer" where
  "buffer_merge e delta kind b =
     (case merged b of
        None \<Rightarrow> ([], buffer_start e b)
      | Some m \<Rightarrow>
          (case ev_body m of
             EToken buffered buffered_kind \<Rightarrow>
               if buffered_kind = kind
               then ([], b\<lparr>merged := Some (m\<lparr>ev_body := EToken (buffered @ delta) buffered_kind, ev_seq := ev_seq e, ev_ts := ev_ts e\<rparr>)\<rparr>)
               else ([m], buffer_start e (snd (buffer_take b)))
           | _ \<Rightarrow> ([m], buffer_start e (snd (buffer_take b)))))"

definition option_list :: "'a option \<Rightarrow> 'a list" where
  "option_list x = (case x of Some y \<Rightarrow> [y] | None \<Rightarrow> [])"

lemma option_list_simps [simp]: "option_list None = []" "option_list (Some x) = [x]"
  by (simp_all add: option_list_def)

definition buffer_push :: "host_event \<Rightarrow> token_buffer \<Rightarrow> host_event list \<times> token_buffer" where
  "buffer_push e b =
     (case ev_body e of
        EToken delta kind \<Rightarrow>
          (case buffer_merge e delta kind b of
             (flushed, b1) \<Rightarrow>
               if ev_ts e - since b1 \<ge> TOKEN_FLUSH_MS
               then (flushed @ option_list (merged b1), b1\<lparr>merged := None\<rparr>) else (flushed, b1))
      | _ \<Rightarrow> (option_list (merged b) @ [e], b\<lparr>merged := None\<rparr>))"

fun buffer_push_all :: "host_event list \<Rightarrow> token_buffer \<Rightarrow> host_event list \<times> token_buffer" where
  "buffer_push_all [] b = ([], b)"
| "buffer_push_all (e # es) b =
     (case buffer_push e b of (fl, b1) \<Rightarrow> case buffer_push_all es b1 of (fl', b2) \<Rightarrow> (fl @ fl', b2))"

subsection \<open>The stream of a run\<close>

record run_stream =
  rs_run_id :: string
  rs_handle :: stream_handle
  rs_tokens :: token_buffer

record stream_world =
  sw_bus :: bus
  sw_observers :: observers
  sw_db :: run_db

record stream_env =
  se_bus :: bus_env
  se_now :: "nat \<Rightarrow> int"
  se_refuses :: "string \<Rightarrow> host_event \<Rightarrow> bool"
  se_commits :: bool

definition run_stream_new :: "string \<Rightarrow> stream_handle \<Rightarrow> run_stream" where
  "run_stream_new run handle = \<lparr>rs_run_id = run, rs_handle = handle, rs_tokens = token_buffer_default\<rparr>"

definition persist_stream :: "stream_env \<Rightarrow> string \<Rightarrow> host_event list \<Rightarrow> run_db \<Rightarrow> data_error + run_db" where
  "persist_stream env run = persist (\<lambda>db e. append_event (se_refuses env) run e db)"

definition token_work ::
  "stream_env \<Rightarrow> string \<Rightarrow> host_event list \<Rightarrow> run_db \<times> token_buffer \<Rightarrow> (app_error + unit) \<times> run_db \<times> token_buffer"
where
  "token_work env run evs w =
     (case w of (db, buffer) \<Rightarrow>
        case buffer_push_all evs buffer of (flushed, buffer1) \<Rightarrow>
          if flushed = [] then (Inr (), db, buffer1)
          else (case transaction (se_commits env) (\<lambda>d. rbind (persist_stream env run flushed d) (\<lambda>d'. Inr ((), d'))) db of
                  (Inl e, db1) \<Rightarrow> (Inl e, db1, buffer)
                | (Inr _, db1) \<Rightarrow> (Inr (), db1, buffer1)))"

definition commit_work ::
  "stream_env \<Rightarrow> string \<Rightarrow> (run_db \<Rightarrow> data_error + 'a \<times> run_db) \<Rightarrow> host_event list
    \<Rightarrow> (run_db \<times> token_buffer) \<times> 'a option \<Rightarrow> (app_error + unit) \<times> (run_db \<times> token_buffer) \<times> 'a option"
where
  "commit_work env run work evs w =
     (case w of ((db, buffer), _) \<Rightarrow>
        case buffer_take buffer of (tail, buffer1) \<Rightarrow>
          let to_store = option_list tail @ evs in
          (case transaction (se_commits env)
                  (\<lambda>d. rbind (work d) (\<lambda>(v, d1). rbind (persist_stream env run to_store d1) (\<lambda>d2. Inr (v, d2)))) db of
             (Inl e, db1) \<Rightarrow> (Inl e, (db1, buffer), None)
           | (Inr v, db1) \<Rightarrow> (Inr (), (db1, buffer1), Some v)))"

definition notify_all :: "string \<Rightarrow> host_event list \<Rightarrow> observers \<Rightarrow> observers" where
  "notify_all run = fold (notify run)"

definition stream_token :: "stream_env \<Rightarrow> host_event_draft \<Rightarrow> run_stream \<Rightarrow> stream_world \<Rightarrow> (app_error + unit) \<times> run_stream \<times> stream_world" where
  "stream_token env draft s w =
     (case publish_with (se_bus env) (se_now env) [draft] (token_work env (rs_run_id s)) (rs_handle s) (sw_bus w) (sw_db w, rs_tokens s) of
        (r, handle, b, db, buffer) \<Rightarrow>
          (map_sum id (\<lambda>_. ()) r, s\<lparr>rs_handle := handle, rs_tokens := buffer\<rparr>,
           w\<lparr>sw_bus := b, sw_db := db,
             sw_observers := (case r of Inl _ \<Rightarrow> sw_observers w | Inr evs \<Rightarrow> notify_all (rs_run_id s) evs (sw_observers w))\<rparr>))"

definition stream_commit ::
  "stream_env \<Rightarrow> host_event_draft list \<Rightarrow> (run_db \<Rightarrow> data_error + 'a \<times> run_db) \<Rightarrow> run_stream \<Rightarrow> stream_world
    \<Rightarrow> (app_error + 'a) \<times> run_stream \<times> stream_world"
where
  "stream_commit env drafts work s w =
     (case publish_with (se_bus env) (se_now env) drafts (commit_work env (rs_run_id s) work) (rs_handle s) (sw_bus w)
             ((sw_db w, rs_tokens s), None) of
        (r, handle, b, (db, buffer), v) \<Rightarrow>
          ((case r of
              Inl e \<Rightarrow> Inl e
            | Inr _ \<Rightarrow> (case v of Some x \<Rightarrow> Inr x | None \<Rightarrow> Inl (app_error_new Unknown ''The unit of work did not run''))),
           s\<lparr>rs_handle := handle, rs_tokens := buffer\<rparr>,
           w\<lparr>sw_bus := b, sw_db := db,
             sw_observers := (case r of Inl _ \<Rightarrow> sw_observers w | Inr evs \<Rightarrow> notify_all (rs_run_id s) evs (sw_observers w))\<rparr>))"

definition stream_emit :: "stream_env \<Rightarrow> host_event_draft \<Rightarrow> run_stream \<Rightarrow> stream_world \<Rightarrow> (app_error + unit) \<times> run_stream \<times> stream_world" where
  "stream_emit env draft s w =
     (if is_token draft then stream_token env draft s w else stream_commit env [draft] (\<lambda>d. Inr ((), d)) s w)"

definition stream_flush :: "stream_env \<Rightarrow> run_stream \<Rightarrow> stream_world \<Rightarrow> (app_error + unit) \<times> run_stream \<times> stream_world" where
  "stream_flush env = stream_commit env [] (\<lambda>d. Inr ((), d))"

definition stream_record :: "run_stream \<Rightarrow> stream_world \<Rightarrow> host_event list" where
  "stream_record s w = run_events (rs_run_id s) (sw_db w) @ option_list (merged (rs_tokens s))"

definition stream_drop :: "stream_env \<Rightarrow> run_stream \<Rightarrow> stream_world \<Rightarrow> run_stream \<times> stream_world" where
  "stream_drop env s w = (if merged (rs_tokens s) \<noteq> None then snd (stream_flush env s w) else (s, w))"

subsection \<open>The log of a run as an interface\<close>

text \<open>What the stream needs of the store: an event numbered above all stored ones ends up last,
  in its stored form.\<close>

locale event_log =
  fixes store :: "'db \<Rightarrow> host_event \<Rightarrow> data_error + 'db"
    and log_of :: "'db \<Rightarrow> host_event list"
    and stored_form :: "host_event \<Rightarrow> host_event"
  assumes stored_last: "store db e = Inr db' \<Longrightarrow> \<forall>x \<in> set (log_of db). ev_seq x < ev_seq e \<Longrightarrow> log_of db' = log_of db @ [stored_form e]"
    and stored_number: "ev_seq (stored_form e) = ev_seq e"
begin

lemma persist_appends:
  "persist store es db = Inr db' \<Longrightarrow> sorted_wrt (<) (map ev_seq (log_of db @ es))
    \<Longrightarrow> log_of db' = log_of db @ map stored_form es"
proof (induction es arbitrary: db)
  case (Cons e es)
  then obtain db1 where s: "store db e = Inr db1" "persist store es db1 = Inr db'"
    by (auto simp: rbind_Inr_iff)
  have "\<forall>x \<in> set (log_of db). ev_seq x < ev_seq e" using Cons.prems(2) by (auto simp: sorted_wrt_append)
  with s(1) have l: "log_of db1 = log_of db @ [stored_form e]" by (rule stored_last)
  have "sorted_wrt (<) (map ev_seq (log_of db1 @ es))" using Cons.prems(2) by (simp add: l stored_number)
  from Cons.IH [OF s(2) this] l show ?case by simp
qed simp

end

lemma sort_key_snoc_max:
  assumes "\<forall>x \<in> set xs. f x < f (y :: 'a)"
  shows "sort_key f (xs @ [y]) = sort_key (f :: 'a \<Rightarrow> nat) xs @ [y]"
proof (rule properties_for_sort_key)
  show "mset (sort_key f xs @ [y]) = mset (xs @ [y])" by simp
  show "sorted (map f (sort_key f xs @ [y]))" using assms by (auto simp: sorted_append less_imp_le)
  show "filter (\<lambda>x. f k = f x) (sort_key f xs @ [y]) = filter (\<lambda>x. f k = f x) (xs @ [y])" for k
  proof -
    have "filter (\<lambda>x. f k = f x) (sort_key f xs) = filter (\<lambda>x. f k = f x) xs"
      using sort_key_stable [of f "f k" xs] by (simp add: eq_commute)
    then show ?thesis by simp
  qed
qed

lemma lean_frame [simp]: "ev_seq (lean e) = ev_seq e" "ev_stream (lean e) = ev_stream e"
  by (auto simp: lean_def lean_event_def split: option.splits host_event_draft.splits)

lemma seq_lean [simp]: "ev_seq \<circ> lean = ev_seq" by (rule ext) simp

interpretation run_log: event_log "\<lambda>db e. append_event refuses run e db" "stored_events run" lean for refuses run
proof
  fix db e db'
  assume a: "append_event refuses run e db = Inr db'" and m: "\<forall>x \<in> set (stored_events run db). ev_seq x < ev_seq e"
  from a have "rd_events db' = rd_events db @ [(run, lean e)]" by (auto simp: append_event_def split: if_splits)
  moreover have "\<forall>x \<in> set (map snd (filter (\<lambda>(r, _). r = run) (rd_events db))). ev_seq x < ev_seq (lean e)"
    using m by (simp add: stored_events_def)
  ultimately show "stored_events run db' = stored_events run db @ [lean e]"
    using sort_key_snoc_max [of "map snd (filter (\<lambda>(r, _). r = run) (rd_events db))" ev_seq "lean e"]
    by (simp add: stored_events_def)
qed simp

subsection \<open>Stored form and hydration\<close>

lemma delete_filter: "AList.delete k m = filter (\<lambda>p. fst p \<noteq> k) m"
  by (induction m) auto

lemma filter_update: "filter (\<lambda>p. fst p \<noteq> k) (AList.update k' v m) =
    (if k = k' then filter (\<lambda>p. fst p \<noteq> k) m else AList.update k' v (filter (\<lambda>p. fst p \<noteq> k) m))"
  by (induction m) auto

lemma payload_deleted:
  "fold AList.delete STEP_PAYLOAD (obj_insert ''output'' out (obj_insert ''input'' inp step)) = fold AList.delete STEP_PAYLOAD step"
  by (simp add: STEP_PAYLOAD_def obj_insert_def delete_filter filter_update)

lemma kernel_step_insert [simp]:
  "kernel_step (obj_insert ''output'' out (obj_insert ''input'' inp step)) = kernel_step step"
  by (simp add: kernel_step_def)

lemma kernel_step_delete: "kernel_step (fold AList.delete STEP_PAYLOAD step) = kernel_step step"
  by (simp add: kernel_step_def STEP_PAYLOAD_def delete_conv')

lemma lean_hydrate [simp]: "lean (hydrate steps e) = lean e"
proof (cases "is_lean e")
  case True
  then obtain step where "ev_body e = EStep step" "kernel_step step"
    by (auto simp: is_lean_def split: host_event_draft.splits)
  then show ?thesis using True
    by (simp add: hydrate_def Let_def lean_def lean_event_def payload_deleted)
qed (simp add: hydrate_def)

lemma payload_delete_idem: "fold AList.delete STEP_PAYLOAD (fold AList.delete STEP_PAYLOAD step) = fold AList.delete STEP_PAYLOAD step"
  by (simp add: STEP_PAYLOAD_def delete_filter) (rule filter_cong, auto)

lemma lean_idem [simp]: "lean (lean e) = lean e"
  by (cases "ev_body e") (simp_all add: lean_def lean_event_def kernel_step_delete payload_delete_idem)

lemma lean_run_events [simp]: "map lean (run_events run db) = map lean (stored_events run db)"
  by (simp add: run_events_def Let_def o_def)

text \<open>Reading back gives the payload of a step again while its row says the same.\<close>

lemma hydrate_gives_the_payload_back:
  assumes "ev_body e = EStep step" "kernel_step step" "map_of step ''id'' = Some (JString (step_id r))"
    and "map_of steps (step_id r) = Some r" "map_of step ''status'' = Some (JString (step_status_str (step_status_of r)))"
    and "map_of step ''input'' = Some (step_input r)" "map_of step ''output'' = Some (step_output r)"
  shows "\<exists>step'. hydrate steps (lean e) = e\<lparr>ev_body := EStep step'\<rparr> \<and> map_of step' = map_of step"
proof -
  let ?l = "fold AList.delete STEP_PAYLOAD step"
  have l: "lean e = e\<lparr>ev_body := EStep ?l\<rparr>"
    using assms(1,2) by (cases e) (simp add: lean_def lean_event_def host_event_new_def)
  have "kernel_step ?l" using assms(2) by (simp add: kernel_step_delete)
  moreover have m: "map_of ?l k = (if k \<in> {''input'', ''output''} then None else map_of step k)" for k
    by (simp add: STEP_PAYLOAD_def delete_conv')
  ultimately have "is_lean (lean e)" by (simp add: l is_lean_def)
  then have "hydrate steps (lean e) = e\<lparr>ev_body := EStep (obj_insert ''output'' (step_output r) (obj_insert ''input'' (step_input r) ?l))\<rparr>"
    using assms(3-5) by (simp add: hydrate_def l m as_str_def Let_def)
  moreover have "map_of (obj_insert ''output'' (step_output r) (obj_insert ''input'' (step_input r) ?l)) = map_of step"
    using assms(6,7) by (rule_tac ext) (simp add: m)
  ultimately show ?thesis by blast
qed

subsection \<open>What a record tells\<close>

text \<open>Neighbouring tokens of one kind say the same as one token with the text of both and the number
  and time of the later.\<close>

definition join_token :: "host_event \<Rightarrow> host_event \<Rightarrow> host_event option" where
  "join_token e f =
     (case (ev_body e, ev_body f) of
        (EToken d k, EToken d' k') \<Rightarrow> if k = k' \<and> ev_stream e = ev_stream f then Some (f\<lparr>ev_body := EToken (d @ d') k'\<rparr>) else None
      | _ \<Rightarrow> None)"

fun join_front :: "host_event \<Rightarrow> host_event list \<Rightarrow> host_event list" where
  "join_front e [] = [e]"
| "join_front e (f # fs) = (case join_token e f of Some g \<Rightarrow> g # fs | None \<Rightarrow> e # f # fs)"

definition coalesce :: "host_event list \<Rightarrow> host_event list" where
  "coalesce es = foldr join_front es []"

lemma coalesce_simps [simp]: "coalesce [] = []" "coalesce (e # es) = join_front e (coalesce es)"
  by (simp_all add: coalesce_def)

lemma coalesce_append: "coalesce (xs @ ys) = foldr join_front xs (coalesce ys)"
  by (simp add: coalesce_def)

lemma join_token_Some:
  "join_token a b = Some c \<longleftrightarrow> (\<exists>d d' k. ev_body a = EToken d k \<and> ev_body b = EToken d' k \<and> ev_stream a = ev_stream b
     \<and> c = b\<lparr>ev_body := EToken (d @ d') k\<rparr>)"
  by (auto simp: join_token_def split: host_event_draft.splits)

lemma join_token_assoc:
  assumes "join_token a b = Some c"
  shows "join_front a (join_front b es) = join_front c es"
proof -
  obtain d d' k where ab: "ev_body a = EToken d k" "ev_body b = EToken d' k" "ev_stream a = ev_stream b"
    and c: "c = b\<lparr>ev_body := EToken (d @ d') k\<rparr>"
    using assms by (auto simp: join_token_Some)
  show ?thesis
  proof (cases es)
    case Nil
    then show ?thesis using assms by simp
  next
    case (Cons f fs)
    show ?thesis
    proof (cases "join_token b f")
      case None
      then have "join_token c f = None" using ab by (auto simp: join_token_def c split: host_event_draft.splits if_splits)
      with None Cons assms show ?thesis by simp
    next
      case (Some g)
      then obtain d'' where f: "ev_body f = EToken d'' k" "ev_stream b = ev_stream f"
        "g = f\<lparr>ev_body := EToken (d' @ d'') k\<rparr>" using ab by (auto simp: join_token_Some)
      then have "join_token a g = Some (f\<lparr>ev_body := EToken (d @ d' @ d'') k\<rparr>)"
        "join_token c f = Some (f\<lparr>ev_body := EToken (d @ d' @ d'') k\<rparr>)"
        using ab by (auto simp: join_token_Some c)
      with Some Cons show ?thesis by simp
    qed
  qed
qed

lemma foldr_join_front: "foldr join_front (join_front x es) zs = join_front x (foldr join_front es zs)"
  by (cases es) (auto simp: join_token_assoc split: option.split)

lemma coalesce_prefix: "coalesce (xs @ zs) = coalesce (coalesce xs @ zs)"
  by (induction xs) (simp_all add: coalesce_append foldr_join_front)

lemma coalesce_extend: "coalesce xs = coalesce ys \<Longrightarrow> coalesce (xs @ zs) = coalesce (ys @ zs)"
  using coalesce_prefix by metis

lemma lean_token [simp]: "is_token (ev_body e) \<Longrightarrow> lean e = e"
  by (auto simp: lean_def lean_event_def elim: is_tokenE)

lemma join_token_lean: "join_token a b = Some c \<Longrightarrow> lean a = a \<and> lean b = b \<and> lean c = c"
  by (auto simp: join_token_def lean_def lean_event_def split: host_event_draft.splits if_splits)

text \<open>The history up to stored form.\<close>

abbreviation told :: "host_event list \<Rightarrow> host_event list" where
  "told es \<equiv> coalesce (map lean es)"

definition buffer_ok :: "string \<Rightarrow> nat \<Rightarrow> token_buffer \<Rightarrow> bool" where
  "buffer_ok i n b \<longleftrightarrow> (\<forall>m. merged b = Some m \<longrightarrow> is_token (ev_body m) \<and> ev_stream m = i \<and> ev_seq m < n)"

lemma buffer_ok_mono: "buffer_ok i n b \<Longrightarrow> n \<le> n' \<Longrightarrow> buffer_ok i n' b"
  by (auto simp: buffer_ok_def)

lemma buffer_ok_default [simp]: "buffer_ok i n token_buffer_default" "buffer_ok i n (b\<lparr>merged := None\<rparr>)"
  by (simp_all add: buffer_ok_def token_buffer_default_def)

lemma buffer_push_told:
  assumes "buffer_push e b = (fl, b')" "buffer_ok i n b" "ev_stream e = i"
  shows "foldr join_front (map lean (option_list (merged b))) (join_front (lean e) Y)
    = foldr join_front (map lean (fl @ option_list (merged b'))) Y"
proof (cases "ev_body e")
  case (EToken d k)
  obtain f1 b1 where m: "buffer_merge e d k b = (f1, b1)" by (metis prod.collapse)
  have "foldr join_front (map lean (option_list (merged b))) (join_front (lean e) Y)
      = foldr join_front (map lean (f1 @ option_list (merged b1))) Y"
  proof (cases "merged b")
    case None
    with m show ?thesis by (auto simp: buffer_merge_def buffer_start_def)
  next
    case (Some a)
    with assms(2) obtain d' k' where a: "ev_body a = EToken d' k'" "ev_stream a = i"
      by (auto simp: buffer_ok_def elim: is_tokenE)
    show ?thesis
    proof (cases "k' = k")
      case True
      let ?c = "a\<lparr>ev_body := EToken (d' @ d) k', ev_seq := ev_seq e, ev_ts := ev_ts e\<rparr>"
      have "join_token a e = Some ?c" using a True EToken assms(3) by (cases a; cases e) (simp add: join_token_def)
      then have "join_front a (join_front e Y) = join_front ?c Y" by (rule join_token_assoc)
      moreover have "merged b1 = Some ?c" "f1 = []" using m Some a True by (auto simp: buffer_merge_def)
      ultimately show ?thesis using Some a EToken by simp
    next
      case False
      with m Some a show ?thesis by (auto simp: buffer_merge_def buffer_start_def buffer_take_def)
    qed
  qed
  then show ?thesis using assms(1) EToken m by (auto simp: buffer_push_def split: if_splits)
qed (use assms in \<open>auto simp: buffer_push_def\<close>)

lemma buffer_merge_shape:
  assumes "buffer_merge e d k b = (f1, b1)" "buffer_ok i n b" "ev_stream e = i" "ev_body e = EToken d k" "n \<le> ev_seq e"
  obtains m where "merged b1 = Some m" "is_token (ev_body m)" "ev_stream m = i" "ev_seq m = ev_seq e"
    "f1 = [] \<or> (\<exists>a. f1 = [a] \<and> merged b = Some a)"
  using assms
  by (auto simp: buffer_merge_def buffer_start_def buffer_ok_def split: option.splits host_event_draft.splits if_splits)

text \<open>A push stores a part of the tail and the event, in order, and keeps the rest.\<close>

lemma buffer_push_shape:
  assumes "buffer_push e b = (fl, b')" "buffer_ok i n b" "ev_stream e = i" "n \<le> ev_seq e"
  shows "buffer_ok i (Suc (ev_seq e)) b'"
    and "sorted_wrt (<) (map ev_seq fl)"
    and "\<forall>x \<in> set fl. ev_seq x \<in> insert (ev_seq e) (ev_seq ` set (option_list (merged b)))"
    and "\<forall>x \<in> set fl. \<forall>m. merged b' = Some m \<longrightarrow> ev_seq x < ev_seq m"
proof -
  have "buffer_ok i (Suc (ev_seq e)) b' \<and> sorted_wrt (<) (map ev_seq fl)
      \<and> (\<forall>x \<in> set fl. ev_seq x \<in> insert (ev_seq e) (ev_seq ` set (option_list (merged b))))
      \<and> (\<forall>x \<in> set fl. \<forall>m. merged b' = Some m \<longrightarrow> ev_seq x < ev_seq m)"
  proof (cases "is_token (ev_body e)")
    case True
    then obtain d k where d: "ev_body e = EToken d k" by (rule is_tokenE)
    obtain f1 b1 where m: "buffer_merge e d k b = (f1, b1)" by (metis prod.collapse)
    from buffer_merge_shape [OF this assms(2,3) d assms(4)]
    obtain m' where m': "merged b1 = Some m'" "is_token (ev_body m')" "ev_stream m' = i" "ev_seq m' = ev_seq e"
      "f1 = [] \<or> (\<exists>a. f1 = [a] \<and> merged b = Some a)" by metis
    have c: "fl = f1 @ [m'] \<and> merged b' = None \<or> fl = f1 \<and> merged b' = Some m'"
      using assms(1) d m m'(1) by (auto simp: buffer_push_def split: if_splits)
    have "f1 = [a] \<Longrightarrow> merged b = Some a \<Longrightarrow> ev_seq a < ev_seq e" for a using assms(2,4) by (auto simp: buffer_ok_def)
    with c m' show ?thesis by (elim disjE exE conjE) (simp_all add: buffer_ok_def)
  next
    case False
    then have fl: "fl = option_list (merged b) @ [e]" "b' = b\<lparr>merged := None\<rparr>"
      using assms(1) by (cases "ev_body e"; simp add: buffer_push_def)+
    show ?thesis
    proof (cases "merged b")
      case None
      then show ?thesis by (simp add: fl buffer_ok_def)
    next
      case (Some a)
      with assms(2,4) have "ev_seq a < ev_seq e" by (simp add: buffer_ok_def)
      with Some show ?thesis by (simp add: fl buffer_ok_def)
    qed
  qed
  then show "buffer_ok i (Suc (ev_seq e)) b'" "sorted_wrt (<) (map ev_seq fl)"
    "\<forall>x \<in> set fl. ev_seq x \<in> insert (ev_seq e) (ev_seq ` set (option_list (merged b)))"
    "\<forall>x \<in> set fl. \<forall>m. merged b' = Some m \<longrightarrow> ev_seq x < ev_seq m" by blast+
qed

lemma buffer_push_tail_above:
  assumes "buffer_push e b = (fl, b')" "merged b' = Some m"
  shows "ev_seq m = ev_seq e"
proof (cases "is_token (ev_body e)")
  case True
  then obtain d k where d: "ev_body e = EToken d k" by (rule is_tokenE)
  obtain f1 b1 where m: "buffer_merge e d k b = (f1, b1)" by (metis prod.collapse)
  have "merged b1 = Some m" using assms d m by (auto simp: buffer_push_def split: if_splits)
  with m show ?thesis
    by (auto simp: buffer_merge_def buffer_start_def split: option.splits host_event_draft.splits if_splits)
next
  case False
  then show ?thesis using assms by (cases "ev_body e"; auto simp: buffer_push_def)
qed

subsection \<open>The operations keep the record\<close>

definition log_inv :: "string \<Rightarrow> string \<Rightarrow> nat \<Rightarrow> token_buffer \<Rightarrow> run_db \<Rightarrow> bool" where
  "log_inv run i n b db \<longleftrightarrow> sorted_wrt (<) (map ev_seq (stored_events run db @ option_list (merged b)))
     \<and> (\<forall>x \<in> set (stored_events run db @ option_list (merged b)). ev_seq x < n) \<and> buffer_ok i n b"

definition log_told :: "string \<Rightarrow> token_buffer \<Rightarrow> run_db \<Rightarrow> host_event list" where
  "log_told run b db = stored_events run db @ option_list (merged b)"

definition stream_inv :: "run_stream \<Rightarrow> stream_world \<Rightarrow> bool" where
  "stream_inv s w \<longleftrightarrow> log_inv (rs_run_id s) (st_id (rs_handle s)) (st_seq (rs_handle s)) (rs_tokens s) (sw_db w)"

text \<open>One unit of work took the log and the buffer on by the events \<open>evs\<close>.\<close>

definition took_on :: "string \<Rightarrow> string \<Rightarrow> token_buffer \<times> run_db \<Rightarrow> host_event list \<Rightarrow> nat \<Rightarrow> token_buffer \<times> run_db \<Rightarrow> bool" where
  "took_on run i l evs n l' \<longleftrightarrow> (case l of (b, db) \<Rightarrow> case l' of (b', db') \<Rightarrow>
     log_inv run i n b' db' \<and> told (log_told run b' db') = told (log_told run b db @ evs))"

lemma transaction_Inr: "transaction c f db = (Inr v, db') \<Longrightarrow> f db = Inr (v, db')"
  by (auto simp: transaction_def split: sum.splits if_splits prod.splits)

lemma transaction_Inl: "transaction c f db = (Inl e, db') \<Longrightarrow> db' = db"
  by (auto simp: transaction_def split: sum.splits if_splits prod.splits)

lemma persist_stream_log:
  "persist_stream env run es db = Inr db' \<Longrightarrow> sorted_wrt (<) (map ev_seq (stored_events run db @ es))
    \<Longrightarrow> stored_events run db' = stored_events run db @ map lean es"
  unfolding persist_stream_def by (rule run_log.persist_appends)

lemma token_work_takes_on:
  assumes "token_work env run [e] (db, b) = (Inr (), db', b')" "log_inv run i n b db" "ev_stream e = i" "ev_seq e = n"
  shows "took_on run i (b, db) [e] (Suc n) (b', db')"
proof -
  obtain fl b1 where p: "buffer_push e b = (fl, b1)" by (metis prod.collapse)
  have ok: "buffer_ok i n b" using assms(2) by (simp add: log_inv_def)
  note shape = buffer_push_shape [OF p ok assms(3) eq_imp_le [OF assms(4) [symmetric]], unfolded assms(4)]
  have b1: "b' = b1" using assms(1) p by (auto simp: token_work_def split: if_splits sum.splits prod.splits)
  have log: "\<forall>x \<in> set (stored_events run db). ev_seq x < n" "sorted_wrt (<) (map ev_seq (stored_events run db))"
    "\<forall>x \<in> set (stored_events run db). \<forall>m \<in> set (option_list (merged b)). ev_seq x < ev_seq m"
    "\<forall>m \<in> set (option_list (merged b)). ev_seq m < n"
    using assms(2) by (auto simp: log_inv_def sorted_wrt_append)
  have above: "\<forall>x \<in> set (stored_events run db). \<forall>y \<in> set fl. ev_seq x < ev_seq y"
    using log shape(3) by fastforce
  have flb: "\<forall>y \<in> set fl. ev_seq y \<le> n" using log(4) shape(3) by fastforce
  have st: "stored_events run db' = stored_events run db @ map lean fl"
  proof (cases "fl = []")
    case True
    then show ?thesis using assms(1) p by (simp add: token_work_def)
  next
    case False
    then have "persist_stream env run fl db = Inr db'"
      using assms(1) p by (auto simp: token_work_def rbind_Inr_iff dest!: transaction_Inr split: sum.splits prod.splits)
    then show ?thesis using log(2) shape(2) above by (intro persist_stream_log) (auto simp: sorted_wrt_append)
  qed
  have "log_inv run i (Suc n) b' db'"
  proof (cases "merged b1")
    case None
    then show ?thesis using log(1,2) shape(1,2) above flb
      by (auto simp: log_inv_def st b1 sorted_wrt_append less_Suc_eq_le less_imp_le)
  next
    case (Some m)
    then have m: "ev_seq m = n" using buffer_push_tail_above [OF p] assms(4) by simp
    have "\<forall>y \<in> set fl. ev_seq y < n" using shape(4) Some m by auto
    then show ?thesis using Some m log(1,2) shape(1,2) above
      by (auto simp: log_inv_def st b1 sorted_wrt_append less_SucI)
  qed
  moreover have "told (log_told run b' db') = told (log_told run b db @ [e])"
    using buffer_push_told [OF p ok assms(3), of "[]"]
    by (simp add: log_told_def st b1 o_def coalesce_def)
  ultimately show ?thesis by (simp add: took_on_def)
qed

definition keeps_log :: "string \<Rightarrow> (run_db \<Rightarrow> data_error + 'a \<times> run_db) \<Rightarrow> bool" where
  "keeps_log run work \<longleftrightarrow> (\<forall>db v db'. work db = Inr (v, db') \<longrightarrow> stored_events run db' = stored_events run db)"

lemma commit_work_takes_on:
  assumes "commit_work env run work evs ((db, b), v0) = (Inr (), (db', b'), v)" "log_inv run i n b db"
    and "numbered_run i n c evs n' c'" "keeps_log run work"
  shows "took_on run i (b, db) evs n' (b', db')" "v \<noteq> None"
proof -
  let ?tail = "option_list (merged b)"
  obtain x db1 where w: "work db = Inr (x, db1)" "persist_stream env run (?tail @ evs) db1 = Inr db'" "v = Some x"
    using assms(1)
    by (auto simp: commit_work_def buffer_take_def rbind_Inr_iff dest!: transaction_Inr split: sum.splits prod.splits)
  show "v \<noteq> None" using w by simp
  have b': "b' = b\<lparr>merged := None\<rparr>"
    using assms(1) by (auto simp: commit_work_def buffer_take_def split: sum.splits prod.splits)
  have keep: "stored_events run db1 = stored_events run db" using assms(4) w(1) by (auto simp: keeps_log_def)
  have n: "n \<le> n'" "map ev_seq evs = [n..<n']" using assms(3) by (simp_all add: numbered_run_def)
  have q: "\<forall>x \<in> set evs. n \<le> ev_seq x \<and> ev_seq x < n'"
    using n(2) by (metis (no_types) atLeastLessThan_iff image_eqI list.set_map set_upt)
  let ?old = "stored_events run db @ ?tail"
  have old: "sorted_wrt (<) (map ev_seq ?old)" "\<forall>x \<in> set ?old. ev_seq x < n"
    using assms(2) unfolding log_inv_def by blast+
  have "\<forall>x \<in> set (map ev_seq ?old). \<forall>y \<in> set (map ev_seq evs). x < y"
  proof (intro ballI)
    fix x y assume "x \<in> set (map ev_seq ?old)" "y \<in> set (map ev_seq evs)"
    then have "x < n" "n \<le> y" using old(2) q by auto
    then show "x < y" by simp
  qed
  then have "sorted_wrt (<) (map ev_seq ?old @ map ev_seq evs)"
    using old(1) n(2) by (simp only: sorted_wrt_append sorted_wrt_upt)
  then have sorted: "sorted_wrt (<) (map ev_seq (stored_events run db1 @ ?tail @ evs))" by (simp add: keep)
  have st: "stored_events run db' = stored_events run db @ map lean (?tail @ evs)"
    using persist_stream_log [OF w(2) sorted] keep by simp
  have "\<forall>x \<in> set ?old. ev_seq x < n'"
  proof
    fix x assume "x \<in> set ?old"
    with old(2) have "ev_seq x < n" by (rule bspec)
    with n(1) show "ev_seq x < n'" by simp
  qed
  then have "\<forall>x \<in> set (stored_events run db'). ev_seq x < n'" using q by (auto simp: st)
  moreover have "sorted_wrt (<) (map ev_seq (stored_events run db'))" using sorted by (simp add: st keep)
  ultimately have "log_inv run i n' b' db'" by (simp add: log_inv_def b')
  moreover have "told (log_told run b' db') = told (log_told run b db @ evs)"
    by (simp add: log_told_def st b' o_def coalesce_def)
  ultimately show "took_on run i (b, db) evs n' (b', db')" by (simp add: took_on_def)
qed

lemma token_work_err: "token_work env run evs (db, b) = (Inl e, db', b') \<Longrightarrow> db' = db \<and> b' = b"
  by (auto simp: token_work_def dest: transaction_Inl split: if_splits sum.splits prod.splits)

lemma commit_work_err: "commit_work env run work evs ((db, b), v0) = (Inl e, (db', b'), v) \<Longrightarrow> db' = db \<and> b' = b"
  by (auto simp: commit_work_def Let_def dest: transaction_Inl split: if_splits sum.splits prod.splits)

lemma token_work_Nil: "token_work env run [] (db, b) = (Inr (), db, b)"
  by (simp add: token_work_def)

text \<open>What any operation of a stream does: it hands out events \<open>es\<close>, and the record tells them too.\<close>

definition record_step :: "run_stream \<Rightarrow> stream_world \<Rightarrow> run_stream \<Rightarrow> stream_world \<Rightarrow> bool" where
  "record_step s w s' w' \<longleftrightarrow> (\<exists>es. bus_recorded (sw_bus w') = bus_recorded (sw_bus w) @ es
     \<and> told (stream_record s' w') = told (stream_record s w @ es)
     \<and> rs_run_id s' = rs_run_id s \<and> stream_inv s' w')"

lemma lean_record: "map lean (stream_record s w) = map lean (log_told (rs_run_id s) (rs_tokens s) (sw_db w))"
  by (simp add: stream_record_def log_told_def)

lemma record_step_same:
  "stream_inv s w \<Longrightarrow> rs_run_id s' = rs_run_id s \<Longrightarrow> rs_handle s' = rs_handle s \<Longrightarrow> rs_tokens s' = rs_tokens s
    \<Longrightarrow> sw_bus w' = sw_bus w \<Longrightarrow> sw_db w' = sw_db w \<Longrightarrow> record_step s w s' w'"
  unfolding record_step_def by (intro exI [of _ "[]"]) (simp add: stream_inv_def stream_record_def)

lemma record_step_took_on:
  assumes "took_on run i (rs_tokens s, sw_db w) es n' (rs_tokens s', sw_db w')" "rs_run_id s = run" "rs_run_id s' = run"
    and "st_id (rs_handle s') = i" "st_seq (rs_handle s') = n'" "bus_recorded (sw_bus w') = bus_recorded (sw_bus w) @ es"
  shows "record_step s w s' w'"
  unfolding record_step_def using assms
  by (intro exI [of _ es]) (simp add: took_on_def stream_inv_def lean_record)

lemma stream_commit_step:
  assumes "stream_commit env drafts work s w = (r, s', w')" "be_recorder (se_bus env)" "stream_inv s w" "keeps_log (rs_run_id s) work"
  shows "record_step s w s' w'"
proof -
  obtain r' h b db buf v where p: "publish_with (se_bus env) (se_now env) drafts (commit_work env (rs_run_id s) work)
      (rs_handle s) (sw_bus w) ((sw_db w, rs_tokens s), None) = (r', h, b, (db, buf), v)"
    by (metis (no_types, opaque_lifting) surj_pair)
  with assms(1) have s': "s' = s\<lparr>rs_handle := h, rs_tokens := buf\<rparr>" "sw_bus w' = b" "sw_db w' = db"
    by (auto simp: stream_commit_def)
  show ?thesis
  proof (cases r')
    case (Inl e)
    with p have "h = rs_handle s" "b = sw_bus w" by (auto dest: publish_with_err)
    moreover have "db = sw_db w" "buf = rs_tokens s"
      using p Inl by (auto simp: publish_with_def split: prod.splits sum.splits dest: commit_work_err)
    ultimately show ?thesis using s' assms(3) by (intro record_step_same) simp_all
  next
    case (Inr es)
    note ok = publish_with_ok [OF p [unfolded Inr]]
    have inv: "log_inv (rs_run_id s) (st_id (rs_handle s)) (st_seq (rs_handle s)) (rs_tokens s) (sw_db w)"
      using assms(3) by (simp add: stream_inv_def)
    from commit_work_takes_on(1) [OF ok(4) inv ok(1) assms(4)] show ?thesis
      by (intro record_step_took_on [of "rs_run_id s" "st_id (rs_handle s)" s w es "st_seq h" s' w'])
         (simp_all add: s' ok(2,3) assms(2))
  qed
qed

lemma stream_token_step:
  assumes "stream_token env draft s w = (r, s', w')" "be_recorder (se_bus env)" "stream_inv s w"
  shows "record_step s w s' w'"
proof -
  obtain r' h b db buf where p: "publish_with (se_bus env) (se_now env) [draft] (token_work env (rs_run_id s))
      (rs_handle s) (sw_bus w) (sw_db w, rs_tokens s) = (r', h, b, db, buf)"
    by (metis (no_types, opaque_lifting) surj_pair)
  with assms(1) have s': "s' = s\<lparr>rs_handle := h, rs_tokens := buf\<rparr>" "sw_bus w' = b" "sw_db w' = db"
    by (auto simp: stream_token_def)
  have inv: "log_inv (rs_run_id s) (st_id (rs_handle s)) (st_seq (rs_handle s)) (rs_tokens s) (sw_db w)"
    using assms(3) by (simp add: stream_inv_def)
  show ?thesis
  proof (cases r')
    case (Inl e)
    with p have "h = rs_handle s" "b = sw_bus w" by (auto dest: publish_with_err)
    moreover have "db = sw_db w" "buf = rs_tokens s"
      using p Inl by (auto simp: publish_with_def split: prod.splits sum.splits dest: token_work_err)
    ultimately show ?thesis using s' assms(3) by (intro record_step_same) simp_all
  next
    case (Inr es)
    note ok = publish_with_ok [OF p [unfolded Inr]]
    show ?thesis
    proof (cases "st_closed (rs_handle s)")
      case True
      with ok have es: "es = []" "st_seq h = st_seq (rs_handle s)" by auto
      with ok(4) have db: "db = sw_db w" "buf = rs_tokens s" by (auto simp: token_work_Nil)
      show ?thesis unfolding record_step_def using inv es db ok(2,3) s'
        by (intro exI [of _ "[]"]) (simp add: stream_inv_def stream_record_def)
    next
      case False
      let ?e = "host_event_new (st_id (rs_handle s)) (st_seq (rs_handle s)) (se_now env (st_seq (rs_handle s))) draft"
      from ok(5) False have es: "es = [?e]" "st_seq h = Suc (st_seq (rs_handle s))" by auto
      from token_work_takes_on [OF ok(4) [unfolded es(1)] inv] have "took_on (rs_run_id s) (st_id (rs_handle s))
          (rs_tokens s, sw_db w) es (Suc (st_seq (rs_handle s))) (buf, db)" by (simp add: es(1))
      then show ?thesis
        by (intro record_step_took_on [of "rs_run_id s" "st_id (rs_handle s)" s w es "Suc (st_seq (rs_handle s))" s' w'])
           (simp_all add: s' ok(2,3) assms(2) es(2))
    qed
  qed
qed

text \<open>The operations on a stream, in the order its lock lets them in, each in its own environment.\<close>

datatype stream_op =
    OpEmit host_event_draft
  | OpCommit "host_event_draft list" "run_db \<Rightarrow> data_error + unit \<times> run_db"
  | OpFlush

fun run_op :: "stream_env \<times> stream_op \<Rightarrow> run_stream \<times> stream_world \<Rightarrow> run_stream \<times> stream_world" where
  "run_op (env, OpEmit d) (s, w) = snd (stream_emit env d s w)"
| "run_op (env, OpCommit ds work) (s, w) = snd (stream_commit env ds work s w)"
| "run_op (env, OpFlush) (s, w) = snd (stream_flush env s w)"

fun op_ok :: "string \<Rightarrow> stream_env \<times> stream_op \<Rightarrow> bool" where
  "op_ok run (env, OpCommit ds work) \<longleftrightarrow> be_recorder (se_bus env) \<and> keeps_log run work"
| "op_ok run (env, _) \<longleftrightarrow> be_recorder (se_bus env)"

lemma keeps_log_id [simp]: "keeps_log run (\<lambda>d. Inr ((), d))"
  by (simp add: keeps_log_def)

lemma run_op_step:
  assumes "run_op op (s, w) = (s', w')" "op_ok (rs_run_id s) op" "stream_inv s w"
  shows "record_step s w s' w'"
proof -
  obtain env o' where op: "op = (env, o')" by (metis prod.collapse)
  show ?thesis
  proof (cases o')
    case (OpEmit d)
    then obtain r where "stream_emit env d s w = (r, s', w')" using assms(1) op by (metis prod.collapse run_op.simps(1))
    then show ?thesis using assms(2,3) op OpEmit
      by (auto simp: stream_emit_def split: if_splits intro: stream_token_step stream_commit_step)
  next
    case (OpCommit ds work)
    then obtain r where "stream_commit env ds work s w = (r, s', w')" using assms(1) op by (metis prod.collapse run_op.simps(2))
    then show ?thesis using assms(2,3) op OpCommit by (auto intro: stream_commit_step)
  next
    case OpFlush
    then obtain r where "stream_flush env s w = (r, s', w')" using assms(1) op by (metis prod.collapse run_op.simps(3))
    then show ?thesis using assms(2,3) op OpFlush by (auto simp: stream_flush_def intro: stream_commit_step)
  qed
qed

lemma record_step_trans:
  assumes "record_step s w s1 w1" "record_step s1 w1 s2 w2"
  shows "record_step s w s2 w2"
proof -
  obtain es es' where a: "bus_recorded (sw_bus w1) = bus_recorded (sw_bus w) @ es" "told (stream_record s1 w1) = told (stream_record s w @ es)"
    "rs_run_id s1 = rs_run_id s" and b: "bus_recorded (sw_bus w2) = bus_recorded (sw_bus w1) @ es'"
    "told (stream_record s2 w2) = told (stream_record s1 w1 @ es')" "rs_run_id s2 = rs_run_id s1" "stream_inv s2 w2"
    using assms unfolding record_step_def by blast
  have "told (stream_record s1 w1 @ es') = told (stream_record s w @ es @ es')"
    using coalesce_extend [OF a(2), of "map lean es'"] by simp
  with a b show ?thesis unfolding record_step_def by (intro exI [of _ "es @ es'"]) simp
qed

lemma opened_stream_inv:
  assumes "distinct (map ev_seq (map snd (filter (\<lambda>(r, _). r = run) (rd_events (sw_db w)))))" "st_seq h = next_sequence run (sw_db w)"
  shows "stream_inv (run_stream_new run h) w"
proof -
  let ?l = "stored_events run (sw_db w)"
  have "distinct (map ev_seq ?l)"
    using assms(1) by (simp only: stored_events_def distinct_map distinct_sort set_sort)
  moreover have "sorted (map ev_seq ?l)" by (simp add: stored_events_def)
  ultimately have s: "sorted_wrt (<) (map ev_seq ?l)" by (simp add: strict_sorted_iff)
  have "\<forall>x \<in> set ?l. ev_seq x < next_sequence run (sw_db w)"
  proof (cases "?l" rule: rev_cases)
    case (snoc ys y)
    with s show ?thesis by (auto simp: next_sequence_def sorted_wrt_append)
  qed simp
  then show ?thesis using s assms(2)
    by (simp add: stream_inv_def log_inv_def run_stream_new_def) (simp add: token_buffer_default_def)
qed

text \<open>C16: The record of a run tells its history: over any sequence of emits, units of work and flushes,
  some of which the database may refuse, the stored events with the buffered tail are the events handed
  out so far, in their order and with nothing lost or repeated, up to the merging of neighbouring tokens
  of one kind and the payload of steps, which is kept in the rows of the steps.\<close>
theorem record_tells_the_history:
  assumes "fold run_op ops (s, w) = (s', w')" "list_all (op_ok (rs_run_id s)) ops" "stream_inv s w"
  shows "\<exists>es. bus_recorded (sw_bus w') = bus_recorded (sw_bus w) @ es \<and> told (stream_record s' w') = told (stream_record s w @ es)"
proof -
  have "record_step s w s' w'"
    using assms
  proof (induction ops arbitrary: s w)
    case Nil
    then show ?case by (auto intro: record_step_same)
  next
    case (Cons op ops)
    obtain s1 w1 where s1: "run_op op (s, w) = (s1, w1)" by (metis prod.collapse)
    with Cons.prems have step: "record_step s w s1 w1" by (auto intro: run_op_step)
    then have inv: "rs_run_id s1 = rs_run_id s" "stream_inv s1 w1" unfolding record_step_def by blast+
    moreover have "fold run_op ops (s1, w1) = (s', w')" using Cons.prems(1) s1 by simp
    ultimately have "record_step s1 w1 s' w'" using Cons.prems(2) by (intro Cons.IH) simp_all
    with step show ?case by (rule record_step_trans)
  qed
  then show ?thesis unfolding record_step_def by blast
qed

definition sample_stream_env :: stream_env where
  "sample_stream_env = \<lparr>se_bus = \<lparr>be_recorder = True, be_takes = \<lambda>_ _. True\<rparr>, se_now = int, se_refuses = \<lambda>_ _. False, se_commits = True\<rparr>"

definition sample_stream_ops :: "(stream_env \<times> stream_op) list" where
  "sample_stream_ops = [(sample_stream_env, OpEmit (EToken ''a'' None)), (sample_stream_env, OpEmit (EToken ''b'' None)),
     (sample_stream_env, OpEmit (EToken ''r'' (Some DeltaReasoning))),
     (sample_stream_env\<lparr>se_commits := False\<rparr>, OpCommit [EProgress 0 1] (\<lambda>d. Inr ((), d))),
     (sample_stream_env, OpEmit (EToken ''s'' (Some DeltaReasoning)))]"

definition sample_run_stream :: run_stream where
  "sample_run_stream = run_stream_new ''r'' \<lparr>st_id = ''s'', st_seq = 0, st_closed = False, st_record = False, st_recorded = []\<rparr>"

definition sample_stream_world :: stream_world where
  "sample_stream_world = \<lparr>sw_bus = bus_new, sw_observers = \<lparr>ob_observers = [], ob_watchers = [], ob_next = 0, ob_calls = []\<rparr>,
     sw_db = \<lparr>rd_events = [], rd_steps = []\<rparr>\<rparr>"

lemma sample_stream_inv: "stream_inv sample_run_stream sample_stream_world"
  unfolding sample_run_stream_def
  by (rule opened_stream_inv) (simp_all add: sample_stream_world_def next_sequence_def stored_events_def)

theorem record_tells_the_history_witness:
  "\<exists>s' w' es. fold run_op sample_stream_ops (sample_run_stream, sample_stream_world) = (s', w')
    \<and> bus_recorded (sw_bus w') = bus_recorded (sw_bus sample_stream_world) @ es
    \<and> told (stream_record s' w') = told (stream_record sample_run_stream sample_stream_world @ es)"
proof -
  obtain s' w' where r: "fold run_op sample_stream_ops (sample_run_stream, sample_stream_world) = (s', w')"
    by (metis prod.collapse)
  have "list_all (op_ok (rs_run_id sample_run_stream)) sample_stream_ops"
    by (simp add: sample_stream_ops_def sample_stream_env_def)
  from record_tells_the_history [OF r this sample_stream_inv] r show ?thesis by blast
qed

lemma sample_stream_run:
  "(case fold run_op sample_stream_ops (sample_run_stream, sample_stream_world) of (s, w) \<Rightarrow>
     (map ev_body (stream_record s w), map ev_seq (stream_record s w), length (bus_recorded (sw_bus w))))
    = ([EToken ''ab'' None, EToken ''rs'' (Some DeltaReasoning)], [1, 3], 4)"
  by code_simp

end
