(* ===== verification/ScenarioGraph.thy ===== *)
theory ScenarioGraph
  imports StepRules
begin

text \<open>
  Scenarios as data: the graph a user draws (\<^verbatim>\<open>zvs-contract/src/scenarios.rs\<close>) and the catalogue of
  node types it is drawn from (\<^verbatim>\<open>scenarios/catalogue.rs\<close>).

  Coordinates are the decimal text of their \<^verbatim>\<open>f64\<close>. The catalogue is a list of specifications in
  which the first of a type counts. \<^verbatim>\<open>json!\<close> literals are written out, numbers as decimal text.
\<close>

subsection \<open>The graph of a scenario\<close>

type_synonym params = "(string \<times> json) list"

datatype scenario_slot = SlotModel | SlotMemory | SlotTool | SlotEmbedding

datatype scenario_trigger_kind = TriggerOnChat | TriggerOnMail | TriggerOnSchedule | TriggerOnWebhook | TriggerOnIntegration

datatype scenario_on_error = OnErrorStop | OnErrorContinue

datatype scenario_node_role = RoleTrigger | RoleAction | RoleSubNode

datatype scenario_issue_rule =
    DuplicateNode | UnknownNodeType | UnknownNode | DuplicateEdge | InvalidEdge | Cycle | UnsupportedSlot
  | SlotMismatch | MultipleParents | MissingAttachment | TooManyAttachments | MissingParameter | NoTrigger
  | MultipleTriggers | Unreachable | RestrictedTool | InvalidPort | MissingDialog | LimitedDialog | DuplicateKind

definition rule_is_warning :: "scenario_issue_rule \<Rightarrow> bool" where
  "rule_is_warning r \<longleftrightarrow> r \<in> set [LimitedDialog]"

definition SCENARIO_MAIN_PORT :: string where "SCENARIO_MAIN_PORT = ''main''"
definition SCENARIO_TRUE_PORT :: string where "SCENARIO_TRUE_PORT = ''true''"
definition SCENARIO_FALSE_PORT :: string where "SCENARIO_FALSE_PORT = ''false''"

record scenario_position =
  pos_x :: string
  pos_y :: string

record scenario_settings =
  set_max_attempts :: "nat option"
  set_backoff_ms :: "nat option"
  set_timeout_ms :: "nat option"
  set_on_error :: "scenario_on_error option"

definition settings_default :: scenario_settings where
  "settings_default = \<lparr>set_max_attempts = None, set_backoff_ms = None, set_timeout_ms = None, set_on_error = None\<rparr>"

definition settings_on_error :: "scenario_settings \<Rightarrow> scenario_on_error" where
  "settings_on_error s = (case set_on_error s of Some e \<Rightarrow> e | None \<Rightarrow> OnErrorStop)"

record scenario_node =
  scn_id :: string
  scn_type :: string
  scn_name :: "string option"
  scn_position :: scenario_position
  scn_params :: params
  scn_disabled :: "bool option"
  scn_settings :: "scenario_settings option"
  scn_notes :: "string option"
  scn_pinned_input :: "json option"

definition is_disabled :: "scenario_node \<Rightarrow> bool" where
  "is_disabled n = (case scn_disabled n of Some b \<Rightarrow> b | None \<Rightarrow> False)"

definition node_settings :: "scenario_node \<Rightarrow> scenario_settings" where
  "node_settings n = (case scn_settings n of Some s \<Rightarrow> s | None \<Rightarrow> settings_default)"

record scenario_edge =
  se_from :: string
  se_to :: string
  se_from_port :: string
  se_to_port :: string

record scenario_attachment =
  sa_parent :: string
  sa_child :: string
  sa_slot :: scenario_slot

record scenario_graph =
  sg_nodes :: "scenario_node list"
  sg_edges :: "scenario_edge list"
  sg_attachments :: "scenario_attachment list"

record scenario_issue =
  iss_rule :: scenario_issue_rule
  iss_node_id :: "string option"
  iss_slot :: "scenario_slot option"
  iss_param :: "string option"

definition issue_graph :: "scenario_issue_rule \<Rightarrow> scenario_issue" where
  "issue_graph r = \<lparr>iss_rule = r, iss_node_id = None, iss_slot = None, iss_param = None\<rparr>"

definition issue_node :: "scenario_issue_rule \<Rightarrow> string \<Rightarrow> scenario_issue" where
  "issue_node r i = (issue_graph r)\<lparr>iss_node_id := Some i\<rparr>"

definition issue_slot :: "scenario_issue_rule \<Rightarrow> string \<Rightarrow> scenario_slot \<Rightarrow> scenario_issue" where
  "issue_slot r i s = (issue_node r i)\<lparr>iss_slot := Some s\<rparr>"

definition issue_port :: "string \<Rightarrow> string \<Rightarrow> scenario_issue" where
  "issue_port i port = (issue_node InvalidPort i)\<lparr>iss_param := Some port\<rparr>"

definition issue_tool :: "string \<Rightarrow> string \<Rightarrow> scenario_issue" where
  "issue_tool i key = (issue_node RestrictedTool i)\<lparr>iss_param := Some key\<rparr>"

definition issue_param :: "string \<Rightarrow> string \<Rightarrow> scenario_issue" where
  "issue_param i p = (issue_node MissingParameter i)\<lparr>iss_param := Some p\<rparr>"

definition is_warning :: "scenario_issue \<Rightarrow> bool" where
  "is_warning i = rule_is_warning (iss_rule i)"

definition blocking_issues :: "scenario_issue list \<Rightarrow> scenario_issue list" where
  "blocking_issues issues = filter (\<lambda>i. \<not> is_warning i) issues"

lemmas issue_defs = issue_graph_def issue_node_def issue_slot_def issue_port_def issue_tool_def issue_param_def

lemma issue_rules [simp]: "iss_rule (issue_graph r) = r" "iss_rule (issue_node r i) = r" "iss_rule (issue_slot r i s) = r"
  "iss_rule (issue_port i p) = InvalidPort" "iss_rule (issue_tool i k) = RestrictedTool" "iss_rule (issue_param i p) = MissingParameter"
  by (simp_all add: issue_defs)

subsection \<open>The catalogue\<close>

definition TRIGGER_CHAT :: string where "TRIGGER_CHAT = ''trigger.chat''"
definition TRIGGER_MAIL :: string where "TRIGGER_MAIL = ''trigger.mail''"
definition TRIGGER_SCHEDULE :: string where "TRIGGER_SCHEDULE = ''trigger.schedule''"
definition TRIGGER_WEBHOOK :: string where "TRIGGER_WEBHOOK = ''trigger.webhook''"
definition TRIGGER_INTEGRATION :: string where "TRIGGER_INTEGRATION = ''trigger.integration''"
definition AGENT_TOOLS :: string where "AGENT_TOOLS = ''agent.tools''"
definition MODEL_CHAT :: string where "MODEL_CHAT = ''model.chat''"
definition MEMORY_WINDOW :: string where "MEMORY_WINDOW = ''memory.window''"
definition MEMORY_FACTS :: string where "MEMORY_FACTS = ''memory.facts''"
definition KNOWLEDGE_STORES :: string where "KNOWLEDGE_STORES = ''knowledge.stores''"
definition STORES_PARAM :: string where "STORES_PARAM = ''stores''"
definition POLICY_PARAM :: string where "POLICY_PARAM = ''policy''"
definition AREA_PARAM :: string where "AREA_PARAM = ''area''"
definition FLOW_BRANCH :: string where "FLOW_BRANCH = ''flow.branch''"
definition CONDITION_PARAM :: string where "CONDITION_PARAM = ''condition''"
definition EMBEDDING_MODEL :: string where "EMBEDDING_MODEL = ''embedding.model''"
definition TOOL_SET :: string where "TOOL_SET = ''tool.set''"
definition TOOL_SET_PARAM :: string where "TOOL_SET_PARAM = ''tools''"
definition OUTPUT_CHAT_REPLY :: string where "OUTPUT_CHAT_REPLY = ''output.chatReply''"
definition OUTPUT_CHAT_MESSAGE :: string where "OUTPUT_CHAT_MESSAGE = ''output.chatMessage''"
definition OUTPUT_NEW_CHAT :: string where "OUTPUT_NEW_CHAT = ''output.newChat''"
definition OUTPUT_NOTIFY :: string where "OUTPUT_NOTIFY = ''output.notify''"
definition OUTPUT_FILE :: string where "OUTPUT_FILE = ''output.file''"
definition TEMPLATE_PARAM :: string where "TEMPLATE_PARAM = ''template''"
definition KNOWLEDGE_SEARCH :: string where "KNOWLEDGE_SEARCH = ''knowledge.search''"

definition RESTRICTED_TOOL_PREFIXES :: "string list" where
  "RESTRICTED_TOOL_PREFIXES = [''browser.'', ''vector.'', ''knowledge.'']"

definition NOT_TOOLS :: "string list" where
  "NOT_TOOLS = [''llm.generate'', ''vector.index'', ''job.run'', ''download.fetch'']"

record slot_spec =
  ss_slot :: scenario_slot
  ss_required :: bool
  ss_multiple :: bool

definition slot_required :: "scenario_slot \<Rightarrow> slot_spec" where
  "slot_required s = \<lparr>ss_slot = s, ss_required = True, ss_multiple = False\<rparr>"

definition slot_optional :: "scenario_slot \<Rightarrow> slot_spec" where
  "slot_optional s = \<lparr>ss_slot = s, ss_required = False, ss_multiple = False\<rparr>"

definition slot_many :: "scenario_slot \<Rightarrow> slot_spec" where
  "slot_many s = \<lparr>ss_slot = s, ss_required = False, ss_multiple = True\<rparr>"

record node_spec =
  ns_type :: string
  ns_trunk :: bool
  ns_trigger :: "scenario_trigger_kind option"
  ns_fills :: "scenario_slot list"
  ns_slots :: "slot_spec list"
  ns_ports :: "string list"
  ns_required_params :: "string list"
  ns_tool_key :: "string option"
  ns_params_schema :: json
  ns_idempotent :: bool
  ns_builtin :: bool

definition object_schema :: "(string \<times> json) list \<Rightarrow> string list \<Rightarrow> json" where
  "object_schema properties required = JObject [(''type'', JString ''object''),
     (''properties'', JObject (fold (\<lambda>(k, v). obj_insert k v) properties [])), (''required'', JArray (map JString required))]"

definition as_array :: "json \<Rightarrow> json list option" where
  "as_array v = (case v of JArray xs \<Rightarrow> Some xs | _ \<Rightarrow> None)"

definition string_items :: "json option \<Rightarrow> string list" where
  "string_items v = (case Option.bind v as_array of None \<Rightarrow> [] | Some xs \<Rightarrow> List.map_filter as_str xs)"

definition required_params :: "json \<Rightarrow> string list" where
  "required_params schema =
     (if Option.bind (obj_get schema ''type'') as_str \<noteq> Some ''object'' then []
      else string_items (obj_get schema ''required''))"

definition spec_action :: "string \<Rightarrow> node_spec" where
  "spec_action ty = \<lparr>ns_type = ty, ns_trunk = True, ns_trigger = None, ns_fills = [], ns_slots = [],
     ns_ports = [SCENARIO_MAIN_PORT], ns_required_params = [], ns_tool_key = None, ns_params_schema = object_schema [] [],
     ns_idempotent = False, ns_builtin = False\<rparr>"

definition spec_trigger :: "string \<Rightarrow> scenario_trigger_kind \<Rightarrow> node_spec" where
  "spec_trigger ty kind = (spec_action ty)\<lparr>ns_trigger := Some kind, ns_idempotent := True\<rparr>"

definition spec_sub_node :: "string \<Rightarrow> scenario_slot \<Rightarrow> node_spec" where
  "spec_sub_node ty slot = (spec_action ty)\<lparr>ns_trunk := False, ns_fills := [slot], ns_ports := [], ns_idempotent := True\<rparr>"

definition with_slots :: "slot_spec list \<Rightarrow> node_spec \<Rightarrow> node_spec" where
  "with_slots slots s = s\<lparr>ns_slots := slots\<rparr>"

definition with_ports :: "string list \<Rightarrow> node_spec \<Rightarrow> node_spec" where
  "with_ports ports s = s\<lparr>ns_ports := ports\<rparr>"

definition with_schema :: "json \<Rightarrow> node_spec \<Rightarrow> node_spec" where
  "with_schema schema s = s\<lparr>ns_required_params := required_params schema, ns_params_schema := schema\<rparr>"

definition built_in :: "node_spec \<Rightarrow> node_spec" where
  "built_in s = s\<lparr>ns_builtin := True\<rparr>"

definition spec_slot :: "node_spec \<Rightarrow> scenario_slot \<Rightarrow> slot_spec option" where
  "spec_slot s slot = List.find (\<lambda>x. ss_slot x = slot) (ns_slots s)"

definition spec_role :: "node_spec \<Rightarrow> scenario_node_role" where
  "spec_role s = (if ns_trigger s \<noteq> None then RoleTrigger else if ns_trunk s then RoleAction else RoleSubNode)"

type_synonym catalogue = "node_spec list"

definition catalogue_spec :: "catalogue \<Rightarrow> string \<Rightarrow> node_spec option" where
  "catalogue_spec c ty = List.find (\<lambda>s. ns_type s = ty) c"

definition catalogue_with :: "node_spec \<Rightarrow> catalogue \<Rightarrow> catalogue" where
  "catalogue_with s c = (if catalogue_spec c (ns_type s) = None then c @ [s] else c)"

definition schema_text :: json where
  "schema_text = JObject [(''type'', JString ''string'')]"

definition bounded_integer :: "string \<Rightarrow> json" where
  "bounded_integer maximum = JObject [(''type'', JString ''integer''), (''minimum'', JNumber ''1''), (''maximum'', JNumber maximum)]"

definition string_array :: json where
  "string_array = JObject [(''type'', JString ''array''), (''items'', JObject [(''type'', JString ''string'')])]"

definition model_schema :: json where
  "model_schema = object_schema [(''providerId'', schema_text), (''modelId'', schema_text),
     (''temperature'', JObject [(''type'', JString ''number''), (''minimum'', JNumber ''0''), (''maximum'', JNumber ''2'')])]
     [''providerId'', ''modelId'']"

definition choice :: "string list \<Rightarrow> json" where
  "choice options = JObject [(''type'', JString ''string''), (''enum'', JArray (map JString options))]"

definition output_schema :: "(string \<times> json) list \<Rightarrow> string list \<Rightarrow> json" where
  "output_schema own required = object_schema (own @ [(TEMPLATE_PARAM, schema_text)]) required"

definition builtin_specs :: "node_spec list" where
  "builtin_specs =
    [with_schema (object_schema [(''conversationId'', schema_text)] []) (spec_trigger TRIGGER_CHAT TriggerOnChat),
     with_schema (object_schema [(''from'', schema_text), (''subject'', schema_text)] []) (spec_trigger TRIGGER_MAIL TriggerOnMail),
     with_schema (object_schema [(''cron'', schema_text)] [''cron'']) (spec_trigger TRIGGER_SCHEDULE TriggerOnSchedule),
     with_schema (object_schema [(''path'', schema_text)] [''path'']) (spec_trigger TRIGGER_WEBHOOK TriggerOnWebhook),
     with_schema (object_schema [(''accountId'', schema_text), (''trigger'', schema_text)] [''accountId'', ''trigger''])
       (spec_trigger TRIGGER_INTEGRATION TriggerOnIntegration),
     with_schema (object_schema [(''systemMessage'', schema_text), (''maxIterations'', bounded_integer ''20'')] [])
       (with_slots [slot_required SlotModel, slot_many SlotMemory, slot_many SlotTool] (spec_action AGENT_TOOLS)),
     with_schema model_schema (spec_sub_node MODEL_CHAT SlotModel),
     with_schema (object_schema [(''size'', bounded_integer ''100'')] []) (spec_sub_node MEMORY_WINDOW SlotMemory),
     with_schema (object_schema [(POLICY_PARAM, choice [''read'', ''readWrite'']), (AREA_PARAM, choice [''global'', ''dialog'', ''both''])] [])
       (spec_sub_node MEMORY_FACTS SlotMemory),
     with_schema (object_schema [(STORES_PARAM, string_array)] [STORES_PARAM]) (spec_sub_node KNOWLEDGE_STORES SlotMemory),
     with_schema (object_schema [(TOOL_SET_PARAM, string_array)] [TOOL_SET_PARAM]) (spec_sub_node TOOL_SET SlotTool),
     with_schema model_schema (spec_sub_node EMBEDDING_MODEL SlotEmbedding),
     with_schema (output_schema [] []) (with_ports [] (spec_action OUTPUT_CHAT_REPLY)),
     with_schema (output_schema [(''conversationId'', schema_text)] [''conversationId'']) (with_ports [] (spec_action OUTPUT_CHAT_MESSAGE)),
     with_schema (output_schema [(''title'', schema_text)] []) (with_ports [] (spec_action OUTPUT_NEW_CHAT)),
     with_schema (output_schema [(''title'', schema_text)] [''title'']) (with_ports [] (spec_action OUTPUT_NOTIFY)),
     with_schema (output_schema [(''path'', schema_text)] [''path'']) (with_ports [] (spec_action OUTPUT_FILE))]"

definition branch_spec :: node_spec where
  "branch_spec = (with_schema (object_schema [(CONDITION_PARAM, JObject [(''type'', JArray [JString ''boolean'', JString ''string''])])] [CONDITION_PARAM])
     (with_ports [SCENARIO_TRUE_PORT, SCENARIO_FALSE_PORT] (spec_action FLOW_BRANCH)))\<lparr>ns_idempotent := True\<rparr>"

definition builtin_catalogue :: catalogue where
  "builtin_catalogue = catalogue_with branch_spec (fold (\<lambda>s. catalogue_with (built_in s)) builtin_specs [])"

definition registry_spec :: "registered_node \<Rightarrow> node_spec" where
  "registry_spec n =
     (let key = (case tool_key (rn_permission n) of Some k \<Rightarrow> if k \<in> set NOT_TOOLS then None else Some k | None \<Rightarrow> None) in
      (with_schema (rn_input_schema n) (spec_action (rn_type n)))
        \<lparr>ns_fills := (if key \<noteq> None then [SlotTool] else []), ns_tool_key := key, ns_idempotent := side_effect_free n\<rparr>)"

definition catalogue_from_registry :: "registry \<Rightarrow> string list \<Rightarrow> catalogue" where
  "catalogue_from_registry reg actions =
     fold (\<lambda>n. catalogue_with (registry_spec n)) (filter (\<lambda>n. rn_type n \<in> set actions) reg) builtin_catalogue"

subsection \<open>What the catalogue promises\<close>

lemma catalogue_spec_with:
  "catalogue_spec (catalogue_with s c) ty =
     (case catalogue_spec c ty of Some x \<Rightarrow> Some x | None \<Rightarrow> if ns_type s = ty then Some s else None)"
proof -
  have "List.find P (xs @ [x]) = (case List.find P xs of Some y \<Rightarrow> Some y | None \<Rightarrow> if P x then Some x else None)"
    for P :: "node_spec \<Rightarrow> bool" and xs x by (induction xs) auto
  then show ?thesis
    by (auto simp: catalogue_with_def catalogue_spec_def find_None_all split: option.splits dest: find_Some_mem)
qed

lemma catalogue_spec_type: "catalogue_spec c ty = Some s \<Longrightarrow> ns_type s = ty"
  by (auto simp: catalogue_spec_def dest: find_Some_mem)

lemma registry_spec_sel [simp]: "ns_type (registry_spec n) = rn_type n" "ns_trunk (registry_spec n)" "ns_builtin (registry_spec n) = False"
  "ns_trigger (registry_spec n) = None"
  by (simp_all add: registry_spec_def Let_def with_schema_def spec_action_def)

lemma catalogue_fold_spec:
  "catalogue_spec (fold (\<lambda>n. catalogue_with (registry_spec n)) ns c) ty = Some s \<Longrightarrow>
     catalogue_spec c ty = Some s \<or> (\<exists>n \<in> set ns. rn_type n = ty \<and> s = registry_spec n)"
  by (induction ns arbitrary: c) (fastforce simp: catalogue_spec_with split: option.splits if_splits)+

text \<open>A type of the catalogue is built in or an allowed action of the registry.\<close>

lemma catalogue_from_registry_spec:
  assumes "catalogue_spec (catalogue_from_registry reg actions) ty = Some s"
  shows "catalogue_spec builtin_catalogue ty = Some s
    \<or> (ty \<in> set actions \<and> find_node reg ty \<noteq> None \<and> (\<exists>n \<in> set reg. rn_type n = ty \<and> s = registry_spec n))"
  using catalogue_fold_spec [OF assms [unfolded catalogue_from_registry_def]]
  by (auto simp: find_node_def find_None_all)

end
