(* ===== verification/ScenarioCycles.thy ===== *)
theory ScenarioCycles
  imports StepRules
begin

text \<open>
  The search for cycles of \<^verbatim>\<open>scenarios/validation.rs\<close> (\<^verbatim>\<open>Tarjan\<close>): one pass that numbers the nodes,
  keeps the lowest number each can reach, and pops the strongly connected components.

  The stack has its top in front. The recursion carries fuel; \<open>visit_spec\<close> and \<open>tarjan_finds_cycles\<close>
  show that the number of nodes is enough. Indexing a hash map (\<^verbatim>\<open>self.low[node]\<close>) reads an entry that
  is there: every node is numbered when it is entered.
\<close>

record tarjan =
  tj_adjacency :: "string list table"
  tj_index :: "nat table"
  tj_low :: "nat table"
  tj_stack :: "string list"
  tj_on_stack :: "string set"
  tj_cyclic :: "string set"

definition tj_next :: "tarjan \<Rightarrow> string \<Rightarrow> string list" where
  "tj_next t v = (case tbl_get (tj_adjacency t) v of Some ws \<Rightarrow> ws | None \<Rightarrow> [])"

definition tj_index_of :: "tarjan \<Rightarrow> string \<Rightarrow> nat" where
  "tj_index_of t v = (case tbl_get (tj_index t) v of Some n \<Rightarrow> n | None \<Rightarrow> 0)"

definition tj_low_of :: "tarjan \<Rightarrow> string \<Rightarrow> nat" where
  "tj_low_of t v = (case tbl_get (tj_low t) v of Some n \<Rightarrow> n | None \<Rightarrow> 0)"

definition tj_enter :: "string \<Rightarrow> tarjan \<Rightarrow> tarjan" where
  "tj_enter v t = (let index = length (tj_index t) in
     t\<lparr>tj_index := tbl_put v index (tj_index t), tj_low := tbl_put v index (tj_low t),
       tj_stack := v # tj_stack t, tj_on_stack := insert v (tj_on_stack t)\<rparr>)"

definition tj_lower :: "string \<Rightarrow> nat \<Rightarrow> tarjan \<Rightarrow> tarjan" where
  "tj_lower v n t = t\<lparr>tj_low := tbl_put v (min (tj_low_of t v) n) (tj_low t)\<rparr>"

fun pop_until :: "string \<Rightarrow> string list \<Rightarrow> string list \<times> string list" where
  "pop_until v [] = ([], [])"
| "pop_until v (m # ms) = (if m = v then ([m], ms) else (case pop_until v ms of (c, r) \<Rightarrow> (m # c, r)))"

definition tj_settle :: "string \<Rightarrow> tarjan \<Rightarrow> tarjan" where
  "tj_settle v t =
     (if tj_low_of t v = tj_index_of t v then
        (case pop_until v (tj_stack t) of (component, rest) \<Rightarrow>
           let t1 = t\<lparr>tj_stack := rest, tj_on_stack := tj_on_stack t - set component\<rparr>;
               looped = v \<in> set (tj_next t v) in
           if 1 < length component \<or> looped then t1\<lparr>tj_cyclic := tj_cyclic t1 \<union> set component\<rparr> else t1)
      else t)"

fun tj_visit :: "nat \<Rightarrow> string \<Rightarrow> tarjan \<Rightarrow> tarjan" and tj_targets :: "nat \<Rightarrow> string \<Rightarrow> string list \<Rightarrow> tarjan \<Rightarrow> tarjan" where
  "tj_visit 0 v t = t"
| "tj_visit (Suc k) v t = (let t1 = tj_enter v t in tj_settle v (tj_targets k v (tj_next t1 v) t1))"
| "tj_targets k v [] t = t"
| "tj_targets k v (w # ws) t = tj_targets k v ws
     (if tbl_get (tj_index t) w = None then (let t1 = tj_visit k w t in tj_lower v (tj_low_of t1 w) t1)
      else if w \<in> tj_on_stack t then tj_lower v (tj_index_of t w) t
      else t)"

definition tarjan_start :: "(string \<times> string) list \<Rightarrow> tarjan" where
  "tarjan_start main = \<lparr>tj_adjacency = fold (\<lambda>(a, b) m. tbl_put a ((case tbl_get m a of Some l \<Rightarrow> l | None \<Rightarrow> []) @ [b]) m) main [],
     tj_index = [], tj_low = [], tj_stack = [], tj_on_stack = {}, tj_cyclic = {}\<rparr>"

definition tarjan_run :: "string list \<Rightarrow> (string \<times> string) list \<Rightarrow> tarjan" where
  "tarjan_run order main =
     fold (\<lambda>v t. if tbl_get (tj_index t) v = None then tj_visit (length order) v t else t) order (tarjan_start main)"

definition cyclic_nodes :: "string list \<Rightarrow> (string \<times> string) list \<Rightarrow> string list" where
  "cyclic_nodes order main = filter (\<lambda>v. v \<in> tj_cyclic (tarjan_run order main)) order"

lemma cyclic_nodes_sample:
  "cyclic_nodes [''a'', ''b'', ''c'', ''d''] [(''a'', ''b''), (''b'', ''c''), (''c'', ''b''), (''c'', ''d'')] = [''b'', ''c'']"
  by code_simp

subsection \<open>Frames\<close>

definition numbered :: "tarjan \<Rightarrow> string set" where
  "numbered t = {v. tbl_get (tj_index t) v \<noteq> None}"

lemma numbered_None: "tbl_get (tj_index t) v = None \<longleftrightarrow> v \<notin> numbered t"
  by (simp add: numbered_def)

lemma tj_enter_sel [simp]:
  "tj_adjacency (tj_enter v t) = tj_adjacency t" "tj_stack (tj_enter v t) = v # tj_stack t"
  "tj_on_stack (tj_enter v t) = insert v (tj_on_stack t)" "tj_cyclic (tj_enter v t) = tj_cyclic t"
  "tj_index (tj_enter v t) = tbl_put v (length (tj_index t)) (tj_index t)"
  "tj_index_of (tj_enter v t) w = (if w = v then length (tj_index t) else tj_index_of t w)"
  "tj_low_of (tj_enter v t) w = (if w = v then length (tj_index t) else tj_low_of t w)"
  by (simp_all add: tj_enter_def Let_def tj_index_of_def tj_low_of_def)

lemma tj_lower_sel [simp]:
  "tj_adjacency (tj_lower v n t) = tj_adjacency t" "tj_stack (tj_lower v n t) = tj_stack t"
  "tj_on_stack (tj_lower v n t) = tj_on_stack t" "tj_cyclic (tj_lower v n t) = tj_cyclic t"
  "tj_index (tj_lower v n t) = tj_index t" "tj_index_of (tj_lower v n t) w = tj_index_of t w"
  "tj_low_of (tj_lower v n t) w = (if w = v then min (tj_low_of t v) n else tj_low_of t w)"
  by (simp_all add: tj_lower_def tj_index_of_def tj_low_of_def)

lemma tj_settle_sel [simp]:
  "tj_adjacency (tj_settle v t) = tj_adjacency t" "tj_index (tj_settle v t) = tj_index t"
  "tj_index_of (tj_settle v t) w = tj_index_of t w" "tj_low_of (tj_settle v t) w = tj_low_of t w"
  by (simp_all add: tj_settle_def Let_def tj_index_of_def tj_low_of_def split: prod.split)

lemma numbered_sel [simp]: "numbered (tj_enter v t) = insert v (numbered t)" "numbered (tj_lower v n t) = numbered t"
  "numbered (tj_settle v t) = numbered t"
  by (auto simp: numbered_def)

lemma tj_settle_cyclic: "tj_cyclic t \<subseteq> tj_cyclic (tj_settle v t)"
  by (auto simp: tj_settle_def Let_def split: prod.split)

lemma tj_next_sel [simp]: "tj_next (tj_enter v t) w = tj_next t w" "tj_next (tj_lower v n t) w = tj_next t w"
  "tj_next (tj_settle v t) w = tj_next t w"
  by (simp_all add: tj_next_def)

lemma tj_targets_new: "w \<notin> numbered t \<Longrightarrow>
    tj_targets k v (w # ws) t = tj_targets k v ws (tj_lower v (tj_low_of (tj_visit k w t) w) (tj_visit k w t))"
  by (simp add: numbered_None Let_def)

lemma tj_targets_on: "w \<in> numbered t \<Longrightarrow> w \<in> tj_on_stack t \<Longrightarrow>
    tj_targets k v (w # ws) t = tj_targets k v ws (tj_lower v (tj_index_of t w) t)"
  by (simp add: numbered_None)

lemma tj_targets_off: "w \<in> numbered t \<Longrightarrow> w \<notin> tj_on_stack t \<Longrightarrow> tj_targets k v (w # ws) t = tj_targets k v ws t"
  by (simp add: numbered_None)

lemma tj_targets_cases:
  obtains (new) "w \<notin> numbered t" | (on) "w \<in> numbered t" "w \<in> tj_on_stack t" | (off) "w \<in> numbered t" "w \<notin> tj_on_stack t"
  by blast

definition frame_ok :: "tarjan \<Rightarrow> tarjan \<Rightarrow> bool" where
  "frame_ok t t' \<longleftrightarrow> tj_adjacency t' = tj_adjacency t \<and> tj_cyclic t \<subseteq> tj_cyclic t'"

lemma frame_ok_trans: "frame_ok t t1 \<Longrightarrow> frame_ok t1 t2 \<Longrightarrow> frame_ok t t2"
  by (auto simp: frame_ok_def)

lemma frame_ok_lower: "frame_ok t t1 \<Longrightarrow> frame_ok t (tj_lower v n t1)"
  by (auto simp: frame_ok_def)

lemma targets_frame_of_visit:
  assumes "\<And>v t. frame_ok t (tj_visit k v t)"
  shows "frame_ok t (tj_targets k v ws t)"
proof (induction ws arbitrary: t)
  case (Cons w ws)
  show ?case
  proof (cases rule: tj_targets_cases [of w t])
    case new
    show ?thesis unfolding tj_targets_new [OF new] by (rule frame_ok_trans [OF frame_ok_lower [OF assms] Cons])
  next
    case on
    then show ?thesis using frame_ok_trans [OF frame_ok_lower Cons, of t t] by (simp add: tj_targets_on frame_ok_def del: tj_targets.simps)
  next
    case off
    show ?thesis unfolding tj_targets_off [OF off] by (rule Cons)
  qed
qed (simp add: frame_ok_def)

lemma visit_frame: "frame_ok t (tj_visit k v t)"
proof (induction k arbitrary: v t)
  case (Suc k)
  have "frame_ok t (tj_targets k v (tj_next (tj_enter v t) v) (tj_enter v t))"
    using frame_ok_trans [OF _ targets_frame_of_visit [OF Suc], of t "tj_enter v t"] by (simp add: frame_ok_def)
  then show ?case using tj_settle_cyclic by (auto simp: frame_ok_def Let_def)
qed (simp add: frame_ok_def)

lemmas targets_frame = targets_frame_of_visit [OF visit_frame]

lemma length_tbl_put_new: "tbl_get t k = None \<Longrightarrow> length (tbl_put k v t) = Suc (length t)"
  unfolding tbl_get_def tbl_put_def by (induction t) auto

lemma pop_until_split: "v \<notin> set u \<Longrightarrow> pop_until v (u @ v # s) = (u @ [v], s)"
  by (induction u) auto

subsection \<open>A silent search\<close>

text \<open>The edges, read backwards: what is accessible has no cycle below it.\<close>

definition back_edges :: "tarjan \<Rightarrow> (string \<times> string) set" where
  "back_edges t = {(w, v). w \<in> set (tj_next t v)}"

definition search_ok :: "string set \<Rightarrow> nat \<Rightarrow> tarjan \<Rightarrow> bool" where
  "search_ok N m t \<longleftrightarrow> tj_on_stack t = set (tj_stack t) \<and> distinct (tj_stack t) \<and> set (tj_stack t) \<subseteq> numbered t
     \<and> numbered t \<subseteq> N \<and> (\<forall>v. set (tj_next t v) \<subseteq> N)
     \<and> (\<forall>v \<in> numbered t. tj_index_of t v < length (tj_index t))
     \<and> (\<forall>v \<in> numbered t - set (tj_stack t). v \<in> Wellfounded.acc (back_edges t))
     \<and> m \<le> length (tj_index t) \<and> (\<forall>v \<in> set (tj_stack t). m \<le> tj_index_of t v)
     \<and> (\<forall>v \<in> numbered t. m \<le> tj_index_of t v \<longrightarrow> m \<le> tj_low_of t v)"

definition search_ext :: "string set \<Rightarrow> tarjan \<Rightarrow> tarjan \<Rightarrow> bool" where
  "search_ext X t t' \<longleftrightarrow> numbered t \<subseteq> numbered t' \<and> length (tj_index t) \<le> length (tj_index t')
     \<and> (\<forall>w \<in> numbered t. tj_index_of t' w = tj_index_of t w)
     \<and> (\<forall>w \<in> numbered t - X. tj_low_of t' w = tj_low_of t w)
     \<and> (\<exists>u. tj_stack t' = u @ tj_stack t \<and> set u \<inter> numbered t = {})"

lemma search_ext_refl [simp]: "search_ext X t t"
  by (simp add: search_ext_def)

lemma search_ext_trans:
  assumes "search_ext X t t1" "search_ext X t1 t2"
  shows "search_ext X t t2"
proof -
  obtain u u' where u: "tj_stack t1 = u @ tj_stack t" "set u \<inter> numbered t = {}"
    and u': "tj_stack t2 = u' @ tj_stack t1" "set u' \<inter> numbered t1 = {}"
    using assms unfolding search_ext_def by blast
  have sub: "numbered t \<subseteq> numbered t1" "numbered t1 \<subseteq> numbered t2" using assms unfolding search_ext_def by blast+
  have st: "tj_stack t2 = (u' @ u) @ tj_stack t" "set (u' @ u) \<inter> numbered t = {}" using u u' sub by auto
  have "tj_index_of t2 w = tj_index_of t w" if "w \<in> numbered t" for w
    using assms sub that unfolding search_ext_def by (metis subsetD)
  moreover have "tj_low_of t2 w = tj_low_of t w" if "w \<in> numbered t - X" for w
  proof -
    have "w \<in> numbered t1 - X" using that sub by blast
    then show ?thesis using assms that unfolding search_ext_def by metis
  qed
  moreover have "length (tj_index t) \<le> length (tj_index t2)" using assms unfolding search_ext_def by simp
  ultimately show ?thesis using st sub unfolding search_ext_def by blast
qed

lemma search_ext_mono: "search_ext X t t' \<Longrightarrow> X \<subseteq> Y \<Longrightarrow> search_ext Y t t'"
  unfolding search_ext_def by blast

text \<open>The result of a visit of \<open>v\<close>, and of the pass over its targets \<open>ws\<close>.\<close>

definition visited :: "string \<Rightarrow> tarjan \<Rightarrow> tarjan \<Rightarrow> bool" where
  "visited v t t' \<longleftrightarrow> v \<in> numbered t' \<and> tj_index_of t' v = length (tj_index t) \<and> tj_low_of t' v \<le> tj_index_of t' v
     \<and> (tj_stack t' = tj_stack t \<or> v \<in> set (tj_stack t') \<and> tj_low_of t' v \<noteq> tj_index_of t' v)"

definition looked :: "string \<Rightarrow> string list \<Rightarrow> tarjan \<Rightarrow> tarjan \<Rightarrow> bool" where
  "looked v ws t t' \<longleftrightarrow> tj_low_of t' v \<le> tj_low_of t v
     \<and> (\<forall>w \<in> set ws. w \<in> numbered t' \<and> (w \<in> set (tj_stack t) \<longrightarrow> tj_low_of t' v \<le> tj_index_of t w))"

lemma search_ok_lower:
  "search_ok N m t \<Longrightarrow> v \<in> numbered t \<Longrightarrow> m \<le> n \<Longrightarrow> search_ok N m (tj_lower v n t)"
  unfolding search_ok_def by (auto simp: back_edges_def)

lemma search_ext_lower: "search_ext X t t' \<Longrightarrow> search_ext (insert v X) t (tj_lower v n t')"
  unfolding search_ext_def by auto

lemma search_okD:
  assumes "search_ok N m t"
  shows "tj_on_stack t = set (tj_stack t)" "distinct (tj_stack t)" "set (tj_stack t) \<subseteq> numbered t" "numbered t \<subseteq> N"
    "set (tj_next t v) \<subseteq> N" "v \<in> numbered t \<Longrightarrow> tj_index_of t v < length (tj_index t)" "m \<le> length (tj_index t)"
    "v \<in> set (tj_stack t) \<Longrightarrow> m \<le> tj_index_of t v"
    "v \<in> numbered t \<Longrightarrow> m \<le> tj_index_of t v \<Longrightarrow> m \<le> tj_low_of t v"
    "v \<in> numbered t \<Longrightarrow> v \<notin> set (tj_stack t) \<Longrightarrow> v \<in> Wellfounded.acc (back_edges t)"
  using assms unfolding search_ok_def by blast+

lemma search_extD:
  assumes "search_ext X t t'"
  shows "numbered t \<subseteq> numbered t'" "w \<in> numbered t \<Longrightarrow> tj_index_of t' w = tj_index_of t w"
    "w \<in> numbered t \<Longrightarrow> w \<notin> X \<Longrightarrow> tj_low_of t' w = tj_low_of t w" "set (tj_stack t) \<subseteq> set (tj_stack t')"
  using assms unfolding search_ext_def by auto

lemma targets_spec:
  assumes IH: "\<And>w t. search_ok N m t \<Longrightarrow> w \<in> N - numbered t \<Longrightarrow> card (N - numbered t) \<le> k \<Longrightarrow> tj_cyclic (tj_visit k w t) = {}
      \<Longrightarrow> search_ok N m (tj_visit k w t) \<and> search_ext {} t (tj_visit k w t) \<and> visited w t (tj_visit k w t)"
    and "finite N"
  shows "search_ok N m t \<Longrightarrow> v \<in> set (tj_stack t) \<Longrightarrow> set ws \<subseteq> N \<Longrightarrow> card (N - numbered t) \<le> k
    \<Longrightarrow> tj_cyclic (tj_targets k v ws t) = {}
    \<Longrightarrow> search_ok N m (tj_targets k v ws t) \<and> search_ext {v} t (tj_targets k v ws t) \<and> looked v ws t (tj_targets k v ws t)"
proof (induction ws arbitrary: t)
  case Nil
  then show ?case by (simp add: looked_def)
next
  case (Cons w ws)
  note ok = search_okD [OF Cons.prems(1)]
  have vn: "v \<in> numbered t" using ok(3) Cons.prems(2) by blast
  text \<open>What remains once the first target is dealt with and gave \<open>t2\<close>.\<close>
  have rest: ?case
    if t2: "tj_targets k v (w # ws) t = tj_targets k v ws t2" "search_ok N m t2" "search_ext {v} t t2" "w \<in> numbered t2"
      "tj_low_of t2 v \<le> tj_low_of t v" "w \<in> set (tj_stack t) \<Longrightarrow> tj_low_of t2 v \<le> tj_index_of t w" for t2
  proof -
    let ?t' = "tj_targets k v ws t2"
    have "card (N - numbered t2) \<le> card (N - numbered t)"
      using search_extD(1) [OF t2(3)] assms(2) by (intro card_mono) auto
    then have "search_ok N m ?t' \<and> search_ext {v} t2 ?t' \<and> looked v ws t2 ?t'"
      using Cons.prems t2(1,2) search_extD(4) [OF t2(3)] by (intro Cons.IH) auto
    then have r: "search_ok N m ?t'" "search_ext {v} t2 ?t'" "looked v ws t2 ?t'" by blast+
    have "looked v (w # ws) t ?t'"
      unfolding looked_def
    proof (intro conjI ballI)
      show "tj_low_of ?t' v \<le> tj_low_of t v" using r(3) t2(5) unfolding looked_def by linarith
      fix x assume x: "x \<in> set (w # ws)"
      show "x \<in> numbered ?t'" using x r(3) t2(4) search_extD(1) [OF r(2)] unfolding looked_def by auto
      show "x \<in> set (tj_stack t) \<longrightarrow> tj_low_of ?t' v \<le> tj_index_of t x"
      proof
        assume xs: "x \<in> set (tj_stack t)"
        show "tj_low_of ?t' v \<le> tj_index_of t x"
        proof (cases "x = w")
          case True
          then show ?thesis using t2(6) xs r(3) unfolding looked_def by fastforce
        next
          case False
          then have "tj_low_of ?t' v \<le> tj_index_of t2 x"
            using x xs r(3) search_extD(4) [OF t2(3)] unfolding looked_def by auto
          moreover have "tj_index_of t2 x = tj_index_of t x" using xs ok(3) search_extD(2) [OF t2(3)] by blast
          ultimately show ?thesis by simp
        qed
      qed
    qed
    then show ?thesis unfolding t2(1) using r search_ext_trans [OF t2(3) r(2)] by blast
  qed
  show ?case
  proof (cases rule: tj_targets_cases [of w t])
    case new
    let ?t1 = "tj_visit k w t"
    have eq: "tj_targets k v (w # ws) t = tj_targets k v ws (tj_lower v (tj_low_of ?t1 w) ?t1)" by (rule tj_targets_new [OF new])
    have "tj_cyclic ?t1 \<subseteq> tj_cyclic (tj_targets k v (w # ws) t)"
      using targets_frame [of "tj_lower v (tj_low_of ?t1 w) ?t1" k v ws] unfolding eq frame_ok_def by simp
    with Cons.prems(5) have "tj_cyclic ?t1 = {}" by blast
    then have "search_ok N m ?t1 \<and> search_ext {} t ?t1 \<and> visited w t ?t1" using Cons.prems new by (intro IH) auto
    then have v: "search_ok N m ?t1" "search_ext {} t ?t1" "visited w t ?t1" by blast+
    have w: "w \<in> numbered ?t1" "tj_index_of ?t1 w = length (tj_index t)" using v(3) unfolding visited_def by blast+
    have "m \<le> tj_low_of ?t1 w" using search_okD(9) [OF v(1) w(1)] w(2) ok(7) by simp
    then show ?thesis
      using v vn search_extD [OF v(2)] w(1) new ok(3)
      by (intro rest [OF eq] search_ok_lower search_ext_lower [of "{}", simplified]) auto
  next
    case on
    have "m \<le> tj_index_of t w" using ok(1,8) on(2) by simp
    then show ?thesis using Cons.prems vn on
      by (intro rest [OF tj_targets_on [OF on]] search_ok_lower search_ext_lower [of "{}", simplified]) auto
  next
    case off
    then show ?thesis using Cons.prems ok(1) by (intro rest [OF tj_targets_off [OF off]]) auto
  qed
qed

lemma search_ok_enter:
  assumes "search_ok N m t" "v \<in> N - numbered t"
  shows "search_ok N m (tj_enter v t)" "length (tj_index (tj_enter v t)) = Suc (length (tj_index t))"
proof -
  show len: "length (tj_index (tj_enter v t)) = Suc (length (tj_index t))"
    using assms(2) by (simp add: length_tbl_put_new numbered_None)
  have "back_edges (tj_enter v t) = back_edges t" by (simp add: back_edges_def)
  then show "search_ok N m (tj_enter v t)"
    using assms unfolding search_ok_def len by (auto simp: less_SucI)
qed

text \<open>Settling a node: either it was not popped, or it was popped alone, with all its targets done.\<close>

lemma settle_silent:
  assumes t2: "search_ok N m t2" and st: "tj_stack t2 = u @ v # s" "v \<notin> set u" and n: "tj_index_of t2 v = n"
    and old: "\<forall>w \<in> set s. tj_index_of t2 w < n"
    and seen: "\<forall>w \<in> set (tj_next t2 v). w \<in> numbered t2 \<and> (w \<in> set s \<longrightarrow> tj_low_of t2 v \<le> tj_index_of t2 w)"
    and silent: "tj_cyclic (tj_settle v t2) = {}"
  shows "search_ok N m (tj_settle v t2)"
    and "tj_low_of t2 v = tj_index_of t2 v \<Longrightarrow> tj_stack (tj_settle v t2) = s \<and> u = []"
    and "tj_low_of t2 v \<noteq> tj_index_of t2 v \<Longrightarrow> tj_stack (tj_settle v t2) = tj_stack t2"
proof -
  show "tj_stack (tj_settle v t2) = tj_stack t2" if "tj_low_of t2 v \<noteq> tj_index_of t2 v"
    using that by (simp add: tj_settle_def)
  have pop: "u = [] \<and> v \<notin> set (tj_next t2 v) \<and> tj_stack (tj_settle v t2) = s \<and> tj_on_stack (tj_settle v t2) = tj_on_stack t2 - {v}"
    if low: "tj_low_of t2 v = tj_index_of t2 v"
  proof -
    let ?s1 = "\<lambda>c. t2\<lparr>tj_stack := s, tj_on_stack := tj_on_stack t2 - set (u @ [v]), tj_cyclic := c\<rparr>"
    have e: "tj_settle v t2 = ?s1 (if 1 < length (u @ [v]) \<or> v \<in> set (tj_next t2 v) then tj_cyclic t2 \<union> set (u @ [v]) else tj_cyclic t2)"
      using low by (simp add: tj_settle_def st pop_until_split Let_def)
    with silent have "u = [] \<and> v \<notin> set (tj_next t2 v)" by (auto split: if_splits)
    with e show ?thesis by simp
  qed
  then show "tj_stack (tj_settle v t2) = s \<and> u = []" if "tj_low_of t2 v = tj_index_of t2 v" using that by blast
  show "search_ok N m (tj_settle v t2)"
  proof (cases "tj_low_of t2 v = tj_index_of t2 v")
    case False
    then have "tj_settle v t2 = t2" by (simp add: tj_settle_def)
    with t2 show ?thesis by simp
  next
    case True
    note p = pop [OF True]
    note ok = search_okD [OF t2]
    have stack: "tj_stack t2 = v # s" using st(1) p by simp
    have vacc: "v \<in> Wellfounded.acc (back_edges t2)"
    proof (rule accI)
      fix w assume "(w, v) \<in> back_edges t2"
      then have w: "w \<in> set (tj_next t2 v)" by (simp add: back_edges_def)
      then have "w \<in> numbered t2" "w \<noteq> v" using seen p by auto
      moreover have "w \<notin> set s"
      proof
        assume "w \<in> set s"
        then have "tj_low_of t2 v \<le> tj_index_of t2 w" "tj_index_of t2 w < n" using seen old w by auto
        then show False using True n by simp
      qed
      ultimately show "w \<in> Wellfounded.acc (back_edges t2)" using ok(10) stack by auto
    qed
    have b: "back_edges (tj_settle v t2) = back_edges t2" by (simp add: back_edges_def)
    show ?thesis
      using t2 p vacc ok(2) unfolding search_ok_def b stack by auto
  qed
qed

lemma visit_spec:
  assumes "finite N"
  shows "search_ok N m t \<Longrightarrow> v \<in> N - numbered t \<Longrightarrow> card (N - numbered t) \<le> k \<Longrightarrow> tj_cyclic (tj_visit k v t) = {}
    \<Longrightarrow> search_ok N m (tj_visit k v t) \<and> search_ext {} t (tj_visit k v t) \<and> visited v t (tj_visit k v t)"
proof (induction k arbitrary: v t)
  case 0
  then have "N - numbered t = {}" using assms by simp
  with 0 show ?case by blast
next
  case (Suc k)
  let ?t1 = "tj_enter v t" and ?n = "length (tj_index t)"
  let ?t2 = "tj_targets k v (tj_next ?t1 v) ?t1"
  let ?t3 = "tj_settle v ?t2"
  note ok = search_okD [OF Suc.prems(1)]
  have eq: "tj_visit (Suc k) v t = ?t3" by (simp add: Let_def)
  note ok1 = search_ok_enter [OF Suc.prems(1,2)]
  have "N - numbered ?t1 = (N - numbered t) - {v}" by auto
  then have "card (N - numbered ?t1) \<le> k" using Suc.prems(2,3) assms by simp
  moreover have "tj_cyclic ?t2 = {}" using Suc.prems(4) tj_settle_cyclic [of ?t2 v] unfolding eq by blast
  ultimately have "search_ok N m ?t2 \<and> search_ext {v} ?t1 ?t2 \<and> looked v (tj_next ?t1 v) ?t1 ?t2"
    using Suc.IH ok1(1) search_okD(5) [OF ok1(1), of v] by (intro targets_spec [OF _ assms]) auto
  then have t2: "search_ok N m ?t2" "search_ext {v} ?t1 ?t2" "looked v (tj_next ?t1 v) ?t1 ?t2" by blast+
  obtain u where u: "tj_stack ?t2 = u @ v # tj_stack t" "set u \<inter> numbered ?t1 = {}"
    using t2(2) unfolding search_ext_def by auto
  then have vu: "v \<notin> set u" by simp
  have vs: "v \<notin> set (tj_stack t)" using Suc.prems(2) ok(3) by blast
  have ix: "tj_index_of ?t2 v = ?n" using search_extD(2) [OF t2(2), of v] by simp
  have old: "tj_index_of ?t2 w = tj_index_of t w" if "w \<in> numbered t" for w
    using that search_extD(2) [OF t2(2), of w] Suc.prems(2) by auto
  have below: "\<forall>w \<in> set (tj_stack t). tj_index_of ?t2 w < ?n" using old ok(3,6) by auto
  have nx: "tj_next ?t2 v = tj_next ?t1 v"
    using targets_frame [of ?t1 k v "tj_next ?t1 v"] by (simp add: frame_ok_def tj_next_def)
  have seen: "\<forall>w \<in> set (tj_next ?t2 v). w \<in> numbered ?t2 \<and> (w \<in> set (tj_stack t) \<longrightarrow> tj_low_of ?t2 v \<le> tj_index_of ?t2 w)"
  proof
    fix w assume w: "w \<in> set (tj_next ?t2 v)"
    then have "w \<in> numbered ?t2" "w \<in> set (tj_stack ?t1) \<longrightarrow> tj_low_of ?t2 v \<le> tj_index_of ?t1 w"
      using t2(3) nx unfolding looked_def by auto
    moreover have "w \<in> set (tj_stack t) \<Longrightarrow> tj_index_of ?t1 w = tj_index_of ?t2 w" using vs old ok(3) by auto
    ultimately show "w \<in> numbered ?t2 \<and> (w \<in> set (tj_stack t) \<longrightarrow> tj_low_of ?t2 v \<le> tj_index_of ?t2 w)" by auto
  qed
  note settle = settle_silent [OF t2(1) u(1) vu ix below seen Suc.prems(4) [unfolded eq]]
  have stack: "tj_stack ?t3 = tj_stack t \<or> (tj_stack ?t3 = (u @ [v]) @ tj_stack t \<and> tj_low_of ?t2 v \<noteq> tj_index_of ?t2 v)"
    using settle(2,3) u(1) by auto
  have "search_ext {} t ?t3"
    unfolding search_ext_def
  proof (intro conjI ballI)
    show "numbered t \<subseteq> numbered ?t3" using search_extD(1) [OF t2(2)] by auto
    show "length (tj_index t) \<le> length (tj_index ?t3)" using t2(2) ok1(2) unfolding search_ext_def by simp
    show "tj_index_of ?t3 w = tj_index_of t w" if "w \<in> numbered t" for w using old that by simp
    show "tj_low_of ?t3 w = tj_low_of t w" if "w \<in> numbered t - {}" for w
      using that search_extD(3) [OF t2(2), of w] Suc.prems(2) by auto
    show "\<exists>u. tj_stack ?t3 = u @ tj_stack t \<and> set u \<inter> numbered t = {}"
    proof (cases "tj_stack ?t3 = tj_stack t")
      case False
      with stack have "tj_stack ?t3 = (u @ [v]) @ tj_stack t" by blast
      moreover have "set (u @ [v]) \<inter> numbered t = {}" using u(2) Suc.prems(2) by auto
      ultimately show ?thesis by blast
    qed simp
  qed
  moreover have "visited v t ?t3"
    using stack ix search_extD(1) [OF t2(2)] t2(3) unfolding visited_def looked_def by auto
  ultimately show ?case unfolding eq using settle(1) by blast
qed

subsection \<open>The search as a whole\<close>

lemma root_visit:
  assumes "finite N" "search_ok N 0 t" "tj_stack t = []" "v \<in> N - numbered t" "card (N - numbered t) \<le> k" "tj_cyclic (tj_visit k v t) = {}"
  shows "search_ok N 0 (tj_visit k v t)" "tj_stack (tj_visit k v t) = []" "insert v (numbered t) \<subseteq> numbered (tj_visit k v t)"
proof -
  let ?n = "length (tj_index t)" and ?t' = "tj_visit k v t"
  have "search_ok N ?n t" using assms(2,3) unfolding search_ok_def by (auto dest: leD)
  from visit_spec [OF assms(1) this assms(4-6)]
  have r: "search_ok N ?n ?t'" "search_ext {} t ?t'" "visited v t ?t'" by blast+
  have "tj_index_of ?t' v = ?n" "v \<in> numbered ?t'" "tj_low_of ?t' v \<le> ?n" using r(3) unfolding visited_def by auto
  moreover from this have "?n \<le> tj_low_of ?t' v" using search_okD(9) [OF r(1)] by simp
  ultimately show "tj_stack ?t' = []" using r(3) assms(3) unfolding visited_def by auto
  show "search_ok N 0 ?t'" using visit_spec [OF assms(1,2,4-6)] by blast
  show "insert v (numbered t) \<subseteq> numbered ?t'" using search_extD(1) [OF r(2)] \<open>v \<in> numbered ?t'\<close> by blast
qed

text \<open>Without a cycle every search is silent: a node on the stack reaches the current one, so no target is on it.\<close>

definition edges_are :: "(string \<times> string) set \<Rightarrow> tarjan \<Rightarrow> bool" where
  "edges_are E t \<longleftrightarrow> (\<forall>a. set (tj_next t a) = {b. (a, b) \<in> E})"

lemma edges_are_frame: "frame_ok t t' \<Longrightarrow> edges_are E t' = edges_are E t"
  by (simp add: edges_are_def frame_ok_def tj_next_def)

lemma acyclic_targets:
  assumes IH: "\<And>w t. search_ok N 0 t \<Longrightarrow> edges_are E t \<Longrightarrow> w \<in> N - numbered t \<Longrightarrow> card (N - numbered t) \<le> k \<Longrightarrow> tj_cyclic t = {}
      \<Longrightarrow> \<forall>x \<in> set (tj_stack t). (x, w) \<in> E\<^sup>+
      \<Longrightarrow> tj_cyclic (tj_visit k w t) = {} \<and> tj_stack (tj_visit k w t) = tj_stack t \<and> tj_low_of (tj_visit k w t) w = length (tj_index t)"
    and N: "finite N" and acyclic: "acyclic E"
  shows "search_ok N 0 t \<Longrightarrow> edges_are E t \<Longrightarrow> v \<in> set (tj_stack t) \<Longrightarrow> \<forall>x \<in> set (tj_stack t). (x, v) \<in> E\<^sup>*
    \<Longrightarrow> \<forall>w \<in> set ws. (v, w) \<in> E \<Longrightarrow> card (N - numbered t) \<le> k \<Longrightarrow> tj_cyclic t = {} \<Longrightarrow> tj_low_of t v = tj_index_of t v
    \<Longrightarrow> tj_cyclic (tj_targets k v ws t) = {} \<and> tj_stack (tj_targets k v ws t) = tj_stack t
      \<and> tj_low_of (tj_targets k v ws t) v = tj_index_of t v"
proof (induction ws arbitrary: t)
  case (Cons w ws)
  note ok = search_okD [OF Cons.prems(1)]
  have vn: "v \<in> numbered t" using ok(3) Cons.prems(3) by blast
  have wN: "w \<in> N" using Cons.prems(2,5) ok(5) [of v] by (auto simp: edges_are_def)
  show ?case
  proof (cases rule: tj_targets_cases [of w t])
    case new
    let ?t1 = "tj_visit k w t" and ?t2 = "tj_lower v (tj_low_of (tj_visit k w t) w) (tj_visit k w t)"
    have "\<forall>x \<in> set (tj_stack t). (x, w) \<in> E\<^sup>+" using Cons.prems(4,5) by (meson list.set_intros(1) rtrancl_into_trancl1)
    then have s: "tj_cyclic ?t1 = {}" "tj_stack ?t1 = tj_stack t" "tj_low_of ?t1 w = length (tj_index t)"
      using IH [OF Cons.prems(1,2)] Cons.prems(6,7) new wN by auto
    have "w \<in> N - numbered t" using wN new by blast
    from visit_spec [OF N Cons.prems(1) this Cons.prems(6) s(1)]
    have v: "search_ok N 0 ?t1" "search_ext {} t ?t1" by blast+
    have low: "tj_low_of ?t1 v = tj_index_of t v" "tj_index_of t v < length (tj_index t)" "tj_index_of ?t1 v = tj_index_of t v"
      using search_extD(2,3) [OF v(2), of v] vn Cons.prems(8) ok(6) by auto
    have sub: "card (N - numbered ?t1) \<le> card (N - numbered t)"
      using search_extD(1) [OF v(2)] N by (intro card_mono) auto
    have "tj_cyclic (tj_targets k v ws ?t2) = {} \<and> tj_stack (tj_targets k v ws ?t2) = tj_stack ?t2
        \<and> tj_low_of (tj_targets k v ws ?t2) v = tj_index_of ?t2 v"
    proof (rule Cons.IH)
      show "search_ok N 0 ?t2" using v vn search_extD(1) [OF v(2)] by (intro search_ok_lower) auto
      show "edges_are E ?t2" using edges_are_frame [OF frame_ok_lower [OF visit_frame]] Cons.prems(2) by blast
    qed (use Cons.prems s low sub in \<open>auto simp: min_def\<close>)
    then show ?thesis unfolding tj_targets_new [OF new] using s low by simp
  next
    case on
    then have "(w, v) \<in> E\<^sup>*" using Cons.prems(4) ok(1) by blast
    then have "(v, v) \<in> E\<^sup>+" using Cons.prems(5) by (meson list.set_intros(1) rtrancl_into_trancl2)
    with acyclic show ?thesis by (simp add: acyclic_def)
  next
    case off
    show ?thesis unfolding tj_targets_off [OF off] using Cons.prems by (intro Cons.IH) auto
  qed
qed simp

lemma acyclic_visit:
  assumes "finite N" "acyclic E"
  shows "search_ok N 0 t \<Longrightarrow> edges_are E t \<Longrightarrow> v \<in> N - numbered t \<Longrightarrow> card (N - numbered t) \<le> k \<Longrightarrow> tj_cyclic t = {}
      \<Longrightarrow> \<forall>x \<in> set (tj_stack t). (x, v) \<in> E\<^sup>+
      \<Longrightarrow> tj_cyclic (tj_visit k v t) = {} \<and> tj_stack (tj_visit k v t) = tj_stack t \<and> tj_low_of (tj_visit k v t) v = length (tj_index t)"
proof (induction k arbitrary: v t)
  case 0
  then have "N - numbered t = {}" using assms(1) by simp
  with 0 show ?case by blast
next
  case (Suc k)
  let ?t1 = "tj_enter v t"
  let ?t2 = "tj_targets k v (tj_next ?t1 v) ?t1"
  have eq: "tj_visit (Suc k) v t = tj_settle v ?t2" by (simp add: Let_def)
  note ok1 = search_ok_enter [OF Suc.prems(1,3)]
  have "N - numbered ?t1 = (N - numbered t) - {v}" by auto
  then have card: "card (N - numbered ?t1) \<le> k" using Suc.prems(3,4) assms(1) by simp
  have e1: "edges_are E ?t1" using Suc.prems(2) by (simp add: edges_are_def)
  have "tj_cyclic ?t2 = {} \<and> tj_stack ?t2 = tj_stack ?t1 \<and> tj_low_of ?t2 v = tj_index_of ?t1 v"
    using Suc.prems card e1 by (intro acyclic_targets [OF Suc.IH assms ok1(1)]) (auto simp: edges_are_def intro: trancl_into_rtrancl)
  then have t2: "tj_cyclic ?t2 = {}" "tj_stack ?t2 = v # tj_stack t" "tj_low_of ?t2 v = length (tj_index t)" by auto
  have "v \<in> set (tj_stack ?t1)" by simp
  from targets_spec [OF visit_spec [OF assms(1)] assms(1) ok1(1) this search_okD(5) [OF ok1(1)] card t2(1)]
  have "search_ext {v} ?t1 ?t2" by blast
  then have ix: "tj_index_of ?t2 v = length (tj_index t)" using search_extD(2) [of "{v}" ?t1 ?t2 v] by simp
  have "(v, v) \<notin> E" using assms(2) by (auto simp: acyclic_def)
  moreover have "edges_are E ?t2" using edges_are_frame [OF targets_frame] e1 by blast
  ultimately have "v \<notin> set (tj_next ?t2 v)" by (simp add: edges_are_def)
  then have "tj_cyclic (tj_settle v ?t2) = {} \<and> tj_stack (tj_settle v ?t2) = tj_stack t" using t2 ix by (simp add: tj_settle_def)
  moreover have "tj_low_of (tj_settle v ?t2) v = length (tj_index t)" using t2(3) by simp
  ultimately show ?case unfolding eq by blast
qed

lemma tj_next_start: "tj_next (tarjan_start main) v = map snd (filter (\<lambda>e. fst e = v) main)"
proof -
  have "(case tbl_get (fold (\<lambda>(a, b) m. tbl_put a ((case tbl_get m a of Some l \<Rightarrow> l | None \<Rightarrow> []) @ [b]) m) main m) v of Some l \<Rightarrow> l | None \<Rightarrow> [])
      = (case tbl_get m v of Some l \<Rightarrow> l | None \<Rightarrow> []) @ map snd (filter (\<lambda>e. fst e = v) main)" for m
    by (induction main arbitrary: m) (auto split: option.split)
  then show ?thesis by (simp add: tj_next_def tarjan_start_def)
qed

lemma start_ok:
  assumes "\<forall>(a, b) \<in> set main. a \<in> N \<and> b \<in> N"
  shows "search_ok N 0 (tarjan_start main)" "edges_are (set main) (tarjan_start main)" "tj_stack (tarjan_start main) = []"
    "tj_cyclic (tarjan_start main) = {}" "numbered (tarjan_start main) = {}"
proof -
  show n: "numbered (tarjan_start main) = {}" "tj_stack (tarjan_start main) = []" "tj_cyclic (tarjan_start main) = {}"
    by (simp_all add: numbered_def tarjan_start_def)
  show "edges_are (set main) (tarjan_start main)" by (auto simp: edges_are_def tj_next_start image_iff)
  have "tj_on_stack (tarjan_start main) = {}" by (simp add: tarjan_start_def)
  then show "search_ok N 0 (tarjan_start main)"
    using assms n by (auto simp: search_ok_def tj_next_start)
qed

definition root_step :: "nat \<Rightarrow> string \<Rightarrow> tarjan \<Rightarrow> tarjan" where
  "root_step k v t = (if tbl_get (tj_index t) v = None then tj_visit k v t else t)"

lemma root_frame: "frame_ok t (fold (root_step k) vs t)"
proof (induction vs arbitrary: t)
  case (Cons v vs)
  have "frame_ok t (root_step k v t)" by (auto simp: root_step_def visit_frame) (simp add: frame_ok_def)
  from frame_ok_trans [OF this Cons] show ?case by simp
qed (simp add: frame_ok_def)

lemma roots_silent:
  assumes "finite N" "card N \<le> k"
  shows "search_ok N 0 t \<Longrightarrow> tj_stack t = [] \<Longrightarrow> set vs \<subseteq> N \<Longrightarrow> tj_cyclic (fold (root_step k) vs t) = {}
    \<Longrightarrow> search_ok N 0 (fold (root_step k) vs t) \<and> tj_stack (fold (root_step k) vs t) = []
      \<and> set vs \<union> numbered t \<subseteq> numbered (fold (root_step k) vs t)"
proof (induction vs arbitrary: t)
  case (Cons v vs)
  show ?case
  proof (cases "v \<in> numbered t")
    case True
    then have "root_step k v t = t" by (simp add: root_step_def numbered_None)
    then show ?thesis using Cons True by auto
  next
    case False
    then have r: "root_step k v t = tj_visit k v t" by (simp add: root_step_def numbered_None)
    have "tj_cyclic (tj_visit k v t) = {}"
      using Cons.prems(4) root_frame [of "tj_visit k v t" k vs] by (simp add: r frame_ok_def)
    moreover have "card (N - numbered t) \<le> k" using assms by (meson Diff_subset card_mono le_trans)
    ultimately have "search_ok N 0 (tj_visit k v t)" "tj_stack (tj_visit k v t) = []" "insert v (numbered t) \<subseteq> numbered (tj_visit k v t)"
      using root_visit [OF assms(1) Cons.prems(1,2)] False Cons.prems(3) by auto
    with Cons.IH [of "tj_visit k v t"] Cons.prems(3,4) show ?thesis by (simp add: r) blast
  qed
qed simp

lemma roots_acyclic:
  assumes "finite N" "card N \<le> k" "acyclic E"
  shows "search_ok N 0 t \<Longrightarrow> edges_are E t \<Longrightarrow> tj_stack t = [] \<Longrightarrow> set vs \<subseteq> N \<Longrightarrow> tj_cyclic t = {} \<Longrightarrow> tj_cyclic (fold (root_step k) vs t) = {}"
proof (induction vs arbitrary: t)
  case (Cons v vs)
  show ?case
  proof (cases "v \<in> numbered t")
    case True
    then have "root_step k v t = t" by (simp add: root_step_def numbered_None)
    then show ?thesis using Cons by simp
  next
    case False
    then have r: "root_step k v t = tj_visit k v t" by (simp add: root_step_def numbered_None)
    have c: "card (N - numbered t) \<le> k" using assms by (meson Diff_subset card_mono le_trans)
    have v: "v \<in> N - numbered t" using False Cons.prems(4) by simp
    from acyclic_visit [OF assms(1,3) Cons.prems(1,2) v c Cons.prems(5)] Cons.prems(3)
    have s: "tj_cyclic (tj_visit k v t) = {}" "tj_stack (tj_visit k v t) = []" by auto
    from root_visit(1) [OF assms(1) Cons.prems(1,3) v c s(1)] have "search_ok N 0 (tj_visit k v t)" .
    moreover have "edges_are E (tj_visit k v t)" using edges_are_frame [OF visit_frame] Cons.prems(2) by blast
    ultimately show ?thesis using Cons.IH s Cons.prems(4) by (simp add: r)
  qed
qed simp

lemma tarjan_run_roots: "tarjan_run order main = fold (root_step (length order)) order (tarjan_start main)"
  unfolding tarjan_run_def root_step_def ..

text \<open>Nothing is found exactly when there is no cycle.\<close>

lemma tarjan_finds_cycles:
  assumes "\<forall>(a, b) \<in> set main. a \<in> set order \<and> b \<in> set order"
  shows "tj_cyclic (tarjan_run order main) = {} \<longleftrightarrow> acyclic (set main)"
proof
  let ?N = "set order"
  note start = start_ok [OF assms]
  assume silent: "tj_cyclic (tarjan_run order main) = {}"
  let ?t = "tarjan_run order main"
  have t: "search_ok ?N 0 ?t" "tj_stack ?t = []" "?N \<subseteq> numbered ?t"
    using roots_silent [OF finite_set card_length start(1,3), of order] silent
    by (auto simp: tarjan_run_roots)
  have "frame_ok (tarjan_start main) ?t" unfolding tarjan_run_roots by (rule root_frame)
  then have "edges_are (set main) ?t" using edges_are_frame start(2) by blast
  then have b: "back_edges ?t = (set main)\<inverse>" by (auto simp: back_edges_def edges_are_def)
  have "x \<in> Wellfounded.acc ((set main)\<inverse>)" for x
  proof (cases "x \<in> ?N")
    case True
    then show ?thesis using search_okD(10) [OF t(1)] t(2,3) unfolding b by auto
  next
    case False
    show ?thesis by (rule accI) (use False assms in auto)
  qed
  then have "wf ((set main)\<inverse>)" by (intro acc_wfI) blast
  then have "acyclic ((set main)\<inverse>)" by (rule wf_acyclic)
  then show "acyclic (set main)" by (simp only: acyclic_converse)
next
  assume "acyclic (set main)"
  then show "tj_cyclic (tarjan_run order main) = {}"
    unfolding tarjan_run_roots using start_ok [OF assms]
    by (intro roots_acyclic [OF finite_set card_length]) auto
qed

text \<open>Whatever is found is a node of the graph.\<close>

definition within :: "string set \<Rightarrow> tarjan \<Rightarrow> bool" where
  "within N t \<longleftrightarrow> set (tj_stack t) \<subseteq> N \<and> tj_cyclic t \<subseteq> N \<and> (\<forall>v. set (tj_next t v) \<subseteq> N)"

lemma pop_until_sets: "pop_until v s = (c, r) \<Longrightarrow> set c \<subseteq> set s \<and> set r \<subseteq> set s"
  by (induction s arbitrary: c r) (force split: if_splits prod.splits)+

lemma within_settle: "within N t \<Longrightarrow> within N (tj_settle v t)"
  by (auto simp: within_def tj_settle_def Let_def tj_next_def split: prod.split dest!: pop_until_sets)

lemma within_lower: "within N t \<Longrightarrow> within N (tj_lower v n t)"
  by (simp add: within_def)

lemma within_targets:
  assumes "\<And>w t. within N t \<Longrightarrow> w \<in> N \<Longrightarrow> within N (tj_visit k w t)"
  shows "within N t \<Longrightarrow> set ws \<subseteq> N \<Longrightarrow> within N (tj_targets k v ws t)"
proof (induction ws arbitrary: t)
  case (Cons w ws)
  show ?case
  proof (cases rule: tj_targets_cases [of w t])
    case new
    show ?thesis unfolding tj_targets_new [OF new] using Cons.prems by (intro Cons.IH within_lower assms) auto
  next
    case on
    show ?thesis unfolding tj_targets_on [OF on] using Cons.prems by (intro Cons.IH within_lower) auto
  next
    case off
    show ?thesis unfolding tj_targets_off [OF off] using Cons.prems by (intro Cons.IH) auto
  qed
qed simp

lemma within_visit: "within N t \<Longrightarrow> v \<in> N \<Longrightarrow> within N (tj_visit k v t)"
proof (induction k arbitrary: v t)
  case (Suc k)
  have "within N (tj_enter v t)" using Suc.prems by (simp add: within_def)
  moreover from this have "set (tj_next (tj_enter v t) v) \<subseteq> N" unfolding within_def by blast
  ultimately show ?case unfolding tj_visit.simps Let_def by (intro within_settle within_targets Suc.IH)
qed simp

lemma within_roots: "within N t \<Longrightarrow> set vs \<subseteq> N \<Longrightarrow> within N (fold (root_step k) vs t)"
  by (induction vs arbitrary: t) (auto simp: root_step_def within_visit)

lemma cyclic_nodes_Nil_iff:
  assumes "\<forall>(a, b) \<in> set main. a \<in> set order \<and> b \<in> set order"
  shows "cyclic_nodes order main = [] \<longleftrightarrow> acyclic (set main)"
proof -
  have "within (set order) (tarjan_start main)"
    using start_ok [OF assms] search_okD(5) by (simp add: within_def)
  then have "tj_cyclic (tarjan_run order main) \<subseteq> set order"
    unfolding tarjan_run_roots using within_roots [of "set order"] unfolding within_def by blast
  then have "cyclic_nodes order main = [] \<longleftrightarrow> tj_cyclic (tarjan_run order main) = {}"
    by (auto simp: cyclic_nodes_def filter_empty_conv)
  with tarjan_finds_cycles [OF assms] show ?thesis by simp
qed

end
