(* ===== verification/ScenarioValidation.thy ===== *)
theory ScenarioValidation
  imports ScenarioGraph ScenarioCycles
begin

text \<open>
  The validation of a scenario, \<^verbatim>\<open>scenarios/validation.rs\<close>: the list of issues a graph has against a
  catalogue, in the order the checks find them, none twice.

  Hash maps are tables (association lists); hash sets that are only asked for membership are lists or
  sets.
\<close>

subsection \<open>Issues and the graph under check\<close>

type_synonym issues = "scenario_issue list"

definition push_issue :: "scenario_issue \<Rightarrow> issues \<Rightarrow> issues" where
  "push_issue i issues = (if i \<in> set issues then issues else issues @ [i])"

definition push_node :: "scenario_issue_rule \<Rightarrow> string \<Rightarrow> issues \<Rightarrow> issues" where
  "push_node r i = push_issue (issue_node r i)"

record vgraph =
  vg_order :: "scenario_node list"
  vg_nodes :: "scenario_node table"
  vg_specs :: "node_spec table"

definition vgraph_add :: "catalogue \<Rightarrow> scenario_node \<Rightarrow> vgraph \<times> issues \<Rightarrow> vgraph \<times> issues" where
  "vgraph_add cat n gi = (case gi of (g, issues) \<Rightarrow>
     if tbl_get (vg_nodes g) (scn_id n) \<noteq> None then (g, push_node DuplicateNode (scn_id n) issues)
     else
       let g1 = g\<lparr>vg_nodes := tbl_put (scn_id n) n (vg_nodes g), vg_order := vg_order g @ [n]\<rparr> in
       (case catalogue_spec cat (scn_type n) of
          Some s \<Rightarrow> (g1\<lparr>vg_specs := tbl_put (scn_id n) s (vg_specs g1)\<rparr>, issues)
        | None \<Rightarrow> (g1, push_node UnknownNodeType (scn_id n) issues)))"

definition vgraph_new :: "scenario_graph \<Rightarrow> catalogue \<Rightarrow> issues \<Rightarrow> vgraph \<times> issues" where
  "vgraph_new graph cat issues = fold (vgraph_add cat) (sg_nodes graph) (\<lparr>vg_order = [], vg_nodes = [], vg_specs = []\<rparr>, issues)"

definition vg_has :: "vgraph \<Rightarrow> string \<Rightarrow> bool" where
  "vg_has g i \<longleftrightarrow> tbl_get (vg_nodes g) i \<noteq> None"

definition vg_spec :: "vgraph \<Rightarrow> string \<Rightarrow> node_spec option" where
  "vg_spec g i = tbl_get (vg_specs g) i"

definition vg_is_trunk :: "vgraph \<Rightarrow> string \<Rightarrow> bool" where
  "vg_is_trunk g i = (case vg_spec g i of None \<Rightarrow> True | Some s \<Rightarrow> ns_trunk s)"

definition vg_is_trigger :: "vgraph \<Rightarrow> string \<Rightarrow> bool" where
  "vg_is_trigger g i = (case vg_spec g i of None \<Rightarrow> False | Some s \<Rightarrow> ns_trigger s \<noteq> None)"

definition vg_is_enabled :: "vgraph \<Rightarrow> string \<Rightarrow> bool" where
  "vg_is_enabled g i = (case tbl_get (vg_nodes g) i of None \<Rightarrow> False | Some n \<Rightarrow> \<not> is_disabled n)"

definition vg_missing :: "vgraph \<Rightarrow> string list \<Rightarrow> issues \<Rightarrow> bool \<times> issues" where
  "vg_missing g ids issues =
     fold (\<lambda>i (missing, is'). if \<not> vg_has g i then (True, push_node UnknownNode i is') else (missing, is')) ids (False, issues)"

subsection \<open>Edges and attachments\<close>

definition main_step ::
  "vgraph \<Rightarrow> scenario_edge \<Rightarrow> scenario_edge list \<times> (string \<times> string) list \<times> issues
    \<Rightarrow> scenario_edge list \<times> (string \<times> string) list \<times> issues"
where
  "main_step g e acc = (case acc of (seen, main, issues) \<Rightarrow>
     (case vg_missing g [se_from e, se_to e] issues of (missing, is1) \<Rightarrow>
        if missing then (seen, main, is1)
        else if e \<in> set seen then (seen, main, push_node DuplicateEdge (se_from e) is1)
        else if \<not> vg_is_trunk g (se_from e) then (e # seen, main, push_node InvalidEdge (se_from e) is1)
        else if \<not> vg_is_trunk g (se_to e) \<or> vg_is_trigger g (se_to e) then (e # seen, main, push_node InvalidEdge (se_to e) is1)
        else (e # seen, main @ [(se_from e, se_to e)], is1)))"

definition main_edges :: "scenario_graph \<Rightarrow> vgraph \<Rightarrow> issues \<Rightarrow> (string \<times> string) list \<times> issues" where
  "main_edges graph g issues = snd (fold (main_step g) (sg_edges graph) ([], [], issues))"

definition attach_step ::
  "vgraph \<Rightarrow> (string \<times> string) list \<Rightarrow> scenario_attachment \<Rightarrow> scenario_attachment list \<times> issues \<Rightarrow> scenario_attachment list \<times> issues"
where
  "attach_step g main a acc = (case acc of (accepted, issues) \<Rightarrow>
     let parent = sa_parent a; child = sa_child a in
     (case vg_missing g [parent, child] issues of (missing, is1) \<Rightarrow>
        if missing then (accepted, is1)
        else if parent = child then (accepted, push_node Cycle child is1)
        else if (case vg_spec g parent of None \<Rightarrow> False | Some s \<Rightarrow> spec_slot s (sa_slot a) = None)
          then (accepted, push_issue (issue_slot UnsupportedSlot parent (sa_slot a)) is1)
        else if (case vg_spec g child of None \<Rightarrow> False | Some s \<Rightarrow> sa_slot a \<notin> set (ns_fills s))
          then (accepted, push_issue (issue_slot SlotMismatch child (sa_slot a)) is1)
        else if list_ex (\<lambda>other. sa_child other = child) accepted then (accepted, push_node MultipleParents child is1)
        else (accepted @ [a],
              if list_ex (\<lambda>(from', to'). from' = child \<or> to' = child) main then push_node InvalidEdge child is1 else is1)))"

fun parent_loop :: "nat \<Rightarrow> string table \<Rightarrow> string \<Rightarrow> string \<Rightarrow> bool" where
  "parent_loop 0 parent_of start current = False"
| "parent_loop (Suc k) parent_of start current =
     (case tbl_get parent_of current of
        None \<Rightarrow> False
      | Some parent \<Rightarrow> if parent = start then True else parent_loop k parent_of start parent)"

definition scenario_attachments ::
  "scenario_graph \<Rightarrow> vgraph \<Rightarrow> (string \<times> string) list \<Rightarrow> issues \<Rightarrow> scenario_attachment list \<times> issues"
where
  "scenario_attachments graph g main issues =
     (case fold (attach_step g main) (sg_attachments graph) ([], issues) of (accepted, is1) \<Rightarrow>
        let parent_of = fold (\<lambda>a. tbl_put (sa_child a) (sa_parent a)) accepted [] in
        (accepted, fold (\<lambda>n is'. if parent_loop (length parent_of) parent_of (scn_id n) (scn_id n)
                                  then push_node Cycle (scn_id n) is' else is') (vg_order g) is1))"

subsection \<open>The checks\<close>

definition filled_slots :: "vgraph \<Rightarrow> scenario_attachment list \<Rightarrow> string \<Rightarrow> scenario_slot \<Rightarrow> scenario_attachment list" where
  "filled_slots g attachments i slot =
     filter (\<lambda>a. sa_parent a = i \<and> sa_slot a = slot \<and> vg_is_enabled g (sa_child a)) attachments"

definition check_slot :: "vgraph \<Rightarrow> scenario_attachment list \<Rightarrow> string \<Rightarrow> slot_spec \<Rightarrow> issues \<Rightarrow> issues" where
  "check_slot g attachments i slot is0 =
     (let filled = length (filled_slots g attachments i (ss_slot slot));
          is1 = (if ss_required slot \<and> filled = 0 then push_issue (issue_slot MissingAttachment i (ss_slot slot)) is0 else is0);
          is2 = (if \<not> ss_multiple slot \<and> 1 < filled then push_issue (issue_slot TooManyAttachments i (ss_slot slot)) is1 else is1);
          kinds = map scn_type (List.map_filter (\<lambda>a. tbl_get (vg_nodes g) (sa_child a)) (filled_slots g attachments i SlotMemory)) in
      if ss_slot slot = SlotMemory \<and> \<not> distinct kinds then push_issue (issue_slot DuplicateKind i (ss_slot slot)) is2 else is2)"

definition check_slots :: "vgraph \<Rightarrow> scenario_attachment list \<Rightarrow> issues \<Rightarrow> issues" where
  "check_slots g attachments =
     fold (\<lambda>n issues. case vg_spec g (scn_id n) of
             None \<Rightarrow> issues
           | Some s \<Rightarrow> if is_disabled n then issues else fold (check_slot g attachments (scn_id n)) (ns_slots s) issues) (vg_order g)"

definition check_cycles :: "vgraph \<Rightarrow> (string \<times> string) list \<Rightarrow> issues \<Rightarrow> issues" where
  "check_cycles g main = fold (push_node Cycle) (cyclic_nodes (map scn_id (vg_order g)) main)"

definition is_missing :: "json option \<Rightarrow> bool" where
  "is_missing v = (case v of
     None \<Rightarrow> True
   | Some JNull \<Rightarrow> True
   | Some (JString s) \<Rightarrow> trim s = []
   | Some (JArray xs) \<Rightarrow> xs = []
   | Some _ \<Rightarrow> False)"

definition check_params :: "vgraph \<Rightarrow> scenario_attachment list \<Rightarrow> issues \<Rightarrow> issues" where
  "check_params g attachments =
     (let tools = map sa_child (filter (\<lambda>a. sa_slot a = SlotTool) attachments) in
      fold (\<lambda>n issues. case vg_spec g (scn_id n) of
              None \<Rightarrow> issues
            | Some s \<Rightarrow>
                if is_disabled n \<or> (scn_id n \<in> set tools \<and> ns_tool_key s \<noteq> None) then issues
                else fold (\<lambda>p is'. if is_missing (map_of (scn_params n) p) then push_issue (issue_param (scn_id n) p) is' else is')
                       (ns_required_params s) issues) (vg_order g))"

definition check_ports :: "scenario_graph \<Rightarrow> vgraph \<Rightarrow> issues \<Rightarrow> issues" where
  "check_ports graph g =
     fold (\<lambda>e issues.
       let is1 = (case vg_spec g (se_from e) of
                    None \<Rightarrow> issues
                  | Some s \<Rightarrow> if se_from_port e \<notin> set (ns_ports s) then push_issue (issue_port (se_from e) (se_from_port e)) issues else issues) in
       if vg_has g (se_to e) \<and> se_to_port e \<noteq> SCENARIO_MAIN_PORT then push_issue (issue_port (se_to e) (se_to_port e)) is1 else is1)
     (sg_edges graph)"

definition is_restricted_tool :: "string \<Rightarrow> bool" where
  "is_restricted_tool key = list_ex (\<lambda>p. starts_with p key) RESTRICTED_TOOL_PREFIXES"

definition tool_set_keys :: "scenario_node \<Rightarrow> string list" where
  "tool_set_keys n = string_items (map_of (scn_params n) TOOL_SET_PARAM)"

definition check_tools :: "vgraph \<Rightarrow> issues \<Rightarrow> issues" where
  "check_tools g =
     fold (\<lambda>n issues. if scn_type n \<noteq> TOOL_SET then issues
             else fold (\<lambda>k is'. if is_restricted_tool k then push_issue (issue_tool (scn_id n) k) is' else is') (tool_set_keys n) issues)
       (vg_order g)"

datatype dialog_need = DialogRequired | DialogPartial

definition dialog_need_of :: "scenario_node \<Rightarrow> dialog_need option" where
  "dialog_need_of n =
     (if scn_type n = MEMORY_WINDOW \<or> scn_type n = OUTPUT_CHAT_REPLY then Some DialogRequired
      else if scn_type n = MEMORY_FACTS then
        (case Option.bind (map_of (scn_params n) AREA_PARAM) as_str of
           Some area \<Rightarrow> if area = ''dialog'' then Some DialogRequired else if area = ''both'' then Some DialogPartial else None
         | None \<Rightarrow> None)
      else None)"

definition check_triggers :: "vgraph \<Rightarrow> issues \<Rightarrow> string list \<times> issues" where
  "check_triggers g issues =
     (let triggers = map scn_id (filter (\<lambda>n. vg_is_trigger g (scn_id n)) (vg_order g));
          is1 = (if triggers = [] then push_issue (issue_graph NoTrigger) issues else issues) in
      (triggers, fold (push_node MultipleTriggers) (drop 1 triggers) is1))"

definition check_dialog :: "vgraph \<Rightarrow> string list \<Rightarrow> issues \<Rightarrow> issues" where
  "check_dialog g triggers issues =
     (let chat = (case triggers of [] \<Rightarrow> False
                  | i # _ \<Rightarrow> (case tbl_get (vg_nodes g) i of None \<Rightarrow> False | Some n \<Rightarrow> scn_type n = TRIGGER_CHAT)) in
      if chat then issues
      else fold (\<lambda>n is'. if is_disabled n then is'
             else (case dialog_need_of n of
                     Some DialogRequired \<Rightarrow> push_node MissingDialog (scn_id n) is'
                   | Some DialogPartial \<Rightarrow> push_node LimitedDialog (scn_id n) is'
                   | None \<Rightarrow> is')) (vg_order g) issues)"

subsection \<open>Reachability\<close>

definition next_add :: "string \<Rightarrow> string \<Rightarrow> string list table \<Rightarrow> string list table" where
  "next_add a b m = tbl_put a ((case tbl_get m a of Some l \<Rightarrow> l | None \<Rightarrow> []) @ [b]) m"

definition next_of :: "string list table \<Rightarrow> string \<Rightarrow> string list" where
  "next_of m a = (case tbl_get m a of Some l \<Rightarrow> l | None \<Rightarrow> [])"

fun reach_targets :: "string list \<Rightarrow> string set \<Rightarrow> string list \<Rightarrow> string set \<times> string list" where
  "reach_targets [] reached queue = (reached, queue)"
| "reach_targets (w # ws) reached queue =
     (if w \<in> reached then reach_targets ws reached queue else reach_targets ws (insert w reached) (queue @ [w]))"

lemma reach_targets_spec:
  "reach_targets ws R Q = (R', Q') \<Longrightarrow> \<exists>new. Q' = Q @ new \<and> R' = R \<union> set ws \<and> distinct new \<and> set new = set ws - R"
proof (induction ws arbitrary: R Q)
  case (Cons w ws)
  show ?case
  proof (cases "w \<in> R")
    case True
    with Cons.prems have "reach_targets ws R Q = (R', Q')" by simp
    from Cons.IH [OF this] True show ?thesis by auto
  next
    case False
    with Cons.prems have "reach_targets ws (insert w R) (Q @ [w]) = (R', Q')" by simp
    from Cons.IH [OF this] obtain new where
      "Q' = (Q @ [w]) @ new" "R' = insert w R \<union> set ws" "distinct new" "set new = set ws - insert w R" by blast
    with False show ?thesis by (intro exI [of _ "w # new"]) auto
  qed
qed simp

definition all_targets :: "string list table \<Rightarrow> string set" where
  "all_targets m = (\<Union>e \<in> set m. set (snd e))"

lemma next_of_targets: "set (next_of m a) \<subseteq> all_targets m"
  unfolding next_of_def all_targets_def tbl_get_def by (auto split: option.split) (metis map_of_SomeD snd_conv)

lemma finite_all_targets [simp]: "finite (all_targets m)"
  by (simp add: all_targets_def)

lemma reach_targets_measure:
  assumes "reach_targets (next_of m v) R Q = (R', Q')"
  shows "length Q' + card (all_targets m - R') \<le> length Q + card (all_targets m - R)"
proof -
  obtain new where new: "Q' = Q @ new" "R' = R \<union> set (next_of m v)" "distinct new" "set new = set (next_of m v) - R"
    using reach_targets_spec [OF assms] by blast
  have sub: "set new \<subseteq> all_targets m - R" using new(4) next_of_targets [of m v] by auto
  have "all_targets m - R' = (all_targets m - R) - set new" using new(2,4) by auto
  moreover have "card ((all_targets m - R) - set new) = card (all_targets m - R) - card (set new)"
    using sub by (intro card_Diff_subset) auto
  moreover have "card (set new) \<le> card (all_targets m - R)" using sub by (intro card_mono) auto
  moreover have "card (set new) = length new" using new(3) by (rule distinct_card)
  ultimately show ?thesis using new(1) by simp
qed

function reach :: "string list table \<Rightarrow> string list \<Rightarrow> string set \<Rightarrow> string set" where
  "reach m [] reached = reached"
| "reach m (v # queue) reached =
     (case reach_targets (next_of m v) reached queue of (reached', queue') \<Rightarrow> reach m queue' reached')"
  by pat_completeness auto
termination
  by (relation "measure (\<lambda>(m, queue, reached). length queue + card (all_targets m - reached))")
     (auto dest!: sym [of _ "reach_targets _ _ _"] reach_targets_measure)

definition check_reachability ::
  "vgraph \<Rightarrow> (string \<times> string) list \<Rightarrow> scenario_attachment list \<Rightarrow> string list \<Rightarrow> issues \<Rightarrow> issues"
where
  "check_reachability g main attachments triggers issues =
     (if triggers = [] then issues
      else
        let m1 = fold (\<lambda>(a, b). next_add a b) main [];
            m2 = fold (\<lambda>a. next_add (sa_parent a) (sa_child a)) attachments m1;
            reached = reach m2 triggers (set triggers) in
        fold (\<lambda>n is'. if scn_id n \<notin> reached then push_node Unreachable (scn_id n) is' else is') (vg_order g) issues)"

subsection \<open>The whole validation\<close>

definition validate_scenario :: "scenario_graph \<Rightarrow> catalogue \<Rightarrow> issues" where
  "validate_scenario graph cat =
     (case vgraph_new graph cat [] of (g, is1) \<Rightarrow>
      case main_edges graph g is1 of (main, is2) \<Rightarrow>
      case scenario_attachments graph g main is2 of (attachments, is3) \<Rightarrow>
        let is4 = check_slots g attachments is3;
            is5 = check_cycles g main is4;
            is6 = check_params g attachments is5;
            is7 = check_ports graph g is6;
            is8 = check_tools g is7 in
      case check_triggers g is8 of (triggers, is9) \<Rightarrow>
        check_reachability g main attachments triggers (check_dialog g triggers is9))"

definition trigger_binding :: "scenario_graph \<Rightarrow> catalogue \<Rightarrow> (scenario_trigger_kind \<times> string \<times> params) option" where
  "trigger_binding graph cat =
     (let firsts = fold (\<lambda>n ns. if scn_id n \<in> set (map scn_id ns) then ns else ns @ [n]) (sg_nodes graph) [] in
      case List.map_filter (\<lambda>n. map_option (\<lambda>k. (k, scn_id n, scn_params n))
             (Option.bind (catalogue_spec cat (scn_type n)) ns_trigger)) firsts of
        [] \<Rightarrow> None | b # _ \<Rightarrow> Some b)"

end
