(* ===== verification/ScenarioSpec.thy ===== *)
theory ScenarioSpec
  imports ScenarioValidation
begin

text \<open>
  What a valid scenario is, said without the order of the checks (\<open>scenario_ok\<close>), and the proof that
  the validation of \<open>ScenarioValidation\<close> blocks exactly the scenarios that are not.
\<close>

subsection \<open>Blocking issues, stage by stage\<close>

definition no_block :: "issues \<Rightarrow> bool" where
  "no_block issues \<longleftrightarrow> (\<forall>i \<in> set issues. is_warning i)"

lemma no_block_Nil [simp]: "no_block []"
  by (simp add: no_block_def)

lemma blocking_issues_Nil_iff: "blocking_issues issues = [] \<longleftrightarrow> no_block issues"
  by (auto simp: blocking_issues_def no_block_def filter_empty_conv)

lemma is_warning_iff [simp]: "is_warning i \<longleftrightarrow> iss_rule i = LimitedDialog"
  by (simp add: is_warning_def rule_is_warning_def)

lemma no_block_push [simp]: "no_block (push_issue i issues) \<longleftrightarrow> iss_rule i = LimitedDialog \<and> no_block issues"
  by (auto simp: push_issue_def no_block_def)

lemma no_block_push_node [simp]: "no_block (push_node r i issues) \<longleftrightarrow> r = LimitedDialog \<and> no_block issues"
  by (simp add: push_node_def)

lemma no_block_fold:
  assumes "\<And>x issues. x \<in> set xs \<Longrightarrow> no_block (f x issues) \<longleftrightarrow> no_block issues \<and> P x"
  shows "no_block (fold f xs issues) \<longleftrightarrow> no_block issues \<and> (\<forall>x \<in> set xs. P x)"
  using assms by (induction xs arbitrary: issues) auto

subsection \<open>The specification\<close>

definition ids_of :: "scenario_graph \<Rightarrow> string list" where
  "ids_of graph = map scn_id (sg_nodes graph)"

definition node_of :: "scenario_graph \<Rightarrow> string \<Rightarrow> scenario_node option" where
  "node_of graph i = map_of (map (\<lambda>n. (scn_id n, n)) (sg_nodes graph)) i"

definition spec_of :: "scenario_graph \<Rightarrow> catalogue \<Rightarrow> string \<Rightarrow> node_spec option" where
  "spec_of graph cat i = Option.bind (node_of graph i) (\<lambda>n. catalogue_spec cat (scn_type n))"

definition is_trunk :: "scenario_graph \<Rightarrow> catalogue \<Rightarrow> string \<Rightarrow> bool" where
  "is_trunk graph cat i = (case spec_of graph cat i of None \<Rightarrow> True | Some s \<Rightarrow> ns_trunk s)"

definition is_trigger :: "scenario_graph \<Rightarrow> catalogue \<Rightarrow> string \<Rightarrow> bool" where
  "is_trigger graph cat i = (case spec_of graph cat i of None \<Rightarrow> False | Some s \<Rightarrow> ns_trigger s \<noteq> None)"

definition is_enabled :: "scenario_graph \<Rightarrow> string \<Rightarrow> bool" where
  "is_enabled graph i = (case node_of graph i of None \<Rightarrow> False | Some n \<Rightarrow> \<not> is_disabled n)"

definition edge_pairs :: "scenario_graph \<Rightarrow> (string \<times> string) list" where
  "edge_pairs graph = map (\<lambda>e. (se_from e, se_to e)) (sg_edges graph)"

definition nodes_ok :: "scenario_graph \<Rightarrow> catalogue \<Rightarrow> bool" where
  "nodes_ok graph cat \<longleftrightarrow> distinct (ids_of graph) \<and> (\<forall>n \<in> set (sg_nodes graph). catalogue_spec cat (scn_type n) \<noteq> None)"

definition edge_ok :: "scenario_graph \<Rightarrow> catalogue \<Rightarrow> scenario_edge \<Rightarrow> bool" where
  "edge_ok graph cat e \<longleftrightarrow> se_from e \<in> set (ids_of graph) \<and> se_to e \<in> set (ids_of graph)
     \<and> is_trunk graph cat (se_from e) \<and> is_trunk graph cat (se_to e) \<and> \<not> is_trigger graph cat (se_to e)"

definition edges_ok :: "scenario_graph \<Rightarrow> catalogue \<Rightarrow> bool" where
  "edges_ok graph cat \<longleftrightarrow> distinct (sg_edges graph) \<and> (\<forall>e \<in> set (sg_edges graph). edge_ok graph cat e)"

definition attachment_ok :: "scenario_graph \<Rightarrow> catalogue \<Rightarrow> scenario_attachment \<Rightarrow> bool" where
  "attachment_ok graph cat a \<longleftrightarrow> sa_parent a \<in> set (ids_of graph) \<and> sa_child a \<in> set (ids_of graph) \<and> sa_parent a \<noteq> sa_child a
     \<and> (\<forall>s. spec_of graph cat (sa_parent a) = Some s \<longrightarrow> spec_slot s (sa_slot a) \<noteq> None)
     \<and> (\<forall>s. spec_of graph cat (sa_child a) = Some s \<longrightarrow> sa_slot a \<in> set (ns_fills s))
     \<and> (\<forall>(x, y) \<in> set (edge_pairs graph). x \<noteq> sa_child a \<and> y \<noteq> sa_child a)"

definition parents :: "scenario_graph \<Rightarrow> (string \<times> string) set" where
  "parents graph = {(sa_child a, sa_parent a) |a. a \<in> set (sg_attachments graph)}"

definition attachments_ok :: "scenario_graph \<Rightarrow> catalogue \<Rightarrow> bool" where
  "attachments_ok graph cat \<longleftrightarrow> distinct (map sa_child (sg_attachments graph))
     \<and> (\<forall>a \<in> set (sg_attachments graph). attachment_ok graph cat a) \<and> acyclic (parents graph)"

definition filled :: "scenario_graph \<Rightarrow> string \<Rightarrow> scenario_slot \<Rightarrow> scenario_attachment list" where
  "filled graph i slot = filter (\<lambda>a. sa_parent a = i \<and> sa_slot a = slot \<and> is_enabled graph (sa_child a)) (sg_attachments graph)"

definition slot_ok :: "scenario_graph \<Rightarrow> string \<Rightarrow> slot_spec \<Rightarrow> bool" where
  "slot_ok graph i slot \<longleftrightarrow> (ss_required slot \<longrightarrow> filled graph i (ss_slot slot) \<noteq> [])
     \<and> (ss_multiple slot \<or> length (filled graph i (ss_slot slot)) \<le> 1)
     \<and> (ss_slot slot = SlotMemory \<longrightarrow>
          distinct (map scn_type (List.map_filter (\<lambda>a. node_of graph (sa_child a)) (filled graph i SlotMemory))))"

definition slots_ok :: "scenario_graph \<Rightarrow> catalogue \<Rightarrow> bool" where
  "slots_ok graph cat \<longleftrightarrow> (\<forall>n \<in> set (sg_nodes graph). \<forall>s. spec_of graph cat (scn_id n) = Some s \<longrightarrow> \<not> is_disabled n
     \<longrightarrow> (\<forall>slot \<in> set (ns_slots s). slot_ok graph (scn_id n) slot))"

definition params_ok :: "scenario_graph \<Rightarrow> catalogue \<Rightarrow> bool" where
  "params_ok graph cat \<longleftrightarrow> (\<forall>n \<in> set (sg_nodes graph). \<forall>s. spec_of graph cat (scn_id n) = Some s \<longrightarrow> \<not> is_disabled n
     \<longrightarrow> \<not> ((\<exists>a \<in> set (sg_attachments graph). sa_slot a = SlotTool \<and> sa_child a = scn_id n) \<and> ns_tool_key s \<noteq> None)
     \<longrightarrow> (\<forall>p \<in> set (ns_required_params s). \<not> is_missing (map_of (scn_params n) p)))"

definition ports_ok :: "scenario_graph \<Rightarrow> catalogue \<Rightarrow> bool" where
  "ports_ok graph cat \<longleftrightarrow> (\<forall>e \<in> set (sg_edges graph).
     (\<forall>s. spec_of graph cat (se_from e) = Some s \<longrightarrow> se_from_port e \<in> set (ns_ports s))
     \<and> (se_to e \<in> set (ids_of graph) \<longrightarrow> se_to_port e = SCENARIO_MAIN_PORT))"

definition tools_ok :: "scenario_graph \<Rightarrow> bool" where
  "tools_ok graph \<longleftrightarrow> (\<forall>n \<in> set (sg_nodes graph). scn_type n = TOOL_SET \<longrightarrow> (\<forall>k \<in> set (tool_set_keys n). \<not> is_restricted_tool k))"

definition triggers_of :: "scenario_graph \<Rightarrow> catalogue \<Rightarrow> string list" where
  "triggers_of graph cat = filter (is_trigger graph cat) (ids_of graph)"

definition dialog_ok :: "scenario_graph \<Rightarrow> catalogue \<Rightarrow> bool" where
  "dialog_ok graph cat \<longleftrightarrow> (\<exists>n. node_of graph (hd (triggers_of graph cat)) = Some n \<and> scn_type n = TRIGGER_CHAT)
     \<or> (\<forall>n \<in> set (sg_nodes graph). \<not> is_disabled n \<longrightarrow> dialog_need_of n \<noteq> Some DialogRequired)"

definition links :: "scenario_graph \<Rightarrow> (string \<times> string) set" where
  "links graph = set (edge_pairs graph) \<union> (parents graph)\<inverse>"

definition reachable_ok :: "scenario_graph \<Rightarrow> catalogue \<Rightarrow> bool" where
  "reachable_ok graph cat \<longleftrightarrow> set (ids_of graph) \<subseteq> (links graph)\<^sup>* `` set (triggers_of graph cat)"

definition scenario_ok :: "scenario_graph \<Rightarrow> catalogue \<Rightarrow> bool" where
  "scenario_ok graph cat \<longleftrightarrow> nodes_ok graph cat \<and> edges_ok graph cat \<and> attachments_ok graph cat \<and> slots_ok graph cat
     \<and> acyclic (set (edge_pairs graph)) \<and> params_ok graph cat \<and> ports_ok graph cat \<and> tools_ok graph
     \<and> length (triggers_of graph cat) = 1 \<and> dialog_ok graph cat \<and> reachable_ok graph cat"

subsection \<open>The graph under check\<close>

definition vg_ok :: "scenario_graph \<Rightarrow> catalogue \<Rightarrow> vgraph \<Rightarrow> bool" where
  "vg_ok graph cat g \<longleftrightarrow> vg_order g = sg_nodes graph \<and> (\<forall>i. tbl_get (vg_nodes g) i = node_of graph i)
     \<and> (\<forall>i. vg_spec g i = spec_of graph cat i)"

definition nodes_fine :: "catalogue \<Rightarrow> scenario_node list \<Rightarrow> bool" where
  "nodes_fine cat ns \<longleftrightarrow> distinct (map scn_id ns) \<and> (\<forall>n \<in> set ns. catalogue_spec cat (scn_type n) \<noteq> None)"

lemma map_of_snoc: "k \<notin> fst ` set m \<Longrightarrow> map_of (m @ [(k, v)]) = (map_of m)(k \<mapsto> v)"
  by (induction m) (auto simp: fun_eq_iff simp del: map_of_append)

lemma vgraph_fold:
  assumes "fold (vgraph_add cat) ns (\<lparr>vg_order = [], vg_nodes = [], vg_specs = []\<rparr>, is0) = (g, is1)"
  shows "(\<forall>i. tbl_get (vg_nodes g) i \<noteq> None \<longleftrightarrow> i \<in> set (map scn_id ns))
    \<and> (no_block is1 \<longleftrightarrow> no_block is0 \<and> nodes_fine cat ns)
    \<and> (nodes_fine cat ns \<longrightarrow> vg_order g = ns
         \<and> (\<forall>i. tbl_get (vg_nodes g) i = map_of (map (\<lambda>n. (scn_id n, n)) ns) i)
         \<and> (\<forall>i. tbl_get (vg_specs g) i = Option.bind (map_of (map (\<lambda>n. (scn_id n, n)) ns) i) (\<lambda>n. catalogue_spec cat (scn_type n))))"
  using assms
proof (induction ns arbitrary: g is1 rule: rev_induct)
  case Nil
  then show ?case by (auto simp: nodes_fine_def)
next
  case (snoc n ns)
  obtain g0 is' where f: "fold (vgraph_add cat) ns (\<lparr>vg_order = [], vg_nodes = [], vg_specs = []\<rparr>, is0) = (g0, is')"
    by (metis prod.collapse)
  note IH = snoc.IH [OF f]
  have step: "vgraph_add cat n (g0, is') = (g, is1)" using snoc.prems f by simp
  show ?case
  proof (cases "scn_id n \<in> set (map scn_id ns)")
    case True
    then have "tbl_get (vg_nodes g0) (scn_id n) \<noteq> None" using IH by blast
    with step have "g = g0" "is1 = push_node DuplicateNode (scn_id n) is'" by (auto simp: vgraph_add_def)
    moreover have "\<not> nodes_fine cat (ns @ [n])" using True by (auto simp: nodes_fine_def)
    ultimately show ?thesis using IH True by auto
  next
    case False
    then have new: "tbl_get (vg_nodes g0) (scn_id n) = None" using IH by blast
    have fine: "nodes_fine cat (ns @ [n]) \<longleftrightarrow> nodes_fine cat ns \<and> catalogue_spec cat (scn_type n) \<noteq> None"
      using False by (auto simp: nodes_fine_def)
    have mo: "map_of (map (\<lambda>n. (scn_id n, n)) (ns @ [n])) = (map_of (map (\<lambda>n. (scn_id n, n)) ns))(scn_id n \<mapsto> n)"
      using False map_of_snoc [of "scn_id n" "map (\<lambda>n. (scn_id n, n)) ns" n] by (simp add: image_image del: map_of_append)
    show ?thesis
    proof (cases "catalogue_spec cat (scn_type n)")
      case None
      with step new have "is1 = push_node UnknownNodeType (scn_id n) is'" "vg_nodes g = tbl_put (scn_id n) n (vg_nodes g0)"
        by (auto simp: vgraph_add_def)
      then show ?thesis using IH None fine by auto
    next
      case (Some s)
      with step new have "is1 = is'" "vg_nodes g = tbl_put (scn_id n) n (vg_nodes g0)" "vg_order g = vg_order g0 @ [n]"
        "vg_specs g = tbl_put (scn_id n) s (vg_specs g0)" by (auto simp: vgraph_add_def)
      then show ?thesis using IH Some fine unfolding mo by auto
    qed
  qed
qed

lemma vgraph_new_spec:
  assumes "vgraph_new graph cat is0 = (g, is1)"
  shows "no_block is1 \<longleftrightarrow> no_block is0 \<and> nodes_ok graph cat" "nodes_ok graph cat \<Longrightarrow> vg_ok graph cat g"
  using vgraph_fold [OF assms [unfolded vgraph_new_def]]
  by (auto simp: nodes_ok_def nodes_fine_def ids_of_def vg_ok_def vg_spec_def node_of_def spec_of_def)

lemma node_of_ids: "node_of graph i \<noteq> None \<longleftrightarrow> i \<in> set (ids_of graph)"
  by (simp add: node_of_def ids_of_def map_of_eq_None_iff image_image)

lemma node_of_node: "nodes_ok graph cat \<Longrightarrow> n \<in> set (sg_nodes graph) \<Longrightarrow> node_of graph (scn_id n) = Some n"
  unfolding node_of_def nodes_ok_def ids_of_def by (rule map_of_is_SomeI) (auto simp: o_def)

lemma node_of_mem: "node_of graph i = Some n \<Longrightarrow> n \<in> set (sg_nodes graph) \<and> scn_id n = i"
  unfolding node_of_def by (auto dest!: map_of_SomeD)

lemma spec_of_node:
  "nodes_ok graph cat \<Longrightarrow> n \<in> set (sg_nodes graph) \<Longrightarrow> spec_of graph cat (scn_id n) = catalogue_spec cat (scn_type n)"
  by (simp add: spec_of_def node_of_node)

lemma spec_of_ids: "nodes_ok graph cat \<Longrightarrow> i \<in> set (ids_of graph) \<Longrightarrow> spec_of graph cat i \<noteq> None"
  by (auto simp: ids_of_def spec_of_node nodes_ok_def)

lemma vg_ok_simps:
  assumes "vg_ok graph cat g"
  shows "vg_has g i \<longleftrightarrow> i \<in> set (ids_of graph)" "vg_spec g i = spec_of graph cat i" "vg_is_trunk g i = is_trunk graph cat i"
    "vg_is_trigger g i = is_trigger graph cat i" "vg_is_enabled g i = is_enabled graph i" "vg_order g = sg_nodes graph"
    "tbl_get (vg_nodes g) i = node_of graph i"
  using assms node_of_ids
  by (simp_all add: vg_ok_def vg_has_def vg_is_trunk_def is_trunk_def vg_is_trigger_def is_trigger_def vg_is_enabled_def is_enabled_def
      split: option.split)

subsection \<open>Edges and attachments\<close>

lemma vg_missing_two:
  assumes "vg_ok graph cat g" "vg_missing g [i, j] is0 = (m, is1)"
  shows "m \<longleftrightarrow> i \<notin> set (ids_of graph) \<or> j \<notin> set (ids_of graph)" "no_block is1 \<longleftrightarrow> no_block is0 \<and> \<not> m"
    "\<not> m \<Longrightarrow> is1 = is0"
  using assms(2) by (auto simp: vg_missing_def vg_ok_simps [OF assms(1)] split: if_splits)

lemma main_step_spec:
  assumes vg: "vg_ok graph cat g" and "main_step g e (seen, main, is0) = (seen', main', is1)"
  shows "no_block is1 \<longleftrightarrow> no_block is0 \<and> e \<notin> set seen \<and> edge_ok graph cat e"
    "e \<notin> set seen \<Longrightarrow> edge_ok graph cat e \<Longrightarrow> main' = main @ [(se_from e, se_to e)] \<and> seen' = e # seen"
proof -
  obtain m is' where m: "vg_missing g [se_from e, se_to e] is0 = (m, is')" by (metis prod.collapse)
  note miss = vg_missing_two [OF vg m] and vs = vg_ok_simps [OF vg]
  show "no_block is1 \<longleftrightarrow> no_block is0 \<and> e \<notin> set seen \<and> edge_ok graph cat e"
    using assms(2) miss by (auto simp: main_step_def m vs edge_ok_def split: if_splits)
  show "main' = main @ [(se_from e, se_to e)] \<and> seen' = e # seen" if "e \<notin> set seen" "edge_ok graph cat e"
    using assms(2) miss that by (simp add: main_step_def m vs edge_ok_def)
qed

lemma main_fold:
  assumes vg: "vg_ok graph cat g"
    and "fold (main_step g) es ([], [], is0) = (seen, main, is1)"
  shows "(no_block is1 \<longleftrightarrow> no_block is0 \<and> distinct es \<and> (\<forall>e \<in> set es. edge_ok graph cat e))
    \<and> (distinct es \<and> (\<forall>e \<in> set es. edge_ok graph cat e) \<longrightarrow> main = map (\<lambda>e. (se_from e, se_to e)) es \<and> set seen = set es)"
  using assms(2)
proof (induction es arbitrary: seen main is1 rule: rev_induct)
  case Nil
  then show ?case by auto
next
  case (snoc e es)
  obtain seen0 main0 is' where f: "fold (main_step g) es ([], [], is0) = (seen0, main0, is')" by (metis prod_cases3)
  note IH = snoc.IH [OF f]
  have "main_step g e (seen0, main0, is') = (seen, main, is1)" using snoc.prems f by simp
  note step = main_step_spec [OF vg this]
  show ?case
  proof (cases "distinct es \<and> (\<forall>e \<in> set es. edge_ok graph cat e)")
    case False
    then have "\<not> no_block is1" using IH step(1) by blast
    with False show ?thesis by auto
  next
    case True
    then show ?thesis using IH step by auto
  qed
qed

lemma main_edges_spec:
  assumes "vg_ok graph cat g" "main_edges graph g is0 = (main, is1)"
  shows "no_block is1 \<longleftrightarrow> no_block is0 \<and> edges_ok graph cat" "edges_ok graph cat \<Longrightarrow> main = edge_pairs graph"
proof -
  obtain seen where "fold (main_step g) (sg_edges graph) ([], [], is0) = (seen, main, is1)"
    using assms(2) unfolding main_edges_def by (metis prod.collapse)
  from main_fold [OF assms(1) this] show "no_block is1 \<longleftrightarrow> no_block is0 \<and> edges_ok graph cat"
    "edges_ok graph cat \<Longrightarrow> main = edge_pairs graph" by (auto simp: edges_ok_def edge_pairs_def)
qed

lemma attach_step_spec:
  assumes vg: "vg_ok graph cat g" and "attach_step g (edge_pairs graph) a (acc, is0) = (acc', is1)"
  shows "no_block is1 \<longleftrightarrow> no_block is0 \<and> sa_child a \<notin> set (map sa_child acc) \<and> attachment_ok graph cat a"
    "sa_child a \<notin> set (map sa_child acc) \<Longrightarrow> attachment_ok graph cat a \<Longrightarrow> acc' = acc @ [a]"
proof -
  obtain m is' where m: "vg_missing g [sa_parent a, sa_child a] is0 = (m, is')" by (metis prod.collapse)
  note miss = vg_missing_two [OF vg m] and vs = vg_ok_simps [OF vg]
  have dup: "list_ex (\<lambda>other. sa_child other = sa_child a) acc \<longleftrightarrow> sa_child a \<in> set (map sa_child acc)"
    by (auto simp: list_ex_iff intro: rev_image_eqI)
  have ends: "list_ex (\<lambda>(x, y). x = sa_child a \<or> y = sa_child a) (edge_pairs graph)
      \<longleftrightarrow> \<not> (\<forall>(x, y) \<in> set (edge_pairs graph). x \<noteq> sa_child a \<and> y \<noteq> sa_child a)"
    by (auto simp: list_ex_iff)
  have slot: "(case spec_of graph cat (sa_parent a) of None \<Rightarrow> False | Some s \<Rightarrow> spec_slot s (sa_slot a) = None)
      \<longleftrightarrow> \<not> (\<forall>s. spec_of graph cat (sa_parent a) = Some s \<longrightarrow> spec_slot s (sa_slot a) \<noteq> None)"
    by (auto split: option.split)
  have fill: "(case spec_of graph cat (sa_child a) of None \<Rightarrow> False | Some s \<Rightarrow> sa_slot a \<notin> set (ns_fills s))
      \<longleftrightarrow> \<not> (\<forall>s. spec_of graph cat (sa_child a) = Some s \<longrightarrow> sa_slot a \<in> set (ns_fills s))"
    by (auto split: option.split)
  show "no_block is1 \<longleftrightarrow> no_block is0 \<and> sa_child a \<notin> set (map sa_child acc) \<and> attachment_ok graph cat a"
    using assms(2) miss unfolding attachment_ok_def
    by (simp only: attach_step_def m vs dup ends slot fill Let_def prod.case split: if_splits) auto
  show "acc' = acc @ [a]" if "sa_child a \<notin> set (map sa_child acc)" "attachment_ok graph cat a"
    using assms(2) miss that unfolding attachment_ok_def
    by (simp only: attach_step_def m vs dup ends slot fill Let_def prod.case) auto
qed

lemma attach_fold:
  assumes vg: "vg_ok graph cat g" and "fold (attach_step g (edge_pairs graph)) as ([], is0) = (accepted, is1)"
  shows "(no_block is1 \<longleftrightarrow> no_block is0 \<and> distinct (map sa_child as) \<and> (\<forall>a \<in> set as. attachment_ok graph cat a))
    \<and> (distinct (map sa_child as) \<and> (\<forall>a \<in> set as. attachment_ok graph cat a) \<longrightarrow> accepted = as)"
  using assms(2)
proof (induction as arbitrary: accepted is1 rule: rev_induct)
  case Nil
  then show ?case by auto
next
  case (snoc a as)
  obtain acc0 is' where f: "fold (attach_step g (edge_pairs graph)) as ([], is0) = (acc0, is')" by (metis prod.collapse)
  note IH = snoc.IH [OF f]
  have "attach_step g (edge_pairs graph) a (acc0, is') = (accepted, is1)" using snoc.prems f by simp
  note step = attach_step_spec [OF vg this]
  show ?case
  proof (cases "distinct (map sa_child as) \<and> (\<forall>a \<in> set as. attachment_ok graph cat a)")
    case False
    then have "\<not> no_block is1" using IH step(1) by blast
    with False show ?thesis by auto
  next
    case True
    then show ?thesis using IH step by auto
  qed
qed

text \<open>Walking up the parents for as many steps as there are parents finds every loop.\<close>

lemma parent_loop_iff:
  "parent_loop k P s c \<longleftrightarrow> (\<exists>j. 1 \<le> j \<and> j \<le> k \<and> (c, s) \<in> {(x, y). tbl_get P x = Some y} ^^ j)" (is "_ \<longleftrightarrow> (\<exists>j. _ \<and> _ \<and> _ \<in> ?R ^^ j)")
proof (induction k arbitrary: c)
  case (Suc k)
  have split: "(\<exists>j. 1 \<le> j \<and> j \<le> Suc k \<and> (c, s) \<in> ?R ^^ j) \<longleftrightarrow> (\<exists>j \<le> k. \<exists>p. tbl_get P c = Some p \<and> (p, s) \<in> ?R ^^ j)"
  proof
    assume "\<exists>j. 1 \<le> j \<and> j \<le> Suc k \<and> (c, s) \<in> ?R ^^ j"
    then obtain j where j: "j \<le> k" "(c, s) \<in> ?R ^^ Suc j" by (metis One_nat_def Suc_le_D Suc_le_mono)
    then obtain p where "(c, p) \<in> ?R" "(p, s) \<in> ?R ^^ j" by (blast elim: relpow_Suc_E2)
    with j(1) show "\<exists>j \<le> k. \<exists>p. tbl_get P c = Some p \<and> (p, s) \<in> ?R ^^ j" by blast
  next
    assume "\<exists>j \<le> k. \<exists>p. tbl_get P c = Some p \<and> (p, s) \<in> ?R ^^ j"
    then obtain j p where "j \<le> k" "(c, p) \<in> ?R" "(p, s) \<in> ?R ^^ j" by blast
    then have "(c, s) \<in> ?R ^^ Suc j" "1 \<le> Suc j" "Suc j \<le> Suc k" using relpow_Suc_I2 [of c p ?R s j] by simp_all
    then show "\<exists>j. 1 \<le> j \<and> j \<le> Suc k \<and> (c, s) \<in> ?R ^^ j" by blast
  qed
  show ?case
  proof (cases "tbl_get P c")
    case None
    with split show ?thesis by simp
  next
    case (Some p)
    show ?thesis
    proof (cases "p = s")
      case True
      with Some have "\<exists>j \<le> k. \<exists>p. tbl_get P c = Some p \<and> (p, s) \<in> ?R ^^ j" by (intro exI [of _ 0]) auto
      with split Some True show ?thesis by simp
    next
      case False
      have "(\<exists>j \<le> k. (p, s) \<in> ?R ^^ j) \<longleftrightarrow> (\<exists>j. 1 \<le> j \<and> j \<le> k \<and> (p, s) \<in> ?R ^^ j)"
        using False by (metis One_nat_def Suc_leI neq0_conv relpow_0_E)
      with split Some False Suc show ?thesis by simp
    qed
  qed
qed simp

lemma parent_loop_cycle:
  assumes "finite {(x, y). tbl_get P x = Some y}" "card {(x, y). tbl_get P x = Some y} \<le> k"
  shows "parent_loop k P i i \<longleftrightarrow> (i, i) \<in> {(x, y). tbl_get P x = Some y}\<^sup>+" (is "_ \<longleftrightarrow> _ \<in> ?R\<^sup>+")
proof
  assume "parent_loop k P i i"
  then obtain j where "1 \<le> j" "(i, i) \<in> ?R ^^ j" unfolding parent_loop_iff by blast
  then show "(i, i) \<in> ?R\<^sup>+" unfolding trancl_power by (intro exI [of _ j]) simp
next
  assume "(i, i) \<in> ?R\<^sup>+"
  then obtain j where "0 < j" "j \<le> card ?R" "(i, i) \<in> ?R ^^ j" unfolding trancl_finite_eq_relpow [OF assms(1)] by blast
  with assms(2) show "parent_loop k P i i" unfolding parent_loop_iff by (intro exI [of _ j]) simp
qed

lemma parents_table:
  assumes "distinct (map sa_child as)"
  defines "P \<equiv> fold (\<lambda>a. tbl_put (sa_child a) (sa_parent a)) as []"
  shows "{(x, y). tbl_get P x = Some y} = {(sa_child a, sa_parent a) |a. a \<in> set as}" "tbl_ok P"
    "card {(x, y). tbl_get P x = Some y} \<le> length P"
proof -
  have "{(x, y). tbl_get (fold (\<lambda>a. tbl_put (sa_child a) (sa_parent a)) as []) x = Some y} = {(sa_child a, sa_parent a) |a. a \<in> set as}
      \<and> tbl_ok (fold (\<lambda>a. tbl_put (sa_child a) (sa_parent a)) as [])"
    using assms(1)
  proof (induction as rule: rev_induct)
    case (snoc a as)
    let ?Q = "fold (\<lambda>a. tbl_put (sa_child a) (sa_parent a)) as []"
    have IH: "{(x, y). tbl_get ?Q x = Some y} = {(sa_child a, sa_parent a) |a. a \<in> set as}" "tbl_ok ?Q" using snoc by auto
    have "tbl_get ?Q (sa_child a) = None"
    proof (rule ccontr)
      assume "tbl_get ?Q (sa_child a) \<noteq> None"
      then obtain y where "(sa_child a, y) \<in> {(x, y). tbl_get ?Q x = Some y}" by auto
      then show False unfolding IH(1) using snoc.prems by auto
    qed
    then have "{(x, y). tbl_get (tbl_put (sa_child a) (sa_parent a) ?Q) x = Some y} = insert (sa_child a, sa_parent a) {(x, y). tbl_get ?Q x = Some y}"
      by (auto split: if_splits)
    then show ?case unfolding IH(1) using IH(2) by auto
  qed simp
  then show e: "{(x, y). tbl_get P x = Some y} = {(sa_child a, sa_parent a) |a. a \<in> set as}" "tbl_ok P" unfolding P_def by blast+
  have "{(x, y). tbl_get P x = Some y} \<subseteq> set P" by (auto simp: tbl_get_def dest: map_of_SomeD)
  then have "card {(x, y). tbl_get P x = Some y} \<le> card (set P)" by (intro card_mono) auto
  also have "\<dots> \<le> length P" by (rule card_length)
  finally show "card {(x, y). tbl_get P x = Some y} \<le> length P" .
qed

lemma attachments_spec:
  assumes vg: "vg_ok graph cat g" and "scenario_attachments graph g (edge_pairs graph) is0 = (accepted, is1)"
  shows "no_block is1 \<longleftrightarrow> no_block is0 \<and> attachments_ok graph cat" "attachments_ok graph cat \<Longrightarrow> accepted = sg_attachments graph"
proof -
  let ?fine = "distinct (map sa_child (sg_attachments graph)) \<and> (\<forall>a \<in> set (sg_attachments graph). attachment_ok graph cat a)"
  obtain is' where f: "fold (attach_step g (edge_pairs graph)) (sg_attachments graph) ([], is0) = (accepted, is')"
    using assms(2) unfolding scenario_attachments_def by (auto simp: Let_def split: prod.splits)
  note A = attach_fold [OF vg f]
  let ?P = "fold (\<lambda>a. tbl_put (sa_child a) (sa_parent a)) accepted []"
  have is1: "is1 = fold (\<lambda>n is'. if parent_loop (length ?P) ?P (scn_id n) (scn_id n) then push_node Cycle (scn_id n) is' else is') (sg_nodes graph) is'"
    using assms(2) f by (simp add: scenario_attachments_def Let_def vg_ok_simps [OF vg])
  have B: "no_block is1 \<longleftrightarrow> no_block is' \<and> (\<forall>n \<in> set (sg_nodes graph). \<not> parent_loop (length ?P) ?P (scn_id n) (scn_id n))"
    unfolding is1 by (rule no_block_fold) auto
  have C: "(\<forall>n \<in> set (sg_nodes graph). \<not> parent_loop (length ?P) ?P (scn_id n) (scn_id n)) \<longleftrightarrow> acyclic (parents graph)" if fine: ?fine
  proof -
    let ?R = "{(x, y). tbl_get ?P x = Some y}"
    have acc: "accepted = sg_attachments graph" using A fine by blast
    have R: "?R = parents graph" "card ?R \<le> length ?P"
      using parents_table [of accepted] fine by (auto simp: acc parents_def)
    have "?R = (\<lambda>a. (sa_child a, sa_parent a)) ` set (sg_attachments graph)" unfolding R(1) parents_def by auto
    then have finite: "finite ?R" by simp
    have loop: "parent_loop (length ?P) ?P i i \<longleftrightarrow> (i, i) \<in> ?R\<^sup>+" for i
      by (rule parent_loop_cycle [OF finite R(2)])
    have "(\<forall>n \<in> set (sg_nodes graph). (scn_id n, scn_id n) \<notin> ?R\<^sup>+) \<longleftrightarrow> acyclic ?R"
    proof
      assume h: "\<forall>n \<in> set (sg_nodes graph). (scn_id n, scn_id n) \<notin> ?R\<^sup>+"
      show "acyclic ?R"
        unfolding acyclic_def
      proof (intro allI notI)
        fix x assume x: "(x, x) \<in> ?R\<^sup>+"
        then obtain y where "(x, y) \<in> ?R" by (meson tranclD)
        then obtain a where "a \<in> set (sg_attachments graph)" "x = sa_child a" unfolding R(1) parents_def by auto
        with fine have "x \<in> set (ids_of graph)" by (auto simp: attachment_ok_def)
        with x h show False by (auto simp: ids_of_def)
      qed
    qed (simp add: acyclic_def)
    with loop R(1) show ?thesis by simp
  qed
  show "no_block is1 \<longleftrightarrow> no_block is0 \<and> attachments_ok graph cat"
    using A B C by (auto simp: attachments_ok_def)
  show "attachments_ok graph cat \<Longrightarrow> accepted = sg_attachments graph" using A by (auto simp: attachments_ok_def)
qed

subsection \<open>The remaining checks\<close>

lemma filled_slots_eq: "vg_ok graph cat g \<Longrightarrow> filled_slots g (sg_attachments graph) i slot = filled graph i slot"
  by (simp add: filled_slots_def filled_def vg_ok_simps)

lemma check_slot_spec:
  "vg_ok graph cat g \<Longrightarrow> no_block (check_slot g (sg_attachments graph) i slot is0) \<longleftrightarrow> no_block is0 \<and> slot_ok graph i slot"
  by (auto simp: check_slot_def Let_def filled_slots_eq slot_ok_def vg_ok_simps not_less)

lemma check_slots_spec:
  assumes vg: "vg_ok graph cat g"
  shows "no_block (check_slots g (sg_attachments graph) is0) \<longleftrightarrow> no_block is0 \<and> slots_ok graph cat"
proof -
  note vs = vg_ok_simps [OF vg]
  have "no_block (check_slots g (sg_attachments graph) is0) \<longleftrightarrow> no_block is0 \<and> (\<forall>n \<in> set (sg_nodes graph).
      \<forall>s. spec_of graph cat (scn_id n) = Some s \<longrightarrow> \<not> is_disabled n \<longrightarrow> (\<forall>slot \<in> set (ns_slots s). slot_ok graph (scn_id n) slot))"
    unfolding check_slots_def vs
  proof (rule no_block_fold)
    fix n issues
    show "no_block (case spec_of graph cat (scn_id n) of None \<Rightarrow> issues
        | Some s \<Rightarrow> if is_disabled n then issues else fold (check_slot g (sg_attachments graph) (scn_id n)) (ns_slots s) issues)
      \<longleftrightarrow> no_block issues \<and> (\<forall>s. spec_of graph cat (scn_id n) = Some s \<longrightarrow> \<not> is_disabled n
        \<longrightarrow> (\<forall>slot \<in> set (ns_slots s). slot_ok graph (scn_id n) slot))"
      by (auto simp: no_block_fold [OF check_slot_spec [OF vg]] split: option.split)
  qed
  then show ?thesis by (simp add: slots_ok_def)
qed

lemma check_cycles_spec:
  assumes vg: "vg_ok graph cat g" and "edges_ok graph cat"
  shows "no_block (check_cycles g (edge_pairs graph) is0) \<longleftrightarrow> no_block is0 \<and> acyclic (set (edge_pairs graph))"
proof -
  note vs = vg_ok_simps [OF vg]
  have "\<forall>(a, b) \<in> set (edge_pairs graph). a \<in> set (ids_of graph) \<and> b \<in> set (ids_of graph)"
    using assms(2) by (auto simp: edges_ok_def edge_ok_def edge_pairs_def)
  from cyclic_nodes_Nil_iff [OF this] have c: "cyclic_nodes (ids_of graph) (edge_pairs graph) = [] \<longleftrightarrow> acyclic (set (edge_pairs graph))" .
  have "no_block (check_cycles g (edge_pairs graph) is0)
      \<longleftrightarrow> no_block is0 \<and> (\<forall>x \<in> set (cyclic_nodes (ids_of graph) (edge_pairs graph)). False)"
    unfolding check_cycles_def vs ids_of_def by (rule no_block_fold) simp
  with c show ?thesis by (cases "cyclic_nodes (ids_of graph) (edge_pairs graph)") auto
qed

lemma check_params_spec:
  assumes vg: "vg_ok graph cat g"
  shows "no_block (check_params g (sg_attachments graph) is0) \<longleftrightarrow> no_block is0 \<and> params_ok graph cat"
proof -
  note vs = vg_ok_simps [OF vg]
  let ?byModel = "\<lambda>n. \<exists>a \<in> set (sg_attachments graph). sa_slot a = SlotTool \<and> sa_child a = scn_id n"
  let ?check = "\<lambda>n issues p. if is_missing (map_of (scn_params n) p) then push_issue (issue_param (scn_id n) p) issues else issues"
  have by_model: "scn_id n \<in> set (map sa_child (filter (\<lambda>a. sa_slot a = SlotTool) (sg_attachments graph))) \<longleftrightarrow> ?byModel n" for n
    by force
  have one: "no_block (fold (\<lambda>p is'. ?check n is' p) ps is1) \<longleftrightarrow> no_block is1 \<and> (\<forall>p \<in> set ps. \<not> is_missing (map_of (scn_params n) p))"
    for n ps is1 by (rule no_block_fold) auto
  have "no_block (check_params g (sg_attachments graph) is0) \<longleftrightarrow> no_block is0 \<and> (\<forall>n \<in> set (sg_nodes graph).
      \<forall>s. spec_of graph cat (scn_id n) = Some s \<longrightarrow> \<not> is_disabled n \<longrightarrow> \<not> (?byModel n \<and> ns_tool_key s \<noteq> None)
        \<longrightarrow> (\<forall>p \<in> set (ns_required_params s). \<not> is_missing (map_of (scn_params n) p)))"
    unfolding check_params_def vs Let_def by_model
    by (rule no_block_fold) (auto simp: one split: option.split)
  then show ?thesis by (simp add: params_ok_def)
qed

lemma check_ports_spec:
  assumes vg: "vg_ok graph cat g"
  shows "no_block (check_ports graph g is0) \<longleftrightarrow> no_block is0 \<and> ports_ok graph cat"
proof -
  note vs = vg_ok_simps [OF vg]
  have "no_block (check_ports graph g is0) \<longleftrightarrow> no_block is0 \<and> (\<forall>e \<in> set (sg_edges graph).
     (\<forall>s. spec_of graph cat (se_from e) = Some s \<longrightarrow> se_from_port e \<in> set (ns_ports s))
     \<and> (se_to e \<in> set (ids_of graph) \<longrightarrow> se_to_port e = SCENARIO_MAIN_PORT))"
    unfolding check_ports_def vs Let_def by (rule no_block_fold) (auto split: option.split)
  then show ?thesis by (simp add: ports_ok_def)
qed

lemma check_tools_spec:
  assumes vg: "vg_ok graph cat g"
  shows "no_block (check_tools g is0) \<longleftrightarrow> no_block is0 \<and> tools_ok graph"
proof -
  note vs = vg_ok_simps [OF vg]
  let ?check = "\<lambda>n k is'. if is_restricted_tool k then push_issue (issue_tool (scn_id n) k) is' else is'"
  have one: "no_block (fold (?check n) ks is1) \<longleftrightarrow> no_block is1 \<and> (\<forall>k \<in> set ks. \<not> is_restricted_tool k)" for n ks is1
    by (rule no_block_fold) auto
  have "no_block (check_tools g is0) \<longleftrightarrow> no_block is0
     \<and> (\<forall>n \<in> set (sg_nodes graph). scn_type n = TOOL_SET \<longrightarrow> (\<forall>k \<in> set (tool_set_keys n). \<not> is_restricted_tool k))"
    unfolding check_tools_def vs by (rule no_block_fold) (auto simp: one)
  then show ?thesis by (simp add: tools_ok_def)
qed

lemma check_triggers_spec:
  assumes vg: "vg_ok graph cat g" and "check_triggers g is0 = (triggers, is1)"
  shows "triggers = triggers_of graph cat" "no_block is1 \<longleftrightarrow> no_block is0 \<and> length (triggers_of graph cat) = 1"
proof -
  note vs = vg_ok_simps [OF vg]
  show t: "triggers = triggers_of graph cat"
    using assms(2) by (simp add: check_triggers_def Let_def vs triggers_of_def ids_of_def filter_map o_def)
  have "no_block (fold (push_node MultipleTriggers) xs is') \<longleftrightarrow> no_block is' \<and> (\<forall>x \<in> set xs. False)" for xs is'
    by (rule no_block_fold) simp
  moreover have "is1 = fold (push_node MultipleTriggers) (drop 1 triggers) (if triggers = [] then push_issue (issue_graph NoTrigger) is0 else is0)"
    using assms(2) unfolding check_triggers_def Let_def by (metis fst_conv snd_conv)
  moreover have "(\<forall>x \<in> set (drop 1 triggers). False) \<longleftrightarrow> length triggers \<le> 1" by (cases "drop 1 triggers") auto
  ultimately have "no_block is1 \<longleftrightarrow> no_block is0 \<and> triggers \<noteq> [] \<and> length triggers \<le> 1" by auto
  then show "no_block is1 \<longleftrightarrow> no_block is0 \<and> length (triggers_of graph cat) = 1"
    unfolding t by (cases "triggers_of graph cat") auto
qed

lemma check_dialog_spec:
  assumes vg: "vg_ok graph cat g" and "triggers_of graph cat \<noteq> []"
  shows "no_block (check_dialog g (triggers_of graph cat) is0) \<longleftrightarrow> no_block is0 \<and> dialog_ok graph cat"
proof -
  note vs = vg_ok_simps [OF vg]
  obtain t ts where t: "triggers_of graph cat = t # ts" using assms(2) by (cases "triggers_of graph cat") auto
  let ?check = "\<lambda>n is'. if is_disabled n then is'
             else (case dialog_need_of n of
                     Some DialogRequired \<Rightarrow> push_node MissingDialog (scn_id n) is'
                   | Some DialogPartial \<Rightarrow> push_node LimitedDialog (scn_id n) is'
                   | None \<Rightarrow> is')"
  have "no_block (fold ?check (sg_nodes graph) is0) \<longleftrightarrow> no_block is0
      \<and> (\<forall>n \<in> set (sg_nodes graph). \<not> is_disabled n \<longrightarrow> dialog_need_of n \<noteq> Some DialogRequired)"
    by (rule no_block_fold) (auto split: option.split dialog_need.split)
  then show ?thesis by (auto simp: check_dialog_def Let_def t vs dialog_ok_def split: option.split)
qed

subsection \<open>Reachability\<close>

lemma next_of_next_add: "next_of (next_add a b m) v = next_of m v @ (if v = a then [b] else [])"
  by (simp add: next_of_def next_add_def)

lemma next_of_fold:
  "next_of (fold (\<lambda>x. next_add (f x) (h x)) xs m) v = next_of m v @ map h (filter (\<lambda>x. f x = v) xs)"
  by (induction xs arbitrary: m) (auto simp: next_of_next_add)

lemma next_of_Nil [simp]: "next_of [] v = []"
  by (simp add: next_of_def tbl_get_def)

lemma reach_closed:
  assumes "set Q \<subseteq> R" "\<forall>v \<in> R - set Q. set (next_of m v) \<subseteq> R"
  shows "R \<subseteq> reach m Q R \<and> (\<forall>v \<in> reach m Q R. set (next_of m v) \<subseteq> reach m Q R)"
  using assms
proof (induction m Q R rule: reach.induct)
  case (2 m v queue R)
  obtain R' Q' where t: "reach_targets (next_of m v) R queue = (R', Q')" by (metis prod.collapse)
  obtain new where new: "Q' = queue @ new" "R' = R \<union> set (next_of m v)" "set new = set (next_of m v) - R"
    using reach_targets_spec [OF t] by blast
  have a: "set Q' \<subseteq> R'" using 2(2) new by auto
  have b: "\<forall>u \<in> R' - set Q'. set (next_of m u) \<subseteq> R'" using 2(3) new by auto
  from "2.IH" [OF t [symmetric] a b] show ?case using t new(2) by auto
qed auto

lemma reach_sound:
  assumes "R \<subseteq> {(x, y). y \<in> set (next_of m x)}\<^sup>* `` S" "set Q \<subseteq> R"
  shows "reach m Q R \<subseteq> {(x, y). y \<in> set (next_of m x)}\<^sup>* `` S"
  using assms
proof (induction m Q R rule: reach.induct)
  case (2 m v queue R)
  obtain R' Q' where t: "reach_targets (next_of m v) R queue = (R', Q')" by (metis prod.collapse)
  obtain new where new: "Q' = queue @ new" "R' = R \<union> set (next_of m v)" "set new = set (next_of m v) - R"
    using reach_targets_spec [OF t] by blast
  have "v \<in> {(x, y). y \<in> set (next_of m x)}\<^sup>* `` S" using 2(2,3) by auto
  then have "set (next_of m v) \<subseteq> {(x, y). y \<in> set (next_of m x)}\<^sup>* `` S"
    by (auto intro: rtrancl_into_rtrancl)
  then have a: "R' \<subseteq> {(x, y). y \<in> set (next_of m x)}\<^sup>* `` S" using 2(2) new(2) by blast
  have b: "set Q' \<subseteq> R'" using 2(3) new by auto
  from "2.IH" [OF t [symmetric] a b] show ?case using t by simp
qed simp

lemma reach_eq: "reach m Q (set Q) = {(x, y). y \<in> set (next_of m x)}\<^sup>* `` set Q" (is "_ = ?E\<^sup>* `` _")
proof
  show "reach m Q (set Q) \<subseteq> ?E\<^sup>* `` set Q" by (rule reach_sound) auto
  have c: "set Q \<subseteq> reach m Q (set Q)" "\<forall>v \<in> reach m Q (set Q). set (next_of m v) \<subseteq> reach m Q (set Q)"
    using reach_closed [of Q "set Q" m] by auto
  show "?E\<^sup>* `` set Q \<subseteq> reach m Q (set Q)"
  proof
    fix y assume "y \<in> ?E\<^sup>* `` set Q"
    then obtain x where "x \<in> set Q" "(x, y) \<in> ?E\<^sup>*" by blast
    from this(2) this(1) show "y \<in> reach m Q (set Q)"
      by (induction rule: rtrancl_induct) (use c in auto)
  qed
qed

lemma check_reachability_spec:
  assumes vg: "vg_ok graph cat g" and ne: "triggers_of graph cat \<noteq> []"
  shows "no_block (check_reachability g (edge_pairs graph) (sg_attachments graph) (triggers_of graph cat) is0)
    \<longleftrightarrow> no_block is0 \<and> reachable_ok graph cat"
proof -
  let ?m1 = "fold (\<lambda>(a, b). next_add a b) (edge_pairs graph) []"
  let ?m2 = "fold (\<lambda>a. next_add (sa_parent a) (sa_child a)) (sg_attachments graph) ?m1"
  let ?r = "reach ?m2 (triggers_of graph cat) (set (triggers_of graph cat))"
  have m1: "?m1 = fold (\<lambda>x. next_add (fst x) (snd x)) (edge_pairs graph) []" by (simp add: split_def)
  have "{(x, y). y \<in> set (next_of ?m2 x)} = links graph"
    unfolding m1 next_of_fold links_def parents_def by (auto simp: image_iff)
  then have r: "?r = (links graph)\<^sup>* `` set (triggers_of graph cat)" by (simp add: reach_eq)
  have "no_block (fold (\<lambda>n is'. if scn_id n \<notin> ?r then push_node Unreachable (scn_id n) is' else is') (sg_nodes graph) is0)
      \<longleftrightarrow> no_block is0 \<and> (\<forall>n \<in> set (sg_nodes graph). scn_id n \<in> ?r)"
    by (rule no_block_fold) auto
  then show ?thesis
    using ne by (auto simp: check_reachability_def Let_def vg_ok_simps [OF vg] r reachable_ok_def ids_of_def image_subset_iff)
qed

subsection \<open>A blocked stage stays blocked\<close>

lemma fold_back:
  assumes "\<And>x acc. no_block (proj (f x acc)) \<Longrightarrow> no_block (proj acc)"
  shows "no_block (proj (fold f xs acc)) \<Longrightarrow> no_block (proj acc)"
proof (induction xs arbitrary: acc)
  case (Cons x xs)
  from Cons.prems have "no_block (proj (fold f xs (f x acc)))" by simp
  from assms [OF Cons.IH [OF this]] show ?case .
qed simp

lemmas no_block_fold_back = fold_back [where proj = "\<lambda>issues. issues"]
lemmas no_block_fold_back2 = fold_back [where proj = snd]

lemma vg_missing_back: "no_block (snd (vg_missing g ids is0)) \<Longrightarrow> no_block is0"
  unfolding vg_missing_def by (drule no_block_fold_back2 [rotated]) (auto split: if_splits)

lemma main_step_back:
  assumes "no_block (snd (snd (main_step g e acc)))" shows "no_block (snd (snd acc))"
proof -
  obtain seen main is0 where acc: "acc = (seen, main, is0)" by (metis prod.collapse)
  obtain m is1 where m: "vg_missing g [se_from e, se_to e] is0 = (m, is1)" by (metis prod.collapse)
  have "no_block is1" using assms by (auto simp: acc main_step_def m split: if_splits)
  with vg_missing_back [of g "[se_from e, se_to e]" is0] m acc show ?thesis by simp
qed

lemma main_edges_back:
  assumes "no_block (snd (main_edges graph g is0))" shows "no_block is0"
proof -
  from fold_back [where proj = "\<lambda>acc. snd (snd acc)" and f = "main_step g" and xs = "sg_edges graph" and acc = "([], [], is0)", OF main_step_back]
    assms show ?thesis by (simp add: main_edges_def)
qed

lemma attach_step_back:
  assumes "no_block (snd (attach_step g main a acc))" shows "no_block (snd acc)"
proof -
  obtain accepted is0 where acc: "acc = (accepted, is0)" by (metis prod.collapse)
  obtain m is1 where m: "vg_missing g [sa_parent a, sa_child a] is0 = (m, is1)" by (metis prod.collapse)
  have "no_block is1" using assms by (auto simp: acc attach_step_def Let_def m split: if_splits)
  with vg_missing_back [of g "[sa_parent a, sa_child a]" is0] m acc show ?thesis by simp
qed

lemma attachments_back:
  assumes "no_block (snd (scenario_attachments graph g main is0))" shows "no_block is0"
proof -
  obtain accepted is1 where f: "fold (attach_step g main) (sg_attachments graph) ([], is0) = (accepted, is1)" by (metis prod.collapse)
  from assms have "no_block is1"
    unfolding scenario_attachments_def f Let_def split snd_conv
    by (rule no_block_fold_back [rotated]) (auto split: if_splits)
  then have "no_block (snd (fold (attach_step g main) (sg_attachments graph) ([], is0)))" using f by simp
  then have "no_block (snd ([] :: scenario_attachment list, is0))" by (rule no_block_fold_back2 [rotated]) (rule attach_step_back)
  then show ?thesis by simp
qed

lemma check_slots_back: "no_block (check_slots g as is0) \<Longrightarrow> no_block is0"
  unfolding check_slots_def
  by (erule no_block_fold_back [rotated])
     (auto split: option.splits if_splits elim!: no_block_fold_back [rotated] simp: check_slot_def Let_def)

lemma check_cycles_back: "no_block (check_cycles g main is0) \<Longrightarrow> no_block is0"
  unfolding check_cycles_def by (erule no_block_fold_back [rotated]) simp

lemma check_params_back: "no_block (check_params g as is0) \<Longrightarrow> no_block is0"
  unfolding check_params_def Let_def
  by (erule no_block_fold_back [rotated]) (auto split: option.splits if_splits elim!: no_block_fold_back [rotated])

lemma check_ports_back: "no_block (check_ports graph g is0) \<Longrightarrow> no_block is0"
  unfolding check_ports_def Let_def
  by (erule no_block_fold_back [rotated]) (auto split: option.splits if_splits)

lemma check_tools_back: "no_block (check_tools g is0) \<Longrightarrow> no_block is0"
  unfolding check_tools_def
  by (erule no_block_fold_back [rotated]) (auto split: if_splits elim!: no_block_fold_back [rotated])

lemma check_triggers_back: "no_block (snd (check_triggers g is0)) \<Longrightarrow> no_block is0"
  unfolding check_triggers_def Let_def snd_conv
  by (drule no_block_fold_back [rotated]) (auto split: if_splits)

lemma check_dialog_back: "no_block (check_dialog g triggers is0) \<Longrightarrow> no_block is0"
  unfolding check_dialog_def Let_def
  by (auto split: if_splits option.splits dialog_need.splits elim!: no_block_fold_back [rotated])

lemma check_reachability_back: "no_block (check_reachability g main as triggers is0) \<Longrightarrow> no_block is0"
  unfolding check_reachability_def Let_def
  by (auto split: if_splits elim!: no_block_fold_back [rotated])

lemmas stage_backs = check_slots_back check_cycles_back check_params_back check_ports_back check_tools_back
  check_triggers_back check_dialog_back check_reachability_back attachments_back main_edges_back

subsection \<open>The whole validation\<close>

lemma no_block_validate: "no_block (validate_scenario graph cat) \<longleftrightarrow> scenario_ok graph cat"
proof -
  obtain g is1 where n: "vgraph_new graph cat [] = (g, is1)" by (metis prod.collapse)
  obtain main is2 where e: "main_edges graph g is1 = (main, is2)" by (metis prod.collapse)
  obtain as is3 where a: "scenario_attachments graph g main is2 = (as, is3)" by (metis prod.collapse)
  define is8 where "is8 = check_tools g (check_ports graph g (check_params g as (check_cycles g main (check_slots g as is3))))"
  obtain ts is9 where t: "check_triggers g is8 = (ts, is9)" by (metis prod.collapse)
  have v: "validate_scenario graph cat = check_reachability g main as ts (check_dialog g ts is9)"
    by (simp add: validate_scenario_def n e a is8_def [symmetric] Let_def t)
  have back3: "no_block is3" if "no_block (validate_scenario graph cat)"
  proof -
    from that have "no_block is9" unfolding v by (meson check_dialog_back check_reachability_back)
    then have "no_block is8" using check_triggers_back [of g is8] t by simp
    then show ?thesis
      unfolding is8_def by (meson check_slots_back check_cycles_back check_params_back check_ports_back check_tools_back)
  qed
  have back2: "no_block is3 \<Longrightarrow> no_block is2" using attachments_back [of graph g main is2] a by simp
  have back1: "no_block is2 \<Longrightarrow> no_block is1" using main_edges_back [of graph g is1] e by simp
  show ?thesis
  proof (cases "nodes_ok graph cat")
    case False
    then have "\<not> no_block is1" using vgraph_new_spec(1) [OF n] by simp
    with False back1 back2 back3 show ?thesis by (auto simp: scenario_ok_def)
  next
    case True
    then have vg: "vg_ok graph cat g" and 1: "no_block is1" using vgraph_new_spec [OF n] by auto
    show ?thesis
    proof (cases "edges_ok graph cat")
      case False
      then have "\<not> no_block is2" using main_edges_spec(1) [OF vg e] by simp
      with False back2 back3 show ?thesis by (auto simp: scenario_ok_def)
    next
      case edges: True
      then have 2: "no_block is2" and main: "main = edge_pairs graph" using main_edges_spec [OF vg e] 1 by auto
      note A = attachments_spec [OF vg a [unfolded main]]
      show ?thesis
      proof (cases "attachments_ok graph cat")
        case False
        with A(1) back3 show ?thesis by (auto simp: scenario_ok_def)
      next
        case att: True
        then have 3: "no_block is3" and as: "as = sg_attachments graph" using A 2 by auto
        have 8: "no_block is8 \<longleftrightarrow> slots_ok graph cat \<and> acyclic (set (edge_pairs graph)) \<and> params_ok graph cat \<and> ports_ok graph cat \<and> tools_ok graph"
          by (simp add: is8_def as main check_tools_spec [OF vg] check_ports_spec [OF vg] check_params_spec [OF vg]
              check_cycles_spec [OF vg edges] check_slots_spec [OF vg] 3 conj_ac)
        note T = check_triggers_spec [OF vg t]
        show ?thesis
        proof (cases "length (triggers_of graph cat) = 1")
          case False
          then have "\<not> no_block is9" using T(2) by simp
          then have "\<not> no_block (validate_scenario graph cat)" unfolding v by (meson check_dialog_back check_reachability_back)
          with False show ?thesis by (simp add: scenario_ok_def)
        next
          case one: True
          then have ne: "triggers_of graph cat \<noteq> []" by auto
          show ?thesis
            unfolding v main as T(1) check_reachability_spec [OF vg ne] check_dialog_spec [OF vg ne] T(2) 8
            using True edges att one by (auto simp: scenario_ok_def)
        qed
      qed
    qed
  qed
qed

text \<open>C17: the validation of a scenario finds a blocking issue exactly when the scenario is not valid:
  node ids are unique and their types known, edges and attachments join what the catalogue lets them
  join, every slot is filled as it asks, no edge closes a circle, every required parameter is there,
  no port or tool is a forbidden one, there is one trigger, nodes that need a dialog have one, and
  every node can be reached from the trigger.\<close>
theorem validation_blocks_what_is_not_valid:
  "blocking_issues (validate_scenario graph cat) = [] \<longleftrightarrow> scenario_ok graph cat"
  by (simp add: blocking_issues_Nil_iff no_block_validate)

end
