(* ===== verification/ScenarioCompile.thy ===== *)
theory ScenarioCompile
  imports ScenarioSpec
begin

text \<open>
  The compilation of a scenario into a graph the scheduler runs, \<^verbatim>\<open>scenarios/compile.rs\<close>, and what a
  compiled graph is worth: the kernel accepts it, its tools are the ones the scenario attached.

  A \<^verbatim>\<open>BTreeMap\<close> is an association list in the order of its keys. The errors keep what the code puts in
  their detail: the issues, or the message and the node.
\<close>

subsection \<open>Names\<close>

definition NODE_NOT_IN_GRAPH :: string where "NODE_NOT_IN_GRAPH = ''NODE_NOT_IN_GRAPH''"
definition NODE_NOT_RUNNABLE :: string where "NODE_NOT_RUNNABLE = ''NODE_NOT_RUNNABLE''"
definition AMBIGUOUS_RESULT :: string where "AMBIGUOUS_RESULT = ''AMBIGUOUS_RESULT''"
definition PINNED_SOURCE :: string where "PINNED_SOURCE = ''pinned''"
definition FROM_PREFIX :: string where "FROM_PREFIX = ''from:''"
definition EVENT_KEY :: string where "EVENT_KEY = ''event''"
definition PARAMS_KEY :: string where "PARAMS_KEY = ''params''"
definition TOOLS_KEY :: string where "TOOLS_KEY = ''tools''"
definition RESULT_TEMPLATE :: string where "RESULT_TEMPLATE = ''result''"
definition WHOLE_RESULT :: string where "WHOLE_RESULT = ''{{result}}''"
definition BRANCH_VALUES :: "string list" where "BRANCH_VALUES = [''then'', ''else'']"

datatype compile_error = CompileInvalid "scenario_issue list" | CompileRefused string string

definition from_key :: "string \<Rightarrow> string" where
  "from_key i = FROM_PREFIX @ i"

definition slot_key :: "scenario_slot \<Rightarrow> string" where
  "slot_key slot = (case slot of SlotModel \<Rightarrow> ''model'' | SlotMemory \<Rightarrow> ''memory'' | SlotTool \<Rightarrow> TOOLS_KEY | SlotEmbedding \<Rightarrow> ''embedding'')"

definition attachment_key :: "scenario_slot \<Rightarrow> string \<Rightarrow> string" where
  "attachment_key slot child_type =
     (if child_type = MEMORY_FACTS then ''facts'' else if child_type = KNOWLEDGE_STORES then ''knowledge'' else slot_key slot)"

definition result_reference :: "json \<Rightarrow> string option" where
  "result_reference value =
     Option.bind (as_str value) (\<lambda>s.
     Option.bind (strip_prefix ''{{'' (trim s)) (\<lambda>r.
     Option.bind (strip_suffix ''}}'' r) (\<lambda>t.
       let inner = trim t in
       if inner = RESULT_TEMPLATE then Some []
       else Option.bind (strip_prefix RESULT_TEMPLATE inner) (\<lambda>u.
            Option.bind (strip_prefix ''.'' u) (\<lambda>path. if path = [] then None else Some path)))))"

lemma result_reference_samples:
  "result_reference (JString ''{{ result }}'') = Some []" "result_reference (JString '' {{result.items.0}}'') = Some ''items.0''"
  "result_reference (JString ''{{result.}}'') = None" "result_reference (JString ''{{results}}'') = None"
  by code_simp+

text \<open>\<^verbatim>\<open>BTreeMap::insert\<close>.\<close>

fun bt_put :: "string \<Rightarrow> 'v \<Rightarrow> 'v table \<Rightarrow> 'v table" where
  "bt_put k v [] = [(k, v)]"
| "bt_put k v ((a, b) # m) =
     (if k < a then (k, v) # (a, b) # m else if k = a then (k, v) # m else (a, b) # bt_put k v m)"

lemma set_bt_put: "set (bt_put k v m) \<subseteq> insert (k, v) (set m)"
  by (induction k v m rule: bt_put.induct) auto

lemma bt_put_ne [simp]: "bt_put k v m \<noteq> []"
  by (induction k v m rule: bt_put.induct) auto

subsection \<open>The scope of a compilation\<close>

record scope =
  sc_graph :: scenario_graph
  sc_catalogue :: catalogue
  sc_nodes :: "scenario_node table"

definition focus_nodes :: "scenario_graph \<Rightarrow> string \<Rightarrow> string list" where
  "focus_nodes graph i = map sa_child (filter (\<lambda>a. sa_parent a = i) (sg_attachments graph)) @ [i]"

definition scope_issues :: "scenario_graph \<Rightarrow> catalogue \<Rightarrow> string option \<Rightarrow> scenario_issue list" where
  "scope_issues graph cat focus =
     filter (\<lambda>issue. case focus of
         None \<Rightarrow> True
       | Some i \<Rightarrow> (case iss_node_id issue of None \<Rightarrow> False | Some n \<Rightarrow> n \<in> set (focus_nodes graph i)))
       (blocking_issues (validate_scenario graph cat))"

definition scope_new :: "scenario_graph \<Rightarrow> catalogue \<Rightarrow> string option \<Rightarrow> compile_error + scope" where
  "scope_new graph cat focus =
     (if scope_issues graph cat focus \<noteq> [] then Inl (CompileInvalid (scope_issues graph cat focus))
      else Inr \<lparr>sc_graph = graph, sc_catalogue = cat, sc_nodes = fold (\<lambda>n. tbl_put (scn_id n) n) (sg_nodes graph) []\<rparr>)"

definition scope_node :: "scope \<Rightarrow> string \<Rightarrow> compile_error + scenario_node" where
  "scope_node sc i = (case tbl_get (sc_nodes sc) i of Some n \<Rightarrow> Inr n | None \<Rightarrow> Inl (CompileRefused NODE_NOT_IN_GRAPH i))"

definition scope_spec :: "scope \<Rightarrow> scenario_node \<Rightarrow> compile_error + node_spec" where
  "scope_spec sc n = (case catalogue_spec (sc_catalogue sc) (scn_type n) of
     Some s \<Rightarrow> Inr s | None \<Rightarrow> Inl (CompileInvalid [issue_node UnknownNodeType (scn_id n)]))"

fun trunk_loop :: "scope \<Rightarrow> string list \<Rightarrow> scenario_node list \<Rightarrow> compile_error + scenario_node list" where
  "trunk_loop sc attached [] = Inr []"
| "trunk_loop sc attached (n # ns) =
     (if \<not> is_disabled n \<and> scn_id n \<notin> set attached then
        rbind (scope_spec sc n) (\<lambda>s. rbind (trunk_loop sc attached ns) (\<lambda>rest. Inr (if ns_trunk s then n # rest else rest)))
      else trunk_loop sc attached ns)"

definition enabled_trunk :: "scope \<Rightarrow> compile_error + scenario_node list" where
  "enabled_trunk sc = trunk_loop sc (map sa_child (sg_attachments (sc_graph sc))) (sg_nodes (sc_graph sc))"

subsection \<open>The steps before a step\<close>

definition incoming :: "scenario_graph \<Rightarrow> string \<Rightarrow> string list" where
  "incoming graph i = map se_from (filter (\<lambda>e. se_to e = i) (sg_edges graph))"

text \<open>Each turn takes one name off the list; a node's incoming edges are added once, when it is first seen.\<close>

lemma incoming_budget:
  "length (incoming graph v) + length (filter (\<lambda>e. se_to e \<notin> set (v # seen)) (sg_edges graph))
     = length (filter (\<lambda>e. se_to e \<notin> set seen) (sg_edges graph))" if "v \<notin> set seen"
proof -
  have "length (filter (\<lambda>e. se_to e = v) es) + length (filter (\<lambda>e. se_to e \<notin> set (v # seen)) es)
      = length (filter (\<lambda>e. se_to e \<notin> set seen) es)" for es
    using that by (induction es) auto
  then show ?thesis by (simp add: incoming_def)
qed

lemma seen_budget:
  "length (filter (\<lambda>e. se_to e \<notin> set (v # seen)) es) \<le> length (filter (\<lambda>e. se_to e \<notin> set seen) es)"
  by (induction es) auto

function pred_loop :: "scope \<Rightarrow> string list \<Rightarrow> string list \<Rightarrow> string list \<Rightarrow> string list" where
  "pred_loop sc pending seen found =
     (if pending = [] then found
      else let src = last pending; rest = butlast pending in
        if src \<in> set seen then pred_loop sc rest seen found
        else case tbl_get (sc_nodes sc) src of
            Some n \<Rightarrow> if is_disabled n then pred_loop sc (rest @ incoming (sc_graph sc) src) (src # seen) found
                      else pred_loop sc rest (src # seen) (found @ [src])
          | None \<Rightarrow> pred_loop sc rest (src # seen) found)"
  by pat_completeness auto

termination
proof (relation "measure (\<lambda>(sc, pending, seen, found). length pending
    + length (filter (\<lambda>e. se_to e \<notin> set seen) (sg_edges (sc_graph sc))))", goal_cases)
  case (3 sc pending seen found src rest)
  then have "length pending = Suc (length rest)" by (cases pending rule: rev_cases) auto
  with seen_budget [of src seen "sg_edges (sc_graph sc)"] show ?case by simp
next
  case (4 sc pending seen found src rest n)
  then have "length pending = Suc (length rest)" by (cases pending rule: rev_cases) auto
  with incoming_budget [of src seen "sc_graph sc"] 4 show ?case by (cases "length pending") auto
next
  case (5 sc pending seen found src rest n)
  then have "length pending = Suc (length rest)" by (cases pending rule: rev_cases) auto
  with seen_budget [of src seen "sg_edges (sc_graph sc)"] show ?case by simp
qed auto

declare pred_loop.simps [simp del]

definition predecessors :: "scope \<Rightarrow> string \<Rightarrow> string list" where
  "predecessors sc i = sort (pred_loop sc (incoming (sc_graph sc) i) [] [])"

definition step_condition :: "scope \<Rightarrow> string \<Rightarrow> graph_condition option" where
  "step_condition sc i =
     (case filter (\<lambda>e. se_to e = i) (sg_edges (sc_graph sc)) of
        [e] \<Rightarrow> Option.bind (tbl_get (sc_nodes sc) (se_from e)) (\<lambda>branch.
          if scn_type branch \<noteq> FLOW_BRANCH \<or> is_disabled branch then None
          else if se_from_port e = SCENARIO_TRUE_PORT then
            Some \<lparr>cond_node = scn_id branch, cond_field = CONDITION_PARAM, cond_equals = True\<rparr>
          else if se_from_port e = SCENARIO_FALSE_PORT then
            Some \<lparr>cond_node = scn_id branch, cond_field = CONDITION_PARAM, cond_equals = False\<rparr>
          else None)
      | _ \<Rightarrow> None)"

subsection \<open>Attachments\<close>

definition children :: "scope \<Rightarrow> string \<Rightarrow> (scenario_slot \<times> scenario_node) list" where
  "children sc i = List.map_filter (\<lambda>a. Option.bind (tbl_get (sc_nodes sc) (sa_child a))
       (\<lambda>c. if is_disabled c then None else Some (sa_slot a, c)))
     (filter (\<lambda>a. sa_parent a = i) (sg_attachments (sc_graph sc)))"

definition tool_keys :: "scope \<Rightarrow> scenario_node \<Rightarrow> compile_error + string list" where
  "tool_keys sc child =
     (if scn_type child = TOOL_SET then Inr (tool_set_keys child)
      else rbind (scope_spec sc child) (\<lambda>s. Inr (case ns_tool_key s of None \<Rightarrow> [] | Some k \<Rightarrow> [k])))"

definition add_key :: "string \<Rightarrow> string list \<Rightarrow> string list" where
  "add_key k keys = (if k \<in> set keys then keys else keys @ [k])"

definition child_config :: "scenario_node \<Rightarrow> json" where
  "child_config child = JObject [(''nodeId'', JString (scn_id child)), (''type'', JString (scn_type child)), (''params'', JObject (scn_params child))]"

fun attach_loop :: "scope \<Rightarrow> (scenario_slot \<times> scenario_node) list \<Rightarrow> params \<Rightarrow> string list \<Rightarrow> compile_error + params \<times> string list" where
  "attach_loop sc [] config keys = Inr (config, keys)"
| "attach_loop sc ((slot, child) # rest) config keys =
     (let keys1 = (if scn_type child = KNOWLEDGE_STORES then add_key KNOWLEDGE_SEARCH keys else keys) in
      if slot = SlotTool then rbind (tool_keys sc child) (\<lambda>ks. attach_loop sc rest config (fold add_key ks keys1))
      else attach_loop sc rest (obj_insert (attachment_key slot (scn_type child)) (child_config child) config) keys1)"

definition step_attachments :: "scope \<Rightarrow> string \<Rightarrow> compile_error + params \<times> string list" where
  "step_attachments sc i = rbind (attach_loop sc (children sc i) [] []) (\<lambda>(config, keys).
     Inr (if keys \<noteq> [] then obj_insert TOOLS_KEY (JArray (map JString keys)) config else config, keys))"

subsection \<open>One step\<close>

definition apply_settings :: "scenario_node \<Rightarrow> graph_node \<Rightarrow> graph_node" where
  "apply_settings n step =
     (let s = node_settings n;
          step1 = (if set_max_attempts s \<noteq> None \<or> set_backoff_ms s \<noteq> None
            then step\<lparr>node_retry := Some \<lparr>max_attempts_of = (case set_max_attempts s of Some m \<Rightarrow> m | None \<Rightarrow> 1),
                                         backoff_ms = (case set_backoff_ms s of Some b \<Rightarrow> b | None \<Rightarrow> 0)\<rparr>\<rparr>
            else step);
          step2 = step1\<lparr>node_timeout_ms := set_timeout_ms s\<rparr> in
      if settings_on_error s = OnErrorContinue then step2\<lparr>node_continue_on_error := Some True\<rparr> else step2)"

definition step_params :: "scenario_node \<Rightarrow> params" where
  "step_params n =
     (if scn_type n \<noteq> FLOW_BRANCH then scn_params n
      else
        let params = fold (\<lambda>k. obj_insert k (JString WHOLE_RESULT)) BRANCH_VALUES (scn_params n) in
        case map_of params CONDITION_PARAM of
          Some (JString text) \<Rightarrow>
            if trim text = ''true'' then obj_insert CONDITION_PARAM (JBool True) params
            else if trim text = ''false'' then obj_insert CONDITION_PARAM (JBool False) params
            else params
        | _ \<Rightarrow> params)"

datatype upstream = UpSteps "string list" | UpPinned json

fun bind_params ::
  "upstream \<Rightarrow> string \<Rightarrow> params \<Rightarrow> params \<Rightarrow> graph_binding table \<Rightarrow> compile_error + params \<times> graph_binding table"
where
  "bind_params up i [] input bs = Inr (input, bs)"
| "bind_params up i ((key, value) # rest) input bs =
     (case result_reference value of
        None \<Rightarrow> bind_params up i rest input bs
      | Some path \<Rightarrow>
          (case up of
             UpSteps [src] \<Rightarrow> bind_params up i rest input (bt_put key (BindNode src (Some path)) bs)
           | UpSteps _ \<Rightarrow> Inl (CompileRefused AMBIGUOUS_RESULT i)
           | UpPinned pinned \<Rightarrow> bind_params up i rest (obj_insert key (project pinned path) input) bs))"

definition builtin_input :: "upstream \<Rightarrow> scenario_node \<Rightarrow> params \<Rightarrow> params \<times> graph_binding table \<times> string list" where
  "builtin_input up n config =
     (let input = obj_insert PARAMS_KEY (JObject (scn_params n)) config;
          bs = bt_put EVENT_KEY BindRun [] in
      case up of
        UpSteps sources \<Rightarrow> (input, fold (\<lambda>s. bt_put (from_key s) (BindNode s None)) sources bs, sources)
      | UpPinned value \<Rightarrow> (obj_insert (from_key PINNED_SOURCE) value input, bs, []))"

definition action_input :: "upstream \<Rightarrow> scenario_node \<Rightarrow> compile_error + params \<times> graph_binding table \<times> string list" where
  "action_input up n = rbind (bind_params up (scn_id n) (step_params n) (step_params n) []) (\<lambda>(input, bs).
     Inr (input, bs, (case up of UpSteps sources \<Rightarrow> sources | UpPinned _ \<Rightarrow> [])))"

definition input_for :: "node_spec \<Rightarrow> upstream \<Rightarrow> scenario_node \<Rightarrow> params \<Rightarrow> compile_error + params \<times> graph_binding table \<times> string list" where
  "input_for spec up n config = (if ns_builtin spec then Inr (builtin_input up n config) else action_input up n)"

definition step_node :: "scope \<Rightarrow> scenario_node \<Rightarrow> upstream \<Rightarrow> params \<Rightarrow> graph_binding table \<Rightarrow> string list \<Rightarrow> graph_node" where
  "step_node sc n up input bs deps =
     (let cond = (case up of UpSteps _ \<Rightarrow> step_condition sc (scn_id n) | UpPinned _ \<Rightarrow> None) in
      apply_settings n ((graph_node_new (scn_id n) (scn_type n))
        \<lparr>node_dependencies := Some deps, node_input := Some (JObject input),
         node_bindings := (if bs \<noteq> [] then Some bs else None), node_when := cond\<rparr>))"

definition compile_step :: "scope \<Rightarrow> scenario_node \<Rightarrow> upstream \<Rightarrow> compile_error + graph_node \<times> string list" where
  "compile_step sc n up =
     rbind (scope_spec sc n) (\<lambda>spec.
       if \<not> ns_trunk spec then Inl (CompileRefused NODE_NOT_RUNNABLE (scn_id n))
       else rbind (step_attachments sc (scn_id n)) (\<lambda>(config, keys).
         rbind (input_for spec up n config) (\<lambda>(input, bs, deps). Inr (step_node sc n up input bs deps, keys))))"

subsection \<open>The graph\<close>

definition run_graph_of :: "graph_node list \<Rightarrow> string list \<Rightarrow> run_graph" where
  "run_graph_of steps tools = \<lparr>nodes = steps, permission_scopes_opt = None, allowed_tools = Some tools\<rparr>"

definition merge_keys :: "string list \<Rightarrow> string list \<Rightarrow> string list" where
  "merge_keys tools ks = fold add_key ks tools"

fun compile_loop :: "scope \<Rightarrow> scenario_node list \<Rightarrow> graph_node list \<Rightarrow> string list \<Rightarrow> compile_error + graph_node list \<times> string list" where
  "compile_loop sc [] steps tools = Inr (steps, tools)"
| "compile_loop sc (n # ns) steps tools =
     rbind (compile_step sc n (UpSteps (predecessors sc (scn_id n)))) (\<lambda>(step, ks).
       compile_loop sc ns (steps @ [step]) (merge_keys tools ks))"

definition compile_scenario :: "scenario_graph \<Rightarrow> catalogue \<Rightarrow> compile_error + run_graph" where
  "compile_scenario graph cat =
     rbind (scope_new graph cat None) (\<lambda>sc.
     rbind (enabled_trunk sc) (\<lambda>ns.
     rbind (compile_loop sc ns [] []) (\<lambda>(steps, tools). Inr (run_graph_of steps tools))))"

definition compile_node :: "scenario_graph \<Rightarrow> catalogue \<Rightarrow> string \<Rightarrow> json \<Rightarrow> compile_error + run_graph" where
  "compile_node graph cat i input =
     rbind (scope_new graph cat (Some i)) (\<lambda>sc.
     rbind (scope_node sc i) (\<lambda>n.
     rbind (compile_step sc n (UpPinned input)) (\<lambda>(step, keys). Inr (run_graph_of [step] keys))))"

subsection \<open>What the steps before a step are\<close>

text \<open>The edges whose end is disabled: a path over them is passed through.\<close>

definition scope_disabled :: "scope \<Rightarrow> string \<Rightarrow> bool" where
  "scope_disabled sc i \<longleftrightarrow> (case tbl_get (sc_nodes sc) i of None \<Rightarrow> False | Some n \<Rightarrow> is_disabled n)"

definition scope_enabled :: "scope \<Rightarrow> string \<Rightarrow> bool" where
  "scope_enabled sc i \<longleftrightarrow> (case tbl_get (sc_nodes sc) i of None \<Rightarrow> False | Some n \<Rightarrow> \<not> is_disabled n)"

definition passed :: "scope \<Rightarrow> (string \<times> string) set" where
  "passed sc = {(a, b). (a, b) \<in> set (edge_pairs (sc_graph sc)) \<and> scope_disabled sc b}"

lemma set_incoming: "set (incoming graph i) = {a. (a, i) \<in> set (edge_pairs graph)}"
  by (force simp: incoming_def edge_pairs_def)

definition passes_to :: "scope \<Rightarrow> string \<Rightarrow> string list" where
  "passes_to sc p = (if scope_disabled sc p then incoming (sc_graph sc) p else [])"

definition counts_as :: "scope \<Rightarrow> string \<Rightarrow> string list" where
  "counts_as sc p = (if scope_enabled sc p then [p] else [])"

lemma pred_loop_eqs:
  "pred_loop sc [] seen found = found"
  "p \<in> set seen \<Longrightarrow> pred_loop sc (rest @ [p]) seen found = pred_loop sc rest seen found"
  "p \<notin> set seen \<Longrightarrow> pred_loop sc (rest @ [p]) seen found = pred_loop sc (rest @ passes_to sc p) (p # seen) (found @ counts_as sc p)"
  by (subst pred_loop.simps; simp add: passes_to_def counts_as_def scope_disabled_def scope_enabled_def split: option.split)+

lemma pred_loop_induct:
  assumes stop: "\<And>seen found. P [] seen found"
    and again: "\<And>rest p seen found. p \<in> set seen \<Longrightarrow> P rest seen found \<Longrightarrow> P (rest @ [p]) seen found"
    and new: "\<And>rest p seen found. p \<notin> set seen \<Longrightarrow> P (rest @ passes_to sc p) (p # seen) (found @ counts_as sc p) \<Longrightarrow> P (rest @ [p]) seen found"
  shows "P pending seen found"
proof (induction "length pending + length (filter (\<lambda>e. se_to e \<notin> set seen) (sg_edges (sc_graph sc)))"
    arbitrary: pending seen found rule: less_induct)
  case less
  show ?case
  proof (cases pending rule: rev_cases)
    case Nil
    then show ?thesis by (simp add: stop)
  next
    case (snoc rest p)
    show ?thesis
    proof (cases "p \<in> set seen")
      case True
      then show ?thesis unfolding snoc by (rule again) (rule less, simp add: snoc)
    next
      case False
      have "length (passes_to sc p) + length (filter (\<lambda>e. se_to e \<notin> set (p # seen)) (sg_edges (sc_graph sc)))
          \<le> length (filter (\<lambda>e. se_to e \<notin> set seen) (sg_edges (sc_graph sc)))"
        using incoming_budget [OF False, of "sc_graph sc"] seen_budget [of p seen "sg_edges (sc_graph sc)"]
        by (simp add: passes_to_def)
      with False show ?thesis unfolding snoc by (intro new less) (simp_all add: snoc)
    qed
  qed
qed

lemma pred_loop_distinct: "distinct found \<Longrightarrow> set found \<subseteq> set seen \<Longrightarrow> distinct (pred_loop sc pending seen found)"
proof (induction pending seen found rule: pred_loop_induct [where sc = sc])
  case (3 rest p seen found)
  then have "p \<notin> set found" "set (found @ counts_as sc p) \<subseteq> set (p # seen)" by (auto simp: counts_as_def)
  with 3 show ?case by (simp add: pred_loop_eqs counts_as_def)
qed (simp_all add: pred_loop_eqs)

lemma pred_loop_set:
  assumes "\<forall>v \<in> set seen. set (passes_to sc v) \<subseteq> set seen \<union> set pending" "set found = {v \<in> set seen. scope_enabled sc v}"
  shows "set (pred_loop sc pending seen found) = {v. scope_enabled sc v \<and> v \<in> ((passed sc)\<inverse>)\<^sup>* `` (set seen \<union> set pending)}"
  using assms
proof (induction pending seen found rule: pred_loop_induct [where sc = sc])
  case (1 seen found)
  have "v \<in> set seen" if "u \<in> set seen" "(u, v) \<in> ((passed sc)\<inverse>)\<^sup>*" for u v
    using that(2,1)
    by (induction rule: rtrancl_induct)
       (use 1(1) in \<open>auto simp: passed_def passes_to_def set_incoming subset_iff\<close>)
  with 1(2) show ?case by (auto simp: pred_loop_eqs)
next
  case (2 rest p seen found)
  then show ?case by (simp add: pred_loop_eqs insert_absorb subset_iff)
next
  case (3 rest p seen found)
  have whole: "set (p # seen) \<union> set (rest @ passes_to sc p) = (set seen \<union> set (rest @ [p])) \<union> set (passes_to sc p)" by auto
  have closed: "((passed sc)\<inverse>)\<^sup>* `` (A \<union> set (passes_to sc p)) = ((passed sc)\<inverse>)\<^sup>* `` A" if "p \<in> A" for A
    using that by (auto simp: passes_to_def set_incoming passed_def split: if_splits intro: converse_rtrancl_into_rtrancl)
  have a: "\<forall>v \<in> set (p # seen). set (passes_to sc v) \<subseteq> set (p # seen) \<union> set (rest @ passes_to sc p)" using 3(3) by fastforce
  have b: "set (found @ counts_as sc p) = {v \<in> set (p # seen). scope_enabled sc v}" using 3(4) by (auto simp: counts_as_def)
  show ?case unfolding pred_loop_eqs(3) [OF 3(1)] 3(2) [OF a b] whole by (subst closed) simp_all
qed

lemma predecessors_set:
  "distinct (predecessors sc i)" "set (predecessors sc i)
     = {v. scope_enabled sc v \<and> (\<exists>w. (v, w) \<in> (passed sc)\<^sup>* \<and> (w, i) \<in> set (edge_pairs (sc_graph sc)))}"
  using pred_loop_distinct [of "[]" "[]"] pred_loop_set [of "[]" sc "incoming (sc_graph sc) i" "[]"]
  by (auto simp: predecessors_def set_incoming rtrancl_converse)

text \<open>C20: the steps a step waits for are the enabled ones from which a path leads to it through disabled
  nodes only, each once.\<close>

theorem predecessors_pass_disabled_nodes:
  "distinct (predecessors sc i) \<and> set (predecessors sc i)
     = {v. scope_enabled sc v \<and> (\<exists>w. (v, w) \<in> (passed sc)\<^sup>* \<and> (w, i) \<in> set (edge_pairs (sc_graph sc)))}"
  using predecessors_set by blast

subsection \<open>What a compilation returns\<close>

definition scope_of :: "scenario_graph \<Rightarrow> catalogue \<Rightarrow> scope" where
  "scope_of graph cat = \<lparr>sc_graph = graph, sc_catalogue = cat, sc_nodes = fold (\<lambda>n. tbl_put (scn_id n) n) (sg_nodes graph) []\<rparr>"

lemma scope_of_sel [simp]: "sc_graph (scope_of graph cat) = graph" "sc_catalogue (scope_of graph cat) = cat"
  by (simp_all add: scope_of_def)

lemma scope_new_Inr: "scope_new graph cat None = Inr sc \<longleftrightarrow> scenario_ok graph cat \<and> sc = scope_of graph cat"
  by (auto simp: scope_new_def scope_issues_def scope_of_def blocking_issues_Nil_iff no_block_validate filter_True)

lemma fold_tbl_put_nodes:
  "distinct (map scn_id ns) \<Longrightarrow> tbl_get (fold (\<lambda>n. tbl_put (scn_id n) n) ns []) i = map_of (map (\<lambda>n. (scn_id n, n)) ns) i"
proof (induction ns rule: rev_induct)
  case (snoc n ns)
  then show ?case
    using map_of_snoc [of "scn_id n" "map (\<lambda>n. (scn_id n, n)) ns" n] by (auto simp: image_image simp del: map_of_append)
qed simp

lemma scope_of_nodes: "nodes_ok graph cat \<Longrightarrow> tbl_get (sc_nodes (scope_of graph cat)) i = node_of graph i"
  by (simp add: scope_of_def node_of_def nodes_ok_def ids_of_def fold_tbl_put_nodes)

lemma scope_spec_Inr: "scope_spec sc n = Inr s \<longleftrightarrow> catalogue_spec (sc_catalogue sc) (scn_type n) = Some s"
  by (auto simp: scope_spec_def split: option.split)

lemma trunk_loop_eq:
  "\<forall>n \<in> set ns. catalogue_spec (sc_catalogue sc) (scn_type n) \<noteq> None \<Longrightarrow> trunk_loop sc attached ns
     = Inr (filter (\<lambda>n. \<not> is_disabled n \<and> scn_id n \<notin> set attached
         \<and> (\<exists>s. catalogue_spec (sc_catalogue sc) (scn_type n) = Some s \<and> ns_trunk s)) ns)"
  by (induction ns) (auto simp: scope_spec_def)

lemma compile_loop_Inr:
  "compile_loop sc ns steps tools = Inr (steps', tools') \<Longrightarrow>
     \<exists>out. list_all2 (\<lambda>n r. compile_step sc n (UpSteps (predecessors sc (scn_id n))) = Inr r) ns out
       \<and> steps' = steps @ map fst out \<and> tools' = fold (\<lambda>r ts. merge_keys ts (snd r)) out tools"
proof (induction ns arbitrary: steps tools)
  case (Cons n ns)
  then obtain st ks where st: "compile_step sc n (UpSteps (predecessors sc (scn_id n))) = Inr (st, ks)"
    and rest: "compile_loop sc ns (steps @ [st]) (merge_keys tools ks) = Inr (steps', tools')" by (auto simp: rbind_Inr_iff)
  from Cons.IH [OF rest] obtain out where
    "list_all2 (\<lambda>n r. compile_step sc n (UpSteps (predecessors sc (scn_id n))) = Inr r) ns out"
    "steps' = (steps @ [st]) @ map fst out" "tools' = fold (\<lambda>r ts. merge_keys ts (snd r)) out (merge_keys tools ks)" by blast
  with st show ?case by (intro exI [of _ "(st, ks) # out"]) auto
qed simp

lemma apply_settings_sel [simp]:
  "node_id (apply_settings n st) = node_id st" "node_type (apply_settings n st) = node_type st"
  "node_dependencies (apply_settings n st) = node_dependencies st" "node_input (apply_settings n st) = node_input st"
  "node_bindings (apply_settings n st) = node_bindings st" "node_when (apply_settings n st) = node_when st"
  by (simp_all add: apply_settings_def Let_def)

lemma bind_params_sources:
  "bind_params (UpSteps srcs) i ps input bs = Inr (input', bs') \<Longrightarrow> \<forall>(k, b) \<in> set bs. binding_source_ok srcs b
     \<Longrightarrow> \<forall>(k, b) \<in> set bs'. binding_source_ok srcs b"
proof (induction ps arbitrary: bs)
  case (Cons p rest)
  obtain key v where p: "p = (key, v)" by (cases p)
  show ?case
  proof (cases "result_reference v")
    case None
    with Cons.prems Cons.IH [of bs] p show ?thesis by simp
  next
    case (Some path)
    with Cons.prems(1) p obtain src where src: "srcs = [src]" by (auto split: list.splits)
    have "\<forall>(k, b) \<in> set (bt_put key (BindNode src (Some path)) bs). binding_source_ok srcs b"
      using Cons.prems(2) src by (auto simp: binding_source_ok_def dest!: subsetD [OF set_bt_put])
    with Cons.prems(1) Cons.IH [of "bt_put key (BindNode src (Some path)) bs"] p Some src show ?thesis by simp
  qed
qed simp

lemma builtin_bindings:
  "set (fold (\<lambda>s. bt_put (from_key s) (BindNode s None)) srcs bs) \<subseteq> set bs \<union> (\<lambda>s. (from_key s, BindNode s None)) ` set srcs"
proof (induction srcs arbitrary: bs)
  case (Cons s srcs)
  show ?case using Cons.IH [of "bt_put (from_key s) (BindNode s None) bs"] set_bt_put [of "from_key s" "BindNode s None" bs] by auto
qed simp

lemma builtin_sources: "\<forall>(k, b) \<in> set (fold (\<lambda>s. bt_put (from_key s) (BindNode s None)) srcs (bt_put EVENT_KEY BindRun [])). binding_source_ok srcs b"
  using builtin_bindings [of srcs "bt_put EVENT_KEY BindRun []"] by (auto simp: binding_source_ok_def dest!: subsetD)

lemma compile_step_Inr:
  assumes "compile_step sc n (UpSteps srcs) = Inr (st, ks)"
  shows "node_id st = scn_id n" "node_type st = scn_type n" "dependencies st = srcs" "is_object (graph_input st)"
    "\<forall>(k, b) \<in> set (bindings st). binding_source_ok srcs b" "node_when st = step_condition sc (scn_id n)"
proof -
  obtain spec config input bs deps where
    parts: "input_for spec (UpSteps srcs) n config = Inr (input, bs, deps)"
    and "st = step_node sc n (UpSteps srcs) input bs deps"
    using assms unfolding compile_step_def rbind_Inr_iff by (auto simp: rbind_Inr_iff split: if_splits)
  then have st: "st = apply_settings n ((graph_node_new (scn_id n) (scn_type n))
                 \<lparr>node_dependencies := Some deps, node_input := Some (JObject input),
                  node_bindings := (if bs \<noteq> [] then Some bs else None), node_when := step_condition sc (scn_id n)\<rparr>)"
    by (simp add: step_node_def)
  have deps: "deps = srcs" and bs: "\<forall>(k, b) \<in> set bs. binding_source_ok srcs b"
    using parts bind_params_sources [of srcs "scn_id n" "step_params n" "step_params n" "[]" input bs]
      builtin_sources [of srcs]
    by (auto simp: input_for_def builtin_input_def action_input_def rbind_Inr_iff binding_source_ok_def Let_def split: if_splits)
  show "node_id st = scn_id n" "node_type st = scn_type n" "dependencies st = srcs" "is_object (graph_input st)"
    "node_when st = step_condition sc (scn_id n)"
    using deps by (simp_all add: st graph_node_new_def dependencies_def graph_input_def is_object_def)
  show "\<forall>(k, b) \<in> set (bindings st). binding_source_ok srcs b" using bs by (auto simp: st bindings_def)
qed

subsection \<open>The kernel accepts a compiled scenario\<close>

definition trunk_nodes :: "scenario_graph \<Rightarrow> catalogue \<Rightarrow> scenario_node list" where
  "trunk_nodes graph cat = filter (\<lambda>n. \<not> is_disabled n \<and> scn_id n \<notin> set (map sa_child (sg_attachments graph))
     \<and> (\<exists>s. catalogue_spec cat (scn_type n) = Some s \<and> ns_trunk s)) (sg_nodes graph)"

lemma enabled_trunk_scope:
  "nodes_ok graph cat \<Longrightarrow> enabled_trunk (scope_of graph cat) = Inr (trunk_nodes graph cat)"
  unfolding enabled_trunk_def trunk_nodes_def scope_of_sel by (subst trunk_loop_eq) (simp_all add: nodes_ok_def)

lemma compile_Inr:
  assumes "compile_scenario graph cat = Inr g"
  obtains out where "scenario_ok graph cat"
    "list_all2 (\<lambda>n r. compile_step (scope_of graph cat) n (UpSteps (predecessors (scope_of graph cat) (scn_id n))) = Inr r)
       (trunk_nodes graph cat) out"
    "nodes g = map fst out" "allowed_tools g = Some (fold (\<lambda>r ts. merge_keys ts (snd r)) out [])"
proof -
  have ok: "scenario_ok graph cat" using assms by (auto simp: compile_scenario_def rbind_Inr_iff scope_new_Inr)
  then have nodes: "nodes_ok graph cat" by (simp add: scenario_ok_def)
  obtain steps tools where l: "compile_loop (scope_of graph cat) (trunk_nodes graph cat) [] [] = Inr (steps, tools)"
    and g: "g = run_graph_of steps tools"
    using assms by (auto simp: compile_scenario_def rbind_Inr_iff scope_new_Inr enabled_trunk_scope [OF nodes])
  from compile_loop_Inr [OF l] ok g that show ?thesis by (auto simp: run_graph_of_def)
qed

lemma scope_enabled_node:
  assumes "nodes_ok graph cat" "scope_enabled (scope_of graph cat) v"
  shows "\<exists>n \<in> set (sg_nodes graph). scn_id n = v \<and> \<not> is_disabled n"
  using assms(2) by (auto simp: scope_enabled_def scope_of_nodes [OF assms(1)] split: option.splits dest: node_of_mem)

lemma passed_edges: "passed (scope_of graph cat) \<subseteq> set (edge_pairs graph)"
  by (auto simp: passed_def)

lemma predecessor_path:
  assumes "v \<in> set (predecessors (scope_of graph cat) i)" shows "(v, i) \<in> (set (edge_pairs graph))\<^sup>+"
proof -
  obtain w where "(v, w) \<in> (passed (scope_of graph cat))\<^sup>*" "(w, i) \<in> set (edge_pairs graph)"
    using assms by (auto simp: predecessors_set)
  with rtrancl_mono [OF passed_edges] show ?thesis by (meson rtrancl_into_trancl1 subsetD)
qed

lemma predecessor_trunk:
  assumes ok: "scenario_ok graph cat" and v: "v \<in> set (predecessors (scope_of graph cat) i)"
  shows "v \<in> scn_id ` set (trunk_nodes graph cat)"
proof -
  have nodes: "nodes_ok graph cat" and edges: "edges_ok graph cat" and att: "attachments_ok graph cat"
    using ok by (auto simp: scenario_ok_def)
  obtain y where y: "(v, y) \<in> set (edge_pairs graph)" using predecessor_path [OF v] by (meson tranclD)
  then obtain e where "e \<in> set (sg_edges graph)" "se_from e = v" by (auto simp: edge_pairs_def)
  with edges have trunk: "is_trunk graph cat v" by (auto simp: edges_ok_def edge_ok_def)
  obtain n where n: "n \<in> set (sg_nodes graph)" "scn_id n = v" "\<not> is_disabled n"
    using v scope_enabled_node [OF nodes] by (auto simp: predecessors_set)
  have "v \<notin> set (map sa_child (sg_attachments graph))"
    using att y by (fastforce simp: attachments_ok_def attachment_ok_def)
  moreover obtain s where "catalogue_spec cat (scn_type n) = Some s" "ns_trunk s"
    using trunk n spec_of_node [OF nodes n(1)] nodes by (auto simp: is_trunk_def nodes_ok_def split: option.splits)
  ultimately show ?thesis using n by (auto simp: trunk_nodes_def)
qed

lemma compiled_graph_valid:
  assumes g: "compile_scenario graph cat = Inr g"
    and reg: "\<And>ty s. catalogue_spec cat ty = Some s \<Longrightarrow> ns_trunk s \<Longrightarrow> find_node reg ty \<noteq> None"
  shows "valid_graph reg g"
proof -
  let ?sc = "scope_of graph cat"
  obtain out where ok: "scenario_ok graph cat"
    and out: "list_all2 (\<lambda>n r. compile_step ?sc n (UpSteps (predecessors ?sc (scn_id n))) = Inr r) (trunk_nodes graph cat) out"
    and steps: "nodes g = map fst out" and "allowed_tools g = Some (fold (\<lambda>r ts. merge_keys ts (snd r)) out [])"
    by (rule compile_Inr [OF g])
  have nodes: "nodes_ok graph cat" and acyclic: "acyclic (set (edge_pairs graph))" using ok by (auto simp: scenario_ok_def)
  have from_node: "\<exists>n \<in> set (trunk_nodes graph cat). \<exists>ks. compile_step ?sc n (UpSteps (predecessors ?sc (scn_id n))) = Inr (st, ks)"
    if "st \<in> set (nodes g)" for st
    using that out unfolding steps by (fastforce simp: list_all2_conv_all_nth in_set_conv_nth)
  have ids: "map node_id (nodes g) = map scn_id (trunk_nodes graph cat)"
    using out unfolding steps
  proof (induction rule: list_all2_induct)
    case (Cons n ns r rs)
    then show ?case by (cases r) (simp add: compile_step_Inr(1))
  qed simp
  have "distinct (map node_id (nodes g))"
    using nodes unfolding ids trunk_nodes_def nodes_ok_def ids_of_def by (intro distinct_map_filter_keep) simp
  moreover have "node_ok reg (map node_id (nodes g)) st" if st: "st \<in> set (nodes g)" for st
  proof -
    obtain n ks where n: "n \<in> set (trunk_nodes graph cat)"
      and c: "compile_step ?sc n (UpSteps (predecessors ?sc (scn_id n))) = Inr (st, ks)" using from_node [OF st] by blast
    note C = compile_step_Inr [OF c]
    have "find_node reg (scn_type n) \<noteq> None" using n reg by (auto simp: trunk_nodes_def)
    moreover have "set (predecessors ?sc (scn_id n)) \<subseteq> set (map node_id (nodes g))"
      unfolding ids using predecessor_trunk [OF ok] by auto
    ultimately show ?thesis unfolding node_ok_def C(2,3) using C(4,5) predecessors_set(1) by blast
  qed
  moreover have "acyclic (dep_edges (nodes g))"
  proof -
    have "(d, node_id st) \<in> (set (edge_pairs graph))\<^sup>+" if st: "st \<in> set (nodes g)" and d: "d \<in> set (dependencies st)" for d st
    proof -
      obtain n ks where "compile_step ?sc n (UpSteps (predecessors ?sc (scn_id n))) = Inr (st, ks)" using from_node [OF st] by blast
      from compile_step_Inr(1,3) [OF this] d predecessor_path [of d graph cat] show ?thesis by simp
    qed
    then have "dep_edges (nodes g) \<subseteq> (set (edge_pairs graph))\<^sup>+" by (auto simp: dep_edges_def)
    moreover have "acyclic ((set (edge_pairs graph))\<^sup>+)" using acyclic by (simp add: acyclic_def)
    ultimately show ?thesis by (rule acyclic_subset [rotated])
  qed
  ultimately show ?thesis by (simp add: valid_graph_def)
qed

lemma condition_is_before:
  assumes nodes: "nodes_ok graph cat" and c: "step_condition (scope_of graph cat) i = Some c"
  shows "cond_node c \<in> set (predecessors (scope_of graph cat) i)"
proof -
  obtain e branch where e: "filter (\<lambda>e. se_to e = i) (sg_edges graph) = [e]" and b: "node_of graph (se_from e) = Some branch"
    "\<not> is_disabled branch" "cond_node c = scn_id branch"
    using c by (auto simp: step_condition_def scope_of_nodes [OF nodes] bind_eq_Some_conv split: list.splits if_splits)
  have "e \<in> set (filter (\<lambda>e. se_to e = i) (sg_edges graph))" unfolding e by simp
  then have "(se_from e, i) \<in> set (edge_pairs graph)" by (auto simp: edge_pairs_def)
  moreover have "scope_enabled (scope_of graph cat) (se_from e)" using b by (simp add: scope_enabled_def scope_of_nodes [OF nodes])
  ultimately have "se_from e \<in> set (predecessors (scope_of graph cat) i)" unfolding predecessors_set by auto
  with b node_of_mem [OF b(1)] show ?thesis by simp
qed

lemma compiled_conditions:
  assumes g: "compile_scenario graph cat = Inr g" and st: "st \<in> set (nodes g)" and c: "node_when st = Some c"
  shows "cond_node c \<in> set (dependencies st)"
proof -
  let ?sc = "scope_of graph cat"
  obtain out where ok: "scenario_ok graph cat"
    and out: "list_all2 (\<lambda>n r. compile_step ?sc n (UpSteps (predecessors ?sc (scn_id n))) = Inr r) (trunk_nodes graph cat) out"
    and steps: "nodes g = map fst out" and "allowed_tools g = Some (fold (\<lambda>r ts. merge_keys ts (snd r)) out [])"
    by (rule compile_Inr [OF g])
  obtain ks where "(st, ks) \<in> set out" using st steps by auto
  with out obtain n where n: "compile_step ?sc n (UpSteps (predecessors ?sc (scn_id n))) = Inr (st, ks)"
    by (auto simp: list_all2_conv_all_nth in_set_conv_nth)
  have "nodes_ok graph cat" using ok by (simp add: scenario_ok_def)
  from condition_is_before [OF this] c compile_step_Inr(3,6) [OF n] show ?thesis by simp
qed

text \<open>C18: when every built-in type that can stand in the graph is registered, the kernel accepts what a
  scenario is compiled to (ids unique, types known, dependencies and bindings inside the graph, no circle),
  and a step's condition looks at a step it waits for.\<close>

theorem compiled_scenario_is_accepted:
  assumes "\<forall>s \<in> set builtin_catalogue. ns_trunk s \<longrightarrow> find_node reg (ns_type s) \<noteq> None"
    and "compile_scenario graph (catalogue_from_registry reg actions) = Inr g"
  shows "validate_graph reg g = Inr ()
    \<and> list_all (\<lambda>n. case node_when n of None \<Rightarrow> True | Some c \<Rightarrow> cond_node c \<in> set (dependencies n)) (nodes g)"
proof -
  have "find_node reg ty \<noteq> None" if c: "catalogue_spec (catalogue_from_registry reg actions) ty = Some s" and t: "ns_trunk s" for ty s
    using catalogue_from_registry_spec [OF c]
  proof
    assume b: "catalogue_spec builtin_catalogue ty = Some s"
    then have "s \<in> set builtin_catalogue" "ns_type s = ty" by (auto simp: catalogue_spec_def dest: find_Some_mem)
    with assms(1) t show ?thesis by blast
  qed blast
  with assms(2) show ?thesis unfolding validate_graph_valid by (auto simp: list_all_iff compiled_graph_valid compiled_conditions split: option.split)
qed

definition sample_scenario_registry :: registry where
  "sample_scenario_registry = map (\<lambda>s. \<lparr>rn_type = ns_type s, rn_permission = ReqNone, rn_defers_approval = False, rn_side_effect = True,
     rn_input_schema = ns_params_schema s, rn_output_schema = JObject [], rn_permission_for = (\<lambda>_. ReqNone)\<rparr>)
     (filter ns_trunk builtin_catalogue)"

definition sample_scn :: "string \<Rightarrow> string \<Rightarrow> params \<Rightarrow> scenario_node" where
  "sample_scn i ty ps = \<lparr>scn_id = i, scn_type = ty, scn_name = None, scn_position = \<lparr>pos_x = ''0'', pos_y = ''0''\<rparr>,
     scn_params = ps, scn_disabled = None, scn_settings = None, scn_notes = None, scn_pinned_input = None\<rparr>"

definition sample_scenario :: scenario_graph where
  "sample_scenario = \<lparr>sg_nodes = [sample_scn ''t'' TRIGGER_CHAT [],
      (sample_scn ''x'' AGENT_TOOLS [])\<lparr>scn_disabled := Some True\<rparr>,
      sample_scn ''a'' AGENT_TOOLS [],
      sample_scn ''m'' MODEL_CHAT [(''providerId'', JString ''p''), (''modelId'', JString ''q'')],
      sample_scn ''s'' TOOL_SET [(TOOL_SET_PARAM, JArray [JString ''files.read''])],
      sample_scn ''r'' OUTPUT_CHAT_REPLY []],
     sg_edges = [\<lparr>se_from = ''t'', se_to = ''x'', se_from_port = SCENARIO_MAIN_PORT, se_to_port = SCENARIO_MAIN_PORT\<rparr>,
      \<lparr>se_from = ''x'', se_to = ''a'', se_from_port = SCENARIO_MAIN_PORT, se_to_port = SCENARIO_MAIN_PORT\<rparr>,
      \<lparr>se_from = ''a'', se_to = ''r'', se_from_port = SCENARIO_MAIN_PORT, se_to_port = SCENARIO_MAIN_PORT\<rparr>],
     sg_attachments = [\<lparr>sa_parent = ''a'', sa_child = ''m'', sa_slot = SlotModel\<rparr>,
      \<lparr>sa_parent = ''a'', sa_child = ''s'', sa_slot = SlotTool\<rparr>]\<rparr>"

definition sample_compiled :: run_graph where
  "sample_compiled = (case compile_scenario sample_scenario (catalogue_from_registry sample_scenario_registry []) of
     Inr g \<Rightarrow> g | Inl _ \<Rightarrow> run_graph_of [] [])"

lemma sample_compiles:
  "compile_scenario sample_scenario (catalogue_from_registry sample_scenario_registry []) = Inr sample_compiled"
  "map (\<lambda>n. (node_id n, dependencies n)) (nodes sample_compiled) = [(''t'', []), (''a'', [''t'']), (''r'', [''a''])]"
  "allowed_tools sample_compiled = Some [''files.read'']"
  by code_simp+

lemma sample_registered: "\<forall>s \<in> set builtin_catalogue. ns_trunk s \<longrightarrow> find_node sample_scenario_registry (ns_type s) \<noteq> None"
  by code_simp

lemma compiled_scenario_is_accepted_witness: "validate_graph sample_scenario_registry sample_compiled = Inr ()"
  using compiled_scenario_is_accepted [OF sample_registered sample_compiles(1)] by simp

subsection \<open>When a compilation succeeds\<close>

definition names_result :: "catalogue \<Rightarrow> scenario_node \<Rightarrow> bool" where
  "names_result cat n \<longleftrightarrow> (case catalogue_spec cat (scn_type n) of None \<Rightarrow> False | Some s \<Rightarrow> \<not> ns_builtin s)
     \<and> list_ex (\<lambda>(k, v). result_reference v \<noteq> None) (step_params n)"

text \<open>A step that names the result of the step before it has exactly one before it.\<close>

definition unambiguous :: "scenario_graph \<Rightarrow> catalogue \<Rightarrow> bool" where
  "unambiguous graph cat = list_all (\<lambda>n. names_result cat n \<longrightarrow> length (predecessors (scope_of graph cat) (scn_id n)) = 1) (trunk_nodes graph cat)"

lemma bind_params_total:
  "(\<exists>r. bind_params (UpSteps srcs) i ps input bs = Inr r) \<longleftrightarrow> list_ex (\<lambda>(k, v). result_reference v \<noteq> None) ps \<longrightarrow> length srcs = 1"
proof (induction ps arbitrary: bs)
  case (Cons p ps)
  obtain k v where p: "p = (k, v)" by (cases p)
  show ?case
  proof (cases "length srcs = 1")
    case True
    then obtain src where "srcs = [src]" by (auto simp: length_Suc_conv)
    with Cons.IH p show ?thesis by (auto split: option.split)
  next
    case False
    with Cons.IH p show ?thesis by (cases srcs rule: list.exhaust) (auto split: option.split list.split)
  qed
qed simp

lemma attach_loop_total:
  assumes "\<forall>(slot, c) \<in> set cs. catalogue_spec (sc_catalogue sc) (scn_type c) \<noteq> None"
  shows "\<exists>r. attach_loop sc cs config keys = Inr r"
  using assms
proof (induction cs arbitrary: config keys)
  case (Cons x cs)
  obtain slot c where x: "x = (slot, c)" by (cases x)
  have "\<exists>ks. tool_keys sc c = Inr ks" using Cons.prems x by (auto simp: tool_keys_def scope_spec_def)
  with Cons x show ?case by (auto simp: Let_def)
qed simp

lemma children_of:
  assumes "nodes_ok graph cat"
  shows "(slot, c) \<in> set (children (scope_of graph cat) i) \<longleftrightarrow>
    (\<exists>a \<in> set (sg_attachments graph). sa_parent a = i \<and> sa_slot a = slot \<and> node_of graph (sa_child a) = Some c \<and> \<not> is_disabled c)"
  by (force simp: children_def map_filter_def scope_of_nodes [OF assms] bind_eq_Some_conv split: if_splits)

lemma compile_step_total:
  assumes nodes: "nodes_ok graph cat" and n: "n \<in> set (trunk_nodes graph cat)"
  shows "(\<exists>r. compile_step (scope_of graph cat) n (UpSteps srcs) = Inr r) \<longleftrightarrow> (names_result cat n \<longrightarrow> length srcs = 1)"
proof -
  obtain s where s: "catalogue_spec cat (scn_type n) = Some s" "ns_trunk s" using n by (auto simp: trunk_nodes_def)
  have "\<forall>(slot, c) \<in> set (children (scope_of graph cat) (scn_id n)). catalogue_spec cat (scn_type c) \<noteq> None"
    using nodes by (auto simp: children_of [OF nodes] nodes_ok_def dest!: node_of_mem)
  then obtain config keys where a: "step_attachments (scope_of graph cat) (scn_id n) = Inr (config, keys)"
    using attach_loop_total [of "children (scope_of graph cat) (scn_id n)" "scope_of graph cat" "[]" "[]"]
    by (fastforce simp: step_attachments_def rbind_Inr_iff)
  have "(\<exists>r. input_for s (UpSteps srcs) n config = Inr r) \<longleftrightarrow> (names_result cat n \<longrightarrow> length srcs = 1)"
  proof (cases "ns_builtin s")
    case True
    with s show ?thesis by (simp add: input_for_def names_result_def del: split_paired_Ex)
  next
    case False
    have "(\<exists>r. action_input (UpSteps srcs) n = Inr r)
        \<longleftrightarrow> (\<exists>r. bind_params (UpSteps srcs) (scn_id n) (step_params n) (step_params n) [] = Inr r)"
      by (auto simp: action_input_def rbind_Inr_iff)
    with False s show ?thesis by (simp add: input_for_def names_result_def bind_params_total del: split_paired_Ex)
  qed
  then show ?thesis using s a by (auto simp: compile_step_def scope_spec_def rbind_Inr_iff)
qed

lemma compile_loop_total:
  "(\<exists>r. compile_loop sc ns steps tools = Inr r) \<longleftrightarrow> (\<forall>n \<in> set ns. \<exists>r. compile_step sc n (UpSteps (predecessors sc (scn_id n))) = Inr r)"
proof (induction ns arbitrary: steps tools)
  case (Cons n ns)
  show ?case
  proof (cases "compile_step sc n (UpSteps (predecessors sc (scn_id n)))")
    case (Inr r)
    then show ?thesis using Cons.IH [of "steps @ [fst r]" "merge_keys tools (snd r)"] by (cases r) (simp del: split_paired_Ex)
  qed simp
qed simp

text \<open>C19: a scenario compiles exactly when it validates and no step that has several steps before it (or
  none) names their result.\<close>

theorem compile_succeeds_iff:
  "(\<exists>g. compile_scenario graph cat = Inr g) \<longleftrightarrow> scenario_ok graph cat \<and> unambiguous graph cat"
proof (cases "scenario_ok graph cat")
  case True
  then have nodes: "nodes_ok graph cat" by (simp add: scenario_ok_def)
  have "(\<exists>g. compile_scenario graph cat = Inr g) \<longleftrightarrow> (\<exists>r. compile_loop (scope_of graph cat) (trunk_nodes graph cat) [] [] = Inr r)"
    using True by (auto simp: compile_scenario_def rbind_Inr_iff scope_new_Inr enabled_trunk_scope [OF nodes])
  also have "\<dots> \<longleftrightarrow> unambiguous graph cat"
    by (simp add: compile_loop_total compile_step_total [OF nodes] unambiguous_def list_all_iff del: split_paired_Ex)
  finally show ?thesis using True by simp
qed (auto simp: compile_scenario_def rbind_Inr_iff scope_new_Inr)

subsection \<open>The tools of a compiled scenario\<close>

definition offers :: "catalogue \<Rightarrow> scenario_slot \<Rightarrow> scenario_node \<Rightarrow> string set" where
  "offers cat slot c = (if scn_type c = KNOWLEDGE_STORES then {KNOWLEDGE_SEARCH} else {})
     \<union> (if slot \<noteq> SlotTool then {} else if scn_type c = TOOL_SET then set (tool_set_keys c)
        else (case catalogue_spec cat (scn_type c) of None \<Rightarrow> {} | Some s \<Rightarrow> set_option (ns_tool_key s)))"

text \<open>A tool is granted when an enabled node that offers it is attached to a node of the trunk, and a
  tool set offers no tool of a restricted family.\<close>

definition grants :: "scenario_graph \<Rightarrow> catalogue \<Rightarrow> string \<Rightarrow> bool" where
  "grants graph cat k = list_ex (\<lambda>a. sa_parent a \<in> scn_id ` set (trunk_nodes graph cat)
     \<and> (case node_of graph (sa_child a) of None \<Rightarrow> False
        | Some c \<Rightarrow> \<not> is_disabled c \<and> k \<in> offers cat (sa_slot a) c \<and> (scn_type c = TOOL_SET \<longrightarrow> \<not> is_restricted_tool k)))
     (sg_attachments graph)"

lemma set_add_keys: "set (fold add_key ks keys) = set keys \<union> set ks"
  by (induction ks arbitrary: keys) (auto simp: add_key_def)

lemma attach_loop_keys:
  "attach_loop sc cs config keys = Inr (config', keys') \<Longrightarrow>
     set keys' = set keys \<union> (\<Union>(slot, c) \<in> set cs. offers (sc_catalogue sc) slot c)"
proof (induction cs arbitrary: config keys)
  case (Cons x cs)
  obtain slot c where x: "x = (slot, c)" by (cases x)
  let ?keys = "if scn_type c = KNOWLEDGE_STORES then add_key KNOWLEDGE_SEARCH keys else keys"
  show ?case
  proof (cases "slot = SlotTool")
    case True
    with Cons.prems x obtain ks where ks: "tool_keys sc c = Inr ks" and r: "attach_loop sc cs config (fold add_key ks ?keys) = Inr (config', keys')"
      by (auto simp: rbind_Inr_iff Let_def)
    have "offers (sc_catalogue sc) slot c = (if scn_type c = KNOWLEDGE_STORES then {KNOWLEDGE_SEARCH} else {}) \<union> set ks"
      using ks True by (auto simp: tool_keys_def offers_def rbind_Inr_iff scope_spec_Inr split: if_splits option.splits)
    with Cons.IH [OF r] x show ?thesis by (auto simp: set_add_keys add_key_def)
  next
    case False
    with Cons.prems x have r: "attach_loop sc cs (obj_insert (attachment_key slot (scn_type c)) (child_config c) config) ?keys = Inr (config', keys')"
      by (simp add: Let_def)
    from Cons.IH [OF r] x False show ?thesis by (auto simp: offers_def add_key_def)
  qed
qed simp

lemma compile_step_keys:
  "compile_step sc n up = Inr (st, ks) \<Longrightarrow> set ks = (\<Union>(slot, c) \<in> set (children sc (scn_id n)). offers (sc_catalogue sc) slot c)"
  using attach_loop_keys [of sc "children sc (scn_id n)" "[]" "[]"]
  by (auto simp: compile_step_def step_attachments_def rbind_Inr_iff split: if_splits)

lemma restricted_knowledge_sets:
  assumes "tools_ok graph" "node_of graph i = Some c" "scn_type c = TOOL_SET" "k \<in> set (tool_set_keys c)"
  shows "\<not> is_restricted_tool k"
  using assms node_of_mem [OF assms(2)] by (auto simp: tools_ok_def)

lemma tool_set_offers: "scn_type c = TOOL_SET \<Longrightarrow> k \<in> offers cat slot c \<Longrightarrow> k \<in> set (tool_set_keys c)"
  by (auto simp: offers_def TOOL_SET_def KNOWLEDGE_STORES_def split: if_splits)

lemma compiled_tools:
  assumes g: "compile_scenario graph cat = Inr g" shows "allows_tool g k \<longleftrightarrow> grants graph cat k"
proof -
  let ?sc = "scope_of graph cat"
  obtain out where ok: "scenario_ok graph cat"
    and out: "list_all2 (\<lambda>n r. compile_step ?sc n (UpSteps (predecessors ?sc (scn_id n))) = Inr r) (trunk_nodes graph cat) out"
    and "nodes g = map fst out" and tools: "allowed_tools g = Some (fold (\<lambda>r ts. merge_keys ts (snd r)) out [])"
    by (rule compile_Inr [OF g])
  have nodes: "nodes_ok graph cat" and sets: "tools_ok graph" using ok by (auto simp: scenario_ok_def)
  have "set (fold (\<lambda>r ts. merge_keys ts (snd r)) rs ts) = set ts \<union> (\<Union>r \<in> set rs. set (snd r))" for rs :: "(graph_node \<times> string list) list" and ts
    by (induction rs arbitrary: ts) (auto simp: merge_keys_def set_add_keys)
  with tools have "allows_tool g k \<longleftrightarrow> k \<in> (\<Union>r \<in> set out. set (snd r))" by (auto simp: allows_tool_def list_ex_iff)
  also have "(\<Union>r \<in> set out. set (snd r)) = (\<Union>n \<in> set (trunk_nodes graph cat). \<Union>(slot, c) \<in> set (children ?sc (scn_id n)). offers cat slot c)"
    using out
  proof (induction rule: list_all2_induct)
    case (Cons n ns r rs)
    then show ?case using compile_step_keys [of ?sc n "UpSteps (predecessors ?sc (scn_id n))" "fst r" "snd r"] by simp
  qed simp
  also have "k \<in> \<dots> \<longleftrightarrow> grants graph cat k"
    using restricted_knowledge_sets [OF sets] tool_set_offers
    by (fastforce simp: grants_def list_ex_iff children_of [OF nodes] split: option.splits)
  finally show ?thesis .
qed

text \<open>A compiled scenario may call exactly the tools its attachments offer: a tool is allowed when an
  enabled node that offers it is attached to a step, and never through a tool set that names a
  restricted family.\<close>

lemma compiled_tools_are_granted:
  "compile_scenario graph cat = Inr g \<Longrightarrow> allows_tool g k \<longleftrightarrow> grants graph cat k"
  by (rule compiled_tools)

end
