(* ===== verification/AgenticPlan.thy ===== *)
theory AgenticPlan
  imports StepRules
begin

text \<open>
  The plan of an agentic session, \<^verbatim>\<open>agentic/plan.rs\<close>: the proposals of the model, the edits of the user,
  the step that is being worked on, the files changed, and the guard that stops a session that turns in
  circles.

  On the text of the model (Latin-1) \<^verbatim>\<open>js_trim\<close> is \<open>trim\<close> and \<^verbatim>\<open>js_slice\<close> takes characters. The numbers in
  the ids of steps are \<^verbatim>\<open>u64\<close>; \<open>plan_run_ok\<close> shows they stay far below where adding one would overflow
  unless as many steps were proposed. \<^verbatim>\<open>Uuid::parse_str\<close> is a parameter.
\<close>

definition AGENTIC_STEP_TITLE_MAX :: nat where "AGENTIC_STEP_TITLE_MAX = 200"
definition AGENTIC_SUMMARY_MAX :: nat where "AGENTIC_SUMMARY_MAX = 2000"
definition AGENTIC_PLAN_MAX :: nat where "AGENTIC_PLAN_MAX = 50"
definition REPEAT_LIMIT :: nat where "REPEAT_LIMIT = 3"
definition REVISION_LIMIT :: nat where "REVISION_LIMIT = 4"

datatype plan_status = PlanQueued | PlanRunning | PlanDone | PlanFailed

definition plan_status_str :: "plan_status \<Rightarrow> string" where
  "plan_status_str s = (case s of PlanQueued \<Rightarrow> ''queued'' | PlanRunning \<Rightarrow> ''running'' | PlanDone \<Rightarrow> ''done'' | PlanFailed \<Rightarrow> ''failed'')"

record plan_step =
  ps_id :: string
  ps_title :: string
  ps_status :: plan_status
  ps_steps :: "string list"
  ps_summary :: "string option"

record plan_edit =
  pe_id :: "string option"
  pe_title :: string

record changed_file =
  cf_path :: string
  cf_added :: nat
  cf_removed :: nat

type_synonym plan = "plan_step list"

record plan_change =
  pc_removed :: "string list"
  pc_added :: "string list"
  pc_changed :: bool

definition plan_change_default :: plan_change where
  "plan_change_default = \<lparr>pc_removed = [], pc_added = [], pc_changed = False\<rparr>"

definition plan_title :: "string \<Rightarrow> string option" where
  "plan_title text = (if trim text \<noteq> [] then Some (take AGENTIC_STEP_TITLE_MAX (trim text)) else None)"

definition plan_summary :: "string \<Rightarrow> string option" where
  "plan_summary text = (if trim text \<noteq> [] then Some (take AGENTIC_SUMMARY_MAX (trim text)) else None)"

text \<open>\<^verbatim>\<open>format!("p{number}")\<close>.\<close>

definition step_name :: "nat \<Rightarrow> string" where
  "step_name n = CHR ''p'' # decimal n"

definition step_number :: "plan_step \<Rightarrow> nat option" where
  "step_number s = Option.bind (strip_prefix ''p'' (ps_id s)) parse_usize"

definition next_number :: "plan \<Rightarrow> nat" where
  "next_number p = (case List.map_filter step_number p of [] \<Rightarrow> 0 | n # ns \<Rightarrow> fold max ns n) + 1"

definition fresh_step :: "string \<Rightarrow> string \<Rightarrow> plan_step" where
  "fresh_step i t = \<lparr>ps_id = i, ps_title = t, ps_status = PlanQueued, ps_steps = [], ps_summary = None\<rparr>"

definition settled_step :: "plan_step \<Rightarrow> bool" where
  "settled_step s \<longleftrightarrow> ps_status s = PlanDone \<or> ps_status s = PlanFailed"

text \<open>\<^verbatim>\<open>iter().position(..)\<close>.\<close>

fun position :: "('a \<Rightarrow> bool) \<Rightarrow> 'a list \<Rightarrow> nat option" where
  "position f [] = None"
| "position f (x # xs) = (if f x then Some 0 else map_option Suc (position f xs))"

definition with_status :: "plan_status \<Rightarrow> plan_step \<Rightarrow> bool" where
  "with_status st s \<longleftrightarrow> ps_status s = st"

definition current_index :: "plan \<Rightarrow> nat option" where
  "current_index p = (case position (with_status PlanRunning) p of
     Some i \<Rightarrow> Some i | None \<Rightarrow> position (with_status PlanQueued) p)"

definition current :: "plan \<Rightarrow> plan" where
  "current p = (case current_index p of None \<Rightarrow> p | Some i \<Rightarrow> p[i := (p ! i)\<lparr>ps_status := PlanRunning\<rparr>])"

definition remove_at :: "nat \<Rightarrow> 'a list \<Rightarrow> 'a list" where
  "remove_at i xs = take i xs @ drop (Suc i) xs"

fun propose_loop :: "string list \<Rightarrow> nat \<Rightarrow> plan \<Rightarrow> plan \<Rightarrow> plan" where
  "propose_loop [] number reusable result = result"
| "propose_loop (text # texts) number reusable result =
     (if AGENTIC_PLAN_MAX \<le> length result then result
      else case plan_title text of
          None \<Rightarrow> propose_loop texts number reusable result
        | Some t \<Rightarrow> (case position (\<lambda>s. ps_title s = t) reusable of
              Some i \<Rightarrow> propose_loop texts number (remove_at i reusable) (result @ [(reusable ! i)\<lparr>ps_status := PlanQueued\<rparr>])
            | None \<Rightarrow> propose_loop texts (number + 1) reusable (result @ [fresh_step (step_name number) t])))"

definition propose :: "plan \<Rightarrow> string list \<Rightarrow> nat \<times> plan" where
  "propose p titles =
     (let p' = current (propose_loop titles (next_number p) (filter (\<lambda>s. \<not> settled_step s) p) (filter settled_step p)) in
      (length (filter (\<lambda>s. \<not> settled_step s) p'), p'))"

definition complete :: "plan \<Rightarrow> string \<Rightarrow> string option \<times> plan" where
  "complete p text = (case position (with_status PlanRunning) p of
     None \<Rightarrow> (None, p)
   | Some i \<Rightarrow> (Some (ps_title (p ! i)), current (p[i := (p ! i)\<lparr>ps_status := PlanDone, ps_summary := plan_summary text\<rparr>])))"

definition end_running :: "plan_status \<Rightarrow> plan \<Rightarrow> plan" where
  "end_running st p = map (\<lambda>s. if ps_status s = PlanRunning then s\<lparr>ps_status := st\<rparr> else s) p"

definition finish_plan :: "plan \<Rightarrow> plan" where
  "finish_plan p = end_running PlanDone p"

definition fail_plan :: "plan \<Rightarrow> plan" where
  "fail_plan p = end_running PlanFailed p"

definition link_step :: "(string \<Rightarrow> string option) \<Rightarrow> plan \<Rightarrow> string \<Rightarrow> plan" where
  "link_step parse p sid = (case parse sid of
     None \<Rightarrow> p
   | Some i \<Rightarrow> (case current_index p of
        None \<Rightarrow> p
      | Some k \<Rightarrow> p[k := (p ! k)\<lparr>ps_status := PlanRunning, ps_steps := ps_steps (p ! k) @ [i]\<rparr>]))"

fun edit_loop :: "plan_edit list \<Rightarrow> nat \<Rightarrow> plan \<Rightarrow> plan \<Rightarrow> plan_change \<Rightarrow> plan \<times> plan \<times> plan_change" where
  "edit_loop [] number remaining result change = (remaining, result, change)"
| "edit_loop (entry # entries) number remaining result change =
     (if AGENTIC_PLAN_MAX \<le> length result then (remaining, result, change)
      else case plan_title (pe_title entry) of
          None \<Rightarrow> edit_loop entries number remaining result change
        | Some t \<Rightarrow> (case Option.bind (pe_id entry) (\<lambda>i. position (\<lambda>s. ps_id s = i) remaining) of
              Some k \<Rightarrow>
                let s = remaining ! k in
                edit_loop entries number (remove_at k remaining)
                  (result @ [if ps_title s \<noteq> t then s\<lparr>ps_title := t\<rparr> else s])
                  (if ps_title s \<noteq> t then change\<lparr>pc_changed := True\<rparr> else change)
            | None \<Rightarrow> edit_loop entries (number + 1) remaining (result @ [fresh_step (step_name number) t])
                (change\<lparr>pc_added := pc_added change @ [t]\<rparr>)))"

definition edit_plan :: "plan \<Rightarrow> plan_edit list \<Rightarrow> plan_change \<times> plan" where
  "edit_plan p edits =
     (let queued = filter (\<lambda>s. ps_status s = PlanQueued) p;
          fixed = filter (\<lambda>s. ps_status s \<noteq> PlanQueued) p in
      case edit_loop edits (next_number p) queued fixed plan_change_default of (remaining, result, change) \<Rightarrow>
        let before = map ps_id queued; after = map ps_id (filter (\<lambda>s. ps_status s = PlanQueued) result) in
        (change\<lparr>pc_removed := map ps_title remaining, pc_changed := pc_changed change \<or> before \<noteq> after\<rparr>, result))"

fun join_lines :: "string list \<Rightarrow> string" where
  "join_lines [] = []"
| "join_lines [l] = l"
| "join_lines (l # ls) = l @ [CHR 0x0A] @ join_lines ls"

definition describe_plan :: "plan \<Rightarrow> string" where
  "describe_plan p = (if p = [] then ''(no plan yet)''
     else join_lines (map (\<lambda>(i, s). decimal (i + 1) @ ''. ['' @ plan_status_str (ps_status s) @ ''] '' @ ps_title s) (enumerate 0 p)))"

text \<open>\<^verbatim>\<open>record_changes\<close> on the list of changes that parse: paths with the lines added and removed.\<close>

fun record_change :: "changed_file list \<Rightarrow> changed_file \<Rightarrow> changed_file list" where
  "record_change [] d = [d]"
| "record_change (f # fs) d =
     (if cf_path f = cf_path d then f\<lparr>cf_added := cf_added f + cf_added d, cf_removed := cf_removed f + cf_removed d\<rparr> # fs
      else f # record_change fs d)"

definition record_changes :: "(json \<Rightarrow> changed_file option) \<Rightarrow> changed_file list \<Rightarrow> json \<Rightarrow> changed_file list" where
  "record_changes parse files result = (case obj_get result ''changes'' of
     Some (JArray changes) \<Rightarrow> fold (\<lambda>d fs. record_change fs d) (List.map_filter parse changes) files
   | _ \<Rightarrow> files)"

subsection \<open>The guard\<close>

record loop_guard =
  lg_last :: "string option"
  lg_repeats :: nat
  lg_revisions :: nat
  lg_removed :: "string set"

definition loop_guard_default :: loop_guard where
  "loop_guard_default = \<lparr>lg_last = None, lg_repeats = 0, lg_revisions = 0, lg_removed = {}\<rparr>"

definition guard_round :: "loop_guard \<Rightarrow> string \<Rightarrow> bool \<times> loop_guard" where
  "guard_round g sig =
     (let g1 = (if lg_last g = Some sig then g\<lparr>lg_repeats := lg_repeats g + 1\<rparr> else g\<lparr>lg_last := Some sig, lg_repeats := 1\<rparr>) in
      (REPEAT_LIMIT \<le> lg_repeats g1, g1))"

definition guard_revised :: "loop_guard \<Rightarrow> bool \<times> loop_guard" where
  "guard_revised g = (let g1 = g\<lparr>lg_revisions := lg_revisions g + 1\<rparr> in (REVISION_LIMIT \<le> lg_revisions g1, g1))"

definition guard_progressed :: "loop_guard \<Rightarrow> loop_guard" where
  "guard_progressed g = g\<lparr>lg_revisions := 0\<rparr>"

definition guard_forbid :: "loop_guard \<Rightarrow> string list \<Rightarrow> loop_guard" where
  "guard_forbid g titles = g\<lparr>lg_removed := lg_removed g \<union> set titles\<rparr>"

definition guard_allowed :: "loop_guard \<Rightarrow> string list \<Rightarrow> string list" where
  "guard_allowed g titles = filter (\<lambda>text. case plan_title text of None \<Rightarrow> True | Some t \<Rightarrow> t \<notin> lg_removed g) titles"

subsection \<open>Numbers and names\<close>

lemma digit_value_digit: "d < 10 \<Longrightarrow> digit_value (digit d) = Some d"
  by (simp add: digit_value_def digit_def Let_def)

lemma digits_value_snoc: "d < 10 \<Longrightarrow> digits_value acc (s @ [digit d]) = map_option (\<lambda>v. 10 * v + d) (digits_value acc s)"
  by (induction s arbitrary: acc) (auto simp: digit_value_digit split: option.split)

lemma digits_value_decimal: "digits_value 0 (decimal n) = Some n"
proof (induction n rule: decimal.induct)
  case (1 n)
  show ?case
  proof (cases "n < 10")
    case True
    then show ?thesis using digits_value_snoc [of n 0 "[]"] by (simp add: decimal.simps [of n])
  next
    case False
    with 1 show ?thesis by (subst decimal.simps) (simp add: digits_value_snoc)
  qed
qed

lemma decimal_head: "\<exists>d r. decimal n = digit d # r \<and> d < 10"
proof (induction n rule: decimal.induct)
  case (1 n)
  show ?case
  proof (cases "n < 10")
    case False
    with 1 obtain d r where "decimal (n div 10) = digit d # r" "d < 10" by blast
    with False show ?thesis by (subst decimal.simps) auto
  qed (auto simp: decimal.simps [of n])
qed

lemma digit_not_plus: "d < 10 \<Longrightarrow> digit d \<noteq> CHR ''+''"
  using digit_value_digit [of d] by (auto simp: digit_value_def)

lemma parse_decimal: "n < 2 ^ 64 \<Longrightarrow> parse_usize (decimal n) = Some n"
proof -
  assume n: "n < 2 ^ 64"
  obtain d r where d: "decimal n = digit d # r" "d < 10" using decimal_head by blast
  have ne: "decimal n \<noteq> []" using d(1) by simp
  from digit_not_plus [OF d(2)] have e: "(case decimal n of CHR ''+'' # rest \<Rightarrow> rest | _ \<Rightarrow> decimal n) = decimal n"
    unfolding d(1) by (auto split: char.split bool.split)
  show ?thesis unfolding parse_usize_def Let_def e using n ne by (simp add: digits_value_decimal)
qed

definition numbered_below :: "nat \<Rightarrow> plan \<Rightarrow> bool" where
  "numbered_below n p \<longleftrightarrow> (\<forall>s \<in> set p. \<forall>m. step_number s = Some m \<longrightarrow> m < n)"

lemma step_number_name: "n < 2 ^ 64 \<Longrightarrow> ps_id s = step_name n \<Longrightarrow> step_number s = Some n"
  by (simp add: step_number_def step_name_def strip_prefix_def starts_with_def parse_decimal)

lemma name_is_new: "n < 2 ^ 64 \<Longrightarrow> numbered_below n p \<Longrightarrow> step_name n \<notin> ps_id ` set p"
  using step_number_name by (fastforce simp: numbered_below_def)

lemma next_number_below: "numbered_below (next_number p) p"
proof -
  have le: "m \<le> fold max ns n" if "m \<in> set (n # ns)" for m n and ns :: "nat list"
    using that Max_ge [of "set (n # ns)" m] unfolding Max.set_eq_fold by (simp del: list.set)
  have "m < next_number p" if "s \<in> set p" "step_number s = Some m" for s m
  proof -
    have "m \<in> set (List.map_filter step_number p)" using that by (force simp: map_filter_def)
    then show ?thesis using le by (cases "List.map_filter step_number p") (auto simp: next_number_def less_Suc_eq_le)
  qed
  then show ?thesis by (auto simp: numbered_below_def)
qed

lemma next_number_least: "numbered_below n p \<Longrightarrow> 0 < n \<Longrightarrow> next_number p \<le> n"
proof -
  assume b: "numbered_below n p" "0 < n"
  have "fold max ns m < n" if "set (m # ns) \<subseteq> {k. k < n}" for m ns
    using that by (induction ns arbitrary: m) auto
  moreover have "set (List.map_filter step_number p) \<subseteq> {k. k < n}" using b by (auto simp: map_filter_def numbered_below_def)
  ultimately show ?thesis using b(2) by (cases "List.map_filter step_number p") (auto simp: next_number_def Suc_leI)
qed

lemma next_number_pos [simp]: "0 < next_number p"
  by (simp add: next_number_def)

subsection \<open>Plans that are well formed\<close>

definition step_ok :: "plan_step \<Rightarrow> bool" where
  "step_ok s \<longleftrightarrow> ps_title s \<noteq> [] \<and> length (ps_title s) \<le> AGENTIC_STEP_TITLE_MAX
     \<and> (case ps_summary s of None \<Rightarrow> True | Some t \<Rightarrow> t \<noteq> [] \<and> length t \<le> AGENTIC_SUMMARY_MAX)"

definition plan_ok :: "plan \<Rightarrow> bool" where
  "plan_ok p \<longleftrightarrow> distinct (map ps_id p) \<and> length (filter (with_status PlanRunning) p) \<le> 1
     \<and> length p \<le> AGENTIC_PLAN_MAX \<and> list_all step_ok p"

lemma plan_title_Some: "plan_title text = Some t \<Longrightarrow> t \<noteq> [] \<and> length t \<le> AGENTIC_STEP_TITLE_MAX"
  by (auto simp: plan_title_def AGENTIC_STEP_TITLE_MAX_def split: if_splits)

lemma plan_summary_Some: "plan_summary text = Some t \<Longrightarrow> t \<noteq> [] \<and> length t \<le> AGENTIC_SUMMARY_MAX"
  by (auto simp: plan_summary_def AGENTIC_SUMMARY_MAX_def split: if_splits)

lemma position_Some:
  "position f xs = Some i \<Longrightarrow> \<exists>ys x zs. xs = ys @ x # zs \<and> length ys = i \<and> f x \<and> (\<forall>y \<in> set ys. \<not> f y)"
proof (induction xs arbitrary: i)
  case (Cons a xs)
  show ?case
  proof (cases "f a")
    case True
    with Cons.prems show ?thesis by (intro exI [of _ "[]"]) auto
  next
    case False
    with Cons obtain j ys x zs where "i = Suc j" "xs = ys @ x # zs" "length ys = j" "f x" "\<forall>y \<in> set ys. \<not> f y" by auto
    with False show ?thesis by (intro exI [of _ "a # ys"] exI [of _ x] exI [of _ zs]) auto
  qed
qed simp

lemma position_None: "position f xs = None \<longleftrightarrow> (\<forall>x \<in> set xs. \<not> f x)"
  by (induction xs) auto

lemma remove_at_split [simp]: "remove_at (length ys) (ys @ x # zs) = ys @ zs"
  by (simp add: remove_at_def)

lemma current_cases:
  obtains "current p = p" "\<forall>s \<in> set p. \<not> with_status PlanRunning s \<and> \<not> with_status PlanQueued s"
  | ys s zs where "p = ys @ s # zs" "current_index p = Some (length ys)" "current p = ys @ s\<lparr>ps_status := PlanRunning\<rparr> # zs"
      "with_status PlanRunning s \<or> (with_status PlanQueued s \<and> filter (with_status PlanRunning) p = [])"
proof (cases "current_index p")
  case None
  then have "current p = p" "\<forall>s \<in> set p. \<not> with_status PlanRunning s \<and> \<not> with_status PlanQueued s"
    by (auto simp: current_def current_index_def position_None split: option.splits)
  then show ?thesis by (rule that(1))
next
  case (Some i)
  have "\<exists>ys s zs. p = ys @ s # zs \<and> length ys = i
      \<and> (with_status PlanRunning s \<or> (with_status PlanQueued s \<and> filter (with_status PlanRunning) p = []))"
    using Some
    by (auto simp: current_index_def position_None filter_empty_conv split: option.splits dest!: position_Some)
  then obtain ys s zs where "p = ys @ s # zs" "length ys = i"
    "with_status PlanRunning s \<or> (with_status PlanQueued s \<and> filter (with_status PlanRunning) p = [])" by blast
  then show ?thesis using Some by (intro that(2) [of ys s zs]) (auto simp: current_def list_update_append)
qed

lemma numbered_below_simps [simp]: "numbered_below n []" "numbered_below n (s # p) \<longleftrightarrow> (\<forall>m. step_number s = Some m \<longrightarrow> m < n) \<and> numbered_below n p"
  "numbered_below n (p @ q) \<longleftrightarrow> numbered_below n p \<and> numbered_below n q"
  by (auto simp: numbered_below_def)

lemma step_number_frame [simp]: "step_number (s\<lparr>ps_status := st\<rparr>) = step_number s" "step_number (s\<lparr>ps_title := t\<rparr>) = step_number s"
  "step_number (s\<lparr>ps_status := st, ps_summary := x\<rparr>) = step_number s" "step_number (s\<lparr>ps_status := st, ps_steps := y\<rparr>) = step_number s"
  by (simp_all add: step_number_def)

lemma numbered_below_mono: "numbered_below n p \<Longrightarrow> n \<le> m \<Longrightarrow> numbered_below m p"
  by (fastforce simp: numbered_below_def)

lemma current_ok: "plan_ok p \<Longrightarrow> plan_ok (current p)"
proof (cases rule: current_cases [of p])
  case (2 ys s zs)
  assume "plan_ok p"
  with 2 show ?thesis by (auto simp: plan_ok_def with_status_def step_ok_def)
qed simp

lemma current_below [simp]: "numbered_below n (current p) = numbered_below n p"
  by (cases rule: current_cases [of p]) auto

subsection \<open>Proposals and edits\<close>

lemma step_ok_simps [simp]: "step_ok (s\<lparr>ps_status := st\<rparr>) = step_ok s" "step_ok (s\<lparr>ps_status := st, ps_steps := y\<rparr>) = step_ok s"
  "t \<noteq> [] \<Longrightarrow> length t \<le> AGENTIC_STEP_TITLE_MAX \<Longrightarrow> step_ok (fresh_step i t)"
  "t \<noteq> [] \<Longrightarrow> length t \<le> AGENTIC_STEP_TITLE_MAX \<Longrightarrow> step_ok s \<Longrightarrow> step_ok (s\<lparr>ps_title := t\<rparr>)"
  "step_ok s \<Longrightarrow> step_ok (s\<lparr>ps_status := st, ps_summary := plan_summary text\<rparr>)"
  by (auto simp: step_ok_def fresh_step_def split: option.split dest: plan_summary_Some)

lemma propose_loop_spec:
  assumes "distinct (map ps_id (result @ reusable))" "numbered_below number (result @ reusable)" "number + length texts \<le> 2 ^ 64"
    and "length result \<le> AGENTIC_PLAN_MAX" "list_all step_ok (result @ reusable)" "\<forall>s \<in> set reusable. \<not> settled_step s"
  defines "r \<equiv> propose_loop texts number reusable result"
  shows "distinct (map ps_id r) \<and> numbered_below (number + length texts) r \<and> length r \<le> AGENTIC_PLAN_MAX \<and> list_all step_ok r
    \<and> filter (with_status PlanRunning) r = filter (with_status PlanRunning) result \<and> filter settled_step r = filter settled_step result"
  using assms(1-6) unfolding r_def
proof (induction texts number reusable result rule: propose_loop.induct)
  case (1 number reusable result)
  then show ?case by auto
next
  case (2 tx texts number reusable result)
  note prems = "2.prems"
  show ?case
  proof (cases "AGENTIC_PLAN_MAX \<le> length result")
    case True
    with prems show ?thesis by (auto elim: numbered_below_mono)
  next
    case room: False
    show ?thesis
    proof (cases "plan_title tx")
      case None
      with prems room "2.IH"(1) [OF room None] show ?thesis by (auto elim: numbered_below_mono)
    next
      case (Some t)
      note title = plan_title_Some [OF Some]
      show ?thesis
      proof (cases "position (\<lambda>s. ps_title s = t) reusable")
        case None
        have new: "step_name number \<notin> ps_id ` set (result @ reusable)" using prems by (intro name_is_new) auto
        have num: "step_number (fresh_step (step_name number) t) = Some number"
          using prems(3) by (intro step_number_name) (auto simp: fresh_step_def)
        have "distinct (map ps_id ((result @ [fresh_step (step_name number) t]) @ reusable))"
          using prems(1) new by (auto simp: fresh_step_def)
        moreover have "numbered_below (number + 1) ((result @ [fresh_step (step_name number) t]) @ reusable)"
          using prems(2) num by (auto elim: numbered_below_mono)
        moreover have "list_all step_ok ((result @ [fresh_step (step_name number) t]) @ reusable)"
          using prems(5) title by auto
        ultimately show ?thesis
          using "2.IH"(2) [OF room Some None] prems room Some None
          by (auto simp: fresh_step_def with_status_def settled_step_def)
      next
        case pos: (Some i)
        then obtain ys s zs where sp: "reusable = ys @ s # zs" "i = length ys" "ps_title s = t" by (blast dest: position_Some)
        let ?s = "s\<lparr>ps_status := PlanQueued\<rparr>"
        have "distinct (map ps_id ((result @ [?s]) @ (ys @ zs)))" using prems(1) by (auto simp: sp)
        moreover have "numbered_below number ((result @ [?s]) @ (ys @ zs))" using prems(2) by (auto simp: sp)
        moreover have "list_all step_ok ((result @ [?s]) @ (ys @ zs))" using prems(5) by (auto simp: sp)
        ultimately show ?thesis
          using "2.IH"(3) [OF room Some pos] prems room Some pos
          by (auto simp: sp with_status_def settled_step_def elim: numbered_below_mono)
      qed
    qed
  qed
qed

lemma edit_loop_spec:
  assumes "distinct (map ps_id (result @ remaining))" "numbered_below number (result @ remaining)" "number + length edits \<le> 2 ^ 64"
    and "length result \<le> AGENTIC_PLAN_MAX" "list_all step_ok (result @ remaining)" "\<forall>s \<in> set remaining. ps_status s = PlanQueued"
    and "edit_loop edits number remaining result change = (left, r, change')"
  shows "distinct (map ps_id r) \<and> numbered_below (number + length edits) r \<and> length r \<le> AGENTIC_PLAN_MAX \<and> list_all step_ok r
    \<and> filter (\<lambda>s. ps_status s \<noteq> PlanQueued) r = filter (\<lambda>s. ps_status s \<noteq> PlanQueued) result"
  using assms
proof (induction edits number remaining result change rule: edit_loop.induct)
  case (1 number remaining result change)
  then show ?case by auto
next
  case (2 entry edits number remaining result change)
  note prems = "2.prems"
  show ?case
  proof (cases "AGENTIC_PLAN_MAX \<le> length result")
    case True
    with prems show ?thesis by (auto elim: numbered_below_mono)
  next
    case room: False
    show ?thesis
    proof (cases "plan_title (pe_title entry)")
      case None
      with prems room "2.IH"(1) [OF room None] show ?thesis by (auto elim: numbered_below_mono)
    next
      case (Some t)
      note title = plan_title_Some [OF Some]
      show ?thesis
      proof (cases "Option.bind (pe_id entry) (\<lambda>i. position (\<lambda>s. ps_id s = i) remaining)")
        case None
        have new: "step_name number \<notin> ps_id ` set (result @ remaining)" using prems by (intro name_is_new) auto
        have num: "step_number (fresh_step (step_name number) t) = Some number"
          using prems(3) by (intro step_number_name) (auto simp: fresh_step_def)
        have "distinct (map ps_id ((result @ [fresh_step (step_name number) t]) @ remaining))"
          using prems(1) new by (auto simp: fresh_step_def)
        moreover have "numbered_below (number + 1) ((result @ [fresh_step (step_name number) t]) @ remaining)"
          using prems(2) num by (auto elim: numbered_below_mono)
        moreover have "list_all step_ok ((result @ [fresh_step (step_name number) t]) @ remaining)"
          using prems(5) title by auto
        ultimately show ?thesis
          using "2.IH"(2) [OF room Some None] prems room Some None by (auto simp: fresh_step_def)
      next
        case pos: (Some i)
        then obtain k where "position (\<lambda>s. ps_id s = k) remaining = Some i" by (auto simp: bind_eq_Some_conv)
        then obtain ys s zs where sp: "remaining = ys @ s # zs" "i = length ys" by (blast dest: position_Some)
        let ?s = "if ps_title s \<noteq> t then s\<lparr>ps_title := t\<rparr> else s"
        let ?change = "if ps_title s \<noteq> t then change\<lparr>pc_changed := True\<rparr> else change"
        have nth: "remaining ! i = s" "remove_at i remaining = ys @ zs" by (simp_all add: sp)
        note IH = "2.IH"(3) [OF room Some pos refl, unfolded nth]
        have "distinct (map ps_id ((result @ [?s]) @ (ys @ zs)))" using prems(1) by (auto simp: sp)
        moreover have "numbered_below number ((result @ [?s]) @ (ys @ zs))" using prems(2) by (auto simp: sp)
        moreover have "number + length edits \<le> 2 ^ 64" "length (result @ [?s]) \<le> AGENTIC_PLAN_MAX" using prems(3) room by simp_all
        moreover have "list_all step_ok ((result @ [?s]) @ (ys @ zs))" using prems(5) title by (auto simp: sp)
        moreover have "\<forall>s \<in> set (ys @ zs). ps_status s = PlanQueued" using prems(6) by (auto simp: sp)
        moreover have "edit_loop edits number (ys @ zs) (result @ [?s]) ?change = (left, r, change')"
          using prems(7) room Some pos nth by (simp add: Let_def split del: if_split)
        ultimately have "distinct (map ps_id r) \<and> numbered_below (number + length edits) r \<and> length r \<le> AGENTIC_PLAN_MAX \<and> list_all step_ok r
            \<and> filter (\<lambda>s. ps_status s \<noteq> PlanQueued) r = filter (\<lambda>s. ps_status s \<noteq> PlanQueued) (result @ [?s])" by (rule IH)
        moreover have "ps_status ?s = PlanQueued" using prems(6) by (auto simp: sp)
        ultimately show ?thesis by (auto elim: numbered_below_mono split del: if_split)
      qed
    qed
  qed
qed

subsection \<open>Every reachable plan\<close>

datatype plan_op = OpPropose "string list" | OpComplete string | OpFinish | OpFail | OpLink string | OpEdit "plan_edit list"

definition run_plan_op :: "(string \<Rightarrow> string option) \<Rightarrow> plan_op \<Rightarrow> plan \<Rightarrow> plan" where
  "run_plan_op parse cmd p = (case cmd of
     OpPropose titles \<Rightarrow> snd (propose p titles)
   | OpComplete t \<Rightarrow> snd (complete p t)
   | OpFinish \<Rightarrow> finish_plan p
   | OpFail \<Rightarrow> fail_plan p
   | OpLink i \<Rightarrow> link_step parse p i
   | OpEdit edits \<Rightarrow> snd (edit_plan p edits))"

definition op_names :: "plan_op \<Rightarrow> nat" where
  "op_names cmd = (case cmd of OpPropose titles \<Rightarrow> length titles | OpEdit edits \<Rightarrow> length edits | _ \<Rightarrow> 0)"

lemma plan_ok_partition:
  assumes "plan_ok p"
  shows "distinct (map ps_id (filter P p @ filter (\<lambda>s. \<not> P s) p))" "list_all step_ok (filter P p @ filter (\<lambda>s. \<not> P s) p)"
    "length (filter P p) \<le> AGENTIC_PLAN_MAX" "numbered_below n p \<Longrightarrow> numbered_below n (filter P p @ filter (\<lambda>s. \<not> P s) p)"
proof -
  have "distinct (map ps_id p)" using assms by (simp add: plan_ok_def)
  then show "distinct (map ps_id (filter P p @ filter (\<lambda>s. \<not> P s) p))"
    by (induction p) auto
  show "list_all step_ok (filter P p @ filter (\<lambda>s. \<not> P s) p)" using assms by (auto simp: plan_ok_def list_all_iff)
  show "length (filter P p) \<le> AGENTIC_PLAN_MAX" using assms le_trans [OF length_filter_le] by (auto simp: plan_ok_def)
  show "numbered_below n p \<Longrightarrow> numbered_below n (filter P p @ filter (\<lambda>s. \<not> P s) p)" by (auto simp: numbered_below_def)
qed

lemma propose_ok:
  assumes "plan_ok p" "numbered_below n p" "0 < n" "n + length titles \<le> 2 ^ 64"
  shows "plan_ok (snd (propose p titles)) \<and> numbered_below (n + length titles) (snd (propose p titles))"
proof -
  let ?kept = "filter settled_step p" and ?open = "filter (\<lambda>s. \<not> settled_step s) p"
  let ?r = "propose_loop titles (next_number p) ?open ?kept"
  have le: "next_number p + length titles \<le> n + length titles" using next_number_least [OF assms(2,3)] by simp
  note parts = plan_ok_partition [OF assms(1), where P = settled_step]
  have r: "distinct (map ps_id ?r) \<and> numbered_below (next_number p + length titles) ?r \<and> length ?r \<le> AGENTIC_PLAN_MAX \<and> list_all step_ok ?r
    \<and> filter (with_status PlanRunning) ?r = filter (with_status PlanRunning) ?kept \<and> filter settled_step ?r = filter settled_step ?kept"
    using parts next_number_below assms(4) le by (intro propose_loop_spec) auto
  have "filter (with_status PlanRunning) ?kept = []" by (auto simp: filter_empty_conv with_status_def settled_step_def)
  with r have "plan_ok ?r" by (simp add: plan_ok_def)
  with r numbered_below_mono [OF _ le] current_ok show ?thesis by (simp add: propose_def Let_def)
qed

lemma edit_ok:
  assumes "plan_ok p" "numbered_below n p" "0 < n" "n + length edits \<le> 2 ^ 64"
  shows "plan_ok (snd (edit_plan p edits)) \<and> numbered_below (n + length edits) (snd (edit_plan p edits))"
proof -
  let ?fixed = "filter (\<lambda>s. ps_status s \<noteq> PlanQueued) p" and ?queued = "filter (\<lambda>s. ps_status s = PlanQueued) p"
  obtain left r change' where e: "edit_loop edits (next_number p) ?queued ?fixed plan_change_default = (left, r, change')" by (metis prod.collapse)
  have le: "next_number p + length edits \<le> n + length edits" using next_number_least [OF assms(2,3)] by simp
  note parts = plan_ok_partition [OF assms(1), where P = "\<lambda>s. ps_status s \<noteq> PlanQueued", simplified]
  have r: "distinct (map ps_id r) \<and> numbered_below (next_number p + length edits) r \<and> length r \<le> AGENTIC_PLAN_MAX \<and> list_all step_ok r
    \<and> filter (\<lambda>s. ps_status s \<noteq> PlanQueued) r = filter (\<lambda>s. ps_status s \<noteq> PlanQueued) ?fixed"
    using parts next_number_below assms(4) le by (intro edit_loop_spec [OF _ _ _ _ _ _ e]) auto
  have "filter (with_status PlanRunning) q = filter (with_status PlanRunning) (filter (\<lambda>s. ps_status s \<noteq> PlanQueued) q)" for q
    by (induction q) (auto simp: with_status_def)
  then have "length (filter (with_status PlanRunning) r) \<le> 1" using r assms(1) unfolding plan_ok_def by (metis filter_filter)
  with r numbered_below_mono [OF _ le] show ?thesis by (simp add: edit_plan_def Let_def e plan_ok_def)
qed

lemma end_running_ok:
  "st \<noteq> PlanRunning \<Longrightarrow> plan_ok p \<Longrightarrow> plan_ok (end_running st p) \<and> (numbered_below n p \<longrightarrow> numbered_below n (end_running st p))"
proof -
  assume st: "st \<noteq> PlanRunning" and ok: "plan_ok p"
  have "filter (with_status PlanRunning) (end_running st p) = []" using st by (auto simp: end_running_def with_status_def filter_empty_conv)
  moreover have "map ps_id (end_running st p) = map ps_id p" by (auto simp: end_running_def)
  moreover have "length (end_running st p) = length p" "list_all step_ok p \<Longrightarrow> list_all step_ok (end_running st p)"
    "numbered_below n p \<Longrightarrow> numbered_below n (end_running st p)"
    by (auto simp: end_running_def list_all_iff numbered_below_def)
  ultimately show ?thesis using ok by (simp add: plan_ok_def)
qed

lemma complete_ok: "plan_ok p \<Longrightarrow> plan_ok (snd (complete p t)) \<and> (numbered_below n p \<longrightarrow> numbered_below n (snd (complete p t)))"
proof (cases "position (with_status PlanRunning) p")
  case (Some i)
  assume ok: "plan_ok p"
  obtain ys s zs where p: "p = ys @ s # zs" "length ys = i" "with_status PlanRunning s" using Some by (blast dest: position_Some)
  let ?q = "ys @ s\<lparr>ps_status := PlanDone, ps_summary := plan_summary t\<rparr> # zs"
  have "plan_ok ?q" using ok by (auto simp: p plan_ok_def with_status_def split: if_splits)
  moreover have "snd (complete p t) = current ?q" using Some by (auto simp: complete_def p(1) p(2) [symmetric] list_update_append)
  ultimately show ?thesis using current_ok [of ?q] by (auto simp: p)
qed (simp add: complete_def)

lemma link_ok: "plan_ok p \<Longrightarrow> plan_ok (link_step parse p i) \<and> (numbered_below n p \<longrightarrow> numbered_below n (link_step parse p i))"
proof (cases rule: current_cases [of p])
  case 1
  assume "plan_ok p"
  have "current_index p = None" using 1(2) by (auto simp: current_index_def position_None split: option.split)
  with \<open>plan_ok p\<close> show ?thesis by (auto simp: link_step_def split: option.split)
next
  case (2 ys s zs)
  assume "plan_ok p"
  with 2 show ?thesis by (auto simp: link_step_def plan_ok_def with_status_def list_update_append split: option.split)
qed

lemma run_plan_op_ok:
  assumes "plan_ok p" "numbered_below n p" "0 < n" "n + op_names cmd \<le> 2 ^ 64"
  shows "plan_ok (run_plan_op parse cmd p) \<and> numbered_below (n + op_names cmd) (run_plan_op parse cmd p)"
  using assms propose_ok edit_ok complete_ok [of p] link_ok [of p] end_running_ok [of _ p]
  by (cases cmd) (auto simp: run_plan_op_def op_names_def finish_plan_def fail_plan_def)

lemma run_plan_ok:
  "plan_ok p \<Longrightarrow> numbered_below n p \<Longrightarrow> 0 < n \<Longrightarrow> n + sum_list (map op_names cmds) \<le> 2 ^ 64 \<Longrightarrow> plan_ok (fold (run_plan_op parse) cmds p)"
proof (induction cmds arbitrary: p n)
  case (Cons cmd cmds)
  then have "plan_ok (run_plan_op parse cmd p) \<and> numbered_below (n + op_names cmd) (run_plan_op parse cmd p)"
    by (intro run_plan_op_ok) auto
  with Cons.prems Cons.IH [of "run_plan_op parse cmd p" "n + op_names cmd"] show ?case by simp
qed simp

text \<open>C22: whatever the model proposes and the user edits, a plan keeps its form: ids are unique, at most one
  step is running, it has at most fifty steps, titles and summaries are never empty and within their length.\<close>

theorem plan_stays_well_formed:
  "sum_list (map op_names cmds) < 2 ^ 64 \<Longrightarrow> plan_ok (fold (run_plan_op parse) cmds [])"
  by (rule run_plan_ok [where n = 1]) (auto simp: plan_ok_def)

lemma plan_stays_well_formed_witness:
  "plan_ok (fold (run_plan_op Some) [OpPropose [''a'', ''b''], OpComplete '' done '', OpEdit [\<lparr>pe_id = Some ''p2'', pe_title = ''c''\<rparr>], OpLink ''s''] [])"
  by (rule plan_stays_well_formed) (simp add: op_names_def)

subsection \<open>What is finished stays\<close>

lemma propose_loop_keeps:
  "\<forall>s \<in> set reusable. \<not> settled_step s \<Longrightarrow> filter settled_step (propose_loop texts number reusable result) = filter settled_step result"
proof (induction texts number reusable result rule: propose_loop.induct)
  case (2 tx texts number reusable result)
  show ?case
  proof (cases "plan_title tx")
    case (Some t)
    show ?thesis
    proof (cases "position (\<lambda>s. ps_title s = t) reusable")
      case None
      with "2.IH"(2) [OF _ Some None] "2.prems" Some show ?thesis by (auto simp: fresh_step_def settled_step_def)
    next
      case pos: (Some i)
      then obtain ys s zs where sp: "reusable = ys @ s # zs" "i = length ys" by (blast dest: position_Some)
      with "2.IH"(3) [OF _ Some pos] "2.prems" Some pos show ?thesis by (auto simp: settled_step_def)
    qed
  qed (use 2 in auto)
qed simp

lemma edit_loop_keeps:
  "\<forall>s \<in> set remaining. ps_status s = PlanQueued \<Longrightarrow> filter (\<lambda>s. ps_status s \<noteq> PlanQueued) (fst (snd (edit_loop edits number remaining result change)))
     = filter (\<lambda>s. ps_status s \<noteq> PlanQueued) result"
proof (induction edits number remaining result change rule: edit_loop.induct)
  case (2 entry edits number remaining result change)
  show ?case
  proof (cases "plan_title (pe_title entry)")
    case (Some t)
    show ?thesis
    proof (cases "Option.bind (pe_id entry) (\<lambda>i. position (\<lambda>s. ps_id s = i) remaining)")
      case None
      with "2.IH"(2) [OF _ Some None] "2.prems" Some show ?thesis by (auto simp: fresh_step_def)
    next
      case pos: (Some i)
      then obtain k where "position (\<lambda>s. ps_id s = k) remaining = Some i" by (auto simp: bind_eq_Some_conv)
      then obtain ys s zs where sp: "remaining = ys @ s # zs" "i = length ys" by (blast dest: position_Some)
      with "2.IH"(3) [OF _ Some pos refl] "2.prems" Some pos show ?thesis by (auto simp: Let_def)
    qed
  qed (use 2 in auto)
qed simp

lemma current_keeps: "filter settled_step (current p) = filter settled_step p"
  by (cases rule: current_cases [of p]) (auto simp: settled_step_def with_status_def)

text \<open>A proposal of the model never touches a step that is done or failed, and an edit of the user
  never touches one that has been started: those steps stay, as they were and in their order.\<close>

lemma revision_keeps_finished_steps:
  "filter settled_step (snd (propose p titles)) = filter settled_step p
    \<and> filter (\<lambda>s. ps_status s \<noteq> PlanQueued) (snd (edit_plan p edits)) = filter (\<lambda>s. ps_status s \<noteq> PlanQueued) p"
  using propose_loop_keeps [of "filter (\<lambda>s. \<not> settled_step s) p" titles "next_number p" "filter settled_step p"]
    edit_loop_keeps [of "filter (\<lambda>s. ps_status s = PlanQueued) p" edits "next_number p" "filter (\<lambda>s. ps_status s \<noteq> PlanQueued) p" plan_change_default]
  by (auto simp: propose_def edit_plan_def Let_def current_keeps split: prod.split)

subsection \<open>The guard trips on repetition\<close>

lemma guard_counts:
  "guard_round g s = (t, g') \<Longrightarrow> lg_last g' = Some s \<and> lg_repeats g' = (if lg_last g = Some s then lg_repeats g + 1 else 1) \<and> t = (REPEAT_LIMIT \<le> lg_repeats g')"
  by (auto simp: guard_round_def Let_def split: if_splits)

definition guard_rounds :: "string list \<Rightarrow> loop_guard" where
  "guard_rounds sigs = fold (\<lambda>s g. snd (guard_round g s)) sigs loop_guard_default"

definition run_length :: "string list \<Rightarrow> nat" where
  "run_length sigs = (case rev sigs of [] \<Rightarrow> 0 | s # _ \<Rightarrow> length (takeWhile (\<lambda>x. x = s) (rev sigs)))"

lemma guard_rounds_state:
  "lg_last (guard_rounds sigs) = (if sigs = [] then None else Some (last sigs)) \<and> lg_repeats (guard_rounds sigs) = run_length sigs"
proof (induction sigs rule: rev_induct)
  case (snoc s sigs)
  obtain t g' where g: "guard_round (guard_rounds sigs) s = (t, g')" by (metis prod.collapse)
  then have "guard_rounds (sigs @ [s]) = g'" by (simp add: guard_rounds_def)
  with snoc guard_counts [OF g] show ?case by (cases sigs rule: rev_cases) (auto simp: run_length_def)
qed (simp add: guard_rounds_def loop_guard_default_def run_length_def)

lemma guard_trips_on_three: "fst (guard_round (guard_rounds sigs) s) \<longleftrightarrow> (\<exists>front. sigs = front @ [s, s])"
proof -
  obtain t g' where g: "guard_round (guard_rounds sigs) s = (t, g')" by (metis prod.collapse)
  have "t \<longleftrightarrow> 3 \<le> (if sigs \<noteq> [] \<and> last sigs = s then run_length sigs + 1 else 1)"
    using guard_counts [OF g] guard_rounds_state [of sigs] by (auto simp: REPEAT_LIMIT_def)
  also have "\<dots> \<longleftrightarrow> (\<exists>front. sigs = front @ [s, s])"
  proof (cases sigs rule: rev_cases)
    case (snoc ys y)
    show ?thesis by (cases ys rule: rev_cases) (auto simp: snoc run_length_def)
  qed simp
  finally show ?thesis using g by simp
qed

lemma forbidden_titles_stay_out:
  "text \<in> set (guard_allowed (guard_forbid g titles) proposals) \<Longrightarrow> plan_title text = Some t \<Longrightarrow> t \<notin> set titles"
  by (auto simp: guard_allowed_def guard_forbid_def)

end
