(* ===== verification/ChatQueue.thy ===== *)
theory ChatQueue
  imports EventBus "HOL-Library.Multiset"
begin

text \<open>
  The messages that wait while a turn of a dialog runs, \<^verbatim>\<open>services/chat/queue.rs\<close>. Every operation is a
  section under the lock of \<^verbatim>\<open>queues\<close>; sending takes the messages out under the lock, starts a turn
  without it, and puts them back when that fails, so other operations come in between. \<open>queue_world\<close>
  keeps, beside the queues, the batches being sent and the history.

  Whether a dialog exists, whether it is idle and whether a turn starts is decided elsewhere
  (\<^verbatim>\<open>chat.rs\<close>, the database): here any of it may happen at any time.
\<close>

definition CHAT_QUEUE_MAX :: nat where "CHAT_QUEUE_MAX = 10"
definition QUEUE_FULL :: string where "QUEUE_FULL = ''QUEUE_FULL''"
definition QUEUE_MESSAGE_NOT_FOUND :: string where "QUEUE_MESSAGE_NOT_FOUND = ''QUEUE_MESSAGE_NOT_FOUND''"

record queued_message =
  qm_id :: string
  qm_text :: string
  qm_created_at :: int

record queue_state =
  qs_messages :: "queued_message list"
  qs_urgent :: bool
  qs_yielded :: bool

definition queue_state_default :: queue_state where
  "queue_state_default = \<lparr>qs_messages = [], qs_urgent = False, qs_yielded = False\<rparr>"

record chat_queue =
  cq_conversation :: string
  cq_messages :: "queued_message list"
  cq_urgent :: bool

definition chat_queue_valid :: "chat_queue \<Rightarrow> bool" where
  "chat_queue_valid q \<longleftrightarrow> length (cq_messages q) \<le> CHAT_QUEUE_MAX"

type_synonym queues = "string \<Rightarrow> queue_state option"

definition queue_entry :: "queues \<Rightarrow> string \<Rightarrow> queue_state" where
  "queue_entry qs c = (case qs c of Some st \<Rightarrow> st | None \<Rightarrow> queue_state_default)"

definition with_queue :: "queues \<Rightarrow> string \<Rightarrow> (queue_state \<Rightarrow> 'a \<times> queue_state) \<Rightarrow> 'a \<times> queues" where
  "with_queue qs c work = (case work (queue_entry qs c) of (r, st) \<Rightarrow>
     (r, qs(c := if qs_messages st = [] \<and> \<not> qs_yielded st then None else Some st)))"

definition queue_snapshot :: "queues \<Rightarrow> string \<Rightarrow> chat_queue" where
  "queue_snapshot qs c = (case qs c of
     None \<Rightarrow> \<lparr>cq_conversation = c, cq_messages = [], cq_urgent = False\<rparr>
   | Some st \<Rightarrow> \<lparr>cq_conversation = c, cq_messages = qs_messages st, cq_urgent = qs_urgent st \<and> qs_messages st \<noteq> []\<rparr>)"

definition queue_yields :: "queues \<Rightarrow> string \<Rightarrow> bool \<times> queues" where
  "queue_yields qs c = (case qs c of
     None \<Rightarrow> (False, qs)
   | Some st \<Rightarrow> if qs_urgent st \<and> qs_messages st \<noteq> [] then (True, qs(c \<mapsto> st\<lparr>qs_yielded := True\<rparr>)) else (False, qs))"

definition queue_yielded :: "queues \<Rightarrow> string \<Rightarrow> bool" where
  "queue_yielded qs c = (case qs c of None \<Rightarrow> False | Some st \<Rightarrow> qs_yielded st)"

subsection \<open>The sections under the lock\<close>

definition add_work :: "queued_message \<Rightarrow> queue_state \<Rightarrow> (app_error + unit) \<times> queue_state" where
  "add_work m st = (if CHAT_QUEUE_MAX \<le> length (qs_messages st) then (Inl (app_error_new Conflict QUEUE_FULL), st)
     else (Inr (), st\<lparr>qs_messages := qs_messages st @ [m]\<rparr>))"

definition queue_not_found :: app_error where
  "queue_not_found = app_error_new NotFound QUEUE_MESSAGE_NOT_FOUND"

fun edit_message :: "string \<Rightarrow> string \<Rightarrow> queued_message list \<Rightarrow> queued_message list option" where
  "edit_message i t [] = None"
| "edit_message i t (m # ms) = (if qm_id m = i then Some (m\<lparr>qm_text := t\<rparr> # ms) else map_option (\<lambda>ms'. m # ms') (edit_message i t ms))"

definition edit_work :: "string \<Rightarrow> string \<Rightarrow> queue_state \<Rightarrow> (app_error + unit) \<times> queue_state" where
  "edit_work i t st = (case edit_message i t (qs_messages st) of
     None \<Rightarrow> (Inl queue_not_found, st) | Some ms \<Rightarrow> (Inr (), st\<lparr>qs_messages := ms\<rparr>))"

definition remove_work :: "string \<Rightarrow> queue_state \<Rightarrow> (app_error + unit) \<times> queue_state" where
  "remove_work i st =
     (let st1 = st\<lparr>qs_messages := filter (\<lambda>m. qm_id m \<noteq> i) (qs_messages st)\<rparr> in
      if length (qs_messages st1) = length (qs_messages st) then (Inl queue_not_found, st1)
      else (Inr (), if qs_messages st1 = [] then st1\<lparr>qs_urgent := False\<rparr> else st1))"

definition flush_work :: "queue_state \<Rightarrow> bool \<times> queue_state" where
  "flush_work st = (qs_messages st \<noteq> [], if qs_messages st \<noteq> [] then st\<lparr>qs_urgent := True\<rparr> else st)"

definition take_work :: "queue_state \<Rightarrow> (queued_message list \<times> bool) \<times> queue_state" where
  "take_work st = ((qs_messages st, qs_yielded st), \<lparr>qs_messages = [], qs_urgent = False, qs_yielded = False\<rparr>)"

definition restore_work :: "queued_message list \<Rightarrow> bool \<Rightarrow> queue_state \<Rightarrow> unit \<times> queue_state" where
  "restore_work ms yielded st = ((), st\<lparr>qs_messages := ms @ qs_messages st, qs_yielded := yielded\<rparr>)"

definition ended_work :: "outcome_status \<Rightarrow> queue_state \<Rightarrow> bool \<times> queue_state" where
  "ended_work outcome st = (qs_messages st \<noteq> [], if outcome \<noteq> OutOk then st\<lparr>qs_urgent := False, qs_yielded := False\<rparr> else st)"

text \<open>What a batch is sent as: its last message is the text of the turn, the ones before precede it.\<close>

record queued_turn =
  qt_text :: string
  qt_earlier :: "string list"
  qt_goal :: bool

definition queued_turn_of :: "bool \<Rightarrow> queued_message list \<Rightarrow> queued_turn option" where
  "queued_turn_of continuing ms = (if ms = [] then None
     else Some \<lparr>qt_text = qm_text (last ms), qt_earlier = map qm_text (butlast ms), qt_goal = continuing\<rparr>)"

subsection \<open>Operations as they interleave\<close>

record queue_batch =
  qb_conversation :: string
  qb_messages :: "queued_message list"
  qb_yielded :: bool

record queue_world =
  qw_queues :: queues
  qw_sending :: "queue_batch list"
  qw_accepted :: "(string \<times> string) list"
  qw_sent :: "(string \<times> string) list"
  qw_removed :: "(string \<times> string) list"

definition queue_world_start :: queue_world where
  "queue_world_start = \<lparr>qw_queues = (\<lambda>_. None), qw_sending = [], qw_accepted = [], qw_sent = [], qw_removed = []\<rparr>"

definition names :: "string \<Rightarrow> queued_message list \<Rightarrow> (string \<times> string) list" where
  "names c ms = map (\<lambda>m. (c, qm_id m)) ms"

datatype queue_op =
    QAdd string queued_message
  | QEdit string string string
  | QRemove string string
  | QFlush string
  | QYield string
  | QTake string
  | QStarted nat
  | QFailed nat
  | QEnded string outcome_status

definition drop_at :: "nat \<Rightarrow> 'a list \<Rightarrow> 'a list" where
  "drop_at i xs = take i xs @ drop (Suc i) xs"

definition queue_step :: "queue_op \<Rightarrow> queue_world \<Rightarrow> queue_world" where
  "queue_step cmd w = (case cmd of
     QAdd c m \<Rightarrow> (case with_queue (qw_queues w) c (add_work m) of (r, qs) \<Rightarrow>
       w\<lparr>qw_queues := qs, qw_accepted := (if r = Inr () then qw_accepted w @ [(c, qm_id m)] else qw_accepted w)\<rparr>)
   | QEdit c i t \<Rightarrow> w\<lparr>qw_queues := snd (with_queue (qw_queues w) c (edit_work i t))\<rparr>
   | QRemove c i \<Rightarrow> w\<lparr>qw_queues := snd (with_queue (qw_queues w) c (remove_work i)),
       qw_removed := qw_removed w @ names c (filter (\<lambda>m. qm_id m = i) (qs_messages (queue_entry (qw_queues w) c)))\<rparr>
   | QFlush c \<Rightarrow> w\<lparr>qw_queues := snd (with_queue (qw_queues w) c flush_work)\<rparr>
   | QYield c \<Rightarrow> w\<lparr>qw_queues := snd (queue_yields (qw_queues w) c)\<rparr>
   | QTake c \<Rightarrow> (case with_queue (qw_queues w) c take_work of ((ms, yielded), qs) \<Rightarrow>
       w\<lparr>qw_queues := qs, qw_sending := (if ms = [] then qw_sending w
          else qw_sending w @ [\<lparr>qb_conversation = c, qb_messages = ms, qb_yielded = yielded\<rparr>])\<rparr>)
   | QStarted k \<Rightarrow> if k < length (qw_sending w) then
       (let b = qw_sending w ! k in
        w\<lparr>qw_sending := drop_at k (qw_sending w), qw_sent := qw_sent w @ names (qb_conversation b) (qb_messages b)\<rparr>)
       else w
   | QFailed k \<Rightarrow> if k < length (qw_sending w) then
       (let b = qw_sending w ! k in
        w\<lparr>qw_sending := drop_at k (qw_sending w),
          qw_queues := snd (with_queue (qw_queues w) (qb_conversation b) (restore_work (qb_messages b) (qb_yielded b)))\<rparr>)
       else w
   | QEnded c outcome \<Rightarrow> w\<lparr>qw_queues := snd (with_queue (qw_queues w) c (ended_work outcome))\<rparr>)"

definition queue_run :: "queue_op list \<Rightarrow> queue_world" where
  "queue_run cmds = fold queue_step cmds queue_world_start"

subsection \<open>No message is lost or sent twice\<close>

definition waiting :: "queue_world \<Rightarrow> string \<Rightarrow> queued_message list" where
  "waiting w c = qs_messages (queue_entry (qw_queues w) c)"

definition being_sent :: "queue_world \<Rightarrow> string \<Rightarrow> queued_message list" where
  "being_sent w c = concat (map qb_messages (filter (\<lambda>b. qb_conversation b = c) (qw_sending w)))"

definition of_dialog :: "string \<Rightarrow> (string \<times> string) list \<Rightarrow> string list" where
  "of_dialog c log = map snd (filter (\<lambda>(d, i). d = c) log)"

definition accounted :: "queue_world \<Rightarrow> string \<Rightarrow> bool" where
  "accounted w c \<longleftrightarrow> mset (of_dialog c (qw_accepted w))
     = mset (map qm_id (waiting w c)) + mset (map qm_id (being_sent w c)) + mset (of_dialog c (qw_sent w)) + mset (of_dialog c (qw_removed w))"

lemma of_dialog_simps [simp]: "of_dialog c [] = []" "of_dialog c (log @ log') = of_dialog c log @ of_dialog c log'"
  "of_dialog c [(d, i)] = (if d = c then [i] else [])" "of_dialog c (names d ms) = (if d = c then map qm_id ms else [])"
  by (auto simp: of_dialog_def names_def o_def)

lemma with_queue_messages:
  "qs_messages (queue_entry (snd (with_queue qs c work)) d) = (if d = c then qs_messages (snd (work (queue_entry qs c))) else qs_messages (queue_entry qs d))"
  by (auto simp: with_queue_def queue_entry_def queue_state_default_def split: prod.split)

lemma with_queue_after:
  "with_queue qs c work = (r, qs') \<Longrightarrow> qs_messages (queue_entry qs' d) = (if d = c then qs_messages (snd (work (queue_entry qs c))) else qs_messages (queue_entry qs d))"
  using with_queue_messages [of qs c work d] by simp

lemma with_queue_fst: "fst (with_queue qs c work) = fst (work (queue_entry qs c))"
  by (auto simp: with_queue_def split: prod.split)

lemma edit_message_ids: "edit_message i t ms = Some ms' \<Longrightarrow> map qm_id ms' = map qm_id ms"
  by (induction ms arbitrary: ms') (auto split: if_splits)

lemma queue_yields_messages: "qs_messages (queue_entry (snd (queue_yields qs c)) d) = qs_messages (queue_entry qs d)"
  by (auto simp: queue_yields_def queue_entry_def split: option.split)

lemma drop_at_mset: "k < length xs \<Longrightarrow> mset xs = add_mset (xs ! k) (mset (drop_at k xs))"
  by (metis add_mset_add_single drop_at_def id_take_nth_drop mset.simps(2) mset_append union_mset_add_mset_right)

definition batch_ids :: "string \<Rightarrow> queue_batch list \<Rightarrow> string multiset" where
  "batch_ids c bs = mset (map qm_id (concat (map qb_messages (filter (\<lambda>b. qb_conversation b = c) bs))))"

lemma batch_ids_simps [simp]: "batch_ids c [] = {#}" "batch_ids c (bs @ bs') = batch_ids c bs + batch_ids c bs'"
  "batch_ids c [b] = (if qb_conversation b = c then mset (map qm_id (qb_messages b)) else {#})"
  by (simp_all add: batch_ids_def)

lemma batch_ids_drop: "k < length bs \<Longrightarrow> batch_ids c bs = batch_ids c [bs ! k] + batch_ids c (drop_at k bs)"
proof -
  assume "k < length bs"
  then have "bs = take k bs @ [bs ! k] @ drop (Suc k) bs" by (simp add: id_take_nth_drop)
  then have "batch_ids c bs = batch_ids c (take k bs @ [bs ! k] @ drop (Suc k) bs)" by simp
  also have "\<dots> = batch_ids c [bs ! k] + batch_ids c (drop_at k bs)" by (simp only: batch_ids_simps(2) drop_at_def ac_simps)
  finally show ?thesis .
qed

lemma accounted_iff: "accounted w c \<longleftrightarrow> mset (of_dialog c (qw_accepted w))
   = mset (map qm_id (waiting w c)) + batch_ids c (qw_sending w) + mset (of_dialog c (qw_sent w)) + mset (of_dialog c (qw_removed w))"
  by (simp add: accounted_def batch_ids_def being_sent_def)

lemma removed_and_kept: "mset (map qm_id ms) = mset (map qm_id (filter (\<lambda>m. qm_id m \<noteq> i) ms)) + mset (map qm_id (filter (\<lambda>m. qm_id m = i) ms))"
  by (induction ms) auto

lemma work_messages:
  "qs_messages (snd (edit_work i t st)) = (case edit_message i t (qs_messages st) of None \<Rightarrow> qs_messages st | Some ms \<Rightarrow> ms)"
  "qs_messages (snd (remove_work i st)) = filter (\<lambda>m. qm_id m \<noteq> i) (qs_messages st)"
  "qs_messages (snd (flush_work st)) = qs_messages st" "qs_messages (snd (take_work st)) = []"
  "qs_messages (snd (restore_work ms y st)) = ms @ qs_messages st" "qs_messages (snd (ended_work r st)) = qs_messages st"
  by (auto simp: edit_work_def remove_work_def flush_work_def take_work_def restore_work_def ended_work_def Let_def split: option.split)

lemma add_accounted: "accounted w c \<Longrightarrow> accounted (queue_step (QAdd d m) w) c"
proof -
  assume a: "accounted w c"
  obtain r qs where r: "with_queue (qw_queues w) d (add_work m) = (r, qs)" by (metis prod.collapse)
  have "qs_messages (queue_entry qs c) = waiting w c @ (if d = c \<and> r = Inr () then [m] else [])"
    using with_queue_messages [of "qw_queues w" d "add_work m" c] with_queue_fst [of "qw_queues w" d "add_work m"] r
    by (auto simp: add_work_def waiting_def split: if_splits)
  with a r show ?thesis by (auto simp: queue_step_def accounted_iff waiting_def)
qed

lemma step_accounted: "accounted w c \<Longrightarrow> accounted (queue_step cmd w) c"
proof (cases cmd)
  case (QAdd d m)
  assume "accounted w c"
  with QAdd add_accounted show ?thesis by simp
next
  case (QEdit d i t)
  assume a: "accounted w c"
  have "map qm_id (waiting (queue_step cmd w) c) = map qm_id (waiting w c)"
    using edit_message_ids by (auto simp: QEdit queue_step_def waiting_def with_queue_messages work_messages split: option.split)
  with a QEdit show ?thesis by (simp add: accounted_iff queue_step_def)
next
  case (QRemove d i)
  assume a: "accounted w c"
  with QRemove removed_and_kept [of "waiting w c" i] show ?thesis
    by (auto simp: accounted_iff queue_step_def waiting_def with_queue_messages work_messages)
next
  case (QTake d)
  assume a: "accounted w c"
  obtain y qs where t: "with_queue (qw_queues w) d take_work = ((waiting w d, y), qs)"
    using with_queue_fst [of "qw_queues w" d take_work] by (cases "with_queue (qw_queues w) d take_work") (auto simp: take_work_def waiting_def)
  have "qs_messages (queue_entry qs c) = (if c = d then [] else waiting w c)"
    using with_queue_messages [of "qw_queues w" d take_work c] t by (simp add: work_messages waiting_def)
  with a QTake t show ?thesis by (auto simp: accounted_iff queue_step_def waiting_def)
next
  case (QStarted k)
  assume a: "accounted w c"
  show ?thesis
  proof (cases "k < length (qw_sending w)")
    case True
    with a QStarted batch_ids_drop [OF True, of c] show ?thesis by (auto simp: accounted_iff queue_step_def waiting_def Let_def)
  qed (use a QStarted in \<open>simp add: queue_step_def\<close>)
next
  case (QFailed k)
  assume a: "accounted w c"
  show ?thesis
  proof (cases "k < length (qw_sending w)")
    case True
    with a QFailed batch_ids_drop [OF True, of c] show ?thesis
      by (auto simp: accounted_iff queue_step_def waiting_def Let_def with_queue_messages work_messages)
  qed (use a QFailed in \<open>simp add: queue_step_def\<close>)
qed (auto simp: accounted_iff queue_step_def waiting_def with_queue_messages work_messages queue_yields_messages)

lemma run_accounted: "accounted (queue_run cmds) c"
proof (induction cmds rule: rev_induct)
  case Nil
  then show ?case by (simp add: queue_run_def accounted_iff queue_world_start_def waiting_def queue_entry_def queue_state_default_def)
next
  case (snoc cmd cmds)
  then show ?case using step_accounted by (simp add: queue_run_def)
qed

text \<open>C23: however adding, editing, removing, sending and failing interleave, every message a dialog's queue
  accepted is exactly once in one place: waiting, in a batch being sent, in a turn that started, or removed.\<close>

theorem every_message_is_accounted:
  "mset (of_dialog c (qw_accepted (queue_run cmds)))
     = mset (map qm_id (waiting (queue_run cmds) c)) + mset (map qm_id (being_sent (queue_run cmds) c))
       + mset (of_dialog c (qw_sent (queue_run cmds))) + mset (of_dialog c (qw_removed (queue_run cmds)))"
  using run_accounted [of cmds c] by (simp add: accounted_def)

subsection \<open>The limit\<close>

text \<open>While no start has failed the queue of a dialog keeps its limit; a batch put back after a failed start
  comes on top of what was added meanwhile, and the queue sent to the interface is then refused by its own
  validation.\<close>

definition fails :: "queue_op \<Rightarrow> bool" where
  "fails cmd = (case cmd of QFailed _ \<Rightarrow> True | _ \<Rightarrow> False)"

lemma edit_message_length: "edit_message i t ms = Some ms' \<Longrightarrow> length ms' = length ms"
  using edit_message_ids map_eq_imp_length_eq by blast

lemma limit_kept: "list_all (\<lambda>cmd. \<not> fails cmd) cmds \<Longrightarrow> length (waiting (queue_run cmds) c) \<le> CHAT_QUEUE_MAX"
proof (induction cmds rule: rev_induct)
  case Nil
  then show ?case by (simp add: queue_run_def queue_world_start_def waiting_def queue_entry_def queue_state_default_def)
next
  case (snoc cmd cmds)
  then have IH: "length (waiting (queue_run cmds) d) \<le> CHAT_QUEUE_MAX" if "d = c" for d using that by simp
  have filter_le: "length (filter P (waiting (queue_run cmds) c)) \<le> CHAT_QUEUE_MAX" for P
    using IH [OF refl] le_trans [OF length_filter_le] by blast
  have "length (waiting (queue_step cmd (queue_run cmds)) c) \<le> CHAT_QUEUE_MAX"
    using IH snoc.prems filter_le
    by (cases cmd)
       (auto simp: queue_step_def waiting_def with_queue_messages work_messages queue_yields_messages fails_def add_work_def Let_def
          CHAT_QUEUE_MAX_def split: prod.split option.split dest: edit_message_length dest!: with_queue_after [where d = c])
  then show ?case by (simp add: queue_run_def)
qed

definition sample_message :: "nat \<Rightarrow> queued_message" where
  "sample_message n = \<lparr>qm_id = replicate n (CHR ''m''), qm_text = ''t'', qm_created_at = 0\<rparr>"

definition overfull :: "queue_op list" where
  "overfull = map (\<lambda>n. QAdd ''d'' (sample_message n)) [0..<10] @ [QTake ''d'', QAdd ''d'' (sample_message 10), QFailed 0]"

lemma a_failed_start_overfills: "\<not> chat_queue_valid (queue_snapshot (qw_queues (queue_run overfull)) ''d'')"
  by code_simp

end
