(* ===== verification/Utf8.thy ===== *)
theory Utf8
  imports Prelude "HOL-Library.Word"
begin

text \<open>
  Bytes and Unicode: the decoding of UTF-8 as \<^verbatim>\<open>std::str::from_utf8\<close> does it, and the text functions of
  the standard library on lists of Unicode scalar values, for the components whose text is not limited to
  the Latin-1 block of \<open>Prelude\<close> (frame decoders, chunks, files).

  \<open>utf8_step\<close> is the first step of a decoding: a character, a malformed sequence of a given length
  (\<^verbatim>\<open>error_len\<close>), or a sequence the end of the input cuts off.
\<close>

type_synonym byte = "8 word"
type_synonym utext = "nat list"

subsection \<open>UTF-8\<close>

datatype utf8_step = UEnd | UChar nat nat | UBad nat | UMore

definition char_width :: "nat \<Rightarrow> nat" where
  "char_width b = (if 194 \<le> b \<and> b \<le> 223 then 2 else if 224 \<le> b \<and> b \<le> 239 then 3 else if 240 \<le> b \<and> b \<le> 244 then 4 else 0)"

definition continues :: "nat \<Rightarrow> bool" where
  "continues b \<longleftrightarrow> 128 \<le> b \<and> b \<le> 191"

definition second_ok :: "nat \<Rightarrow> nat \<Rightarrow> bool" where
  "second_ok a b \<longleftrightarrow> continues b \<and> (a = 224 \<longrightarrow> 160 \<le> b) \<and> (a = 237 \<longrightarrow> b \<le> 159) \<and> (a = 240 \<longrightarrow> 144 \<le> b) \<and> (a = 244 \<longrightarrow> b \<le> 143)"

fun utf8_at :: "nat list \<Rightarrow> utf8_step" where
  "utf8_at [] = UEnd"
| "utf8_at (a # r1) =
     (if a < 128 then UChar a 1
      else if char_width a = 0 then UBad 1
      else (case r1 of
          [] \<Rightarrow> UMore
        | b # r2 \<Rightarrow>
            if \<not> second_ok a b then UBad 1
            else if char_width a = 2 then UChar ((a - 192) * 64 + (b - 128)) 2
            else (case r2 of
                [] \<Rightarrow> UMore
              | c # r3 \<Rightarrow>
                  if \<not> continues c then UBad 2
                  else if char_width a = 3 then UChar ((a - 224) * 4096 + (b - 128) * 64 + (c - 128)) 3
                  else (case r3 of
                      [] \<Rightarrow> UMore
                    | d # _ \<Rightarrow> if \<not> continues d then UBad 3
                        else UChar ((a - 240) * 262144 + (b - 128) * 4096 + (c - 128) * 64 + (d - 128)) 4))))"

definition utf8_step :: "byte list \<Rightarrow> utf8_step" where
  "utf8_step bs = utf8_at (map unat bs)"

lemma utf8_at_stable: "utf8_at bs \<noteq> UEnd \<Longrightarrow> utf8_at bs \<noteq> UMore \<Longrightarrow> utf8_at (bs @ cs) = utf8_at bs"
proof (cases bs)
  case (Cons a r1)
  assume h: "utf8_at bs \<noteq> UEnd" "utf8_at bs \<noteq> UMore"
  show ?thesis
  proof (cases r1)
    case Nil
    with h Cons show ?thesis by (auto split: if_splits)
  next
    case r1: (Cons b r2)
    show ?thesis
    proof (cases r2)
      case Nil
      with h Cons r1 show ?thesis by (auto split: if_splits)
    next
      case r2: (Cons c r3)
      show ?thesis
      proof (cases r3)
        case Nil
        with h Cons r1 r2 show ?thesis by (auto split: if_splits)
      qed (simp add: Cons r1 r2)
    qed
  qed
qed simp

lemma utf8_step_stable: "utf8_step bs \<noteq> UEnd \<Longrightarrow> utf8_step bs \<noteq> UMore \<Longrightarrow> utf8_step (bs @ cs) = utf8_step bs"
  by (simp add: utf8_step_def utf8_at_stable)

lemma utf8_step_ends [simp]: "utf8_step [] = UEnd"
  by (simp add: utf8_step_def)

lemma utf8_step_end_iff: "utf8_step bs = UEnd \<longleftrightarrow> bs = []"
  by (cases bs) (simp_all add: utf8_step_def split: list.split)

lemma utf8_at_length: "utf8_at bs = UChar c n \<or> utf8_at bs = UBad n \<Longrightarrow> 0 < n \<and> n \<le> length bs"
  by (cases bs) (auto split: list.splits if_splits)

lemma utf8_step_length: "utf8_step bs = UChar c n \<or> utf8_step bs = UBad n \<Longrightarrow> 0 < n \<and> n \<le> length bs"
  using utf8_at_length [of "map unat bs" c n] by (simp add: utf8_step_def)

text \<open>\<^verbatim>\<open>str::from_utf8\<close>: the text of the longest valid prefix, the bytes after it, and, when some are
  left, the length of the malformed sequence there (\<open>None\<close> when the input ends inside one).\<close>

function from_utf8 :: "byte list \<Rightarrow> utext \<times> byte list \<times> nat option option" where
  "from_utf8 bs = (case utf8_step bs of
     UEnd \<Rightarrow> ([], [], None)
   | UChar c n \<Rightarrow> (case from_utf8 (drop n bs) of (t, r, e) \<Rightarrow> (c # t, r, e))
   | UBad n \<Rightarrow> ([], bs, Some (Some n))
   | UMore \<Rightarrow> ([], bs, Some None))"
  by pat_completeness auto
termination by (relation "measure length") (auto dest!: utf8_step_length [OF disjI1])

declare from_utf8.simps [simp del]

lemma from_utf8_rest: "from_utf8 bs = (t, r, Some (Some n)) \<Longrightarrow> length r \<le> length bs \<and> 0 < n \<and> n \<le> length r"
proof (induction bs arbitrary: t rule: from_utf8.induct)
  case (1 bs)
  show ?case
  proof (cases "utf8_step bs")
    case (UChar c m)
    with 1(2) obtain t' where "from_utf8 (drop m bs) = (t', r, Some (Some n))"
      by (subst (asm) from_utf8.simps) (auto split: prod.splits)
    from 1(1) [OF UChar this] have "length r \<le> length bs - m \<and> 0 < n \<and> n \<le> length r" by simp
    then show ?thesis by linarith
  next
    case (UBad m)
    with 1(2) utf8_step_length [OF disjI2 [OF UBad]] show ?thesis by (subst (asm) from_utf8.simps) auto
  qed (use 1(2) in \<open>subst (asm) from_utf8.simps; auto\<close>)+
qed

subsection \<open>Text as scalar values\<close>

definition u_ws :: "nat \<Rightarrow> bool" where
  "u_ws c \<longleftrightarrow> (9 \<le> c \<and> c \<le> 13) \<or> c \<in> set [32, 133, 160, 5760, 8232, 8233, 8239, 8287, 12288] \<or> (8192 \<le> c \<and> c \<le> 8202)"

definition u_trim_end :: "utext \<Rightarrow> utext" where
  "u_trim_end s = rev (dropWhile u_ws (rev s))"

definition u_trim :: "utext \<Rightarrow> utext" where
  "u_trim s = u_trim_end (dropWhile u_ws s)"

definition u_strip_prefix :: "utext \<Rightarrow> utext \<Rightarrow> utext option" where
  "u_strip_prefix p s = (if take (length p) s = p then Some (drop (length p) s) else None)"

definition strip_cr :: "utext \<Rightarrow> utext" where
  "strip_cr s = (if s \<noteq> [] \<and> last s = 13 then butlast s else s)"

fun u_split :: "nat \<Rightarrow> utext \<Rightarrow> utext list" where
  "u_split c [] = [[]]"
| "u_split c (x # xs) = (if x = c then [] # u_split c xs else (case u_split c xs of [] \<Rightarrow> [[x]] | p # ps \<Rightarrow> (x # p) # ps))"

fun u_join :: "utext \<Rightarrow> utext list \<Rightarrow> utext" where
  "u_join sep [] = []"
| "u_join sep [p] = p"
| "u_join sep (p # ps) = p @ sep @ u_join sep ps"

text \<open>\<^verbatim>\<open>str::find\<close>: where the pattern first occurs.\<close>

fun u_find :: "utext \<Rightarrow> utext \<Rightarrow> nat option" where
  "u_find p [] = (if p = [] then Some 0 else None)"
| "u_find p (x # xs) = (if take (length p) (x # xs) = p then Some 0 else map_option Suc (u_find p xs))"

end
