(* ===== verification/ChunkText.thy ===== *)
theory ChunkText
  imports Utf8
begin

text \<open>
  The splitting of a text into overlapping chunks, \<^verbatim>\<open>chunk_text\<close> of \<^verbatim>\<open>zvs-core/src/chunk.rs\<close>. The
  segmentation into graphemes comes from the crate \<^verbatim>\<open>unicode_segmentation\<close>: the graphemes of the text,
  in order, are an argument. Offsets count bytes of UTF-8.

  The loop over the chunks is a \<open>partial_function\<close>, so that not returning is a value; \<open>chunking_ends\<close>
  proves that it returns for every configuration that passes the check. The polls of the cancellation
  token, which end the function with an error and no chunks, are left out.
\<close>

definition byte_length :: "nat \<Rightarrow> nat" where
  "byte_length c = (if c < 128 then 1 else if c < 2048 then 2 else if c < 65536 then 3 else 4)"

definition text_bytes :: "utext \<Rightarrow> nat" where
  "text_bytes s = sum_list (map byte_length s)"

record chunk_config =
  cc_size :: nat
  cc_overlap :: nat

definition chunk_config_default :: chunk_config where
  "chunk_config_default = \<lparr>cc_size = 256, cc_overlap = 32\<rparr>"

type_synonym brange = "nat \<times> nat"

record text_chunk =
  tc_text :: utext
  tc_range :: brange
  tc_tokens :: nat

text \<open>\<^verbatim>\<open>&text[a..b]\<close> for offsets on character boundaries.\<close>

fun byte_slice :: "utext \<Rightarrow> nat \<Rightarrow> nat \<Rightarrow> nat \<Rightarrow> utext" where
  "byte_slice [] at' a b = []"
| "byte_slice (c # cs) at' a b =
     (if a \<le> at' \<and> at' < b then c # byte_slice cs (at' + byte_length c) a b else byte_slice cs (at' + byte_length c) a b)"

fun token_loop :: "utext list \<Rightarrow> nat \<Rightarrow> nat option \<Rightarrow> brange list" where
  "token_loop [] offset word_start = (case word_start of Some a \<Rightarrow> [(a, offset)] | None \<Rightarrow> [])"
| "token_loop (g # gs) offset word_start =
     (if list_all u_ws g then
        (case word_start of Some a \<Rightarrow> (a, offset) # token_loop gs (offset + text_bytes g) None
         | None \<Rightarrow> token_loop gs (offset + text_bytes g) None)
      else token_loop gs (offset + text_bytes g) (case word_start of None \<Rightarrow> Some offset | Some a \<Rightarrow> Some a))"

definition CLOSING :: utext where
  "CLOSING = [34, 39, 8221, 8217, 41, 93, 187]"

definition TERMINATORS :: utext where
  "TERMINATORS = [46, 33, 63, 12290, 65281, 65311]"

definition ends_sentence :: "utext \<Rightarrow> bool" where
  "ends_sentence word = (case dropWhile (\<lambda>c. c \<in> set CLOSING) (rev word) of [] \<Rightarrow> False | c # _ \<Rightarrow> c \<in> set TERMINATORS)"

text \<open>The last end of a sentence between the overlap and the limit, or the limit.\<close>

definition chunk_end :: "(brange \<Rightarrow> utext) \<Rightarrow> chunk_config \<Rightarrow> brange list \<Rightarrow> nat \<Rightarrow> nat" where
  "chunk_end word cfg tokens start =
     (let limit = min (start + cc_size cfg) (length tokens) in
      if limit < length tokens then
        (case List.find (\<lambda>candidate. ends_sentence (word (tokens ! (candidate - 1)))) (rev [start + cc_overlap cfg + 1..<limit + 1]) of
           Some candidate \<Rightarrow> candidate | None \<Rightarrow> limit)
      else limit)"

partial_function (option) chunk_spans ::
  "(brange \<Rightarrow> utext) \<Rightarrow> chunk_config \<Rightarrow> brange list \<Rightarrow> nat \<Rightarrow> (nat \<times> nat) list option"
where
  "chunk_spans word cfg tokens start =
     (if start < length tokens then
        let stop = chunk_end word cfg tokens start in
        if stop = length tokens then Some [(start, stop)]
        else Option.bind (chunk_spans word cfg tokens (stop - cc_overlap cfg)) (\<lambda>spans. Some ((start, stop) # spans))
      else Some [])"

definition chunk_of :: "utext \<Rightarrow> brange list \<Rightarrow> nat \<times> nat \<Rightarrow> text_chunk" where
  "chunk_of t tokens span = (case span of (start, stop) \<Rightarrow>
     let r = (fst (tokens ! start), snd (tokens ! (stop - 1))) in
     \<lparr>tc_text = byte_slice t 0 (fst r) (snd r), tc_range = r, tc_tokens = stop - start\<rparr>)"

definition config_ok :: "chunk_config \<Rightarrow> bool" where
  "config_ok cfg \<longleftrightarrow> \<not> (cc_size cfg = 0 \<or> cc_size cfg \<le> cc_overlap cfg)"

definition INVALID_CONFIG :: string where
  "INVALID_CONFIG = ''Chunk size must be positive and overlap must be smaller than size''"

definition text_tokens :: "utext list \<Rightarrow> brange list" where
  "text_tokens graphemes = token_loop graphemes 0 None"

definition chunk_text :: "utext list \<Rightarrow> chunk_config \<Rightarrow> (string + text_chunk list) option" where
  "chunk_text graphemes cfg =
     (if \<not> config_ok cfg then Some (Inl INVALID_CONFIG)
      else
        let t = concat graphemes; tokens = text_tokens graphemes in
        map_option (\<lambda>spans. Inr (map (chunk_of t tokens) spans))
          (chunk_spans (\<lambda>(a, b). byte_slice t 0 a b) cfg tokens 0))"

subsection \<open>The loop ends and covers the text\<close>

lemma chunk_end_bounds:
  assumes cfg: "config_ok cfg" and start: "start < length tokens"
  shows "start < chunk_end word cfg tokens start" "chunk_end word cfg tokens start \<le> min (start + cc_size cfg) (length tokens)"
    "chunk_end word cfg tokens start \<noteq> length tokens \<Longrightarrow> start + cc_overlap cfg < chunk_end word cfg tokens start"
proof -
  let ?limit = "min (start + cc_size cfg) (length tokens)"
  let ?stop = "chunk_end word cfg tokens start"
  have size: "0 < cc_size cfg" "cc_overlap cfg < cc_size cfg" using cfg by (auto simp: config_ok_def)
  have "?stop = ?limit \<or> (start + cc_overlap cfg + 1 \<le> ?stop \<and> ?stop \<le> ?limit)"
    by (auto simp: chunk_end_def Let_def split: option.split dest!: find_Some_mem)
  then show "start < ?stop" "?stop \<le> ?limit" "?stop \<noteq> length tokens \<Longrightarrow> start + cc_overlap cfg < ?stop"
    using size start by (auto simp: min_def split: if_splits)
qed

text \<open>Spans that follow each other from \<open>start\<close> to the end, each within the size, each next one starting
  \<open>overlap\<close> tokens before the end of the last and later than it.\<close>

fun spans_from :: "chunk_config \<Rightarrow> nat \<Rightarrow> nat \<Rightarrow> (nat \<times> nat) list \<Rightarrow> bool" where
  "spans_from cfg n start [] \<longleftrightarrow> n \<le> start"
| "spans_from cfg n start ((a, b) # rest) \<longleftrightarrow> a = start \<and> a < b \<and> b \<le> n \<and> b - a \<le> cc_size cfg
     \<and> (if b = n then rest = [] else a < b - cc_overlap cfg \<and> spans_from cfg n (b - cc_overlap cfg) rest)"

lemma chunk_spans_total:
  assumes "config_ok cfg"
  shows "\<exists>spans. chunk_spans word cfg tokens start = Some spans \<and> spans_from cfg (length tokens) start spans"
proof (induction "length tokens - start" arbitrary: start rule: less_induct)
  case less
  show ?case
  proof (cases "start < length tokens")
    case False
    then show ?thesis by (subst chunk_spans.simps) simp
  next
    case True
    let ?stop = "chunk_end word cfg tokens start"
    note e = chunk_end_bounds [OF assms True, of word]
    show ?thesis
    proof (cases "?stop = length tokens")
      case last: True
      from last have "chunk_spans word cfg tokens start = Some [(start, ?stop)]" using True by (subst chunk_spans.simps) (simp add: Let_def)
      with e last show ?thesis by auto
    next
      case False
      then have next': "start < ?stop - cc_overlap cfg" using e(3) by simp
      then have "length tokens - (?stop - cc_overlap cfg) < length tokens - start" using True by linarith
      from less [OF this] obtain spans where spans: "chunk_spans word cfg tokens (?stop - cc_overlap cfg) = Some spans"
        "spans_from cfg (length tokens) (?stop - cc_overlap cfg) spans" by blast
      have "chunk_spans word cfg tokens start = Some ((start, ?stop) # spans)"
        using True False spans(1) by (subst chunk_spans.simps) (simp add: Let_def)
      moreover have "spans_from cfg (length tokens) start ((start, ?stop) # spans)"
        using e next' False spans(2) by auto
      ultimately show ?thesis by blast
    qed
  qed
qed

lemma spans_cover: "spans_from cfg n start spans \<Longrightarrow> start < n \<Longrightarrow> (\<Union>(a, b) \<in> set spans. {a..<b}) = {start..<n}"
proof (induction spans arbitrary: start)
  case (Cons s spans)
  obtain a b where s: "s = (a, b)" by (cases s)
  show ?case
  proof (cases "b = n")
    case False
    with Cons.prems s have r: "spans_from cfg n (b - cc_overlap cfg) spans" and b: "a = start" "a < b - cc_overlap cfg" "b < n" by auto
    from Cons.IH [OF r] b have "(\<Union>(a, b) \<in> set spans. {a..<b}) = {b - cc_overlap cfg..<n}" by simp
    with b s show ?thesis by auto
  qed (use Cons.prems s in auto)
qed simp

lemma spans_size: "spans_from cfg n start spans \<Longrightarrow> (a, b) \<in> set spans \<Longrightarrow> a < b \<and> b - a \<le> cc_size cfg \<and> b \<le> n"
  by (induction spans arbitrary: start) (auto split: if_splits)

text \<open>C25: the splitting of a text returns for every configuration: the chunks when it is valid, and each of
  them has at least one word and at most as many as the configured size.\<close>

theorem chunking_ends:
  "\<exists>r. chunk_text graphemes cfg = Some r \<and> (case r of
     Inl e \<Rightarrow> \<not> config_ok cfg
   | Inr chunks \<Rightarrow> config_ok cfg \<and> list_all (\<lambda>c. 0 < tc_tokens c \<and> tc_tokens c \<le> cc_size cfg) chunks)"
proof (cases "config_ok cfg")
  case True
  obtain spans where "chunk_spans (\<lambda>(a, b). byte_slice (concat graphemes) 0 a b) cfg (text_tokens graphemes) 0 = Some spans"
    "spans_from cfg (length (text_tokens graphemes)) 0 spans"
    using chunk_spans_total [OF True, of "\<lambda>(a, b). byte_slice (concat graphemes) 0 a b" "text_tokens graphemes" 0] by blast
  with True spans_size show ?thesis by (fastforce simp: chunk_text_def chunk_of_def Let_def list_all_iff)
qed (simp add: chunk_text_def)

text \<open>Every word of the text is in a chunk, in order and with nothing skipped: the chunks' words are the
  words of the text.\<close>

lemma chunks_cover_the_text:
  "config_ok cfg \<Longrightarrow> \<exists>spans. chunk_text graphemes cfg = Some (Inr (map (chunk_of (concat graphemes) (text_tokens graphemes)) spans))
     \<and> (\<Union>(a, b) \<in> set spans. {a..<b}) = {0..<length (text_tokens graphemes)}"
proof -
  assume ok: "config_ok cfg"
  obtain spans where s: "chunk_spans (\<lambda>(a, b). byte_slice (concat graphemes) 0 a b) cfg (text_tokens graphemes) 0 = Some spans"
    "spans_from cfg (length (text_tokens graphemes)) 0 spans"
    using chunk_spans_total [OF ok, of "\<lambda>(a, b). byte_slice (concat graphemes) 0 a b" "text_tokens graphemes" 0] by blast
  have "(\<Union>(a, b) \<in> set spans. {a..<b}) = {0..<length (text_tokens graphemes)}"
  proof (cases "text_tokens graphemes = []")
    case True
    with s(1) have "spans = []" by (subst (asm) chunk_spans.simps) simp
    with True show ?thesis by simp
  qed (use spans_cover [OF s(2)] in simp)
  with ok s(1) show ?thesis by (auto simp: chunk_text_def Let_def)
qed

end
