(* ===== verification/FrameDecoder.thy ===== *)
theory FrameDecoder
  imports Utf8
begin

text \<open>
  The frame decoders of the providers' streams, \<^verbatim>\<open>drivers/ai/sse.rs\<close>: bytes arrive in chunks cut anywhere
  (also inside a character or a separator) and come out as the payloads of server-sent events or as the
  lines of an NDJSON stream. \<open>frame_decoder\<close> is the trait \<^verbatim>\<open>FrameDecoder\<close> with the law both decoders keep:
  where the chunks are cut does not matter.
\<close>

subsection \<open>The UTF-8 decoder\<close>

definition REPLACEMENT_CHARACTER :: nat where "REPLACEMENT_CHARACTER = 65533"

function decode_loop :: "byte list \<Rightarrow> utext \<times> byte list" where
  "decode_loop bs =
     (if bs = [] then ([], [])
      else case from_utf8 bs of
          (t, r, None) \<Rightarrow> (t, [])
        | (t, r, Some (Some n)) \<Rightarrow> (case decode_loop (drop n r) of (t', r') \<Rightarrow> (t @ [REPLACEMENT_CHARACTER] @ t', r'))
        | (t, r, Some None) \<Rightarrow> (t, r))"
  by pat_completeness auto
termination by (relation "measure length") (auto dest!: sym [of _ "from_utf8 _"] from_utf8_rest)

declare decode_loop.simps [simp del]

text \<open>\<^verbatim>\<open>Utf8Decoder\<close>: its state is the bytes pending.\<close>

definition utf8_decode :: "byte list \<Rightarrow> byte list \<Rightarrow> utext \<times> byte list" where
  "utf8_decode pending chunk = decode_loop (pending @ chunk)"

definition utf8_finish :: "byte list \<Rightarrow> utext \<times> byte list" where
  "utf8_finish pending = (case utf8_decode pending [] of (t, r) \<Rightarrow>
     if r \<noteq> [] then (t @ [REPLACEMENT_CHARACTER], []) else (t, r))"

subsection \<open>Decoding step by step\<close>

lemma decode_steps:
  "decode_loop bs = (case utf8_step bs of
     UEnd \<Rightarrow> ([], [])
   | UChar c n \<Rightarrow> (case decode_loop (drop n bs) of (t, r) \<Rightarrow> (c # t, r))
   | UBad n \<Rightarrow> (case decode_loop (drop n bs) of (t, r) \<Rightarrow> (REPLACEMENT_CHARACTER # t, r))
   | UMore \<Rightarrow> ([], bs))"
proof (cases "utf8_step bs")
  case (UChar c n)
  then have bs: "bs \<noteq> []" by auto
  obtain t r e where f: "from_utf8 (drop n bs) = (t, r, e)" by (metis prod.collapse)
  have g: "from_utf8 bs = (c # t, r, e)" by (subst from_utf8.simps) (simp add: UChar f)
  show ?thesis
  proof (cases "drop n bs = []")
    case True
    then have "from_utf8 (drop n bs) = ([], [], None)" by (simp add: from_utf8.simps)
    with f have "t = []" "e = None" by auto
    with g bs UChar True show ?thesis by (subst decode_loop.simps) (simp add: decode_loop.simps [of "[]"])
  next
    case False
    with f g bs UChar show ?thesis
      by (subst (1 2) decode_loop.simps) (auto split: option.split prod.split)
  qed
next
  case (UBad n)
  then have "bs \<noteq> []" by auto
  moreover have "from_utf8 bs = ([], bs, Some (Some n))" by (subst from_utf8.simps) (simp add: UBad)
  ultimately show ?thesis using UBad by (subst decode_loop.simps) simp
next
  case UMore
  then have "bs \<noteq> []" by auto
  moreover have "from_utf8 bs = ([], bs, Some None)" by (subst from_utf8.simps) (simp add: UMore)
  ultimately show ?thesis using UMore by (subst decode_loop.simps) simp
qed (simp add: utf8_step_end_iff decode_loop.simps)

text \<open>Where the bytes are cut does not matter: what the first part leaves pending starts the second.\<close>

lemma decode_append:
  "decode_loop (xs @ ys) = (case decode_loop xs of (t, r) \<Rightarrow> case decode_loop (r @ ys) of (t', r') \<Rightarrow> (t @ t', r'))"
proof (induction "length xs" arbitrary: xs rule: less_induct)
  case less
  show ?case
  proof (cases "utf8_step xs")
    case UEnd
    then show ?thesis by (simp add: utf8_step_end_iff decode_loop.simps [of "[]"] split: prod.split)
  next
    case (UChar c n)
    then have s: "utf8_step (xs @ ys) = UChar c n" using utf8_step_stable [of xs ys] by simp
    have n: "0 < n" "n \<le> length xs" using utf8_step_length [OF disjI1 [OF UChar]] by auto
    have "decode_loop (drop n xs @ ys) = (case decode_loop (drop n xs) of (t, r) \<Rightarrow> case decode_loop (r @ ys) of (t', r') \<Rightarrow> (t @ t', r'))"
      using n by (intro less) simp
    with n s UChar show ?thesis
      by (subst (1 2) decode_steps) (simp split: prod.split)
  next
    case (UBad n)
    then have s: "utf8_step (xs @ ys) = UBad n" using utf8_step_stable [of xs ys] by simp
    have n: "0 < n" "n \<le> length xs" using utf8_step_length [OF disjI2 [OF UBad]] by auto
    have "decode_loop (drop n xs @ ys) = (case decode_loop (drop n xs) of (t, r) \<Rightarrow> case decode_loop (r @ ys) of (t', r') \<Rightarrow> (t @ t', r'))"
      using n by (intro less) simp
    with n s UBad show ?thesis
      by (subst (1 2) decode_steps) (simp split: prod.split)
  next
    case UMore
    then have "decode_loop xs = ([], xs)" by (subst decode_steps) simp
    then show ?thesis by (simp split: prod.split)
  qed
qed

subsection \<open>Frames of a stream\<close>

definition DATA_PREFIX :: utext where "DATA_PREFIX = [100, 97, 116, 97, 58]"
definition SSE_DONE :: utext where "SSE_DONE = [91, 68, 79, 78, 69, 93]"
definition LFLF :: utext where "LFLF = [10, 10]"
definition CRLFCRLF :: utext where "CRLFCRLF = [13, 10, 13, 10]"

definition data_of_line :: "utext \<Rightarrow> utext option" where
  "data_of_line raw = map_option (\<lambda>d. case u_strip_prefix [32] d of Some r \<Rightarrow> r | None \<Rightarrow> d)
     (u_strip_prefix DATA_PREFIX (u_trim_end (strip_cr raw)))"

definition frame_data :: "utext \<Rightarrow> utext option" where
  "frame_data frame = (let parts = List.map_filter data_of_line (u_split 10 frame) in
     if parts = [] then None
     else let joined = u_join [10] parts in if joined = [] then None else Some joined)"

subsection \<open>Server-sent events\<close>

record sse_decoder =
  sse_pending :: "byte list"
  sse_buffer :: utext
  sse_done :: bool

definition sse_default :: sse_decoder where
  "sse_default = \<lparr>sse_pending = [], sse_buffer = [], sse_done = False\<rparr>"

definition next_boundary :: "utext \<Rightarrow> (nat \<times> nat) option" where
  "next_boundary b = (case (u_find CRLFCRLF b, u_find LFLF b) of
     (Some w, Some d) \<Rightarrow> if w < d then Some (w, 4) else Some (d, 2)
   | (Some w, None) \<Rightarrow> Some (w, 4)
   | (None, Some d) \<Rightarrow> Some (d, 2)
   | (None, None) \<Rightarrow> None)"

text \<open>A pattern is found where it occurs, and nowhere before.\<close>

lemma u_find_Some: "u_find p s = Some i \<Longrightarrow> take (length p) (drop i s) = p \<and> i + length p \<le> length s"
proof (induction s arbitrary: i)
  case (Cons x xs)
  then show ?case
    by (auto split: if_splits) (metis length_take min.absorb_iff2 length_Cons min_def)
qed (auto split: if_splits)

lemma u_find_first: "take (length p) (drop i s) = p \<Longrightarrow> i + length p \<le> length s \<Longrightarrow> \<exists>j \<le> i. u_find p s = Some j"
proof (induction s arbitrary: i)
  case (Cons x xs)
  show ?case
  proof (cases "take (length p) (x # xs) = p")
    case False
    with Cons.prems(1) obtain k where i: "i = Suc k" by (cases i) auto
    with Cons obtain j where "j \<le> k" "u_find p xs = Some j" by auto
    with False i show ?thesis by auto
  qed simp
qed auto

lemma u_find_append: "u_find p s = Some i \<Longrightarrow> u_find p (s @ t) = Some i"
proof (induction s arbitrary: i)
  case (Cons x xs)
  show ?case
  proof (cases "take (length p) (x # xs) = p")
    case True
    then have "length p \<le> Suc (length xs)" by (metis length_Cons length_take min.absorb_iff2 min_def)
    with True Cons.prems show ?thesis by (auto simp: take_Cons' split: if_splits)
  next
    case False
    with Cons obtain j where j: "u_find p xs = Some j" "i = Suc j" by auto
    with u_find_Some [OF j(1)] have "length p \<le> length (x # xs)" by simp
    then have "take (length p) ((x # xs) @ t) = take (length p) (x # xs)" by (simp only: take_append) simp
    with False have "take (length p) ((x # xs) @ t) \<noteq> p" by simp
    with Cons.IH [OF j(1)] j(2) show ?thesis by simp
  qed
qed (cases t; auto split: if_splits)

lemma u_find_later:
  assumes "u_find p s = None" "u_find p (s @ t) = Some i" shows "length s < i + length p"
proof (rule ccontr)
  assume "\<not> length s < i + length p"
  then have "take (length p) (drop i s) = p" "i + length p \<le> length s" using u_find_Some [OF assms(2)] by auto
  from u_find_first [OF this] assms(1) show False by auto
qed

text \<open>The separators do not overlap: of the two, the one that ends first is chosen, so more text after it
  changes nothing.\<close>

lemma separator_lengths [simp]: "length CRLFCRLF = 4" "length LFLF = 2"
  by (simp_all add: CRLFCRLF_def LFLF_def)

lemma windows_before_double:
  assumes "u_find CRLFCRLF s = Some w" "u_find LFLF s = Some d"
  shows "d + 1 < w \<or> w + 2 < d"
proof (rule ccontr)
  assume h: "\<not> (d + 1 < w \<or> w + 2 < d)"
  have w: "take 4 (drop w s) = [13, 10, 13, 10]" "w + 4 \<le> length s" using u_find_Some [OF assms(1), unfolded separator_lengths] unfolding CRLFCRLF_def by blast+
  have d: "take 2 (drop d s) = [10, 10]" "d + 2 \<le> length s" using u_find_Some [OF assms(2), unfolded separator_lengths] unfolding LFLF_def by blast+
  have wn: "s ! (w + i) = [13, 10, 13, 10] ! i" if "i < 4" for i
    using that w by (metis nth_take nth_drop add.commute add_leE)
  have dn: "s ! (d + i) = [10, 10] ! i" if "i < 2" for i
    using that d by (metis nth_take nth_drop add.commute add_leE)
  from h consider "d + 1 = w" | "d = w" | "d = w + 1" | "d = w + 2" by linarith
  then show False
    by cases (use wn [of 0] wn [of 2] dn [of 0] dn [of 1] in \<open>simp_all add: numeral_2_eq_2\<close>)
qed

lemma next_boundary_append:
  assumes "next_boundary b = Some (i, n)" shows "next_boundary (b @ c) = Some (i, n)"
proof (cases "u_find LFLF b")
  case None
  with assms have w: "u_find CRLFCRLF b = Some i" "n = 4" by (auto simp: next_boundary_def split: option.splits)
  show ?thesis
  proof (cases "u_find LFLF (b @ c)")
    case (Some d)
    from u_find_later [OF None Some] u_find_Some [OF w(1)] have "i < d" by simp
    with Some w u_find_append [OF w(1)] show ?thesis by (simp add: next_boundary_def)
  qed (simp add: next_boundary_def u_find_append [OF w(1)] w(2))
next
  case (Some d)
  note d = u_find_append [OF Some, of c]
  show ?thesis
  proof (cases "u_find CRLFCRLF b")
    case None
    with assms Some have "i = d" "n = 2" by (auto simp: next_boundary_def)
    moreover have "\<not> w < d" if w: "u_find CRLFCRLF (b @ c) = Some w" for w
      using u_find_later [OF None w] u_find_Some [OF Some] windows_before_double [OF w d] by simp
    ultimately show ?thesis using d by (auto simp: next_boundary_def split: option.split)
  next
    case w: (Some w)
    with assms Some d u_find_append [OF w, of c] show ?thesis by (simp add: next_boundary_def)
  qed
qed

lemma next_boundary_bounds: "next_boundary b = Some (i, n) \<Longrightarrow> i + n \<le> length b \<and> 0 < n"
  by (auto simp: next_boundary_def split: option.splits if_splits dest!: u_find_Some)

text \<open>The loop of \<^verbatim>\<open>SseDecoder::push\<close>: the payloads, the buffer left and whether the end was seen.\<close>

function drain :: "utext \<Rightarrow> utext list \<times> utext \<times> bool" where
  "drain b = (case next_boundary b of
     None \<Rightarrow> ([], b, False)
   | Some (i, n) \<Rightarrow>
       let rest = drop (i + n) b in
       (case frame_data (take i b) of
          None \<Rightarrow> drain rest
        | Some p \<Rightarrow> if p = SSE_DONE then ([], [], True) else (case drain rest of (ps, b', d) \<Rightarrow> (p # ps, b', d))))"
  by pat_completeness auto
termination by (relation "measure length") (auto dest!: next_boundary_bounds)

declare drain.simps [simp del]

definition sse_push :: "sse_decoder \<Rightarrow> byte list \<Rightarrow> utext list \<times> sse_decoder" where
  "sse_push s chunk =
     (if sse_done s then ([], s)
      else case utf8_decode (sse_pending s) chunk of (decoded, pending) \<Rightarrow>
        case drain (sse_buffer s @ decoded) of (ps, b, d) \<Rightarrow> (ps, \<lparr>sse_pending = pending, sse_buffer = b, sse_done = d\<rparr>))"

definition sse_finish :: "sse_decoder \<Rightarrow> utext option \<times> sse_decoder" where
  "sse_finish s =
     (if sse_done s then (None, s)
      else case utf8_finish (sse_pending s) of (rest, pending) \<Rightarrow>
        ((case frame_data (sse_buffer s @ rest) of None \<Rightarrow> None | Some p \<Rightarrow> if p \<noteq> SSE_DONE then Some p else None),
         s\<lparr>sse_pending := pending, sse_buffer := []\<rparr>))"

lemma drain_append:
  "drain (b @ c) = (case drain b of (ps, b', d) \<Rightarrow> if d then (ps, b', d) else (case drain (b' @ c) of (qs, b'', d') \<Rightarrow> (ps @ qs, b'', d')))"
proof (induction "length b" arbitrary: b rule: less_induct)
  case less
  show ?case
  proof (cases "next_boundary b")
    case None
    then show ?thesis by (simp add: drain.simps [of b] split: prod.split)
  next
    case (Some r)
    obtain i n where r: "r = (i, n)" by (cases r)
    note nb = Some [unfolded r] and bounds = next_boundary_bounds [OF Some [unfolded r]]
    let ?rest = "drop (i + n) b"
    have "length ?rest < length b" using bounds by (simp, linarith)
    note IH = less [OF this]
    have "i + n - length b = 0" "i - length b = 0" using bounds by auto
    then have cut: "drop (i + n) (b @ c) = ?rest @ c" "take i (b @ c) = take i b" by simp_all
    have e1: "drain (b @ c) = (case frame_data (take i b) of None \<Rightarrow> drain (?rest @ c)
        | Some p \<Rightarrow> if p = SSE_DONE then ([], [], True) else (case drain (?rest @ c) of (ps, b', d) \<Rightarrow> (p # ps, b', d)))"
      using bounds by (subst drain.simps) (simp only: next_boundary_append [OF nb] Let_def cut option.case prod.case)
    have e2: "drain b = (case frame_data (take i b) of None \<Rightarrow> drain ?rest
        | Some p \<Rightarrow> if p = SSE_DONE then ([], [], True) else (case drain ?rest of (ps, b', d) \<Rightarrow> (p # ps, b', d)))"
      by (subst drain.simps) (simp add: nb Let_def)
    obtain ps b' d where r: "drain ?rest = (ps, b', d)" by (metis prod.collapse)
    show ?thesis unfolding e1 e2 IH r by (auto split: option.split prod.split)
  qed
qed

lemma drain_done: "drain b = (ps, b', True) \<Longrightarrow> b' = []"
proof (induction "length b" arbitrary: b ps rule: less_induct)
  case less
  show ?case
  proof (cases "next_boundary b")
    case (Some r)
    obtain i n where r: "r = (i, n)" by (cases r)
    note bounds = next_boundary_bounds [OF Some [unfolded r]]
    from less(2) Some r obtain qs where "drain (drop (i + n) b) = (qs, b', True) \<or> b' = []"
      by (subst (asm) drain.simps) (auto simp: Let_def split: option.splits if_splits prod.splits)
    with bounds less(1) [of "drop (i + n) b" qs] show ?thesis by auto
  qed (use less(2) in \<open>simp add: drain.simps [of b]\<close>)
qed

subsection \<open>Lines\<close>

record ndjson_decoder =
  nd_pending :: "byte list"
  nd_buffer :: utext

definition ndjson_default :: ndjson_decoder where
  "ndjson_default = \<lparr>nd_pending = [], nd_buffer = []\<rparr>"

definition complete_lines :: "utext \<Rightarrow> utext list" where
  "complete_lines complete = filter (\<lambda>l. l \<noteq> []) (map (\<lambda>l. u_trim (strip_cr l)) (u_split 10 complete))"

text \<open>The text before the last line feed and the text after it.\<close>

fun split_last :: "utext \<Rightarrow> (utext \<times> utext) option" where
  "split_last [] = None"
| "split_last (x # xs) = (case split_last xs of Some (a, b) \<Rightarrow> Some (x # a, b) | None \<Rightarrow> if x = 10 then Some ([], xs) else None)"

definition ndjson_push :: "ndjson_decoder \<Rightarrow> byte list \<Rightarrow> utext list \<times> ndjson_decoder" where
  "ndjson_push s chunk = (case utf8_decode (nd_pending s) chunk of (decoded, pending) \<Rightarrow>
     case split_last (nd_buffer s @ decoded) of
       None \<Rightarrow> ([], \<lparr>nd_pending = pending, nd_buffer = nd_buffer s @ decoded\<rparr>)
     | Some (complete, rest) \<Rightarrow> (complete_lines complete, \<lparr>nd_pending = pending, nd_buffer = rest\<rparr>))"

definition ndjson_finish :: "ndjson_decoder \<Rightarrow> utext option \<times> ndjson_decoder" where
  "ndjson_finish s = (case utf8_finish (nd_pending s) of (rest, pending) \<Rightarrow>
     let line = u_trim (nd_buffer s @ rest) in
     (if line \<noteq> [] then Some line else None, s\<lparr>nd_pending := pending, nd_buffer := []\<rparr>))"

lemma split_last_append:
  "split_last (b @ c) = (case split_last c of Some (x, y) \<Rightarrow> Some (b @ x, y)
     | None \<Rightarrow> (case split_last b of Some (x, y) \<Rightarrow> Some (x, y @ c) | None \<Rightarrow> None))"
  by (induction b) (auto split: option.splits)

lemma split_last_Some: "split_last b = Some (x, y) \<Longrightarrow> b = x @ [10] @ y"
  by (induction b arbitrary: x) (auto split: option.splits if_splits)

lemma split_last_rest: "split_last b = Some (x, y) \<Longrightarrow> split_last y = None"
  by (induction b arbitrary: x) (auto split: option.splits if_splits)

lemma u_split_append: "u_split c (x @ [c] @ y) = u_split c x @ u_split c y"
proof (induction x)
  case (Cons a x)
  have "u_split c x \<noteq> []" by (induction x) (auto split: list.splits)
  with Cons show ?case by (auto split: list.splits)
qed simp

lemma complete_lines_append: "complete_lines (x @ [10] @ y) = complete_lines x @ complete_lines y"
  by (simp only: complete_lines_def u_split_append) simp

subsection \<open>The trait and its law\<close>

text \<open>\<^verbatim>\<open>frames\<close>: the stream of frames of a stream of chunks; an item is a chunk or the error the transport
  ends with, and nothing is read after an error or once the decoder is exhausted.\<close>

fun frames :: "('s \<Rightarrow> byte list \<Rightarrow> utext list \<times> 's) \<Rightarrow> ('s \<Rightarrow> utext option \<times> 's) \<Rightarrow> ('s \<Rightarrow> bool) \<Rightarrow> 's \<Rightarrow> ('e + byte list) list \<Rightarrow> ('e + utext) list"
where
  "frames push finish exhausted s [] = map Inr (case fst (finish s) of None \<Rightarrow> [] | Some p \<Rightarrow> [p])"
| "frames push finish exhausted s (Inl e # items) = [Inl e]"
| "frames push finish exhausted s (Inr chunk # items) = (case push s chunk of (ps, s') \<Rightarrow>
     map Inr ps @ (if exhausted s' then [] else frames push finish exhausted s' items))"

definition chunk_stream :: "byte list list \<Rightarrow> 'e option \<Rightarrow> ('e + byte list) list" where
  "chunk_stream chunks failure = map Inr chunks @ (case failure of None \<Rightarrow> [] | Some e \<Rightarrow> [Inl e])"

text \<open>Two states are \<open>same\<close> when nothing can tell them apart any more.\<close>

locale frame_decoder =
  fixes push :: "'s \<Rightarrow> byte list \<Rightarrow> utext list \<times> 's"
    and finish :: "'s \<Rightarrow> utext option \<times> 's"
    and exhausted :: "'s \<Rightarrow> bool"
    and same :: "'s \<Rightarrow> 's \<Rightarrow> bool"
    and start :: 's
  assumes same_trans: "same s t \<Longrightarrow> same t u \<Longrightarrow> same s u"
    and same_push: "same s t \<Longrightarrow> fst (push s a) = fst (push t a) \<and> same (snd (push s a)) (snd (push t a))"
    and same_finish: "same s t \<Longrightarrow> fst (finish s) = fst (finish t)"
    and same_exhausted: "same s t \<Longrightarrow> exhausted s = exhausted t"
    and cut: "fst (push s (a @ b)) = fst (push s a) @ fst (push (snd (push s a)) b)"
      "same (snd (push s (a @ b))) (snd (push (snd (push s a)) b))"
    and silent: "exhausted s \<Longrightarrow> push s a = ([], s)" "exhausted s \<Longrightarrow> fst (finish s) = None"
    and fresh: "push start [] = ([], start)" "\<not> exhausted start"
begin

definition ending :: "'s \<Rightarrow> 'e option \<Rightarrow> ('e + utext) list" where
  "ending s failure = (if exhausted s then [] else case failure of
     Some e \<Rightarrow> [Inl e] | None \<Rightarrow> map Inr (case fst (finish s) of None \<Rightarrow> [] | Some p \<Rightarrow> [p]))"

lemma ending_same: "same s t \<Longrightarrow> ending s failure = ending t failure"
  using same_finish [of s t] same_exhausted [of s t] by (cases failure) (simp_all add: ending_def)

lemma frames_append:
  "\<not> exhausted s \<Longrightarrow> frames push finish exhausted s (chunk_stream (chunk # chunks) failure)
     = map Inr (fst (push s (concat (chunk # chunks)))) @ ending (snd (push s (concat (chunk # chunks)))) failure"
proof (induction chunks arbitrary: s chunk)
  case Nil
  then show ?case by (cases "push s chunk") (auto simp: chunk_stream_def ending_def split: option.split)
next
  case (Cons c chunks)
  let ?rest = "concat (c # chunks)"
  obtain ps s' where p: "push s chunk = (ps, s')" by (cases "push s chunk")
  have whole: "fst (push s (chunk @ ?rest)) = ps @ fst (push s' ?rest)" "same (snd (push s (chunk @ ?rest))) (snd (push s' ?rest))"
    using cut [of s chunk ?rest] p by simp_all
  have "frames push finish exhausted s (chunk_stream (chunk # c # chunks) failure)
      = map Inr ps @ (if exhausted s' then [] else frames push finish exhausted s' (chunk_stream (c # chunks) failure))"
    using p by (simp add: chunk_stream_def)
  also have "\<dots> = map Inr ps @ map Inr (fst (push s' ?rest)) @ ending (snd (push s' ?rest)) failure"
    using Cons.IH [of s' c] silent(1) [of s' ?rest] by (simp add: ending_def)
  finally show ?case using whole(1) ending_same [OF whole(2), of failure] by simp
qed

text \<open>The frames of a stream are those of its bytes in one piece.\<close>

lemma frames_concat:
  "frames push finish exhausted start (chunk_stream chunks failure) = frames push finish exhausted start (chunk_stream [concat chunks] failure)"
proof (cases chunks)
  case Nil
  show ?thesis
    using frames_append [of start "[]" "[]" failure] fresh by (cases failure) (simp_all add: Nil chunk_stream_def ending_def)
next
  case (Cons c cs)
  show ?thesis
    using frames_append [of start c cs failure] frames_append [of start "concat chunks" "[]" failure] fresh(2) by (simp add: Cons)
qed

end

lemma nothing_decoded [simp]: "decode_loop [] = ([], [])" "drain [] = ([], [], False)"
  by (simp_all add: decode_loop.simps drain.simps next_boundary_def CRLFCRLF_def LFLF_def)

definition sse_same :: "sse_decoder \<Rightarrow> sse_decoder \<Rightarrow> bool" where
  "sse_same s t \<longleftrightarrow> (sse_done s \<and> sse_done t) \<or> s = t"

interpretation sse: frame_decoder sse_push sse_finish sse_done sse_same sse_default
proof unfold_locales
  fix s :: sse_decoder and a b
  obtain t r where 1: "utf8_decode (sse_pending s) a = (t, r)" by (metis prod.collapse)
  obtain t' r' where 2: "utf8_decode r b = (t', r')" by (metis prod.collapse)
  have 3: "utf8_decode (sse_pending s) (a @ b) = (t @ t', r')"
    using 1 2 decode_append [of "sse_pending s @ a" b] by (simp add: utf8_decode_def)
  obtain ps buf d where 4: "drain (sse_buffer s @ t) = (ps, buf, d)" by (metis prod.collapse)
  obtain qs buf' d' where 5: "drain (buf @ t') = (qs, buf', d')" by (metis prod.collapse)
  have 6: "drain ((sse_buffer s @ t) @ t') = (if d then (ps, buf, d) else (ps @ qs, buf', d'))"
    unfolding drain_append [of "sse_buffer s @ t" t'] 4 using 5 by simp
  show "fst (sse_push s (a @ b)) = fst (sse_push s a) @ fst (sse_push (snd (sse_push s a)) b)"
    "sse_same (snd (sse_push s (a @ b))) (snd (sse_push (snd (sse_push s a)) b))"
    using 1 2 3 4 5 6 by (auto simp: sse_push_def sse_same_def)
qed (auto simp: sse_same_def sse_push_def sse_finish_def sse_default_def utf8_decode_def)

definition lines_of :: "utext \<Rightarrow> utext list" where
  "lines_of b = (case split_last b of None \<Rightarrow> [] | Some (c, r) \<Rightarrow> complete_lines c)"

definition rest_of :: "utext \<Rightarrow> utext" where
  "rest_of b = (case split_last b of None \<Rightarrow> b | Some (c, r) \<Rightarrow> r)"

lemma ndjson_push_lines:
  "ndjson_push s chunk = (case utf8_decode (nd_pending s) chunk of (t, r) \<Rightarrow>
     (lines_of (nd_buffer s @ t), \<lparr>nd_pending = r, nd_buffer = rest_of (nd_buffer s @ t)\<rparr>))"
  by (auto simp: ndjson_push_def lines_of_def rest_of_def split: option.split prod.split)

lemma lines_cut: "lines_of (b @ c) = lines_of b @ lines_of (rest_of b @ c)" "rest_of (b @ c) = rest_of (rest_of b @ c)"
proof -
  have "lines_of (b @ c) = lines_of b @ lines_of (rest_of b @ c) \<and> rest_of (b @ c) = rest_of (rest_of b @ c)"
  proof (cases "split_last b")
    case None
    then show ?thesis by (simp add: lines_of_def rest_of_def)
  next
    case (Some p)
    obtain x y where p: "split_last b = Some (x, y)" using Some by (cases p) simp
    note r = split_last_rest [OF p] and b = split_last_Some [OF p]
    show ?thesis
    proof (cases "split_last c")
      case None
      then show ?thesis using p r by (simp add: lines_of_def rest_of_def split_last_append complete_lines_def)
    next
      case (Some q)
      obtain x' y' where q: "split_last c = Some (x', y')" using Some by (cases q) simp
      have "complete_lines (b @ x') = complete_lines x @ complete_lines (y @ x')"
        using complete_lines_append [of x "y @ x'"] by (simp add: b)
      then show ?thesis using p q r by (simp add: lines_of_def rest_of_def split_last_append)
    qed
  qed
  then show "lines_of (b @ c) = lines_of b @ lines_of (rest_of b @ c)" "rest_of (b @ c) = rest_of (rest_of b @ c)" by blast+
qed

interpretation ndjson: frame_decoder ndjson_push ndjson_finish "\<lambda>_. False" "(=)" ndjson_default
proof unfold_locales
  fix s :: ndjson_decoder and a b
  obtain t r where 1: "utf8_decode (nd_pending s) a = (t, r)" by (metis prod.collapse)
  obtain t' r' where 2: "utf8_decode r b = (t', r')" by (metis prod.collapse)
  have 3: "utf8_decode (nd_pending s) (a @ b) = (t @ t', r')"
    using 1 2 decode_append [of "nd_pending s @ a" b] by (simp add: utf8_decode_def)
  show "fst (ndjson_push s (a @ b)) = fst (ndjson_push s a) @ fst (ndjson_push (snd (ndjson_push s a)) b)"
    "snd (ndjson_push s (a @ b)) = snd (ndjson_push (snd (ndjson_push s a)) b)"
    using 1 2 3 lines_cut [of "nd_buffer s @ t" t'] by (simp_all add: ndjson_push_lines)
qed (auto simp: ndjson_push_def ndjson_finish_def ndjson_default_def utf8_decode_def)

definition sse_data :: "('e + byte list) list \<Rightarrow> ('e + utext) list" where
  "sse_data = frames sse_push sse_finish sse_done sse_default"

definition ndjson_lines :: "('e + byte list) list \<Rightarrow> ('e + utext) list" where
  "ndjson_lines = frames ndjson_push ndjson_finish (\<lambda>_. False) ndjson_default"

lemma frame_samples:
  "next_boundary [120, 13, 10, 13, 10, 58, 10, 10] = Some (1, 4)" "next_boundary [120, 10, 10, 13, 10, 13, 10] = Some (1, 2)"
  "frame_data [100, 97, 116, 97, 58, 32, 120, 13, 10, 100, 97, 116, 97, 58, 121] = Some [120, 10, 121]"
  "utf8_at [0xE2, 0x82, 0xAC] = UChar 0x20AC 3" "utf8_at [0xE2, 0x82] = UMore" "utf8_at [0xED, 0xA0, 0x80] = UBad 1"
  by (simp_all add: next_boundary_def CRLFCRLF_def LFLF_def frame_data_def data_of_line_def map_filter_simps u_strip_prefix_def
      DATA_PREFIX_def u_trim_end_def strip_cr_def u_ws_def char_width_def second_ok_def continues_def)

text \<open>C21: the frames of a provider's stream do not depend on where the transport cuts its bytes, inside a
  character, a separator or a line; an error at its end comes after the same frames.\<close>

theorem chunking_does_not_matter:
  "sse_data (chunk_stream chunks failure) = sse_data (chunk_stream [concat chunks] failure)
    \<and> ndjson_lines (chunk_stream chunks failure) = ndjson_lines (chunk_stream [concat chunks] failure)"
  unfolding sse_data_def ndjson_lines_def using sse.frames_concat ndjson.frames_concat by blast

end
