(* ===== verification/Questions.thy ===== *)
theory Questions
  imports EventBus
begin

text \<open>
  The questions a run asks its user, \<^verbatim>\<open>services/questions.rs\<close>: the check of the answers and the waiting
  requests. \<^verbatim>\<open>wait\<close> is three atomic pieces (register, hear or be cancelled, unregister) that interleave
  with \<^verbatim>\<open>answer\<close> and \<^verbatim>\<open>skip\<close>, each one section under the lock. A one-shot channel is a number; \<open>qv_sent\<close>
  holds what was sent over each, \<open>qv_closed\<close> the channels whose receiver is gone.
\<close>

definition QUESTION_NOT_PENDING :: string where "QUESTION_NOT_PENDING = ''QUESTION_NOT_PENDING''"
definition ANSWER_UNKNOWN_QUESTION :: string where "ANSWER_UNKNOWN_QUESTION = ''ANSWER_UNKNOWN_QUESTION''"
definition ANSWER_REPEATED :: string where "ANSWER_REPEATED = ''ANSWER_REPEATED''"
definition ANSWER_UNKNOWN_OPTION :: string where "ANSWER_UNKNOWN_OPTION = ''ANSWER_UNKNOWN_OPTION''"
definition ANSWER_ONE_OPTION :: string where "ANSWER_ONE_OPTION = ''ANSWER_ONE_OPTION''"
definition ANSWER_NO_OTHER :: string where "ANSWER_NO_OTHER = ''ANSWER_NO_OTHER''"
definition ANSWER_EMPTY :: string where "ANSWER_EMPTY = ''ANSWER_EMPTY''"

record question_answer =
  qa_question_id :: string
  qa_selected :: "string list"
  qa_text :: "string option"

datatype question_outcome = Answered "question_answer list" | Skipped

text \<open>A refusal carries the message and the question (or, for an unknown one, the id given).\<close>

datatype answer_error = Rejected string string | NotPending

definition answer_error_code :: "answer_error \<Rightarrow> app_error_code" where
  "answer_error_code e = (case e of Rejected _ _ \<Rightarrow> ValidationFailed | NotPending \<Rightarrow> Conflict)"

subsection \<open>Answers that fit\<close>

fun check_selected :: "question \<Rightarrow> string list \<Rightarrow> string list \<Rightarrow> answer_error + unit" where
  "check_selected q seen [] = Inr ()"
| "check_selected q seen (i # is) =
     (if \<not> list_ex (\<lambda>o'. qo_id o' = i) (q_options q) then Inl (Rejected ANSWER_UNKNOWN_OPTION (q_id q))
      else if i \<in> set seen then Inl (Rejected ANSWER_REPEATED (q_id q))
      else check_selected q (i # seen) is)"

definition answer_text :: "question_answer \<Rightarrow> string option" where
  "answer_text a = (case qa_text a of None \<Rightarrow> None | Some t \<Rightarrow> if trim t \<noteq> [] then Some (trim t) else None)"

definition check_kind :: "question \<Rightarrow> question_answer \<Rightarrow> answer_error + unit" where
  "check_kind q a =
     (case q_kind q of
        QuestionText \<Rightarrow>
          if qa_selected a \<noteq> [] then Inl (Rejected ANSWER_UNKNOWN_OPTION (q_id q))
          else if answer_text a = None then Inl (Rejected ANSWER_EMPTY (q_id q))
          else Inr ()
      | _ \<Rightarrow>
          if answer_text a \<noteq> None \<and> \<not> q_allow_other q then Inl (Rejected ANSWER_NO_OTHER (q_id q))
          else
            let picked = length (qa_selected a) + (if answer_text a \<noteq> None then 1 else 0) in
            if picked = 0 then Inl (Rejected ANSWER_EMPTY (q_id q))
            else if q_kind q = QuestionSingle \<and> 1 < picked then Inl (Rejected ANSWER_ONE_OPTION (q_id q))
            else Inr ())"

definition checked_answer :: "question \<Rightarrow> question_answer \<Rightarrow> answer_error + question_answer" where
  "checked_answer q a =
     rbind (check_selected q [] (qa_selected a)) (\<lambda>_.
     rbind (check_kind q a) (\<lambda>_.
     Inr \<lparr>qa_question_id = q_id q, qa_selected = qa_selected a, qa_text = answer_text a\<rparr>))"

fun check_questions :: "question_request \<Rightarrow> string list \<Rightarrow> question_answer list \<Rightarrow> answer_error + unit" where
  "check_questions req seen [] = Inr ()"
| "check_questions req seen (a # as) =
     (if \<not> list_ex (\<lambda>q. q_id q = qa_question_id a) (qr_questions req) then Inl (Rejected ANSWER_UNKNOWN_QUESTION (qa_question_id a))
      else if qa_question_id a \<in> set seen then Inl (Rejected ANSWER_REPEATED (qa_question_id a))
      else check_questions req (qa_question_id a # seen) as)"

definition answer_for :: "question_answer list \<Rightarrow> question \<Rightarrow> question_answer option" where
  "answer_for answers q = List.find (\<lambda>a. qa_question_id a = q_id q) answers"

definition checked_answers :: "question_request \<Rightarrow> question_answer list \<Rightarrow> answer_error + question_answer list" where
  "checked_answers req answers =
     rbind (check_questions req [] answers) (\<lambda>_.
     collect_results (\<lambda>(q, a). checked_answer q a)
       (List.map_filter (\<lambda>q. map_option (\<lambda>a. (q, a)) (answer_for answers q)) (qr_questions req)))"

text \<open>The same, declaratively.\<close>

definition answer_fits :: "question \<Rightarrow> question_answer \<Rightarrow> bool" where
  "answer_fits q a \<longleftrightarrow> set (qa_selected a) \<subseteq> qo_id ` set (q_options q) \<and> distinct (qa_selected a)
     \<and> (case q_kind q of
          QuestionText \<Rightarrow> qa_selected a = [] \<and> answer_text a \<noteq> None
        | QuestionSingle \<Rightarrow> (answer_text a = None \<and> length (qa_selected a) = 1) \<or> (q_allow_other q \<and> answer_text a \<noteq> None \<and> qa_selected a = [])
        | QuestionMultiple \<Rightarrow> (answer_text a = None \<and> qa_selected a \<noteq> []) \<or> (q_allow_other q \<and> answer_text a \<noteq> None))"

definition answers_fit :: "question_request \<Rightarrow> question_answer list \<Rightarrow> bool" where
  "answers_fit req answers \<longleftrightarrow> distinct (map qa_question_id answers) \<and> qa_question_id ` set answers \<subseteq> q_id ` set (qr_questions req)
     \<and> (\<forall>q \<in> set (qr_questions req). \<forall>a \<in> set answers. qa_question_id a = q_id q \<longrightarrow> answer_fits q a)"

lemma check_selected_iff:
  "check_selected q seen is = Inr () \<longleftrightarrow> set is \<subseteq> qo_id ` set (q_options q) \<and> distinct is \<and> set is \<inter> set seen = {}"
  by (induction "is" arbitrary: seen) (auto simp: list_ex_iff)

lemma checked_answer_iff: "(\<exists>r. checked_answer q a = Inr r) \<longleftrightarrow> answer_fits q a"
proof -
  have "check_kind q a = Inr () \<longleftrightarrow> (case q_kind q of
          QuestionText \<Rightarrow> qa_selected a = [] \<and> answer_text a \<noteq> None
        | QuestionSingle \<Rightarrow> (answer_text a = None \<and> length (qa_selected a) = 1) \<or> (q_allow_other q \<and> answer_text a \<noteq> None \<and> qa_selected a = [])
        | QuestionMultiple \<Rightarrow> (answer_text a = None \<and> qa_selected a \<noteq> []) \<or> (q_allow_other q \<and> answer_text a \<noteq> None))"
    by (cases "q_kind q"; cases "qa_selected a"; cases "answer_text a") (auto simp: check_kind_def Let_def)
  moreover have "(\<exists>r. checked_answer q a = Inr r) \<longleftrightarrow> check_selected q [] (qa_selected a) = Inr () \<and> check_kind q a = Inr ()"
    by (auto simp: checked_answer_def rbind_Inr_iff)
  ultimately show ?thesis by (simp add: answer_fits_def check_selected_iff)
qed

lemma check_questions_iff:
  "check_questions req seen as = Inr () \<longleftrightarrow> qa_question_id ` set as \<subseteq> q_id ` set (qr_questions req)
     \<and> distinct (map qa_question_id as) \<and> qa_question_id ` set as \<inter> set seen = {}"
  by (induction as arbitrary: seen) (auto simp: list_ex_iff intro: rev_image_eqI)

lemma collect_results_total: "(\<exists>ys. collect_results f xs = Inr ys) \<longleftrightarrow> (\<forall>x \<in> set xs. \<exists>y. f x = Inr y)"
  by (induction xs) (auto simp: rbind_Inr_iff)

lemma answer_for_iff:
  "distinct (map qa_question_id answers) \<Longrightarrow> answer_for answers q = Some a \<longleftrightarrow> a \<in> set answers \<and> qa_question_id a = q_id q"
  by (induction answers) (auto simp: answer_for_def image_iff split: if_splits)

lemma answered_pairs:
  "set (List.map_filter (\<lambda>q. map_option (\<lambda>a. (q, a)) (answer_for answers q)) qs) = {(q, a). q \<in> set qs \<and> answer_for answers q = Some a}"
  by (induction qs) (auto simp: map_filter_simps split: option.split)

lemma checked_answers_iff: "(\<exists>r. checked_answers req answers = Inr r) \<longleftrightarrow> answers_fit req answers"
proof (cases "check_questions req [] answers")
  case (Inl e)
  then have "check_questions req [] answers \<noteq> Inr ()" by simp
  with Inl check_questions_iff [of req "[]" answers] show ?thesis by (auto simp: checked_answers_def answers_fit_def)
next
  case (Inr u)
  then have d: "distinct (map qa_question_id answers)" "qa_question_id ` set answers \<subseteq> q_id ` set (qr_questions req)"
    using check_questions_iff [of req "[]" answers] by auto
  have "(\<exists>r. checked_answers req answers = Inr r) \<longleftrightarrow> (\<forall>q \<in> set (qr_questions req). \<forall>a. answer_for answers q = Some a \<longrightarrow> answer_fits q a)"
    using Inr by (auto simp: checked_answers_def collect_results_total checked_answer_iff answered_pairs)
  with d show ?thesis by (auto simp: answers_fit_def answer_for_iff)
qed

subsection \<open>Requests that wait\<close>

record waiter =
  wt_run :: string
  wt_request :: question_request
  wt_channel :: nat

record question_service =
  qv_waiting :: "(string \<times> waiter) list"
  qv_sent :: "(nat \<times> question_outcome) list"
  qv_closed :: "nat list"
  qv_asked :: "question_request list"

definition question_service_new :: question_service where
  "question_service_new = \<lparr>qv_waiting = [], qv_sent = [], qv_closed = [], qv_asked = []\<rparr>"

text \<open>\<^verbatim>\<open>wait\<close>, first piece: a fresh channel (the number of requests asked so far) and the waiter.\<close>

definition register_wait :: "question_request \<Rightarrow> question_service \<Rightarrow> nat \<times> question_service" where
  "register_wait req s = (let ch = length (qv_asked s) in
     (ch, s\<lparr>qv_waiting := AList.update (qr_id req) \<lparr>wt_run = qr_run_id req, wt_request = req, wt_channel = ch\<rparr> (qv_waiting s),
            qv_asked := qv_asked s @ [req]\<rparr>))"

text \<open>The \<^verbatim>\<open>select!\<close>: what was sent, nothing when the sender was dropped or the run cancelled; \<open>None\<close> while
  it goes on waiting.\<close>

definition hear :: "nat \<Rightarrow> bool \<Rightarrow> question_service \<Rightarrow> question_outcome option option \<times> question_service" where
  "hear ch cancelled s =
     (if ch \<in> set (qv_closed s) then (None, s)
      else case map_of (qv_sent s) ch of
          Some out \<Rightarrow> (Some (Some out), s\<lparr>qv_closed := ch # qv_closed s\<rparr>)
        | None \<Rightarrow>
            if \<not> list_ex (\<lambda>(i, w). wt_channel w = ch) (qv_waiting s) \<or> cancelled then (Some None, s\<lparr>qv_closed := ch # qv_closed s\<rparr>)
            else (None, s))"

definition unregister_wait :: "string \<Rightarrow> question_service \<Rightarrow> question_service" where
  "unregister_wait i s = s\<lparr>qv_waiting := AList.delete i (qv_waiting s)\<rparr>"

definition pending_questions :: "string \<Rightarrow> question_service \<Rightarrow> question_request list" where
  "pending_questions run s = map wt_request (filter (\<lambda>w. wt_run w = run) (map snd (qv_waiting s)))"

definition resolve_question ::
  "string \<Rightarrow> string \<Rightarrow> (question_request \<Rightarrow> answer_error + question_outcome) \<Rightarrow> question_service \<Rightarrow> (answer_error + unit) \<times> question_service"
where
  "resolve_question run i outcome s = (case map_of (qv_waiting s) i of
     None \<Rightarrow> (Inl NotPending, s)
   | Some w \<Rightarrow>
       if wt_run w \<noteq> run then (Inl NotPending, s)
       else (case outcome (wt_request w) of
           Inl e \<Rightarrow> (Inl e, s)
         | Inr out \<Rightarrow> (Inr (), s\<lparr>qv_waiting := AList.delete i (qv_waiting s),
             qv_sent := (if wt_channel w \<in> set (qv_closed s) then qv_sent s else qv_sent s @ [(wt_channel w, out)])\<rparr>)))"

definition answer_question :: "string \<Rightarrow> string \<Rightarrow> question_answer list \<Rightarrow> question_service \<Rightarrow> (answer_error + unit) \<times> question_service" where
  "answer_question run i answers = resolve_question run i
     (\<lambda>req. rbind (checked_answers req answers) (\<lambda>as. Inr (Answered as)))"

definition skip_question :: "string \<Rightarrow> string \<Rightarrow> question_service \<Rightarrow> (answer_error + unit) \<times> question_service" where
  "skip_question run i = resolve_question run i (\<lambda>_. Inr Skipped)"

datatype question_op =
    QuAsk question_request
  | QuHear nat bool
  | QuLeave string
  | QuAnswer string string "question_answer list"
  | QuSkip string string

definition question_step :: "question_op \<Rightarrow> question_service \<Rightarrow> question_service" where
  "question_step cmd s = (case cmd of
     QuAsk req \<Rightarrow> snd (register_wait req s)
   | QuHear ch cancelled \<Rightarrow> snd (hear ch cancelled s)
   | QuLeave i \<Rightarrow> unregister_wait i s
   | QuAnswer run i answers \<Rightarrow> snd (answer_question run i answers s)
   | QuSkip run i \<Rightarrow> snd (skip_question run i s))"

definition question_run :: "question_op list \<Rightarrow> question_service" where
  "question_run cmds = fold question_step cmds question_service_new"

text \<open>A channel belongs to one request, hears at most once, and hears what fits that request.\<close>

definition outcome_fits :: "question_request \<Rightarrow> question_outcome \<Rightarrow> bool" where
  "outcome_fits req out \<longleftrightarrow> (case out of Skipped \<Rightarrow> True
     | Answered as \<Rightarrow> \<exists>answers. checked_answers req answers = Inr as)"

definition service_ok :: "question_service \<Rightarrow> bool" where
  "service_ok s \<longleftrightarrow>
     (\<forall>(i, w) \<in> set (qv_waiting s). wt_channel w < length (qv_asked s) \<and> qv_asked s ! wt_channel w = wt_request w
        \<and> wt_run w = qr_run_id (wt_request w) \<and> qr_id (wt_request w) = i \<and> wt_channel w \<notin> fst ` set (qv_sent s))
     \<and> distinct (map fst (qv_waiting s)) \<and> distinct (map (\<lambda>(i, w). wt_channel w) (qv_waiting s))
     \<and> (\<forall>(ch, out) \<in> set (qv_sent s). ch < length (qv_asked s) \<and> outcome_fits (qv_asked s ! ch) out)
     \<and> distinct (map fst (qv_sent s))"

lemma set_alist_update: "set (AList.update k v m) \<subseteq> insert (k, v) (set m)"
  by (induction m) auto

lemma set_alist_delete: "set (AList.delete k m) \<subseteq> set m"
  by (simp add: AList.delete_eq set_filter Collect_mono_iff subset_iff)

lemma update_channels:
  assumes "distinct (map (\<lambda>(i, w). wt_channel w) m)" "\<forall>(i, w) \<in> set m. wt_channel w < wt_channel v"
  shows "distinct (map (\<lambda>(i, w). wt_channel w) (AList.update k v m))"
  using assms by (induction m) (auto dest!: subsetD [OF set_alist_update])

lemma service_new_ok: "service_ok question_service_new"
  by (simp add: service_ok_def question_service_new_def)

lemma ask_ok: "service_ok s \<Longrightarrow> service_ok (snd (register_wait req s))"
  unfolding service_ok_def register_wait_def Let_def
  by (auto simp: distinct_update nth_append intro!: update_channels dest!: subsetD [OF set_alist_update])

lemma leave_ok: "service_ok s \<Longrightarrow> service_ok (unregister_wait i s)"
  unfolding service_ok_def unregister_wait_def
  by (auto simp: distinct_delete AList.delete_eq distinct_map_filter_keep)

lemma hear_ok: "service_ok s \<Longrightarrow> service_ok (snd (hear ch c s))"
  by (auto simp: service_ok_def hear_def split: option.split)

lemma resolve_ok:
  assumes ok: "service_ok s" and fits: "\<And>req out. outcome req = Inr out \<Longrightarrow> outcome_fits req out"
  shows "service_ok (snd (resolve_question run i outcome s))"
proof (cases "map_of (qv_waiting s) i")
  case (Some w)
  show ?thesis
  proof (cases "wt_run w = run")
    case True
    show ?thesis
    proof (cases "outcome (wt_request w)")
      case (Inr out)
      have w: "(i, w) \<in> set (qv_waiting s)" using Some by (rule map_of_SomeD)
      have other: "wt_channel v \<noteq> wt_channel w" if "(j, v) \<in> set (AList.delete i (qv_waiting s))" for j v
      proof
        assume "wt_channel v = wt_channel w"
        moreover have "(j, v) \<in> set (qv_waiting s)" "j \<noteq> i" using that by (auto simp: AList.delete_eq)
        ultimately show False using ok w by (auto simp: service_ok_def distinct_map inj_on_def)
      qed
      have "service_ok (s\<lparr>qv_waiting := AList.delete i (qv_waiting s), qv_sent := qv_sent s @ [(wt_channel w, out)]\<rparr>)"
        using ok w other fits [OF Inr] unfolding service_ok_def
        by (auto simp: distinct_delete AList.delete_eq distinct_map_filter_keep)
      moreover have "service_ok (s\<lparr>qv_waiting := AList.delete i (qv_waiting s)\<rparr>)"
        using leave_ok [OF ok] by (simp add: unregister_wait_def)
      ultimately show ?thesis using Some True Inr by (auto simp: resolve_question_def)
    qed (use ok Some True in \<open>simp add: resolve_question_def\<close>)
  qed (use ok Some in \<open>simp add: resolve_question_def\<close>)
qed (use ok in \<open>simp add: resolve_question_def\<close>)

lemma question_run_ok: "service_ok (question_run cmds)"
proof (induction cmds rule: rev_induct)
  case Nil
  then show ?case by (simp add: question_run_def service_new_ok)
next
  case (snoc cmd cmds)
  have "service_ok (question_step cmd (question_run cmds))"
    using snoc ask_ok hear_ok leave_ok
    by (cases cmd) (auto simp: question_step_def answer_question_def skip_question_def outcome_fits_def rbind_Inr_iff intro!: resolve_ok, blast)
  then show ?case by (simp add: question_run_def)
qed

text \<open>C24: what a run hears on its question is a skip or the checked form of answers that fit the very request
  it asked, whatever requests, answers and cancellations come in between.\<close>

theorem heard_answers_fit:
  "hear ch cancelled (question_run cmds) = (Some (Some (Answered as)), s') \<Longrightarrow>
     \<exists>answers. answers_fit (qv_asked (question_run cmds) ! ch) answers \<and> checked_answers (qv_asked (question_run cmds) ! ch) answers = Inr as"
proof -
  assume h: "hear ch cancelled (question_run cmds) = (Some (Some (Answered as)), s')"
  then have "map_of (qv_sent (question_run cmds)) ch = Some (Answered as)" by (auto simp: hear_def split: if_splits option.splits)
  then have "(ch, Answered as) \<in> set (qv_sent (question_run cmds))" by (rule map_of_SomeD)
  with question_run_ok [of cmds] have "outcome_fits (qv_asked (question_run cmds) ! ch) (Answered as)" by (auto simp: service_ok_def)
  then obtain answers where "checked_answers (qv_asked (question_run cmds) ! ch) answers = Inr as" by (auto simp: outcome_fits_def)
  with checked_answers_iff show ?thesis by blast
qed

definition sample_request :: question_request where
  "sample_request = \<lparr>qr_id = ''q'', qr_run_id = ''r'', qr_conversation_id = None,
     qr_questions = [\<lparr>q_id = ''1'', q_title = ''?'', q_kind = QuestionText, q_options = [], q_allow_other = False\<rparr>]\<rparr>"

definition sample_answer :: question_answer where
  "sample_answer = \<lparr>qa_question_id = ''1'', qa_selected = [], qa_text = Some '' yes ''\<rparr>"

lemma sample_hears:
  "hear 0 True (question_run [QuAsk sample_request, QuAnswer ''r'' ''q'' [sample_answer]])
     = (Some (Some (Answered [sample_answer\<lparr>qa_text := Some ''yes''\<rparr>])),
        (question_run [QuAsk sample_request, QuAnswer ''r'' ''q'' [sample_answer]])\<lparr>qv_closed := [0]\<rparr>)"
  by code_simp

lemma heard_answers_fit_witness:
  "\<exists>answers. answers_fit (qv_asked (question_run [QuAsk sample_request, QuAnswer ''r'' ''q'' [sample_answer]]) ! 0) answers"
  using heard_answers_fit [OF sample_hears] by blast

end
