(* ===== verification/FileText.thy ===== *)
theory FileText
  imports Utf8
begin

text \<open>
  How the file tools read and write a text file, \<^verbatim>\<open>files/text.rs\<close> of the host: a file is text when it
  has no NUL among its first bytes and is UTF-8; its byte order mark and its kind of line end are kept
  aside as its format, the text itself has plain line feeds. The encoder of UTF-8 and the replacements
  of \<^verbatim>\<open>str\<close> stand here as well; the hash of a content (the crate \<^verbatim>\<open>sha2\<close>) is a parameter where it is used.

  The two round trips say what the description of \<^verbatim>\<open>fs.apply\<close> promises (``line endings and BOM are
  preserved''): \<open>written_text_reads_back\<close> from text to bytes and back, and \<open>encode_decode\<close> from bytes to
  text and back, which holds exactly for files without a lone line feed among carriage returns.
\<close>

subsection \<open>Encoding UTF-8\<close>

definition scalar :: "nat \<Rightarrow> bool" where
  "scalar c \<longleftrightarrow> c < 55296 \<or> (57344 \<le> c \<and> c < 1114112)"

definition char_bytes :: "nat \<Rightarrow> nat list" where
  "char_bytes c =
     (if c < 128 then [c]
      else if c < 2048 then [192 + c div 64, 128 + c mod 64]
      else if c < 65536 then [224 + c div 4096, 128 + c div 64 mod 64, 128 + c mod 64]
      else [240 + c div 262144, 128 + c div 4096 mod 64, 128 + c div 64 mod 64, 128 + c mod 64])"

definition as_bytes :: "utext \<Rightarrow> byte list" where
  "as_bytes t = map of_nat (concat (map char_bytes t))"

lemma as_bytes_simps [simp]: "as_bytes [] = []" "as_bytes (c # t) = map of_nat (char_bytes c) @ as_bytes t"
  "as_bytes (s @ t) = as_bytes s @ as_bytes t"
  by (simp_all add: as_bytes_def)

lemma utf8_at_char_bytes:
  assumes "scalar c"
  shows "utf8_at (char_bytes c @ r) = UChar c (length (char_bytes c))"
proof -
  consider "c < 128" | "128 \<le> c" "c < 2048" | "2048 \<le> c" "c < 65536" | "65536 \<le> c" "c < 1114112"
    using assms by (fastforce simp: scalar_def)
  then show ?thesis
  proof cases
    case 2
    then have "194 \<le> 192 + c div 64" "192 + c div 64 \<le> 223" by auto
    with 2 show ?thesis by (simp add: char_bytes_def char_width_def second_ok_def continues_def)
  next
    case 3
    define q where "q = c div 64"
    have c: "c = q * 64 + c mod 64" "c mod 64 < 64" by (simp_all add: q_def)
    have q: "q div 64 * 64 + q mod 64 = q" "q mod 64 < 64" by simp_all
    have d: "c div 4096 = q div 64" by (simp add: q_def div_mult2_eq [of c 64 64, simplified])
    have "q div 64 \<le> 15" "32 \<le> q" using 3 by (auto simp: q_def)
    moreover have "q div 64 = 13 \<Longrightarrow> q mod 64 \<le> 31" using assms c q 3 by (auto simp: scalar_def)
    moreover have "q div 64 = 0 \<Longrightarrow> 32 \<le> q mod 64" using \<open>32 \<le> q\<close> q by simp
    moreover have "q div 64 * 4096 + q mod 64 * 64 + c mod 64 = c" using c q by linarith
    ultimately show ?thesis using 3 unfolding char_bytes_def d q_def [symmetric]
      by (auto simp: char_width_def second_ok_def continues_def)
  next
    case 4
    define p where "p = c div 64"
    define q where "q = p div 64"
    have c: "c = p * 64 + c mod 64" "p = q * 64 + p mod 64" "q = q div 64 * 64 + q mod 64" by (simp_all add: p_def q_def)
    have d: "c div 4096 = q" "c div 262144 = q div 64"
      by (simp_all add: p_def q_def div_mult2_eq [of c 64 64, simplified] div_mult2_eq [of c 64 4096, simplified]
          div_mult2_eq [of "c div 64" 64 64, simplified])
    have "q \<le> 271" "16 \<le> q" using 4 by (auto simp flip: d(1))
    moreover have "q div 64 \<le> 4" using \<open>q \<le> 271\<close> by simp
    moreover have "q div 64 = 4 \<Longrightarrow> q mod 64 \<le> 15" "q div 64 = 0 \<Longrightarrow> 16 \<le> q mod 64" using \<open>q \<le> 271\<close> \<open>16 \<le> q\<close> c(3) by linarith+
    moreover have "q div 64 * 262144 + q mod 64 * 4096 + p mod 64 * 64 + c mod 64 = c" using c by linarith
    ultimately show ?thesis using 4 unfolding char_bytes_def d p_def [symmetric]
      by (auto simp: char_width_def second_ok_def continues_def)
  qed (simp add: char_bytes_def)
qed

lemma char_bytes_bound: "scalar c \<Longrightarrow> \<forall>b \<in> set (char_bytes c). b < 256"
  by (auto simp: char_bytes_def scalar_def)

lemma utf8_step_as_bytes: "scalar c \<Longrightarrow> utf8_step (as_bytes (c # t)) = UChar c (length (char_bytes c))"
proof -
  assume s: "scalar c"
  have "map unat (map of_nat (char_bytes c) :: byte list) = char_bytes c"
    using char_bytes_bound [OF s] by (auto intro!: map_idI simp: unat_of_nat)
  then show ?thesis using utf8_at_char_bytes [OF s] by (simp add: utf8_step_def)
qed

lemma from_utf8_as_bytes: "list_all scalar t \<Longrightarrow> from_utf8 (as_bytes t) = (t, [], None)"
proof (induction t)
  case Nil
  then show ?case by (simp add: from_utf8.simps)
next
  case (Cons c t)
  then show ?case by (subst from_utf8.simps) (simp add: utf8_step_as_bytes del: as_bytes_simps(2), simp)
qed

text \<open>Conversely, what is read as a character is its encoding.\<close>

lemma offset: "lo \<le> a \<Longrightarrow> a \<le> hi \<Longrightarrow> \<exists>x. a = lo + x \<and> x \<le> hi - lo" for a :: nat
  by (auto intro: exI [of _ "a - lo"])

lemma low_digit: "r = m * 64 + z \<Longrightarrow> z < 64 \<Longrightarrow> r div 64 = m \<and> r mod 64 = z" for r m z :: nat
  by simp

lemma two_bytes: "2 \<le> x \<Longrightarrow> x < 32 \<Longrightarrow> y < 64 \<Longrightarrow> char_bytes (x * 64 + y) = [192 + x, 128 + y] \<and> scalar (x * 64 + y)"
  by (simp add: char_bytes_def scalar_def)

lemma three_bytes:
  assumes "x < 16" "y < 64" "z < 64" "x = 0 \<Longrightarrow> 32 \<le> y" "x = 13 \<Longrightarrow> y < 32"
  shows "char_bytes (x * 4096 + y * 64 + z) = [224 + x, 128 + y, 128 + z] \<and> scalar (x * 4096 + y * 64 + z)"
proof -
  let ?c = "x * 4096 + y * 64 + z"
  have d: "?c div 64 = x * 64 + y" "?c mod 64 = z" using low_digit [OF _ assms(3), of ?c "x * 64 + y"] by simp_all
  have "?c div 4096 = ?c div 64 div 64" by (simp add: div_mult2_eq [of ?c 64 64, simplified])
  with d have e: "?c div 4096 = x" using assms(2) by simp
  have "2048 \<le> ?c" "?c < 65536" using assms by (cases "x = 0"; simp)+
  moreover have "scalar ?c"
    unfolding scalar_def using assms by (cases "x < 13"; cases "x = 13") auto
  moreover have "?c div 64 mod 64 = y" using d assms(2) by simp
  ultimately show ?thesis using d(2) e unfolding char_bytes_def by simp
qed

lemma four_bytes:
  assumes "w < 5" "x < 64" "y < 64" "z < 64" "w = 0 \<Longrightarrow> 16 \<le> x" "w = 4 \<Longrightarrow> x < 16"
  shows "char_bytes (w * 262144 + x * 4096 + y * 64 + z) = [240 + w, 128 + x, 128 + y, 128 + z]
    \<and> scalar (w * 262144 + x * 4096 + y * 64 + z)"
proof -
  let ?c = "w * 262144 + x * 4096 + y * 64 + z"
  have d: "?c div 64 = w * 4096 + x * 64 + y" "?c mod 64 = z" using low_digit [OF _ assms(4), of ?c "w * 4096 + x * 64 + y"] by simp_all
  have e: "?c div 4096 = w * 64 + x"
    using assms(3) by (simp add: div_mult2_eq [of ?c 64 64, simplified] d)
  have f: "?c div 262144 = w"
    using assms(2) by (simp add: div_mult2_eq [of ?c 4096 64, simplified] e)
  have "65536 \<le> ?c" using assms by (cases "w = 0") auto
  moreover have "?c < 1114112" using assms by (cases "w = 4") auto
  moreover have "?c div 64 mod 64 = y" "?c div 4096 mod 64 = x"
    using d e low_digit [OF _ assms(3), of "?c div 64" "w * 64 + x"] low_digit [OF _ assms(2), of "?c div 4096" w] by simp_all
  ultimately show ?thesis using d(2) f unfolding char_bytes_def scalar_def by simp
qed

lemma utf8_at_char:
  assumes "utf8_at bs = UChar c n"
  shows "take n bs = char_bytes c \<and> scalar c"
proof -
  obtain a r1 where bs: "bs = a # r1" using assms by (cases bs) auto
  show ?thesis
  proof (cases "a < 128")
    case True
    with assms bs show ?thesis by (auto simp: char_bytes_def scalar_def)
  next
    case a: False
    with assms bs obtain b r2 where r1: "r1 = b # r2" and w: "char_width a \<noteq> 0" and so: "second_ok a b"
      by (auto split: list.splits if_splits)
    then obtain y where y: "b = 128 + y" "y < 64" using offset [of 128 b 191] by (auto simp: second_ok_def continues_def)
    consider "char_width a = 2" | "char_width a = 3" | "char_width a = 4" using w by (auto simp: char_width_def split: if_splits)
    then show ?thesis
    proof cases
      case 1
      then obtain x where x: "a = 192 + x" "2 \<le> x" "x < 32" using offset [of 194 a 223] by (auto simp: char_width_def split: if_splits)
      with assms bs r1 a 1 so y two_bytes [OF x(2,3) y(2)] show ?thesis by auto
    next
      case 2
      with assms bs r1 a so obtain d r3 where r2: "r2 = d # r3" "continues d" by (auto split: list.splits if_splits)
      then obtain z where z: "d = 128 + z" "z < 64" using offset [of 128 d 191] by (auto simp: continues_def)
      from 2 obtain x where x: "a = 224 + x" "x < 16" using offset [of 224 a 239] by (auto simp: char_width_def split: if_splits)
      have "x = 0 \<Longrightarrow> 32 \<le> y" "x = 13 \<Longrightarrow> y < 32" using so x y by (auto simp: second_ok_def)
      from three_bytes [OF x(2) y(2) z(2) this] assms bs r1 r2 a so x y z 2 show ?thesis by auto
    next
      case 3
      with assms bs r1 a so obtain d e r4 where r2: "r2 = d # e # r4" "continues d" "continues e" by (auto split: list.splits if_splits)
      then obtain z v where z: "d = 128 + z" "z < 64" "e = 128 + v" "v < 64"
        using offset [of 128 d 191] offset [of 128 e 191] by (auto simp: continues_def)
      from 3 obtain x where x: "a = 240 + x" "x < 5" using offset [of 240 a 244] by (auto simp: char_width_def split: if_splits)
      have "x = 0 \<Longrightarrow> 16 \<le> y" "x = 4 \<Longrightarrow> y < 16" using so x y by (auto simp: second_ok_def)
      from four_bytes [OF x(2) y(2) z(2,4) this] assms bs r1 r2 a so x y z 3 show ?thesis by auto
    qed
  qed
qed

lemma utf8_step_char: "utf8_step bs = UChar c n \<Longrightarrow> bs = map of_nat (char_bytes c) @ drop n bs \<and> scalar c"
proof -
  assume "utf8_step bs = UChar c n"
  then have t: "take n (map unat bs) = char_bytes c" "scalar c" using utf8_at_char by (auto simp: utf8_step_def)
  have "map of_nat (char_bytes c) = take n bs" by (simp flip: t(1) add: take_map o_def)
  then show ?thesis using t(2) by simp
qed

lemma from_utf8_all: "from_utf8 bs = (t, r, None) \<Longrightarrow> r = []"
proof (induction bs arbitrary: t rule: from_utf8.induct)
  case (1 bs)
  then show ?case by (subst (asm) (2) from_utf8.simps) (auto split: utf8_step.splits prod.splits)
qed

lemma as_bytes_from_utf8: "from_utf8 bs = (t, [], e) \<Longrightarrow> as_bytes t = bs \<and> list_all scalar t"
proof (induction bs arbitrary: t rule: from_utf8.induct)
  case (1 bs)
  show ?case
  proof (cases "utf8_step bs")
    case UEnd
    with 1(2) show ?thesis by (auto simp: from_utf8.simps [of bs] utf8_step_end_iff)
  next
    case (UChar c m)
    with 1(2) obtain t' where t': "from_utf8 (drop m bs) = (t', [], e)" "t = c # t'"
      by (subst (asm) from_utf8.simps) (auto split: prod.splits)
    from 1(1) [OF UChar t'(1)] t'(2) utf8_step_char [OF UChar] show ?thesis by simp
  next
    case (UBad m)
    with 1(2) utf8_step_length [OF disjI2 [OF UBad]] show ?thesis by (subst (asm) from_utf8.simps) auto
  next
    case UMore
    with 1(2) show ?thesis by (subst (asm) from_utf8.simps) auto
  qed
qed

subsection \<open>Replacing\<close>

definition u_starts :: "utext \<Rightarrow> utext \<Rightarrow> bool" where
  "u_starts p s \<longleftrightarrow> take (length p) s = p"

text \<open>\<^verbatim>\<open>str::replace\<close> and \<^verbatim>\<open>str::matches(..).count()\<close>, for a pattern that is not empty.\<close>

fun u_replace :: "utext \<Rightarrow> utext \<Rightarrow> utext \<Rightarrow> utext" where
  "u_replace p r [] = []"
| "u_replace p r (c # cs) =
     (if u_starts p (c # cs) then r @ u_replace p r (drop (length p - 1) cs) else c # u_replace p r cs)"

fun u_matches :: "utext \<Rightarrow> utext \<Rightarrow> nat" where
  "u_matches p [] = 0"
| "u_matches p (c # cs) = (if u_starts p (c # cs) then Suc (u_matches p (drop (length p - 1) cs)) else u_matches p cs)"

text \<open>\<^verbatim>\<open>str::replacen(.., 1)\<close>.\<close>

fun u_replace_first :: "utext \<Rightarrow> utext \<Rightarrow> utext \<Rightarrow> utext" where
  "u_replace_first p r [] = []"
| "u_replace_first p r (c # cs) =
     (if u_starts p (c # cs) then r @ drop (length p) (c # cs) else c # u_replace_first p r cs)"

definition u_contains :: "utext \<Rightarrow> utext \<Rightarrow> bool" where
  "u_contains p s \<longleftrightarrow> u_find p s \<noteq> None"

lemma u_starts_append: "u_starts p s \<longleftrightarrow> (\<exists>r. s = p @ r)"
  unfolding u_starts_def by (metis append_eq_conv_conj append_take_drop_id)

lemma u_matches_0: "p \<noteq> [] \<Longrightarrow> u_matches p s = 0 \<longleftrightarrow> \<not> u_contains p s"
  by (induction s) (auto simp: u_contains_def u_starts_def)

lemma u_contains_append: "u_contains p (a @ p @ b)"
proof (induction a)
  case Nil
  have "take (length p) (p @ b) = p" by simp
  then show ?case by (cases "p @ b") (auto simp: u_contains_def simp del: take_append)
qed (auto simp: u_contains_def)

lemma u_matches_pos: "p \<noteq> [] \<Longrightarrow> u_matches p s \<noteq> 0 \<Longrightarrow> \<exists>a b. s = a @ p @ b \<and> (\<forall>r. u_replace_first p r s = a @ r @ b)"
proof (induction s)
  case (Cons c cs)
  show ?case
  proof (cases "u_starts p (c # cs)")
    case True
    then obtain b where e: "c # cs = p @ b" by (auto simp: u_starts_append)
    then have "drop (length p) (c # cs) = b" by simp
    with True have "u_replace_first p r (c # cs) = r @ b" for r by simp
    with e show ?thesis by (intro exI [of _ "[]"] exI [of _ b]) simp
  next
    case False
    with Cons obtain a b where "cs = a @ p @ b" "\<forall>r. u_replace_first p r cs = a @ r @ b" by auto
    with False show ?thesis by (intro exI [of _ "c # a"] exI [of _ b]) simp
  qed
qed simp

subsection \<open>Text files\<close>

record text_format =
  tf_bom :: bool
  tf_crlf :: bool

datatype decoded = DText utext text_format | DBinary

definition BOM :: "byte list" where "BOM = [0xEF, 0xBB, 0xBF]"
definition BINARY_PROBE :: nat where "BINARY_PROBE = 8192"
definition CRLF :: utext where "CRLF = [13, 10]"

definition normalize_text :: "utext \<Rightarrow> utext" where
  "normalize_text t = u_replace CRLF [10] t"

definition decode_body :: "bool \<Rightarrow> byte list \<Rightarrow> decoded" where
  "decode_body bom body =
     (if 0 \<in> set (take BINARY_PROBE body) then DBinary
      else case from_utf8 body of
          (t, r, None) \<Rightarrow> DText (normalize_text t) \<lparr>tf_bom = bom, tf_crlf = u_contains CRLF t\<rparr>
        | (t, r, Some e) \<Rightarrow> DBinary)"

definition decode_file :: "byte list \<Rightarrow> decoded" where
  "decode_file bytes =
     (if take (length BOM) bytes = BOM then decode_body True (drop (length BOM) bytes) else decode_body False bytes)"

definition encode_file :: "utext \<Rightarrow> text_format \<Rightarrow> byte list" where
  "encode_file t f =
     (if tf_bom f then BOM else []) @ as_bytes (if tf_crlf f then u_replace [10] CRLF t else t)"

definition fresh_format :: "utext \<Rightarrow> text_format" where
  "fresh_format content = \<lparr>tf_bom = False, tf_crlf = u_contains CRLF content\<rparr>"

subsection \<open>Line ends\<close>

lemma normalize_simps [simp]:
  "normalize_text [] = []"
  "normalize_text (13 # 10 # s) = 10 # normalize_text s"
  "c \<noteq> 13 \<Longrightarrow> normalize_text (c # s) = c # normalize_text s"
  "normalize_text [c] = [c]"
  "d \<noteq> 10 \<Longrightarrow> normalize_text (c # d # s) = c # normalize_text (d # s)"
  by (simp_all add: normalize_text_def CRLF_def u_starts_def)

lemma crlf_simps [simp]:
  "u_replace [10] CRLF (c # s) = (if c = 10 then 13 # 10 # u_replace [10] CRLF s else c # u_replace [10] CRLF s)"
  by (simp add: CRLF_def u_starts_def)

declare u_replace.simps(2) [simp del]

lemma contains_crlf_simps [simp]:
  "\<not> u_contains CRLF []"
  "u_contains CRLF (13 # 10 # s)"
  "c \<noteq> 13 \<Longrightarrow> u_contains CRLF (c # s) \<longleftrightarrow> u_contains CRLF s"
  "\<not> u_contains CRLF [c]"
  "d \<noteq> 10 \<Longrightarrow> u_contains CRLF (c # d # s) \<longleftrightarrow> u_contains CRLF (d # s)"
  by (simp_all add: u_contains_def CRLF_def)

lemma line_induct [case_names Nil CRLF CR Other]:
  assumes "P []" "\<And>s. P s \<Longrightarrow> P (13 # 10 # s)" "\<And>s. P s \<Longrightarrow> s = [] \<or> hd s \<noteq> 10 \<Longrightarrow> P (13 # s)"
    "\<And>c s. c \<noteq> 13 \<Longrightarrow> P s \<Longrightarrow> P (c # s)"
  shows "P (s :: utext)"
proof (induction s rule: length_induct)
  case (1 s)
  show ?case
  proof (cases s)
    case (Cons c r)
    show ?thesis
    proof (cases "c = 13")
      case c: True
      show ?thesis
      proof (cases "r = [] \<or> hd r \<noteq> 10")
        case False
        then obtain r' where "r = 10 # r'" by (cases r) auto
        with 1 Cons c assms(2) show ?thesis by simp
      qed (use 1 Cons c assms(3) in simp)
    qed (use 1 Cons assms(4) in simp)
  qed (simp add: assms(1))
qed

lemma normalize_CR: "s = [] \<or> hd s \<noteq> 10 \<Longrightarrow> normalize_text (13 # s) = 13 # normalize_text s"
  by (cases s) auto

lemma contains_CR: "s = [] \<or> hd s \<noteq> 10 \<Longrightarrow> u_contains CRLF (13 # s) \<longleftrightarrow> u_contains CRLF s"
  by (cases s) auto

text \<open>Every line feed ends a line as carriage return and line feed.\<close>

fun crlf_ends :: "bool \<Rightarrow> utext \<Rightarrow> bool" where
  "crlf_ends after_cr [] \<longleftrightarrow> True"
| "crlf_ends after_cr (c # s) \<longleftrightarrow> (c = 10 \<longrightarrow> after_cr) \<and> crlf_ends (c = 13) s"

lemma crlf_ends_CR: "s = [] \<or> hd s \<noteq> 10 \<Longrightarrow> crlf_ends True s = crlf_ends False s"
  by (cases s) auto

lemma normalize_plain: "\<not> u_contains CRLF s \<Longrightarrow> normalize_text s = s"
  by (induction s rule: line_induct) (auto simp: normalize_CR contains_CR)

lemma restore_crlf: "u_replace [10] CRLF (normalize_text s) = s \<longleftrightarrow> crlf_ends False s"
  by (induction s rule: line_induct) (auto simp: normalize_CR crlf_ends_CR)

lemma crlf_head: "u_replace [10] CRLF t = [] \<or> hd (u_replace [10] CRLF t) \<noteq> 10"
  by (cases t) auto

lemma plain_head:
  assumes "s = [] \<or> hd s \<noteq> 10"
  shows "normalize_text (c # s) = c # normalize_text s" "u_contains CRLF (c # s) \<longleftrightarrow> u_contains CRLF s"
  using assms by (cases "c = 13"; simp add: normalize_CR contains_CR)+

lemma normalize_crlf: "normalize_text (u_replace [10] CRLF t) = t"
  by (induction t) (auto simp: plain_head [OF crlf_head])

lemma contains_crlf: "u_contains CRLF (u_replace [10] CRLF t) \<longleftrightarrow> 10 \<in> set t"
  by (induction t) (auto simp: plain_head [OF crlf_head])

lemma scalar_crlf: "list_all scalar t \<Longrightarrow> list_all scalar (u_replace [10] CRLF t)"
  by (induction t) (auto simp: scalar_def)

subsection \<open>Round trips\<close>

lemma BOM_bytes: "BOM = as_bytes [65279]"
  by (simp add: BOM_def char_bytes_def)

lemma starts_with_BOM:
  assumes "list_all scalar t"
  shows "take (length BOM) (as_bytes t) = BOM \<longleftrightarrow> t \<noteq> [] \<and> hd t = 65279"
proof (cases t)
  case (Cons c t')
  have s: "utf8_step (as_bytes t) = UChar c (length (char_bytes c))" using assms Cons by (simp add: utf8_step_as_bytes del: as_bytes_simps)
  show ?thesis
  proof
    assume "take (length BOM) (as_bytes t) = BOM"
    then obtain r where "as_bytes t = BOM @ r" by (metis append_take_drop_id)
    moreover have "utf8_step BOM = UChar 65279 3" using utf8_step_as_bytes [of 65279 "[]"] by (simp add: BOM_bytes scalar_def char_bytes_def)
    ultimately have "utf8_step (as_bytes t) = UChar 65279 3" by (simp add: utf8_step_stable)
    with s Cons show "t \<noteq> [] \<and> hd t = 65279" by simp
  next
    assume "t \<noteq> [] \<and> hd t = 65279"
    with Cons have "as_bytes t = BOM @ as_bytes t'" by (simp add: BOM_bytes)
    then show "take (length BOM) (as_bytes t) = BOM" by simp
  qed
qed (simp add: BOM_def)

lemma decode_body_bytes:
  "list_all scalar t \<Longrightarrow> 0 \<notin> set (take BINARY_PROBE (as_bytes t))
    \<Longrightarrow> decode_body bom (as_bytes t) = DText (normalize_text t) \<lparr>tf_bom = bom, tf_crlf = u_contains CRLF t\<rparr>"
  by (simp add: decode_body_def from_utf8_as_bytes)

text \<open>A text that is written reads back as itself, in its format; only a text without a line end forgets
  which kind it would have had.\<close>

lemma written_text_reads_back:
  assumes "list_all scalar t" "tf_crlf f \<or> \<not> u_contains CRLF t" "tf_bom f \<or> t = [] \<or> hd t \<noteq> 65279"
    and "0 \<notin> set (take BINARY_PROBE (as_bytes (if tf_crlf f then u_replace [10] CRLF t else t)))"
  shows "decode_file (encode_file t f) = DText t (f\<lparr>tf_crlf := tf_crlf f \<and> 10 \<in> set t\<rparr>)"
proof -
  let ?body = "if tf_crlf f then u_replace [10] CRLF t else t"
  have b: "list_all scalar ?body" using assms(1) by (simp add: scalar_crlf)
  have h: "?body \<noteq> [] \<and> hd ?body = 65279 \<longleftrightarrow> t \<noteq> [] \<and> hd t = 65279" by (cases t) auto
  have d: "decode_body bom (as_bytes ?body) = DText t \<lparr>tf_bom = bom, tf_crlf = tf_crlf f \<and> 10 \<in> set t\<rparr>" for bom
    using decode_body_bytes [OF b assms(4), of bom] assms(2) by (auto simp: normalize_crlf contains_crlf normalize_plain)
  show ?thesis
  proof (cases "tf_bom f")
    case True
    then have "encode_file t f = BOM @ as_bytes ?body" by (simp add: encode_file_def)
    then show ?thesis using True d [of True] by (cases f) (simp add: decode_file_def)
  next
    case False
    then have e: "encode_file t f = as_bytes ?body" by (simp add: encode_file_def)
    have "take (length BOM) (as_bytes ?body) \<noteq> BOM" using starts_with_BOM [OF b] h assms(3) False by blast
    then show ?thesis using False d [of False] unfolding e by (cases f) (simp add: decode_file_def)
  qed
qed

definition body_text :: "byte list \<Rightarrow> utext" where
  "body_text bs = fst (from_utf8 (if take (length BOM) bs = BOM then drop (length BOM) bs else bs))"

lemma decode_body_Text:
  "decode_body bom body = DText t f \<Longrightarrow> as_bytes (fst (from_utf8 body)) = body \<and> list_all scalar (fst (from_utf8 body))
    \<and> t = normalize_text (fst (from_utf8 body)) \<and> f = \<lparr>tf_bom = bom, tf_crlf = u_contains CRLF (fst (from_utf8 body))\<rparr>"
proof -
  assume h: "decode_body bom body = DText t f"
  obtain u r e where u: "from_utf8 body = (u, r, e)" by (cases "from_utf8 body")
  with h have e: "e = None" by (auto simp: decode_body_def split: if_splits option.splits)
  with u have "r = []" by (metis from_utf8_all)
  with u e h show ?thesis using as_bytes_from_utf8 [of body u e] by (auto simp: decode_body_def split: if_splits)
qed

lemma decode_file_Text:
  assumes "decode_file bs = DText t f"
  shows "t = normalize_text (body_text bs)" "tf_crlf f \<longleftrightarrow> u_contains CRLF (body_text bs)" "list_all scalar (body_text bs)"
    "bs = (if tf_bom f then BOM else []) @ as_bytes (body_text bs)"
proof -
  note d = decode_body_Text [of _ _ t f]
  have "t = normalize_text (body_text bs) \<and> (tf_crlf f \<longleftrightarrow> u_contains CRLF (body_text bs)) \<and> list_all scalar (body_text bs)
      \<and> bs = (if tf_bom f then BOM else []) @ as_bytes (body_text bs)"
  proof (cases "take (length BOM) bs = BOM")
    case True
    with assms have h: "decode_body True (drop (length BOM) bs) = DText t f" by (simp add: decode_file_def)
    have "bs = BOM @ drop (length BOM) bs" using True by (metis append_take_drop_id)
    with d [OF h] True show ?thesis by (simp add: body_text_def)
  next
    case False
    with assms have h: "decode_body False bs = DText t f" by (simp add: decode_file_def)
    with d [OF h] False show ?thesis by (simp add: body_text_def)
  qed
  then show "t = normalize_text (body_text bs)" "tf_crlf f \<longleftrightarrow> u_contains CRLF (body_text bs)" "list_all scalar (body_text bs)"
    "bs = (if tf_bom f then BOM else []) @ as_bytes (body_text bs)" by blast+
qed

lemma as_bytes_inj: "list_all scalar s \<Longrightarrow> list_all scalar t \<Longrightarrow> as_bytes s = as_bytes t \<longleftrightarrow> s = t"
  by (metis from_utf8_as_bytes fst_conv)

lemma scalar_normalize: "list_all scalar s \<Longrightarrow> list_all scalar (normalize_text s)"
  by (induction s rule: line_induct) (auto simp: normalize_CR scalar_def)

text \<open>C26: writing a file back as it was read gives its very bytes exactly when its line ends are all of
  one kind: a file with carriage returns at some line feeds and not at others has them at all of them
  after any change, and after a mere move.\<close>

theorem line_ends_and_mark_are_kept:
  assumes "decode_file bs = DText t f"
  shows "encode_file t f = bs \<longleftrightarrow> \<not> u_contains CRLF (body_text bs) \<or> crlf_ends False (body_text bs)"
proof -
  note d = decode_file_Text [OF assms]
  let ?written = "if tf_crlf f then u_replace [10] CRLF t else t"
  have w: "list_all scalar ?written" using d(1,3) by (simp add: scalar_crlf scalar_normalize)
  have "encode_file t f = bs \<longleftrightarrow> as_bytes ?written = as_bytes (body_text bs)"
    unfolding encode_file_def by (metis d(4) same_append_eq)
  also have "\<dots> \<longleftrightarrow> ?written = body_text bs" using w d(3) by (rule as_bytes_inj)
  also have "\<dots> \<longleftrightarrow> \<not> u_contains CRLF (body_text bs) \<or> crlf_ends False (body_text bs)"
    using d(1,2) normalize_plain by (auto simp: restore_crlf)
  finally show ?thesis .
qed

theorem line_ends_and_mark_are_kept_witness:
  "encode_file [97, 10, 98, 10] \<lparr>tf_bom = True, tf_crlf = True\<rparr> \<noteq> BOM @ as_bytes [97, 13, 10, 98, 10]"
proof -
  let ?bs = "BOM @ as_bytes [97, 13, 10, 98, 10]"
  have f: "from_utf8 (as_bytes [97, 13, 10, 98, 10]) = ([97, 13, 10, 98, 10], [], None)"
    by (rule from_utf8_as_bytes) (simp add: scalar_def)
  have d: "decode_file ?bs = DText [97, 10, 98, 10] \<lparr>tf_bom = True, tf_crlf = True\<rparr>"
    by (simp add: decode_file_def decode_body_def f del: as_bytes_simps) (simp add: char_bytes_def BINARY_PROBE_def)
  have "body_text ?bs = [97, 13, 10, 98, 10]" by (simp add: body_text_def f del: as_bytes_simps)
  with line_ends_and_mark_are_kept [OF d] show ?thesis by simp
qed

end
