(* ===== verification/LineDiff.thy ===== *)
theory LineDiff
  imports FileText "HOL-Library.Sublist"
begin

text \<open>
  The line diff the file tools show for confirmation, \<^verbatim>\<open>files/diff.rs\<close> of the host: what two texts have
  in common at their start and end is set aside, the middle is aligned by a table of longest common
  subsequences (or, above \<open>LCS_CELLS\<close> cells, replaced as a whole), and the changes are printed in hunks
  with their context.

  \<open>edit_script\<close> says what an alignment is; \<open>shown_diff_is_a_shortest_script\<close> is the contract: the operations
  are one, of the least number of added and removed lines whenever the middle is small enough for the
  table. The entries of the table stay below the number of rows, so that \<^verbatim>\<open>u32\<close> does not overflow for
  tables of at most \<open>LCS_CELLS\<close> cells; they are natural numbers here.
\<close>

definition CONTEXT_LINES :: nat where "CONTEXT_LINES = 3"
definition LCS_CELLS :: nat where "LCS_CELLS = 4000000"

record line_diff =
  ld_added :: nat
  ld_removed :: nat
  ld_text :: utext
  ld_truncated :: bool

datatype diff_op = OpEqual nat nat | OpDelete nat | OpInsert nat

definition split_lines :: "utext \<Rightarrow> utext list" where
  "split_lines t = (if t = [] then [] else if last t = 10 then butlast (u_split 10 t) else u_split 10 t)"

subsection \<open>The alignment of the middle\<close>

fun lcs_row :: "'a \<Rightarrow> 'a list \<Rightarrow> nat list \<Rightarrow> nat list" where
  "lcs_row b [] below = [0]"
| "lcs_row b (a # as) below =
     (let rest = lcs_row b as (tl below) in
      (if b = a then hd (tl below) + 1 else max (hd below) (hd rest)) # rest)"

fun lcs_table :: "'a list \<Rightarrow> 'a list \<Rightarrow> nat list list" where
  "lcs_table [] after = [replicate (Suc (length after)) 0]"
| "lcs_table (b # bs) after = (let rest = lcs_table bs after in lcs_row b after (hd rest) # rest)"

function diff_walk :: "'a list \<Rightarrow> 'a list \<Rightarrow> nat \<times> nat \<Rightarrow> nat list list \<Rightarrow> nat \<Rightarrow> nat \<Rightarrow> diff_op list" where
  "diff_walk before after offset table row column =
     (if row < length before \<and> column < length after then
        if before ! row = after ! column then
          OpEqual (fst offset + row) (snd offset + column) # diff_walk before after offset table (Suc row) (Suc column)
        else if table ! row ! Suc column \<le> table ! Suc row ! column then
          OpDelete (fst offset + row) # diff_walk before after offset table (Suc row) column
        else OpInsert (snd offset + column) # diff_walk before after offset table row (Suc column)
      else map (\<lambda>r. OpDelete (fst offset + r)) [row..<length before]
         @ map (\<lambda>c. OpInsert (snd offset + c)) [column..<length after])"
  by pat_completeness auto
termination
  by (relation "measure (\<lambda>(before, after, offset, table, row, column). (length before - row) + (length after - column))") auto

declare diff_walk.simps [simp del]

definition diff_middle :: "'a list \<Rightarrow> 'a list \<Rightarrow> nat \<times> nat \<Rightarrow> diff_op list" where
  "diff_middle before after offset =
     (if before = [] \<or> after = [] \<or> LCS_CELLS < length before * length after then
        map (\<lambda>r. OpDelete (fst offset + r)) [0..<length before] @ map (\<lambda>c. OpInsert (snd offset + c)) [0..<length after]
      else diff_walk before after offset (lcs_table before after) 0 0)"

definition common_start :: "'a list \<Rightarrow> 'a list \<Rightarrow> nat" where
  "common_start before after = length (takeWhile (\<lambda>(l, r). l = r) (zip before after))"

definition diff_operations :: "'a list \<Rightarrow> 'a list \<Rightarrow> diff_op list" where
  "diff_operations before after =
     (let prefix = common_start before after;
          suffix = common_start (rev (drop prefix before)) (rev (drop prefix after)) in
      map (\<lambda>i. OpEqual i i) [0..<prefix]
      @ diff_middle (take (length before - suffix - prefix) (drop prefix before))
          (take (length after - suffix - prefix) (drop prefix after)) (prefix, prefix)
      @ map (\<lambda>i. OpEqual (length before - suffix + i) (length after - suffix + i)) [0..<suffix])"

subsection \<open>Hunks and their text\<close>

definition is_change :: "diff_op \<Rightarrow> bool" where
  "is_change x \<longleftrightarrow> (case x of OpEqual _ _ \<Rightarrow> False | _ \<Rightarrow> True)"

definition is_insert :: "diff_op \<Rightarrow> bool" where
  "is_insert x \<longleftrightarrow> (case x of OpInsert _ \<Rightarrow> True | _ \<Rightarrow> False)"

definition is_delete :: "diff_op \<Rightarrow> bool" where
  "is_delete x \<longleftrightarrow> (case x of OpDelete _ \<Rightarrow> True | _ \<Rightarrow> False)"

text \<open>\<^verbatim>\<open>old_seen\<close> and \<^verbatim>\<open>new_seen\<close> at an operation: the old and new lines before it.\<close>

definition old_seen :: "diff_op list \<Rightarrow> nat \<Rightarrow> nat" where
  "old_seen ops i = length (filter (\<lambda>x. \<not> is_insert x) (take i ops))"

definition new_seen :: "diff_op list \<Rightarrow> nat \<Rightarrow> nat" where
  "new_seen ops i = length (filter (\<lambda>x. \<not> is_delete x) (take i ops))"

definition changed_ops :: "diff_op list \<Rightarrow> nat list" where
  "changed_ops ops = filter (\<lambda>i. is_change (ops ! i)) [0..<length ops]"

text \<open>The changes that belong to one hunk, from the first one on, and the rest.\<close>

fun hunk_changes :: "nat \<Rightarrow> nat list \<Rightarrow> nat list \<times> nat list" where
  "hunk_changes c [] = ([c], [])"
| "hunk_changes c (d # ds) =
     (if d - c \<le> 2 * CONTEXT_LINES then (case hunk_changes d ds of (hs, rest) \<Rightarrow> (c # hs, rest)) else ([c], d # ds))"

lemma hunk_changes_append: "hunk_changes c ds = (hs, rest) \<Longrightarrow> hs @ rest = c # ds \<and> hs \<noteq> []"
  by (induction c ds arbitrary: hs rule: hunk_changes.induct) (auto split: if_splits prod.splits)

lemma hunk_changes_rest [termination_simp]: "(hs, rest) = hunk_changes c ds \<Longrightarrow> length rest < Suc (length ds)"
  using hunk_changes_append [of c ds hs rest] by (cases hs) (auto dest: arg_cong [of _ _ length])

fun hunks :: "nat list \<Rightarrow> (nat \<times> nat) list" where
  "hunks [] = []"
| "hunks (c # ds) = (case hunk_changes c ds of (hs, rest) \<Rightarrow> (hd hs, last hs) # hunks rest)"

definition hunk_range :: "nat \<Rightarrow> nat \<times> nat \<Rightarrow> nat \<times> nat" where
  "hunk_range n h = (fst h - CONTEXT_LINES, min (snd h + CONTEXT_LINES + 1) n)"

definition u_decimal :: "nat \<Rightarrow> utext" where
  "u_decimal n = map of_char (decimal n)"

definition diff_range :: "nat \<Rightarrow> nat \<Rightarrow> utext" where
  "diff_range start count = u_decimal (if count = 0 then start else start + 1) @ [44] @ u_decimal count"

definition op_line :: "utext list \<Rightarrow> utext list \<Rightarrow> diff_op \<Rightarrow> utext" where
  "op_line old new x = (case x of
     OpEqual i _ \<Rightarrow> 32 # old ! i | OpDelete i \<Rightarrow> 45 # old ! i | OpInsert j \<Rightarrow> 43 # new ! j) @ [10]"

definition hunk_text :: "utext list \<Rightarrow> utext list \<Rightarrow> diff_op list \<Rightarrow> nat \<times> nat \<Rightarrow> utext" where
  "hunk_text old new ops r = (case r of (start, stop) \<Rightarrow>
     [64, 64, 32, 45] @ diff_range (old_seen ops start) (old_seen ops stop - old_seen ops start)
     @ [32, 43] @ diff_range (new_seen ops start) (new_seen ops stop - new_seen ops start) @ [32, 64, 64, 10]
     @ concat (map (op_line old new) (take (stop - start) (drop start ops))))"

text \<open>\<^verbatim>\<open>js_slice\<close>: the longest prefix of at most so many UTF-16 units.\<close>

definition utf16_width :: "nat \<Rightarrow> nat" where
  "utf16_width c = (if c < 65536 then 1 else 2)"

fun u_js_slice :: "utext \<Rightarrow> nat \<Rightarrow> utext" where
  "u_js_slice [] units = []"
| "u_js_slice (c # cs) units = (if utf16_width c \<le> units then c # u_js_slice cs (units - utf16_width c) else [])"

definition diff_lines :: "utext \<Rightarrow> utext \<Rightarrow> nat \<Rightarrow> line_diff" where
  "diff_lines before after limit =
     (let old = split_lines before; new = split_lines after; ops = diff_operations old new;
          t = concat (map (\<lambda>h. hunk_text old new ops (hunk_range (length ops) h)) (hunks (changed_ops ops)));
          sliced = u_js_slice t limit in
      \<lparr>ld_added = length (filter is_insert ops), ld_removed = length (filter is_delete ops),
       ld_text = sliced, ld_truncated = (length sliced < length t)\<rparr>)"

subsection \<open>Longest common subsequences\<close>

fun lcs :: "'a list \<Rightarrow> 'a list \<Rightarrow> nat" where
  "lcs [] bs = 0"
| "lcs (a # as) [] = 0"
| "lcs (a # as) (b # bs) = (if a = b then Suc (lcs as bs) else max (lcs as (b # bs)) (lcs (a # as) bs))"

fun tails :: "'a list \<Rightarrow> 'a list list" where
  "tails [] = [[]]"
| "tails (a # as) = (a # as) # tails as"

lemma lcs_Nil [simp]: "lcs as [] = 0"
  by (cases as) auto

lemma tails_nth: "i \<le> length xs \<Longrightarrow> tails xs ! i = drop i xs"
  by (induction xs arbitrary: i) (auto simp: nth_Cons' drop_Cons')

lemma tails_simps [simp]: "length (tails xs) = Suc (length xs)" "hd (tails xs) = xs" "tails xs \<noteq> []"
  by (induction xs) auto

lemma lcs_row_tails: "lcs_row b after (map (lcs bs) (tails after)) = map (lcs (b # bs)) (tails after)"
  by (induction after) (auto simp: Let_def hd_map max.commute)

lemma lcs_table_tails: "lcs_table before after = map (\<lambda>x. map (lcs x) (tails after)) (tails before)"
proof (induction before)
  case Nil
  have "replicate (Suc n) (0 :: nat) = map (lcs []) (tails after)" if "n = length after" for n
    using that by (auto intro!: nth_equalityI simp del: replicate.simps)
  then show ?case by (simp del: replicate.simps)
next
  case (Cons b bs)
  then show ?case by (simp add: Let_def hd_map lcs_row_tails)
qed

lemma lcs_table_nth:
  "r \<le> length before \<Longrightarrow> c \<le> length after \<Longrightarrow> lcs_table before after ! r ! c = lcs (drop r before) (drop c after)"
  by (simp add: lcs_table_tails tails_nth)

lemma lcs_sound: "\<exists>z. subseq z as \<and> subseq z bs \<and> length z = lcs as bs"
proof (induction as bs rule: lcs.induct)
  case (3 a as b bs)
  show ?case
  proof (cases "a = b")
    case True
    with 3(1) obtain z where "subseq z as" "subseq z bs" "length z = lcs as bs" by blast
    with True show ?thesis by (intro exI [of _ "a # z"]) simp
  next
    case False
    with 3(2,3) show ?thesis by (auto simp: max_def intro: subseq_Cons')
  qed
qed auto

lemma lcs_max: "subseq z as \<Longrightarrow> subseq z bs \<Longrightarrow> length z \<le> lcs as bs"
proof (induction as bs arbitrary: z rule: lcs.induct)
  case (3 a as b bs)
  show ?case
  proof (cases z)
    case (Cons c z')
    show ?thesis
    proof (cases "a = b")
      case True
      with 3(1) [of z'] 3(1) [of z] 3(4,5) Cons show ?thesis by (cases "c = a") (auto split: if_splits)
    next
      case False
      with 3(2,3) [of z] 3(4,5) Cons show ?thesis by (auto split: if_splits simp: max_def)
    qed
  qed simp
qed auto

lemma lcs_le: "(\<And>z. subseq z as \<Longrightarrow> subseq z bs \<Longrightarrow> length z \<le> n) \<Longrightarrow> lcs as bs \<le> n"
  by (metis lcs_sound)

lemma subseq_back: "subseq xs ys \<Longrightarrow> subseq (rev xs) (rev ys)"
  by (induction rule: list_emb.induct) (auto intro: subseq_rev_drop_many list_emb_append_mono)

lemma lcs_rev: "lcs (rev as) (rev bs) = lcs as bs"
proof -
  have le: "lcs (rev xs) (rev ys) \<le> lcs xs ys" for xs ys :: "'a list"
  proof (rule lcs_le)
    fix z assume "subseq z (rev xs)" "subseq z (rev ys)"
    then have "subseq (rev z) xs" "subseq (rev z) ys" by (metis subseq_back rev_rev_ident)+
    then show "length z \<le> lcs xs ys" using lcs_max by fastforce
  qed
  from le [of as bs] le [of "rev as" "rev bs"] show ?thesis by simp
qed

lemma lcs_prefix: "lcs (p @ as) (p @ bs) = length p + lcs as bs"
  by (induction p) auto

lemma lcs_suffix: "lcs (as @ s) (bs @ s) = length s + lcs as bs"
  using lcs_prefix [of "rev s" "rev as" "rev bs"] lcs_rev [of "as @ s" "bs @ s"] by (simp add: lcs_rev)

subsection \<open>Alignments\<close>

text \<open>Where a list of operations leads from line \<open>i\<close> of the old and line \<open>j\<close> of the new text, each
  operation taking the next lines.\<close>

fun edit_run :: "'a list \<Rightarrow> 'a list \<Rightarrow> nat \<Rightarrow> nat \<Rightarrow> diff_op list \<Rightarrow> (nat \<times> nat) option" where
  "edit_run old new i j [] = Some (i, j)"
| "edit_run old new i j (OpEqual a b # ops) =
     (if a = i \<and> b = j \<and> i < length old \<and> j < length new \<and> old ! i = new ! j then edit_run old new (Suc i) (Suc j) ops else None)"
| "edit_run old new i j (OpDelete a # ops) = (if a = i \<and> i < length old then edit_run old new (Suc i) j ops else None)"
| "edit_run old new i j (OpInsert b # ops) = (if b = j \<and> j < length new then edit_run old new i (Suc j) ops else None)"

definition edit_script :: "'a list \<Rightarrow> 'a list \<Rightarrow> diff_op list \<Rightarrow> bool" where
  "edit_script old new ops \<longleftrightarrow> edit_run old new 0 0 ops = Some (length old, length new)"

definition kept :: "diff_op list \<Rightarrow> nat" where
  "kept ops = length (filter (\<lambda>x. \<not> is_change x) ops)"

definition changes_of :: "diff_op list \<Rightarrow> nat" where
  "changes_of ops = length (filter is_change ops)"

lemma op_kinds [simp]:
  "is_change (OpDelete i)" "is_change (OpInsert j)" "\<not> is_change (OpEqual i j)"
  "is_delete (OpDelete i)" "\<not> is_delete (OpInsert j)" "\<not> is_delete (OpEqual i j)"
  "\<not> is_insert (OpDelete i)" "is_insert (OpInsert j)" "\<not> is_insert (OpEqual i j)"
  by (simp_all add: is_change_def is_delete_def is_insert_def)

lemma kept_simps [simp]: "kept [] = 0" "kept (x # ops) = (if is_change x then kept ops else Suc (kept ops))" "kept (xs @ ys) = kept xs + kept ys"
  by (simp_all add: kept_def)

lemma edit_run_append:
  "edit_run old new i j (xs @ ys) = (case edit_run old new i j xs of None \<Rightarrow> None | Some (i', j') \<Rightarrow> edit_run old new i' j' ys)"
  by (induction old new i j xs rule: edit_run.induct) auto

lemma run_equals:
  assumes "i + n \<le> length old" "j + n \<le> length new" "\<forall>k < n. old ! (i + k) = new ! (j + k)"
  shows "edit_run old new i j (map (\<lambda>k. OpEqual (i + k) (j + k)) [0..<n]) = Some (i + n, j + n)"
  using assms by (induction n) (auto simp: edit_run_append)

lemma run_deletes:
  "from' \<le> n \<Longrightarrow> i + n \<le> length old \<Longrightarrow> edit_run old new (i + from') j (map (\<lambda>k. OpDelete (i + k)) [from'..<n]) = Some (i + n, j)"
  by (induction n) (auto simp: edit_run_append le_Suc_eq)

lemma run_inserts:
  "from' \<le> n \<Longrightarrow> j + n \<le> length new \<Longrightarrow> edit_run old new i (j + from') (map (\<lambda>k. OpInsert (j + k)) [from'..<n]) = Some (i, j + n)"
  by (induction n) (auto simp: edit_run_append le_Suc_eq)

lemma kept_map [simp]: "kept (map (\<lambda>k. OpEqual (f k) (g k)) xs) = length xs" "kept (map (\<lambda>k. OpDelete (f k)) xs) = 0"
  "kept (map (\<lambda>k. OpInsert (f k)) xs) = 0"
  by (induction xs) auto

text \<open>An alignment keeps a common subsequence, and the lines of both texts are all told.\<close>

lemma script_kept_le: "edit_run old new i j ops = Some (length old, length new) \<Longrightarrow> kept ops \<le> lcs (drop i old) (drop j new)"
proof -
  assume "edit_run old new i j ops = Some (length old, length new)"
  then have "\<exists>z. subseq z (drop i old) \<and> subseq z (drop j new) \<and> length z = kept ops"
  proof (induction old new i j ops rule: edit_run.induct)
    case (2 old new i j a b ops)
    then obtain z where "subseq z (drop (Suc i) old)" "subseq z (drop (Suc j) new)" "length z = kept ops" by (auto split: if_splits)
    with 2(2) show ?case
      by (intro exI [of _ "old ! i # z"]) (auto simp: Cons_nth_drop_Suc [symmetric] split: if_splits)
  next
    case (3 old new i j a ops)
    then show ?case by (auto simp: Cons_nth_drop_Suc [symmetric] split: if_splits intro: subseq_Cons')
  next
    case (4 old new i j b ops)
    then show ?case by (auto simp: Cons_nth_drop_Suc [symmetric] split: if_splits intro: subseq_Cons')
  qed auto
  then show ?thesis using lcs_max by fastforce
qed

lemma script_counts:
  "edit_run old new i j ops = Some (i', j') \<Longrightarrow> i + kept ops + length (filter is_delete ops) = i' \<and> j + kept ops + length (filter is_insert ops) = j'"
  by (induction old new i j ops rule: edit_run.induct) (auto split: if_splits)

lemma changes_split: "changes_of ops = length (filter is_insert ops) + length (filter is_delete ops)"
proof -
  have "is_change x = (is_insert x \<or> is_delete x)" "\<not> (is_insert x \<and> is_delete x)" for x by (cases x; simp)+
  then show ?thesis by (induction ops) (auto simp: changes_of_def)
qed

subsection \<open>What is computed is one\<close>

lemma diff_walk_end:
  "\<not> (row < length before \<and> column < length after) \<Longrightarrow> diff_walk before after offset table row column
     = map (\<lambda>r. OpDelete (fst offset + r)) [row..<length before] @ map (\<lambda>c. OpInsert (snd offset + c)) [column..<length after]"
  by (subst diff_walk.simps) (simp only: if_False)

lemma diff_walk_run:
  "r \<le> length before \<Longrightarrow> c \<le> length after \<Longrightarrow>
     edit_run (p @ before @ s) (p' @ after @ s') (length p + r) (length p' + c) (diff_walk before after (length p, length p') table r c)
       = Some (length p + length before, length p' + length after)"
proof (induction before after "(length p, length p')" table r c rule: diff_walk.induct)
  case (1 before after table r c)
  show ?case
  proof (cases "r < length before \<and> c < length after")
    case True
    consider (same) "before ! r = after ! c" | (gone) "before ! r \<noteq> after ! c" "table ! r ! Suc c \<le> table ! Suc r ! c"
      | (new) "before ! r \<noteq> after ! c" "\<not> table ! r ! Suc c \<le> table ! Suc r ! c" by blast
    then show ?thesis
    proof cases
      case same
      with 1(1) [OF True same] True show ?thesis by (subst diff_walk.simps) (simp add: nth_append)
    next
      case gone
      with 1(2) [OF True gone] True show ?thesis by (subst diff_walk.simps) (simp add: nth_append)
    next
      case new
      with 1(3) [OF True new] True show ?thesis by (subst diff_walk.simps) (simp add: nth_append)
    qed
  next
    case False
    have "edit_run (p @ before @ s) (p' @ after @ s') (length p + length before) (length p' + c)
        (map (\<lambda>c. OpInsert (length p' + c)) [c..<length after]) = Some (length p + length before, length p' + length after)"
      using run_inserts [of c "length after" "length p'" "p' @ after @ s'" "p @ before @ s" "length p + length before"] 1(5) by simp
    with 1(4) show ?thesis unfolding diff_walk_end [OF False]
      using run_deletes [of r "length before" "length p" "p @ before @ s" "p' @ after @ s'" "length p' + c"]
      by (simp add: edit_run_append)
  qed
qed

lemma diff_walk_kept:
  "r \<le> length before \<Longrightarrow> c \<le> length after \<Longrightarrow>
     kept (diff_walk before after offset (lcs_table before after) r c) = lcs (drop r before) (drop c after)"
proof (induction before after offset "lcs_table before after" r c rule: diff_walk.induct)
  case (1 before after offset r c)
  show ?case
  proof (cases "r < length before \<and> c < length after")
    case True
    then have d: "drop r before = before ! r # drop (Suc r) before" "drop c after = after ! c # drop (Suc c) after"
      by (simp_all add: Cons_nth_drop_Suc)
    have t: "lcs_table before after ! r ! Suc c = lcs (drop r before) (drop (Suc c) after)"
      "lcs_table before after ! Suc r ! c = lcs (drop (Suc r) before) (drop c after)"
      using True by (simp_all add: lcs_table_nth less_eq_Suc_le)
    consider (same) "before ! r = after ! c" | (gone) "before ! r \<noteq> after ! c" "lcs_table before after ! r ! Suc c \<le> lcs_table before after ! Suc r ! c"
      | (new) "before ! r \<noteq> after ! c" "\<not> lcs_table before after ! r ! Suc c \<le> lcs_table before after ! Suc r ! c" by blast
    then show ?thesis
    proof cases
      case same
      with 1(1) [OF True same] True d show ?thesis by (subst diff_walk.simps) simp
    next
      case gone
      then have "lcs (drop r before) (drop c after) = lcs (drop (Suc r) before) (drop c after)"
        unfolding t using gone(1) by (simp add: d max_def)
      with 1(2) [OF True gone] gone True show ?thesis by (subst diff_walk.simps) simp
    next
      case new
      then have "lcs (drop r before) (drop c after) = lcs (drop r before) (drop (Suc c) after)"
        unfolding t using new(1) by (simp add: d max_def)
      with 1(3) [OF True new] new True show ?thesis by (subst diff_walk.simps) simp
    qed
  next
    case False
    then have "lcs (drop r before) (drop c after) = 0" by (metis drop_all lcs.simps(1) lcs_Nil not_le)
    then show ?thesis by (simp add: diff_walk_end [OF False])
  qed
qed

definition middle_fits :: "'a list \<Rightarrow> 'a list \<Rightarrow> bool" where
  "middle_fits before after \<longleftrightarrow> length before * length after \<le> LCS_CELLS"

lemma diff_middle_run:
  "edit_run (p @ before @ s) (p' @ after @ s') (length p) (length p') (diff_middle before after (length p, length p'))
     = Some (length p + length before, length p' + length after)"
  using diff_walk_run [of 0 before 0 after p s p' s' "lcs_table before after"]
    run_deletes [of 0 "length before" "length p" "p @ before @ s" "p' @ after @ s'" "length p'"]
    run_inserts [of 0 "length after" "length p'" "p' @ after @ s'" "p @ before @ s" "length p + length before"]
  by (simp add: diff_middle_def edit_run_append)

lemma diff_middle_kept: "middle_fits before after \<Longrightarrow> kept (diff_middle before after offset) = lcs before after"
  using diff_walk_kept [of 0 before 0 after offset] by (auto simp: diff_middle_def middle_fits_def)

text \<open>The two texts as their common start, their middles and their common end.\<close>

lemma common_start_split:
  "take (common_start xs ys) xs = take (common_start xs ys) ys \<and> common_start xs ys \<le> length xs \<and> common_start xs ys \<le> length ys"
proof (induction xs arbitrary: ys)
  case (Cons x xs)
  then show ?case by (cases ys) (auto simp: common_start_def)
qed (simp add: common_start_def)

definition middle_small :: "'a list \<Rightarrow> 'a list \<Rightarrow> bool" where
  "middle_small old new \<longleftrightarrow>
     (let prefix = common_start old new; suffix = common_start (rev (drop prefix old)) (rev (drop prefix new)) in
      (length old - suffix - prefix) * (length new - suffix - prefix) \<le> LCS_CELLS)"

lemma diff_parts:
  obtains p old' new' s where "old = p @ old' @ s" "new = p @ new' @ s"
    "diff_operations old new = map (\<lambda>i. OpEqual i i) [0..<length p] @ diff_middle old' new' (length p, length p)
      @ map (\<lambda>i. OpEqual (length p + length old' + i) (length p + length new' + i)) [0..<length s]"
    "middle_small old new \<longleftrightarrow> middle_fits old' new'"
proof -
  define n where "n = common_start old new"
  let ?o = "drop n old" and ?w = "drop n new"
  define m where "m = common_start (rev ?o) (rev ?w)"
  have n: "take n old = take n new" "n \<le> length old" "n \<le> length new" using common_start_split [of old new] by (simp_all add: n_def)
  have m: "take m (rev ?o) = take m (rev ?w)" "m \<le> length ?o" "m \<le> length ?w" using common_start_split [of "rev ?o" "rev ?w"] by (simp_all add: m_def)
  define p where "p = take n old"
  define s where "s = drop (length ?o - m) ?o"
  define old' where "old' = take (length ?o - m) ?o"
  define new' where "new' = take (length ?w - m) ?w"
  have s: "s = drop (length ?w - m) ?w" "length s = m" using m by (simp_all add: s_def take_rev)
  have o: "old' @ s = ?o" unfolding old'_def s_def by (rule append_take_drop_id)
  have w: "new' @ s = ?w" unfolding new'_def s(1) by (rule append_take_drop_id)
  from o have "old = p @ old' @ s" by (simp add: p_def)
  moreover from w have "new = p @ new' @ s" using n(1) by (simp add: p_def)
  moreover have "length p = n" "length p + length old' = length old - m" "length p + length new' = length new - m"
    using n m by (simp_all add: p_def old'_def new'_def)
  moreover have "old' = take (length old - m - n) ?o" "new' = take (length new - m - n) ?w"
    by (simp_all add: old'_def new'_def add.commute)
  moreover have "middle_small old new \<longleftrightarrow> middle_fits old' new'"
    using n m by (simp add: middle_small_def middle_fits_def Let_def old'_def new'_def add.commute flip: n_def m_def)
  ultimately show thesis
    using that [of p old' s new'] by (simp add: diff_operations_def Let_def flip: n_def m_def s(2))
qed

lemma diff_operations_run: "edit_run old new 0 0 (diff_operations old new) = Some (length old, length new)"
proof (rule diff_parts [of old new])
  fix p old' s new'
  assume e: "old = p @ old' @ s" "new = p @ new' @ s"
    "diff_operations old new = map (\<lambda>i. OpEqual i i) [0..<length p] @ diff_middle old' new' (length p, length p)
      @ map (\<lambda>i. OpEqual (length p + length old' + i) (length p + length new' + i)) [0..<length s]"
  have "edit_run old new 0 0 (map (\<lambda>i. OpEqual i i) [0..<length p]) = Some (length p, length p)"
    using run_equals [of 0 "length p" old 0 new] by (simp add: e(1,2) nth_append)
  moreover have "edit_run old new (length p) (length p) (diff_middle old' new' (length p, length p))
      = Some (length p + length old', length p + length new')"
    unfolding e(1,2) by (rule diff_middle_run)
  moreover have "edit_run old new (length p + length old') (length p + length new')
      (map (\<lambda>i. OpEqual (length p + length old' + i) (length p + length new' + i)) [0..<length s]) = Some (length old, length new)"
    using run_equals [of "length p + length old'" "length s" old "length p + length new'" new] by (simp add: e(1,2) nth_append add.assoc)
  ultimately show ?thesis by (simp add: e(3) edit_run_append)
qed

lemma diff_operations_kept: "middle_small old new \<Longrightarrow> kept (diff_operations old new) = lcs old new"
  by (rule diff_parts [of old new]) (simp add: diff_middle_kept lcs_prefix lcs_suffix)

text \<open>The two texts are both told by the operations: what is kept or added, in order, is the new text, and
  what is kept or removed the old one. \<open>op_line\<close> prints the old line for a kept one, which is the new one.\<close>

lemma script_tells:
  "edit_run old new i j ops = Some (length old, length new) \<Longrightarrow>
     concat (map (\<lambda>x. tl (op_line old new x)) (filter (\<lambda>x. \<not> is_delete x) ops)) = concat (map (\<lambda>l. l @ [10]) (drop j new))
   \<and> concat (map (\<lambda>x. tl (op_line old new x)) (filter (\<lambda>x. \<not> is_insert x) ops)) = concat (map (\<lambda>l. l @ [10]) (drop i old))"
  by (induction old new i j ops rule: edit_run.induct)
     (auto simp: op_line_def Cons_nth_drop_Suc [symmetric] split: if_splits)

text \<open>C27: the diff shown for a change aligns the two texts: what it keeps and adds, read in order, is the new
  text, what it keeps and removes the old one, the counts shown are those of the changed lines, and no
  alignment changes fewer lines (as long as the middle fits the table).\<close>

theorem shown_diff_is_a_shortest_script:
  "edit_script old new (diff_operations old new)
   \<and> concat (map (\<lambda>x. tl (op_line old new x)) (filter (\<lambda>x. \<not> is_delete x) (diff_operations old new))) = concat (map (\<lambda>l. l @ [10]) new)
   \<and> concat (map (\<lambda>x. tl (op_line old new x)) (filter (\<lambda>x. \<not> is_insert x) (diff_operations old new))) = concat (map (\<lambda>l. l @ [10]) old)
   \<and> (middle_small old new \<longrightarrow> (\<forall>ops. edit_script old new ops \<longrightarrow> changes_of (diff_operations old new) \<le> changes_of ops))"
proof -
  note r = diff_operations_run [of old new]
  have "changes_of (diff_operations old new) \<le> changes_of ops" if "middle_small old new" "edit_script old new ops" for ops
  proof -
    have o: "edit_run old new 0 0 ops = Some (length old, length new)" using that(2) by (simp add: edit_script_def)
    have "kept ops \<le> kept (diff_operations old new)" using script_kept_le [OF o] diff_operations_kept [OF that(1)] by simp
    with script_counts [OF o] script_counts [OF r] show ?thesis by (simp add: changes_split)
  qed
  with r script_tells [OF r] show ?thesis by (simp add: edit_script_def)
qed


lemma shown_diff_is_a_shortest_script_witness:
  "changes_of (diff_operations [[97], [98]] [[98 :: nat]]) \<le> changes_of [OpDelete 0, OpDelete 1, OpInsert 0]"
proof -
  have "middle_small [[97], [98]] [[98 :: nat]]"
    by (simp add: middle_small_def common_start_def LCS_CELLS_def)
  moreover have "edit_script [[97], [98]] [[98 :: nat]] [OpDelete 0, OpDelete 1, OpInsert 0]" by (simp add: edit_script_def)
  ultimately show ?thesis using shown_diff_is_a_shortest_script [of "[[97], [98]]" "[[98]]"] by blast
qed

subsection \<open>The hunks show every change once\<close>

definition changes_in :: "diff_op list \<Rightarrow> nat \<times> nat \<Rightarrow> nat list" where
  "changes_in ops r = filter (\<lambda>i. is_change (ops ! i)) [fst r..<snd r]"

lemma hunk_changes_split:
  assumes "hunk_changes c ds = (hs, rest)" "sorted_wrt (<) (c # ds)"
  shows "c # ds = hs @ rest \<and> hs \<noteq> [] \<and> hd hs = c \<and> (rest \<noteq> [] \<longrightarrow> last hs + 2 * CONTEXT_LINES < hd rest)"
  using assms
proof (induction c ds arbitrary: hs rule: hunk_changes.induct)
  case (2 c d ds)
  then show ?case by (auto split: if_splits prod.splits)
qed auto

lemma filter_upt_eq:
  assumes "sorted_wrt (<) hs" "\<forall>i. a \<le> i \<and> i < b \<and> P i \<longleftrightarrow> i \<in> set hs"
  shows "filter P [a..<b] = hs"
proof (rule sorted_distinct_set_unique)
  show "sorted hs" "distinct hs" using assms(1) by (auto simp: strict_sorted_iff)
  show "set (filter P [a..<b]) = set hs" using assms(2) by auto
  show "sorted (filter P [a..<b])" "distinct (filter P [a..<b])" by (auto intro: sorted_wrt_filter)
qed

lemma hunks_show:
  "sorted_wrt (<) cs \<Longrightarrow> \<forall>i. i \<in> set cs \<longrightarrow> i < length ops \<and> is_change (ops ! i)
    \<Longrightarrow> \<forall>i < length ops. is_change (ops ! i) \<and> hd cs \<le> i + CONTEXT_LINES \<longrightarrow> i \<in> set cs
    \<Longrightarrow> concat (map (\<lambda>h. changes_in ops (hunk_range (length ops) h)) (hunks cs)) = cs"
proof (induction cs rule: hunks.induct)
  case (2 c ds)
  obtain hs rest where h: "hunk_changes c ds = (hs, rest)" by (cases "hunk_changes c ds")
  note s = hunk_changes_split [OF h 2(2)]
  have sw: "sorted_wrt (<) hs" "sorted_wrt (<) rest" "\<forall>x \<in> set hs. \<forall>y \<in> set rest. x < y"
    using s 2(2) by (metis sorted_wrt_append)+
  have last: "x \<in> set hs \<Longrightarrow> x \<le> last hs" for x
    using sw(1) by (induction hs) (auto simp: less_imp_le dest: order_less_le_trans)
  have first: "x \<in> set rest \<Longrightarrow> hd rest \<le> x" for x using sw(2) by (cases rest) auto
  have gap: "x \<in> set rest \<Longrightarrow> last hs + 2 * CONTEXT_LINES < x" for x
    using s first by (cases rest) (auto dest: order_less_le_trans)
  have cx: "0 < CONTEXT_LINES" by (simp add: CONTEXT_LINES_def)
  have "changes_in ops (hunk_range (length ops) (hd hs, last hs)) = hs"
    unfolding changes_in_def
  proof (rule filter_upt_eq [OF sw(1)], intro allI iffI)
    fix i assume i: "i \<in> set hs"
    then have m: "i \<in> set (c # ds)" using s by (metis Un_iff set_append)
    then have "c \<le> i" "i < length ops" "is_change (ops ! i)" using 2(2,3) by auto
    with i last [OF i] s show "fst (hunk_range (length ops) (hd hs, last hs)) \<le> i \<and> i < snd (hunk_range (length ops) (hd hs, last hs)) \<and> is_change (ops ! i)"
      by (auto simp: hunk_range_def)
  next
    fix i assume i: "fst (hunk_range (length ops) (hd hs, last hs)) \<le> i \<and> i < snd (hunk_range (length ops) (hd hs, last hs)) \<and> is_change (ops ! i)"
    then have "i \<in> set (c # ds)" using 2(4) s by (auto simp: hunk_range_def)
    then have "i \<in> set hs \<or> i \<in> set rest" using s by (metis Un_iff set_append)
    then show "i \<in> set hs" using gap [of i] i cx by (auto simp: hunk_range_def)
  qed
  moreover have "concat (map (\<lambda>h. changes_in ops (hunk_range (length ops) h)) (hunks rest)) = rest"
  proof (cases "rest = []")
    case ne: False
    show ?thesis
    proof (rule 2(1) [OF h [symmetric] sw(2)])
      show "\<forall>i. i \<in> set rest \<longrightarrow> i < length ops \<and> is_change (ops ! i)" using 2(3) s by (metis Un_iff set_append)
      show "\<forall>i < length ops. is_change (ops ! i) \<and> hd rest \<le> i + CONTEXT_LINES \<longrightarrow> i \<in> set rest"
      proof (intro allI impI)
        fix i assume i: "i < length ops" "is_change (ops ! i) \<and> hd rest \<le> i + CONTEXT_LINES"
        have "c < hd rest" using sw(3) s ne by (metis hd_in_set)
        then have "i \<in> set (c # ds)" using 2(4) i by simp
        then have "i \<in> set hs \<or> i \<in> set rest" using s by (metis Un_iff set_append)
        then show "i \<in> set rest" using last [of i] s ne i by auto
      qed
    qed
  qed simp
  moreover have "hunks (c # ds) = (hd hs, last hs) # hunks rest" using h by simp
  ultimately have "concat (map (\<lambda>h. changes_in ops (hunk_range (length ops) h)) (hunks (c # ds))) = hs @ rest" by simp
  with s show ?case by metis
qed simp

text \<open>What is printed between the headers of the hunks holds every changed line once, in order.\<close>

lemma hunks_show_every_change:
  "concat (map (\<lambda>h. changes_in ops (hunk_range (length ops) h)) (hunks (changed_ops ops))) = changed_ops ops"
proof (rule hunks_show)
  show "sorted_wrt (<) (changed_ops ops)" by (simp add: changed_ops_def sorted_wrt_filter)
qed (auto simp: changed_ops_def)

text \<open>A diff that is not cut has its text whole; one that is cut is within the limit.\<close>

lemma u_js_slice_all: "length (u_js_slice t n) \<le> length t \<and> (length (u_js_slice t n) = length t \<longrightarrow> u_js_slice t n = t)"
  by (induction t n rule: u_js_slice.induct) auto

lemma u_js_slice_units: "sum_list (map utf16_width (u_js_slice t n)) \<le> n"
  by (induction t n rule: u_js_slice.induct) auto

lemma diff_lines_bound: "sum_list (map utf16_width (ld_text (diff_lines before after limit))) \<le> limit"
  by (simp add: diff_lines_def Let_def u_js_slice_units)

end
