(* ===== verification/FilePlan.thy ===== *)
theory FilePlan
  imports LineDiff Contract
begin

text \<open>
  The planning of a batch of file changes, \<^verbatim>\<open>files/plan.rs\<close> of the host. Nothing is written here: an
  overlay over the disk holds what each file would contain, so that every change sees the result of the
  ones before; at the end the files that differ from the disk are listed with their content before and
  after, the changes to be confirmed are told with their diffs, and the files whose earlier content the
  caller must have read are named (\<open>fp_fresh\<close>).

  A path is the list of its names; \<open>path_key\<close> is \<^verbatim>\<open>to_string_lossy().to_lowercase()\<close>, by which files are
  identified. The disk (the trait \<^verbatim>\<open>Disk\<close>) is an argument. \<open>run_changes\<close> is the specification: the changes
  applied one after the other to a plain map from keys to contents.
\<close>

type_synonym path = "string list"
type_synonym path_key = "string list"

definition path_key :: "path \<Rightarrow> path_key" where
  "path_key p = map lower p"

datatype read_error = ReadIsFolder | ReadOther
type_synonym disk = "path \<Rightarrow> read_error + byte list option"

definition FILE_MISSING :: string where "FILE_MISSING = ''FILE_MISSING''"
definition NOT_A_FILE :: string where "NOT_A_FILE = ''NOT_A_FILE''"
definition BINARY_REFUSED :: string where "BINARY_REFUSED = ''BINARY_REFUSED''"
definition EDIT_NOT_FOUND :: string where "EDIT_NOT_FOUND = ''EDIT_NOT_FOUND''"
definition EDIT_AMBIGUOUS :: string where "EDIT_AMBIGUOUS = ''EDIT_AMBIGUOUS''"
definition EDIT_EMPTY :: string where "EDIT_EMPTY = ''EDIT_EMPTY''"
definition MOVE_TARGET_EXISTS :: string where "MOVE_TARGET_EXISTS = ''MOVE_TARGET_EXISTS''"
definition MOVE_SAME :: string where "MOVE_SAME = ''MOVE_SAME''"
definition READ_FAILED :: string where "READ_FAILED = ''READ_FAILED''"
definition FILE_DIFF_MAX :: nat where "FILE_DIFF_MAX = 20000"

record text_edit =
  te_old :: utext
  te_new :: utext

datatype file_change =
    ChWrite path utext
  | ChEdit path "text_edit list"
  | ChMove path path
  | ChDelete path

record planned_file =
  pf_path :: path
  pf_before :: "byte list option"
  pf_after :: "byte list option"

record file_diff_dto =
  fd_path :: path
  fd_from :: "path option"
  fd_kind :: file_change_kind
  fd_added :: nat
  fd_removed :: nat
  fd_diff :: utext
  fd_truncated :: bool

record file_plan =
  fp_files :: "planned_file list"
  fp_changes :: "file_diff_dto list"
  fp_fresh :: "path list"

text \<open>A slot remembers the path its text was read from, as long as that text was not written anew.\<close>

datatype file_slot = SlotAbsent | SlotBinary | SlotText utext text_format "path option"

text \<open>The details of a refusal: the index of the change, the path and, for an edit, its position.\<close>

datatype plan_error = Refused string nat path "nat option"

record overlay =
  ov_stored :: "path_key \<Rightarrow> (path \<times> byte list option) option"
  ov_slots :: "path_key \<Rightarrow> file_slot option"
  ov_order :: "path_key list"
  ov_fresh :: "path_key list"

definition overlay_start :: overlay where
  "overlay_start = \<lparr>ov_stored = Map.empty, ov_slots = Map.empty, ov_order = [], ov_fresh = []\<rparr>"

subsection \<open>The overlay\<close>

definition overlay_stored :: "disk \<Rightarrow> nat \<Rightarrow> path \<Rightarrow> overlay \<Rightarrow> plan_error + byte list option \<times> overlay" where
  "overlay_stored disk index p ov =
     (case ov_stored ov (path_key p) of
        Some (_, bytes) \<Rightarrow> Inr (bytes, ov)
      | None \<Rightarrow> (case disk p of
          Inl e \<Rightarrow> Inl (Refused (if e = ReadIsFolder then NOT_A_FILE else READ_FAILED) index p None)
        | Inr bytes \<Rightarrow> Inr (bytes, ov\<lparr>ov_stored := (ov_stored ov)(path_key p \<mapsto> (p, bytes))\<rparr>)))"

definition slot_of :: "path \<Rightarrow> byte list option \<Rightarrow> file_slot" where
  "slot_of p bytes = (case bytes of
     None \<Rightarrow> SlotAbsent
   | Some bs \<Rightarrow> (case decode_file bs of DBinary \<Rightarrow> SlotBinary | DText t f \<Rightarrow> SlotText t f (Some p)))"

definition overlay_slot :: "disk \<Rightarrow> nat \<Rightarrow> path \<Rightarrow> overlay \<Rightarrow> plan_error + file_slot \<times> overlay" where
  "overlay_slot disk index p ov =
     (case ov_slots ov (path_key p) of
        Some s \<Rightarrow> Inr (s, ov)
      | None \<Rightarrow> rbind (overlay_stored disk index p ov) (\<lambda>(bytes, ov'). Inr (slot_of p bytes, ov')))"

definition overlay_set :: "path \<Rightarrow> file_slot \<Rightarrow> overlay \<Rightarrow> overlay" where
  "overlay_set p s ov =
     ov\<lparr>ov_order := (if path_key p \<in> set (ov_order ov) then ov_order ov else ov_order ov @ [path_key p]),
        ov_slots := (ov_slots ov)(path_key p \<mapsto> s)\<rparr>"

definition overlay_touch :: "path option \<Rightarrow> overlay \<Rightarrow> overlay" where
  "overlay_touch origin ov = (case origin of None \<Rightarrow> ov
     | Some p \<Rightarrow> if path_key p \<in> set (ov_fresh ov) then ov else ov\<lparr>ov_fresh := ov_fresh ov @ [path_key p]\<rparr>)"

fun edits_loop :: "nat \<Rightarrow> path \<Rightarrow> nat \<Rightarrow> text_edit list \<Rightarrow> utext \<Rightarrow> plan_error + utext" where
  "edits_loop index p position [] t = Inr t"
| "edits_loop index p position (e # es) t =
     (let old = normalize_text (te_old e) in
      if old = [] then Inl (Refused EDIT_EMPTY index p (Some position))
      else if u_matches old t = 0 then Inl (Refused EDIT_NOT_FOUND index p (Some position))
      else if u_matches old t = 1 then edits_loop index p (Suc position) es (u_replace_first old (normalize_text (te_new e)) t)
      else Inl (Refused EDIT_AMBIGUOUS index p (Some position)))"

definition overlay_apply :: "disk \<Rightarrow> nat \<Rightarrow> file_change \<Rightarrow> overlay \<Rightarrow> plan_error + overlay" where
  "overlay_apply disk index ch ov = (case ch of
     ChWrite p content \<Rightarrow>
       rbind (overlay_slot disk index p ov) (\<lambda>(s, ov1). case s of
           SlotBinary \<Rightarrow> Inl (Refused BINARY_REFUSED index p None)
         | SlotAbsent \<Rightarrow> Inr (overlay_set p (SlotText (normalize_text content) (fresh_format content) None) ov1)
         | SlotText _ f origin \<Rightarrow> Inr (overlay_set p (SlotText (normalize_text content) f None) (overlay_touch origin ov1)))
   | ChEdit p edits \<Rightarrow>
       rbind (overlay_slot disk index p ov) (\<lambda>(s, ov1). case s of
           SlotAbsent \<Rightarrow> Inl (Refused FILE_MISSING index p None)
         | SlotBinary \<Rightarrow> Inl (Refused BINARY_REFUSED index p None)
         | SlotText t f origin \<Rightarrow> rbind (edits_loop index p 0 edits t) (\<lambda>t'.
             Inr (overlay_set p (SlotText t' f origin) (overlay_touch origin ov1))))
   | ChMove a b \<Rightarrow>
       if path_key a = path_key b then Inl (Refused MOVE_SAME index a None)
       else rbind (overlay_slot disk index a ov) (\<lambda>(s, ov1). case s of
           SlotAbsent \<Rightarrow> Inl (Refused FILE_MISSING index a None)
         | SlotBinary \<Rightarrow> Inl (Refused BINARY_REFUSED index a None)
         | SlotText _ _ _ \<Rightarrow> rbind (overlay_slot disk index b ov1) (\<lambda>(target, ov2).
             if target \<noteq> SlotAbsent then Inl (Refused MOVE_TARGET_EXISTS index b None)
             else Inr (overlay_set a SlotAbsent (overlay_set b s ov2))))
   | ChDelete p \<Rightarrow>
       rbind (overlay_slot disk index p ov) (\<lambda>(s, ov1). case s of
           SlotAbsent \<Rightarrow> Inl (Refused FILE_MISSING index p None)
         | SlotBinary \<Rightarrow> Inl (Refused BINARY_REFUSED index p None)
         | SlotText _ _ origin \<Rightarrow> Inr (overlay_set p SlotAbsent (overlay_touch origin ov1))))"

fun overlay_run :: "disk \<Rightarrow> nat \<Rightarrow> file_change list \<Rightarrow> overlay \<Rightarrow> plan_error + overlay" where
  "overlay_run disk index [] ov = Inr ov"
| "overlay_run disk index (ch # chs) ov = rbind (overlay_apply disk index ch ov) (overlay_run disk (Suc index) chs)"

subsection \<open>The plan\<close>

definition text_of :: "byte list option \<Rightarrow> utext" where
  "text_of bytes = (case map_option decode_file bytes of Some (DText t _) \<Rightarrow> t | _ \<Rightarrow> [])"

definition diff_of :: "path \<Rightarrow> path option \<Rightarrow> file_change_kind \<Rightarrow> utext \<Rightarrow> utext \<Rightarrow> file_diff_dto" where
  "diff_of p origin kind before after =
     (let d = diff_lines before after FILE_DIFF_MAX in
      \<lparr>fd_path = p, fd_from = origin, fd_kind = kind, fd_added = ld_added d, fd_removed = ld_removed d,
       fd_diff = ld_text d, fd_truncated = ld_truncated d\<rparr>)"

text \<open>What an entry of the order comes to: the file, the origin of its text and the text.\<close>

type_synonym final_file = "planned_file \<times> path option \<times> utext option"

definition final_of :: "overlay \<Rightarrow> path_key \<Rightarrow> final_file" where
  "final_of ov k =
     (case (case ov_stored ov k of Some s \<Rightarrow> s | None \<Rightarrow> (k, None)) of (p, before) \<Rightarrow>
      case ov_slots ov k of
        Some (SlotText t f origin) \<Rightarrow> (\<lparr>pf_path = p, pf_before = before, pf_after = Some (encode_file t f)\<rparr>, origin, Some t)
      | _ \<Rightarrow> (\<lparr>pf_path = p, pf_before = before, pf_after = None\<rparr>, None, None))"

definition finals :: "overlay \<Rightarrow> final_file list" where
  "finals ov = filter (\<lambda>(f, _). pf_before f \<noteq> pf_after f) (map (final_of ov) (ov_order ov))"

definition origin_deleted :: "planned_file list \<Rightarrow> path \<Rightarrow> bool" where
  "origin_deleted files origin \<longleftrightarrow>
     list_ex (\<lambda>f. path_key (pf_path f) = path_key origin \<and> pf_before f \<noteq> None \<and> pf_after f = None) files"

definition moved_from :: "planned_file list \<Rightarrow> final_file \<Rightarrow> path option" where
  "moved_from files = (\<lambda>(f, origin, _). case origin of
     Some o' \<Rightarrow> if pf_before f = None \<and> path_key o' \<noteq> path_key (pf_path f) \<and> origin_deleted files o' then Some o' else None
   | None \<Rightarrow> None)"

definition report_of :: "overlay \<Rightarrow> planned_file list \<Rightarrow> final_file \<Rightarrow> file_diff_dto" where
  "report_of ov files = (\<lambda>(f, origin, t).
     let after = (case t of Some t' \<Rightarrow> t' | None \<Rightarrow> []) in
     case moved_from files (f, origin, t) of
       Some o' \<Rightarrow> diff_of (pf_path f) (Some o') ChangeMove (text_of (Option.bind (ov_stored ov (path_key o')) snd)) after
     | None \<Rightarrow> diff_of (pf_path f) None
         (if pf_before f = None then ChangeCreate else if pf_after f = None then ChangeDelete else ChangeModify)
         (text_of (pf_before f)) after)"

definition plan_of :: "overlay \<Rightarrow> file_plan" where
  "plan_of ov =
     (let fs = finals ov; files = map fst fs;
          moved = List.map_filter (\<lambda>e. map_option path_key (moved_from files e)) fs;
          changed = map (\<lambda>f. path_key (pf_path f)) files in
      \<lparr>fp_files = files,
       fp_changes = filter (\<lambda>d. fd_kind d \<noteq> ChangeDelete \<or> path_key (fd_path d) \<notin> set moved) (map (report_of ov files) fs),
       fp_fresh = List.map_filter (\<lambda>k. map_option fst (ov_stored ov k)) (filter (\<lambda>k. k \<in> set changed) (ov_fresh ov))\<rparr>)"

definition plan_changes :: "disk \<Rightarrow> file_change list \<Rightarrow> plan_error + file_plan" where
  "plan_changes disk chs = rbind (overlay_run disk 0 chs overlay_start) (\<lambda>ov. Inr (plan_of ov))"

subsection \<open>The specification: one change after the other\<close>

datatype vfile = VAbsent | VBinary | VText utext text_format
type_synonym vfs = "path_key \<Rightarrow> read_error + vfile"

definition vfile_of :: "byte list option \<Rightarrow> vfile" where
  "vfile_of bytes = (case bytes of None \<Rightarrow> VAbsent
     | Some bs \<Rightarrow> (case decode_file bs of DBinary \<Rightarrow> VBinary | DText t f \<Rightarrow> VText t f))"

definition disk_view :: "disk \<Rightarrow> vfs" where
  "disk_view disk k = (case disk k of Inl e \<Rightarrow> Inl e | Inr bytes \<Rightarrow> Inr (vfile_of bytes))"

definition vread :: "nat \<Rightarrow> path \<Rightarrow> vfs \<Rightarrow> plan_error + vfile" where
  "vread index p v = (case v (path_key p) of
     Inl e \<Rightarrow> Inl (Refused (if e = ReadIsFolder then NOT_A_FILE else READ_FAILED) index p None) | Inr f \<Rightarrow> Inr f)"

definition run_change :: "nat \<Rightarrow> file_change \<Rightarrow> vfs \<Rightarrow> plan_error + vfs" where
  "run_change index ch v = (case ch of
     ChWrite p content \<Rightarrow>
       rbind (vread index p v) (\<lambda>file. case file of
           VBinary \<Rightarrow> Inl (Refused BINARY_REFUSED index p None)
         | VAbsent \<Rightarrow> Inr (v(path_key p := Inr (VText (normalize_text content) (fresh_format content))))
         | VText _ f \<Rightarrow> Inr (v(path_key p := Inr (VText (normalize_text content) f))))
   | ChEdit p edits \<Rightarrow>
       rbind (vread index p v) (\<lambda>file. case file of
           VAbsent \<Rightarrow> Inl (Refused FILE_MISSING index p None)
         | VBinary \<Rightarrow> Inl (Refused BINARY_REFUSED index p None)
         | VText t f \<Rightarrow> rbind (edits_loop index p 0 edits t) (\<lambda>t'. Inr (v(path_key p := Inr (VText t' f)))))
   | ChMove a b \<Rightarrow>
       if path_key a = path_key b then Inl (Refused MOVE_SAME index a None)
       else rbind (vread index a v) (\<lambda>file. case file of
           VAbsent \<Rightarrow> Inl (Refused FILE_MISSING index a None)
         | VBinary \<Rightarrow> Inl (Refused BINARY_REFUSED index a None)
         | VText t f \<Rightarrow> rbind (vread index b v) (\<lambda>target.
             if target \<noteq> VAbsent then Inl (Refused MOVE_TARGET_EXISTS index b None)
             else Inr (v(path_key b := Inr (VText t f), path_key a := Inr VAbsent))))
   | ChDelete p \<Rightarrow>
       rbind (vread index p v) (\<lambda>file. case file of
           VAbsent \<Rightarrow> Inl (Refused FILE_MISSING index p None)
         | VBinary \<Rightarrow> Inl (Refused BINARY_REFUSED index p None)
         | VText _ _ \<Rightarrow> Inr (v(path_key p := Inr VAbsent))))"

fun run_changes :: "nat \<Rightarrow> file_change list \<Rightarrow> vfs \<Rightarrow> plan_error + vfs" where
  "run_changes index [] v = Inr v"
| "run_changes index (ch # chs) v = rbind (run_change index ch v) (run_changes (Suc index) chs)"

definition targets :: "file_change \<Rightarrow> path_key set" where
  "targets ch = (case ch of ChWrite p _ \<Rightarrow> {path_key p} | ChEdit p _ \<Rightarrow> {path_key p}
     | ChMove a b \<Rightarrow> {path_key a, path_key b} | ChDelete p \<Rightarrow> {path_key p})"

text \<open>Files are told apart by the key alone, as on the file systems of Windows.\<close>

definition names_by_key :: "disk \<Rightarrow> bool" where
  "names_by_key disk \<longleftrightarrow> (\<forall>p q. path_key p = path_key q \<longrightarrow> disk p = disk q)"

definition after_plan :: "disk \<Rightarrow> file_plan \<Rightarrow> path \<Rightarrow> byte list option" where
  "after_plan disk pl p = (case List.find (\<lambda>f. path_key (pf_path f) = path_key p) (fp_files pl) of
     Some f \<Rightarrow> pf_after f | None \<Rightarrow> (case disk p of Inr bytes \<Rightarrow> bytes | Inl _ \<Rightarrow> None))"

definition written :: "read_error + vfile \<Rightarrow> byte list option" where
  "written r = (case r of Inr (VText t f) \<Rightarrow> Some (encode_file t f) | _ \<Rightarrow> None)"

subsection \<open>The overlay keeps its books\<close>

lemma path_key_idem [simp]: "path_key (path_key p) = path_key p"
proof -
  have "lower_char (lower_char c) = lower_char c" for c
    by (auto simp: lower_char_def Let_def)
  then have "lower (lower s) = lower s" for s by (simp add: lower_def)
  then show ?thesis by (simp add: path_key_def)
qed

definition ov_sound :: "disk \<Rightarrow> overlay \<Rightarrow> bool" where
  "ov_sound disk ov \<longleftrightarrow>
     (\<forall>k p b. ov_stored ov k = Some (p, b) \<longrightarrow> path_key p = k \<and> disk p = Inr b)
     \<and> distinct (ov_order ov) \<and> set (ov_order ov) = dom (ov_slots ov) \<and> dom (ov_slots ov) \<subseteq> dom (ov_stored ov)
     \<and> (\<forall>k. ov_slots ov k \<noteq> Some SlotBinary)"

lemma ov_sound_start: "ov_sound disk overlay_start"
  by (simp add: ov_sound_def overlay_start_def)

lemma overlay_touch_frame [state_simps]:
  "ov_stored (overlay_touch o' ov) = ov_stored ov" "ov_slots (overlay_touch o' ov) = ov_slots ov" "ov_order (overlay_touch o' ov) = ov_order ov"
  "set (ov_fresh (overlay_touch o' ov)) = set (ov_fresh ov) \<union> path_key ` set_option o'"
  by (auto simp: overlay_touch_def split: option.splits)

lemma overlay_set_sel [state_simps]:
  "ov_stored (overlay_set p s ov) = ov_stored ov" "ov_slots (overlay_set p s ov) = (ov_slots ov)(path_key p \<mapsto> s)"
  "ov_fresh (overlay_set p s ov) = ov_fresh ov" "set (ov_order (overlay_set p s ov)) = insert (path_key p) (set (ov_order ov))"
  "distinct (ov_order (overlay_set p s ov)) = distinct (ov_order ov)"
  by (auto simp: overlay_set_def)

lemma ov_sound_touch [simp]: "ov_sound disk (overlay_touch o' ov) = ov_sound disk ov"
  by (simp add: ov_sound_def state_simps)

lemma ov_sound_set:
  "ov_sound disk ov \<Longrightarrow> path_key p \<in> dom (ov_stored ov) \<Longrightarrow> s \<noteq> SlotBinary \<Longrightarrow> ov_sound disk (overlay_set p s ov)"
  by (simp add: ov_sound_def state_simps)

text \<open>What a slot read for a path is, and the one entry the reading may add.\<close>

lemma overlay_slot_cases:
  assumes "overlay_slot disk index p ov = Inr (s, ov1)"
  obtains "ov_slots ov (path_key p) = Some s" "ov1 = ov"
  | q b where "ov_slots ov (path_key p) = None" "ov_stored ov (path_key p) = Some (q, b)" "s = slot_of p b" "ov1 = ov"
  | b where "ov_slots ov (path_key p) = None" "ov_stored ov (path_key p) = None" "disk p = Inr b" "s = slot_of p b"
      "ov1 = ov\<lparr>ov_stored := (ov_stored ov)(path_key p \<mapsto> (p, b))\<rparr>"
  using assms by (auto simp: overlay_slot_def overlay_stored_def rbind_Inr_iff split: option.splits sum.splits prod.splits)

lemma overlay_slot_frame:
  assumes "overlay_slot disk index p ov = Inr (s, ov1)" "ov_sound disk ov"
  shows "ov_sound disk ov1" "path_key p \<in> dom (ov_stored ov1)" "ov_slots ov1 = ov_slots ov" "ov_order ov1 = ov_order ov"
    "ov_fresh ov1 = ov_fresh ov" "ov_stored ov \<subseteq>\<^sub>m ov_stored ov1"
  using assms(1) by (cases rule: overlay_slot_cases; use assms(2) in \<open>auto simp: ov_sound_def map_le_def split: if_splits\<close>)+

definition file_of :: "file_slot \<Rightarrow> vfile" where
  "file_of s = (case s of SlotAbsent \<Rightarrow> VAbsent | SlotBinary \<Rightarrow> VBinary | SlotText t f _ \<Rightarrow> VText t f)"

definition ov_view :: "disk \<Rightarrow> overlay \<Rightarrow> vfs" where
  "ov_view disk ov k = (case ov_slots ov k of Some s \<Rightarrow> Inr (file_of s) | None \<Rightarrow> disk_view disk k)"

lemma file_of_slot_of: "file_of (slot_of p b) = vfile_of b"
  by (auto simp: file_of_def slot_of_def vfile_of_def split: option.splits decoded.splits)

lemma file_of_iff [simp]:
  "file_of s = VAbsent \<longleftrightarrow> s = SlotAbsent" "file_of s = VBinary \<longleftrightarrow> s = SlotBinary"
  "file_of s = VText t f \<longleftrightarrow> (\<exists>o'. s = SlotText t f o')" "file_of SlotAbsent = VAbsent" "file_of (SlotText t f o') = VText t f"
  by (auto simp: file_of_def split: file_slot.splits)

lemma overlay_slot_view:
  assumes "names_by_key disk" "ov_sound disk ov"
  shows "overlay_slot disk index p ov = Inl e \<longleftrightarrow> vread index p (ov_view disk ov) = Inl e"
    and "overlay_slot disk index p ov = Inr (s, ov1) \<Longrightarrow> vread index p (ov_view disk ov) = Inr (file_of s)"
proof -
  have same: "disk (path_key p) = disk p" using assms(1) path_key_idem unfolding names_by_key_def by blast
  have stored: "disk p = Inr b" if "ov_stored ov (path_key p) = Some (q, b)" for q b
    using that assms unfolding ov_sound_def names_by_key_def by metis
  show "overlay_slot disk index p ov = Inl e \<longleftrightarrow> vread index p (ov_view disk ov) = Inl e"
    using stored by (auto simp: overlay_slot_def overlay_stored_def vread_def ov_view_def disk_view_def same rbind_Inl_iff
        split: option.splits sum.splits prod.splits)
  assume "overlay_slot disk index p ov = Inr (s, ov1)"
  then show "vread index p (ov_view disk ov) = Inr (file_of s)"
  proof (cases rule: overlay_slot_cases)
    case (2 q b)
    with stored show ?thesis by (simp add: vread_def ov_view_def disk_view_def same file_of_slot_of)
  next
    case (3 b)
    then show ?thesis by (simp add: vread_def ov_view_def disk_view_def same file_of_slot_of)
  qed (simp add: vread_def ov_view_def)
qed

lemma ov_view_set: "ov_view disk (overlay_set p s ov) = (ov_view disk ov)(path_key p := Inr (file_of s))"
  by (auto simp: ov_view_def state_simps)

lemma ov_view_cong: "ov_slots ov' = ov_slots ov \<Longrightarrow> ov_view disk ov' = ov_view disk ov"
  by (simp add: ov_view_def fun_eq_iff)

subsection \<open>Refinement\<close>

text \<open>What an operation of the overlay comes to, seen through the view.\<close>

definition refines :: "disk \<Rightarrow> overlay \<Rightarrow> path_key set \<Rightarrow> plan_error + overlay \<Rightarrow> plan_error + vfs \<Rightarrow> bool" where
  "refines disk ov ks r r' \<longleftrightarrow> (case r of
     Inl e \<Rightarrow> r' = Inl e
   | Inr ov' \<Rightarrow> r' = Inr (ov_view disk ov') \<and> ov_sound disk ov' \<and> set (ov_order ov') = set (ov_order ov) \<union> ks)"

lemma refines_Inl [simp]: "refines disk ov ks (Inl e) (Inl e)"
  by (simp add: refines_def)

lemma refines_Inr:
  "ov_sound disk ov' \<Longrightarrow> v = ov_view disk ov' \<Longrightarrow> set (ov_order ov') = set (ov_order ov) \<union> ks \<Longrightarrow> refines disk ov ks (Inr ov') (Inr v)"
  by (simp add: refines_def)

lemma refines_slot:
  assumes "names_by_key disk" "ov_sound disk ov"
    and "\<And>s ov1. overlay_slot disk index p ov = Inr (s, ov1) \<Longrightarrow> refines disk ov ks (f (s, ov1)) (g (file_of s))"
  shows "refines disk ov ks (rbind (overlay_slot disk index p ov) f) (rbind (vread index p (ov_view disk ov)) g)"
proof (cases "overlay_slot disk index p ov")
  case (Inl e)
  then have "vread index p (ov_view disk ov) = Inl e" using overlay_slot_view(1) [OF assms(1,2)] by blast
  with Inl show ?thesis by simp
next
  case (Inr x)
  then obtain s ov1 where "overlay_slot disk index p ov = Inr (s, ov1)" by (cases x) auto
  then show ?thesis using overlay_slot_view(2) [OF assms(1,2)] assms(3) by simp
qed

lemma refines_set:
  assumes "overlay_slot disk index p ov = Inr (s, ov1)" "ov_sound disk ov" "s' \<noteq> SlotBinary" "x = file_of s'"
  shows "refines disk ov {path_key p} (Inr (overlay_set p s' (overlay_touch o' ov1))) (Inr ((ov_view disk ov)(path_key p := Inr x)))"
    and "refines disk ov {path_key p} (Inr (overlay_set p s' ov1)) (Inr ((ov_view disk ov)(path_key p := Inr x)))"
proof -
  note f = overlay_slot_frame [OF assms(1,2)]
  have v: "ov_view disk ov1 = ov_view disk ov" "ov_view disk (overlay_touch o' ov1) = ov_view disk ov"
    by (rule ov_view_cong; simp add: f(3) state_simps)+
  show "refines disk ov {path_key p} (Inr (overlay_set p s' (overlay_touch o' ov1))) (Inr ((ov_view disk ov)(path_key p := Inr x)))"
    using f(1,2) assms(3) by (intro refines_Inr ov_sound_set) (simp_all add: ov_view_set v assms(4) state_simps f(4))
  show "refines disk ov {path_key p} (Inr (overlay_set p s' ov1)) (Inr ((ov_view disk ov)(path_key p := Inr x)))"
    using f(1,2) assms(3) by (intro refines_Inr ov_sound_set) (simp_all add: ov_view_set v assms(4) state_simps f(4))
qed

lemma overlay_apply_refines:
  assumes nk: "names_by_key disk" and ok: "ov_sound disk ov"
  shows "refines disk ov (targets ch) (overlay_apply disk index ch ov) (run_change index ch (ov_view disk ov))"
proof (cases ch)
  case (ChWrite p content)
  show ?thesis unfolding ChWrite overlay_apply_def run_change_def file_change.case
  proof (rule refines_slot [OF nk ok])
    fix s ov1 assume r: "overlay_slot disk index p ov = Inr (s, ov1)"
    show "refines disk ov (targets (ChWrite p content)) (case (s, ov1) of (s, ov1) \<Rightarrow> case s of
           SlotBinary \<Rightarrow> Inl (Refused BINARY_REFUSED index p None)
         | SlotAbsent \<Rightarrow> Inr (overlay_set p (SlotText (normalize_text content) (fresh_format content) None) ov1)
         | SlotText _ f origin \<Rightarrow> Inr (overlay_set p (SlotText (normalize_text content) f None) (overlay_touch origin ov1)))
       (case file_of s of
           VBinary \<Rightarrow> Inl (Refused BINARY_REFUSED index p None)
         | VAbsent \<Rightarrow> Inr ((ov_view disk ov)(path_key p := Inr (VText (normalize_text content) (fresh_format content))))
         | VText _ f \<Rightarrow> Inr ((ov_view disk ov)(path_key p := Inr (VText (normalize_text content) f))))"
      by (cases s) (simp_all add: file_of_def targets_def refines_set [OF r ok])
  qed
next
  case (ChEdit p edits)
  show ?thesis unfolding ChEdit overlay_apply_def run_change_def file_change.case
  proof (rule refines_slot [OF nk ok])
    fix s ov1 assume r: "overlay_slot disk index p ov = Inr (s, ov1)"
    show "refines disk ov (targets (ChEdit p edits)) (case (s, ov1) of (s, ov1) \<Rightarrow> case s of
           SlotAbsent \<Rightarrow> Inl (Refused FILE_MISSING index p None)
         | SlotBinary \<Rightarrow> Inl (Refused BINARY_REFUSED index p None)
         | SlotText t f origin \<Rightarrow> rbind (edits_loop index p 0 edits t) (\<lambda>t'.
             Inr (overlay_set p (SlotText t' f origin) (overlay_touch origin ov1))))
       (case file_of s of
           VAbsent \<Rightarrow> Inl (Refused FILE_MISSING index p None)
         | VBinary \<Rightarrow> Inl (Refused BINARY_REFUSED index p None)
         | VText t f \<Rightarrow> rbind (edits_loop index p 0 edits t) (\<lambda>t'. Inr ((ov_view disk ov)(path_key p := Inr (VText t' f)))))"
    proof (cases s)
      case (SlotText t fm o')
      show ?thesis
        by (cases "edits_loop index p 0 edits t")
           (use SlotText in \<open>simp_all add: file_of_def targets_def refines_set [OF r ok]\<close>)
    qed (auto simp: file_of_def)
  qed
next
  case (ChDelete p)
  show ?thesis unfolding ChDelete overlay_apply_def run_change_def file_change.case
  proof (rule refines_slot [OF nk ok])
    fix s ov1 assume r: "overlay_slot disk index p ov = Inr (s, ov1)"
    show "refines disk ov (targets (ChDelete p)) (case (s, ov1) of (s, ov1) \<Rightarrow> case s of
           SlotAbsent \<Rightarrow> Inl (Refused FILE_MISSING index p None)
         | SlotBinary \<Rightarrow> Inl (Refused BINARY_REFUSED index p None)
         | SlotText _ _ origin \<Rightarrow> Inr (overlay_set p SlotAbsent (overlay_touch origin ov1)))
       (case file_of s of
           VAbsent \<Rightarrow> Inl (Refused FILE_MISSING index p None)
         | VBinary \<Rightarrow> Inl (Refused BINARY_REFUSED index p None)
         | VText _ _ \<Rightarrow> Inr ((ov_view disk ov)(path_key p := Inr VAbsent)))"
      by (cases s) (simp_all add: file_of_def targets_def refines_set [OF r ok])
  qed
next
  case (ChMove a b)
  show ?thesis
  proof (cases "path_key a = path_key b")
    case True
    then show ?thesis by (simp add: ChMove overlay_apply_def run_change_def)
  next
    case ab: False
    show ?thesis unfolding ChMove overlay_apply_def run_change_def file_change.case if_not_P [OF ab]
    proof (rule refines_slot [OF nk ok])
      fix s ov1 assume r: "overlay_slot disk index a ov = Inr (s, ov1)"
      note f = overlay_slot_frame [OF r ok]
      have v: "ov_view disk ov = ov_view disk ov1" by (rule ov_view_cong) (simp add: f(3))
      show "refines disk ov (targets (ChMove a b)) (case (s, ov1) of (s, ov1) \<Rightarrow> case s of
           SlotAbsent \<Rightarrow> Inl (Refused FILE_MISSING index a None)
         | SlotBinary \<Rightarrow> Inl (Refused BINARY_REFUSED index a None)
         | SlotText _ _ _ \<Rightarrow> rbind (overlay_slot disk index b ov1) (\<lambda>(target, ov2).
             if target \<noteq> SlotAbsent then Inl (Refused MOVE_TARGET_EXISTS index b None)
             else Inr (overlay_set a SlotAbsent (overlay_set b s ov2))))
         (case file_of s of
           VAbsent \<Rightarrow> Inl (Refused FILE_MISSING index a None)
         | VBinary \<Rightarrow> Inl (Refused BINARY_REFUSED index a None)
         | VText t f \<Rightarrow> rbind (vread index b (ov_view disk ov)) (\<lambda>target.
             if target \<noteq> VAbsent then Inl (Refused MOVE_TARGET_EXISTS index b None)
             else Inr ((ov_view disk ov)(path_key b := Inr (VText t f), path_key a := Inr VAbsent))))"
      proof (cases s)
        case (SlotText t fm o')
        have "refines disk ov1 (targets (ChMove a b))
            (rbind (overlay_slot disk index b ov1) (\<lambda>(target, ov2).
               if target \<noteq> SlotAbsent then Inl (Refused MOVE_TARGET_EXISTS index b None)
               else Inr (overlay_set a SlotAbsent (overlay_set b s ov2))))
            (rbind (vread index b (ov_view disk ov1)) (\<lambda>target.
               if target \<noteq> VAbsent then Inl (Refused MOVE_TARGET_EXISTS index b None)
               else Inr ((ov_view disk ov1)(path_key b := Inr (VText t fm), path_key a := Inr VAbsent))))"
        proof (rule refines_slot [OF nk f(1)])
          fix s2 ov2 assume r2: "overlay_slot disk index b ov1 = Inr (s2, ov2)"
          note f2 = overlay_slot_frame [OF r2 f(1)]
          have "path_key a \<in> dom (ov_stored ov2)" using f(2) f2(6) by (auto simp: map_le_def dom_def)
          then have "ov_sound disk (overlay_set a SlotAbsent (overlay_set b s ov2))"
            using f2(1,2) SlotText by (intro ov_sound_set) (auto simp: state_simps)
          moreover have "set (ov_order (overlay_set a SlotAbsent (overlay_set b s ov2))) = set (ov_order ov1) \<union> targets (ChMove a b)"
            using f2(4) by (auto simp: state_simps targets_def)
          moreover have "(ov_view disk ov1)(path_key b := Inr (VText t fm), path_key a := Inr VAbsent)
              = ov_view disk (overlay_set a SlotAbsent (overlay_set b s ov2))"
            using ov_view_cong [OF f2(3), of disk] SlotText by (simp add: ov_view_set)
          ultimately show "refines disk ov1 (targets (ChMove a b)) (case (s2, ov2) of (target, ov2) \<Rightarrow>
               if target \<noteq> SlotAbsent then Inl (Refused MOVE_TARGET_EXISTS index b None)
               else Inr (overlay_set a SlotAbsent (overlay_set b s ov2)))
             (if file_of s2 \<noteq> VAbsent then Inl (Refused MOVE_TARGET_EXISTS index b None)
               else Inr ((ov_view disk ov1)(path_key b := Inr (VText t fm), path_key a := Inr VAbsent)))"
            by (simp add: refines_Inr)
        qed
        then have "refines disk ov (targets (ChMove a b))
            (rbind (overlay_slot disk index b ov1) (\<lambda>(target, ov2).
               if target \<noteq> SlotAbsent then Inl (Refused MOVE_TARGET_EXISTS index b None)
               else Inr (overlay_set a SlotAbsent (overlay_set b s ov2))))
            (rbind (vread index b (ov_view disk ov)) (\<lambda>target.
               if target \<noteq> VAbsent then Inl (Refused MOVE_TARGET_EXISTS index b None)
               else Inr ((ov_view disk ov)(path_key b := Inr (VText t fm), path_key a := Inr VAbsent))))"
          unfolding v refines_def f(4) .
        then show ?thesis unfolding SlotText file_of_def by simp
      qed (auto simp: file_of_def)
    qed
  qed
qed

lemma overlay_run_refines:
  "names_by_key disk \<Longrightarrow> ov_sound disk ov \<Longrightarrow>
     refines disk ov (\<Union>ch \<in> set chs. targets ch) (overlay_run disk index chs ov) (run_changes index chs (ov_view disk ov))"
proof (induction chs arbitrary: index ov)
  case Nil
  then show ?case by (simp add: refines_def)
next
  case (Cons ch chs)
  note step = overlay_apply_refines [OF Cons.prems, of ch index]
  show ?case
  proof (cases "overlay_apply disk index ch ov")
    case (Inl e)
    with step show ?thesis by (simp add: refines_def)
  next
    case (Inr ov')
    with step have s: "run_change index ch (ov_view disk ov) = Inr (ov_view disk ov')" "ov_sound disk ov'"
      "set (ov_order ov') = set (ov_order ov) \<union> targets ch" by (simp_all add: refines_def)
    from Cons.IH [OF Cons.prems(1) s(2), of "Suc index"] Inr s show ?thesis
      by (auto simp: refines_def Un_assoc split: sum.splits)
  qed
qed

subsection \<open>The plan carries it out\<close>

lemma final_of_sound:
  assumes "ov_sound disk ov" "k \<in> set (ov_order ov)"
  shows "path_key (pf_path (fst (final_of ov k))) = k" "disk (pf_path (fst (final_of ov k))) = Inr (pf_before (fst (final_of ov k)))"
    "pf_after (fst (final_of ov k)) = written (ov_view disk ov k)"
proof -
  have "k \<in> dom (ov_slots ov)" using assms by (simp add: ov_sound_def)
  then obtain s where s: "ov_slots ov k = Some s" by blast
  moreover have "s \<noteq> SlotBinary" using s assms(1) by (auto simp: ov_sound_def)
  moreover have "k \<in> dom (ov_stored ov)" using \<open>k \<in> dom (ov_slots ov)\<close> assms(1) by (auto simp: ov_sound_def)
  then obtain p b where st: "ov_stored ov k = Some (p, b)" by fastforce
  moreover from st have "path_key p = k" "disk p = Inr b" using assms(1) by (auto simp: ov_sound_def)
  ultimately show "path_key (pf_path (fst (final_of ov k))) = k" "disk (pf_path (fst (final_of ov k))) = Inr (pf_before (fst (final_of ov k)))"
    "pf_after (fst (final_of ov k)) = written (ov_view disk ov k)"
    by (cases s; simp add: final_of_def ov_view_def written_def file_of_def)+
qed

definition file_key :: "planned_file \<Rightarrow> path_key" where
  "file_key f = path_key (pf_path f)"

lemma files_of_plan: "fp_files (plan_of ov) = map fst (finals ov)"
  by (simp add: plan_of_def Let_def)

lemma mem_finals: "e \<in> set (finals ov) \<longleftrightarrow> (\<exists>k \<in> set (ov_order ov). e = final_of ov k \<and> pf_before (fst e) \<noteq> pf_after (fst e))"
  by (auto simp: finals_def case_prod_beta)

lemma mem_files: "f \<in> set (fp_files (plan_of ov)) \<longleftrightarrow> (\<exists>k \<in> set (ov_order ov). f = fst (final_of ov k) \<and> pf_before f \<noteq> pf_after f)"
proof -
  have "f \<in> set (fp_files (plan_of ov)) \<longleftrightarrow> (\<exists>e \<in> set (finals ov). f = fst e)" by (auto simp: files_of_plan)
  then show ?thesis by (simp only: Bex_def mem_finals) blast
qed

lemma file_keys_distinct: "ov_sound disk ov \<Longrightarrow> distinct (map file_key (fp_files (plan_of ov)))"
proof -
  assume ok: "ov_sound disk ov"
  have "map (file_key \<circ> fst) (map (final_of ov) (ov_order ov)) = ov_order ov"
    using final_of_sound(1) [OF ok] by (auto intro!: map_idI simp: file_key_def)
  then have "distinct (map (file_key \<circ> fst) (map (final_of ov) (ov_order ov)))" using ok by (simp add: ov_sound_def)
  from distinct_map_filter_keep [OF this] show ?thesis by (simp add: files_of_plan finals_def)
qed

lemma find_file:
  "distinct (map file_key files) \<Longrightarrow> f \<in> set files \<Longrightarrow> List.find (\<lambda>g. path_key (pf_path g) = file_key f) files = Some f"
  by (induction files) (auto simp: file_key_def image_iff)

lemma after_plan_of:
  assumes "names_by_key disk" "ov_sound disk ov"
  shows "after_plan disk (plan_of ov) p =
    (if path_key p \<in> set (ov_order ov) then written (ov_view disk ov (path_key p)) else case disk p of Inr bytes \<Rightarrow> bytes | Inl _ \<Rightarrow> None)"
proof (cases "path_key p \<in> set (ov_order ov)")
  case False
  then have "List.find (\<lambda>f. path_key (pf_path f) = path_key p) (fp_files (plan_of ov)) = None"
    using final_of_sound(1) [OF assms(2)] by (auto simp: find_None_iff mem_files)
  with False show ?thesis by (simp add: after_plan_def)
next
  case True
  let ?e = "final_of ov (path_key p)"
  note f = final_of_sound [OF assms(2) True]
  show ?thesis
  proof (cases "pf_before (fst ?e) = pf_after (fst ?e)")
    case same: True
    have "List.find (\<lambda>f. path_key (pf_path f) = path_key p) (fp_files (plan_of ov)) = None"
      using final_of_sound(1) [OF assms(2)] same by (auto simp: find_None_iff mem_files)
    moreover have "disk p = Inr (pf_before (fst ?e))" using assms(1) f(1,2) unfolding names_by_key_def by metis
    ultimately show ?thesis using True same f(3) by (simp add: after_plan_def)
  next
    case False
    then have "fst ?e \<in> set (fp_files (plan_of ov))" using True by (auto simp: mem_files)
    from find_file [OF file_keys_distinct [OF assms(2)] this] f(1)
    have "List.find (\<lambda>g. path_key (pf_path g) = path_key p) (fp_files (plan_of ov)) = Some (fst ?e)" by (simp add: file_key_def)
    with True f(3) show ?thesis by (simp add: after_plan_def)
  qed
qed

lemma ov_view_start: "ov_view disk overlay_start = disk_view disk"
  by (simp add: ov_view_def overlay_start_def fun_eq_iff)

text \<open>C28: planning a batch is running its changes one after the other: it is refused at the same change for
  the same reason, and otherwise a disk with the planned files in place holds, for every file the batch
  names, what the last change left, and everything else as it was.\<close>

theorem plan_is_the_changes_in_turn:
  assumes "names_by_key disk"
  shows "case run_changes 0 chs (disk_view disk) of
      Inl e \<Rightarrow> plan_changes disk chs = Inl e
    | Inr v \<Rightarrow> \<exists>pl. plan_changes disk chs = Inr pl
        \<and> (\<forall>p. after_plan disk pl p = (if path_key p \<in> (\<Union>ch \<in> set chs. targets ch) then written (v (path_key p))
             else case disk p of Inr bytes \<Rightarrow> bytes | Inl _ \<Rightarrow> None))"
proof -
  have r: "refines disk overlay_start (\<Union>ch \<in> set chs. targets ch) (overlay_run disk 0 chs overlay_start) (run_changes 0 chs (disk_view disk))"
    using overlay_run_refines [OF assms ov_sound_start] by (simp add: ov_view_start)
  show ?thesis
  proof (cases "overlay_run disk 0 chs overlay_start")
    case (Inl e)
    with r show ?thesis by (simp add: refines_def plan_changes_def)
  next
    case (Inr ov)
    with r have v: "run_changes 0 chs (disk_view disk) = Inr (ov_view disk ov)" "ov_sound disk ov"
      "set (ov_order ov) = (\<Union>ch \<in> set chs. targets ch)" by (simp_all add: refines_def overlay_start_def)
    with Inr after_plan_of [OF assms v(2)] show ?thesis by (simp add: plan_changes_def)
  qed
qed

subsection \<open>What is confirmed\<close>

lemma plan_changes_sound:
  assumes "names_by_key disk" "plan_changes disk chs = Inr pl"
  obtains ov where "ov_sound disk ov" "pl = plan_of ov" "overlay_run disk 0 chs overlay_start = Inr ov"
  using assms overlay_run_refines [OF assms(1) ov_sound_start, of chs 0]
  by (auto simp: plan_changes_def rbind_Inr_iff refines_def)

lemma changes_of_plan:
  "fp_changes (plan_of ov) = filter (\<lambda>d. fd_kind d \<noteq> ChangeDelete
      \<or> path_key (fd_path d) \<notin> set (List.map_filter (\<lambda>e. map_option path_key (moved_from (map fst (finals ov)) e)) (finals ov)))
    (map (report_of ov (map fst (finals ov))) (finals ov))"
  by (simp add: plan_of_def Let_def)

lemma report_of_sel:
  "fd_path (report_of ov files e) = pf_path (fst e)" "fd_from (report_of ov files e) = moved_from files e"
  "moved_from files e \<noteq> None \<Longrightarrow> fd_kind (report_of ov files e) = ChangeMove"
  by (auto simp: report_of_def diff_of_def Let_def split: prod.splits option.splits)

text \<open>Each planned file is named by a change that is shown: as its path or as what was moved.\<close>

definition shows_file :: "file_diff_dto \<Rightarrow> planned_file \<Rightarrow> bool" where
  "shows_file d f \<longleftrightarrow> path_key (fd_path d) = file_key f \<or> (case fd_from d of Some o' \<Rightarrow> path_key o' = file_key f | None \<Rightarrow> False)"

lemma every_file_is_shown: "f \<in> set (fp_files (plan_of ov)) \<Longrightarrow> \<exists>d \<in> set (fp_changes (plan_of ov)). shows_file d f"
proof -
  assume "f \<in> set (fp_files (plan_of ov))"
  then obtain e where e: "e \<in> set (finals ov)" "fst e = f" by (auto simp: files_of_plan)
  let ?files = "map fst (finals ov)"
  let ?moved = "List.map_filter (\<lambda>e. map_option path_key (moved_from ?files e)) (finals ov)"
  show ?thesis
  proof (cases "fd_kind (report_of ov ?files e) = ChangeDelete \<and> path_key (pf_path f) \<in> set ?moved")
    case False
    then have "report_of ov ?files e \<in> set (fp_changes (plan_of ov))" using e by (auto simp: changes_of_plan report_of_sel)
    then show ?thesis by (rule bexI [rotated]) (simp add: shows_file_def report_of_sel file_key_def e(2))
  next
    case True
    then obtain e' o' where m: "e' \<in> set (finals ov)" "moved_from ?files e' = Some o'" "path_key o' = path_key (pf_path f)"
      by (auto simp: List.map_filter_def)
    then have "report_of ov ?files e' \<in> set (fp_changes (plan_of ov))" by (auto simp: changes_of_plan report_of_sel)
    then show ?thesis by (rule bexI [rotated]) (simp add: shows_file_def report_of_sel file_key_def m)
  qed
qed

text \<open>C29: a plan lists each file once, with what the disk holds as its content before and something else
  after, and the changes shown to the user name every file that will be written, moved or deleted.\<close>

theorem planned_files_are_faithful:
  assumes "names_by_key disk" "plan_changes disk chs = Inr pl"
  shows "distinct (map file_key (fp_files pl))
    \<and> (\<forall>f \<in> set (fp_files pl). disk (pf_path f) = Inr (pf_before f) \<and> pf_before f \<noteq> pf_after f
         \<and> (\<exists>d \<in> set (fp_changes pl). shows_file d f))"
proof -
  obtain ov where ov: "ov_sound disk ov" "pl = plan_of ov" using plan_changes_sound [OF assms] by blast
  have "disk (pf_path f) = Inr (pf_before f) \<and> pf_before f \<noteq> pf_after f" if "f \<in> set (fp_files pl)" for f
    using that final_of_sound(2) [OF ov(1)] by (auto simp: ov(2) mem_files)
  with file_keys_distinct [OF ov(1)] every_file_is_shown [of _ ov] ov(2) show ?thesis by blast
qed

subsection \<open>Nothing unread is lost\<close>

definition carried :: "overlay \<Rightarrow> path_key \<Rightarrow> bool" where
  "carried ov k \<longleftrightarrow> (\<exists>k' t f o'. ov_slots ov k' = Some (SlotText t f (Some o')) \<and> path_key o' = k)"

text \<open>A text with an origin is still the one the disk holds there, unless the origin is to be read.\<close>

definition origin_ok :: "overlay \<Rightarrow> file_slot \<Rightarrow> bool" where
  "origin_ok ov s \<longleftrightarrow> (case s of SlotText t f (Some o') \<Rightarrow>
     (\<exists>p bs t0. ov_stored ov (path_key o') = Some (p, Some bs) \<and> decode_file bs = DText t0 f \<and> (path_key o' \<notin> set (ov_fresh ov) \<longrightarrow> t0 = t))
   | _ \<Rightarrow> True)"

definition content_kept :: "overlay \<Rightarrow> path_key \<Rightarrow> bool" where
  "content_kept ov k \<longleftrightarrow> k \<in> set (ov_fresh ov) \<or> carried ov k"

definition ov_books :: "overlay \<Rightarrow> bool" where
  "ov_books ov \<longleftrightarrow> (\<forall>k s. ov_slots ov k = Some s \<longrightarrow> origin_ok ov s)
     \<and> (\<forall>k p bs. k \<in> dom (ov_slots ov) \<longrightarrow> ov_stored ov k = Some (p, Some bs) \<longrightarrow> content_kept ov k)"

definition origin_of :: "file_slot \<Rightarrow> path option" where
  "origin_of s = (case s of SlotText _ _ o' \<Rightarrow> o' | _ \<Rightarrow> None)"

lemma carried_iff: "carried ov k \<longleftrightarrow> (\<exists>k' s o'. ov_slots ov k' = Some s \<and> origin_of s = Some o' \<and> path_key o' = k)"
proof -
  have "(\<exists>t f. s = SlotText t f (Some o')) \<longleftrightarrow> origin_of s = Some o'" for s o' by (cases s) (auto simp: origin_of_def)
  then show ?thesis unfolding carried_def by metis
qed

text \<open>Reading a slot: what is found there has its origin in order, and what the file held is accounted for
  by that origin, if it was not before.\<close>

lemma books_read:
  assumes "overlay_slot disk index p ov = Inr (s, ov1)" "ov_sound disk ov" "ov_books ov"
  shows "ov_books ov1" "origin_ok ov1 s"
    "ov_stored ov1 (path_key p) = Some (q, Some bs) \<Longrightarrow> s \<noteq> SlotBinary \<Longrightarrow>
       content_kept ov1 (path_key p) \<or> (\<exists>o'. origin_of s = Some o' \<and> path_key o' = path_key p)"
    "ov_slots ov1 (path_key p) = Some s' \<Longrightarrow> s' = s"
proof -
  note f = overlay_slot_frame [OF assms(1,2)]
  have mono: "origin_ok ov x \<Longrightarrow> origin_ok ov1 x" for x
    using f(5,6) by (fastforce simp: origin_ok_def map_le_def dom_def split: file_slot.splits option.splits)
  have kept: "content_kept ov1 k = content_kept ov k" for k by (simp add: content_kept_def carried_def f(3,5))
  have st: "ov_stored ov1 k = ov_stored ov k" if "k \<in> dom (ov_slots ov)" for k
  proof -
    have "k \<in> dom (ov_stored ov)" using that assms(2) by (auto simp: ov_sound_def)
    with f(6) show ?thesis by (simp add: map_le_def)
  qed
  show "ov_books ov1" using assms(3) mono st unfolding ov_books_def f(3) kept by metis
  show "origin_ok ov1 s" using assms(1)
  proof (cases rule: overlay_slot_cases)
    case 1
    then show ?thesis using assms(3) by (auto simp: ov_books_def)
  next
    case (2 q b)
    then show ?thesis using assms(2)
      by (auto simp: origin_ok_def slot_of_def ov_sound_def split: option.splits decoded.splits)
  next
    case (3 b)
    then show ?thesis by (auto simp: origin_ok_def slot_of_def split: option.splits decoded.splits)
  qed
  show "content_kept ov1 (path_key p) \<or> (\<exists>o'. origin_of s = Some o' \<and> path_key o' = path_key p)"
    if h: "ov_stored ov1 (path_key p) = Some (q, Some bs)" "s \<noteq> SlotBinary"
    using assms(1)
  proof (cases rule: overlay_slot_cases)
    case 1
    then show ?thesis using assms(3) h by (auto simp: ov_books_def)
  next
    case (2 q' b)
    then have "path_key q' = path_key p" using assms(2) by (auto simp: ov_sound_def)
    with 2 h show ?thesis by (auto simp: slot_of_def origin_of_def split: option.splits decoded.splits)
  next
    case (3 b)
    with h show ?thesis by (auto simp: slot_of_def origin_of_def split: option.splits decoded.splits)
  qed
  show "s' = s" if "ov_slots ov1 (path_key p) = Some s'"
    using assms(1) that by (cases rule: overlay_slot_cases) auto
qed

lemma content_kept_keep:
  assumes "content_kept ov k"
    and "\<And>s o'. ov_slots ov (path_key p) = Some s \<Longrightarrow> origin_of s = Some o' \<Longrightarrow> content_kept (overlay_set p s' ov) (path_key o')"
  shows "content_kept (overlay_set p s' ov) k"
proof (cases "k \<in> set (ov_fresh ov)")
  case True
  then show ?thesis by (simp add: content_kept_def state_simps)
next
  case False
  with assms(1) obtain k' s o' where c: "ov_slots ov k' = Some s" "origin_of s = Some o'" "path_key o' = k"
    by (auto simp: content_kept_def carried_iff)
  show ?thesis
  proof (cases "k' = path_key p")
    case True
    with assms(2) [of s o'] c show ?thesis by simp
  next
    case False
    with c show ?thesis unfolding content_kept_def carried_iff by (auto simp: state_simps)
  qed
qed

lemma books_set:
  assumes "ov_books ov" "origin_ok ov s'"
    and "\<And>s o'. ov_slots ov (path_key p) = Some s \<Longrightarrow> origin_of s = Some o' \<Longrightarrow> content_kept (overlay_set p s' ov) (path_key o')"
    and "\<And>q bs. ov_stored ov (path_key p) = Some (q, Some bs) \<Longrightarrow> content_kept (overlay_set p s' ov) (path_key p)"
  shows "ov_books (overlay_set p s' ov)"
proof -
  have ok: "origin_ok (overlay_set p s' ov) x = origin_ok ov x" for x by (simp add: origin_ok_def state_simps cong: file_slot.case_cong option.case_cong)
  show ?thesis unfolding ov_books_def ok
  proof (intro conjI allI impI)
    fix k s assume "ov_slots (overlay_set p s' ov) k = Some s"
    then show "origin_ok ov s" using assms(1,2) by (auto simp: state_simps ov_books_def split: if_splits)
  next
    fix k q bs assume k: "k \<in> dom (ov_slots (overlay_set p s' ov))" "ov_stored (overlay_set p s' ov) k = Some (q, Some bs)"
    show "content_kept (overlay_set p s' ov) k"
    proof (cases "k = path_key p")
      case True
      with assms(4) k show ?thesis by (simp add: state_simps)
    next
      case False
      with k have "content_kept ov k" using assms(1) by (auto simp: state_simps ov_books_def)
      then show ?thesis by (rule content_kept_keep) (rule assms(3))
    qed
  qed
qed

lemma content_kept_set:
  "k \<in> set (ov_fresh ov) \<Longrightarrow> content_kept (overlay_set p s ov) k"
  "origin_of s = Some o' \<Longrightarrow> path_key o' = k \<Longrightarrow> content_kept (overlay_set p s ov) k"
  by (auto simp: content_kept_def carried_iff state_simps)

lemma books_touch: "ov_books ov \<Longrightarrow> ov_books (overlay_touch o' ov)"
  by (fastforce simp: ov_books_def origin_ok_def content_kept_def carried_def state_simps split: file_slot.splits option.splits)

lemma origin_ok_touch: "origin_ok ov s \<Longrightarrow> origin_ok (overlay_touch o' ov) s"
  by (auto simp: origin_ok_def state_simps split: file_slot.splits option.splits)

text \<open>Overwriting what was read at a path, after its origin has been touched.\<close>

lemma books_overwrite:
  assumes r: "overlay_slot disk index p ov = Inr (s, ov1)" "ov_sound disk ov" "ov_books ov" "s \<noteq> SlotBinary"
    and "origin_ok (overlay_touch (origin_of s) ov1) s'"
  shows "ov_books (overlay_set p s' (overlay_touch (origin_of s) ov1))"
proof (rule books_set [OF books_touch [OF books_read(1) [OF r(1-3)]] assms(5)])
  let ?ov = "overlay_touch (origin_of s) ov1"
  show "content_kept (overlay_set p s' ?ov) (path_key o')" if "ov_slots ?ov (path_key p) = Some x" "origin_of x = Some o'" for x o'
    using books_read(4) [OF r(1-3)] that by (intro content_kept_set(1)) (auto simp: state_simps)
  show "content_kept (overlay_set p s' ?ov) (path_key p)" if h: "ov_stored ?ov (path_key p) = Some (q, Some bs)" for q bs
  proof -
    from h have "ov_stored ov1 (path_key p) = Some (q, Some bs)" by (simp add: state_simps)
    from books_read(3) [OF r(1-3) this r(4)] consider "path_key p \<in> set (ov_fresh ?ov)" | "carried ov1 (path_key p)" "path_key p \<notin> set (ov_fresh ?ov)"
      by (auto simp: content_kept_def state_simps)
    then show ?thesis
    proof cases
      case 1
      then show ?thesis by (rule content_kept_set)
    next
      case 2
      then obtain k' x o' where c: "ov_slots ov1 k' = Some x" "origin_of x = Some o'" "path_key o' = path_key p" by (auto simp: carried_iff)
      have "k' \<noteq> path_key p"
      proof
        assume "k' = path_key p"
        then have "x = s" using books_read(4) [OF r(1-3)] c(1) by simp
        with c 2(2) show False by (auto simp: state_simps)
      qed
      with c show ?thesis unfolding content_kept_def carried_iff by (auto simp: state_simps)
    qed
  qed
qed

lemma overlay_touch_None [simp]: "overlay_touch None ov = ov"
  by (simp add: overlay_touch_def)

lemma books_move:
  assumes ra: "overlay_slot disk index a ov = Inr (s, ov1)" "ov_sound disk ov" "ov_books ov" "s \<noteq> SlotBinary"
    and rb: "overlay_slot disk index b ov1 = Inr (SlotAbsent, ov2)" and ab: "path_key a \<noteq> path_key b"
  shows "ov_books (overlay_set a SlotAbsent (overlay_set b s ov2))"
proof -
  note fa = overlay_slot_frame [OF ra(1,2)]
  note ba = books_read [OF ra(1-3)]
  note fb = overlay_slot_frame [OF rb fa(1)]
  note bb = books_read [OF rb fa(1) ba(1)]
  let ?ov3 = "overlay_set b s ov2"
  have none: "ov_slots ov2 (path_key b) = Some x \<Longrightarrow> origin_of x = Some o' \<Longrightarrow> C" for x o' C
    using bb(4) by (auto simp: origin_of_def)
  have s: "origin_ok ov2 s"
    using ba(2) fb(5,6) by (fastforce simp: origin_ok_def map_le_def dom_def split: file_slot.splits option.splits)
  have b3: "ov_books ?ov3"
  proof (rule books_set [OF bb(1) s])
    show "content_kept ?ov3 (path_key b)" if "ov_stored ov2 (path_key b) = Some (q, Some bs)" for q bs
    proof (rule content_kept_keep)
      show "content_kept ov2 (path_key b)" using bb(3) [OF that] by (auto simp: origin_of_def)
    qed (erule (1) none)
  qed (erule (1) none)
  have moved: "content_kept (overlay_set a SlotAbsent ?ov3) (path_key o')" if "origin_of s = Some o'" for o'
    using that ab unfolding content_kept_def carried_iff by (auto simp: state_simps intro!: exI [of _ "path_key b"])
  have at_a: "x = s" if "ov_slots ?ov3 (path_key a) = Some x" for x
    using that ab ba(4) fb(3) by (simp add: state_simps)
  show ?thesis
  proof (rule books_set [OF b3])
    show "origin_ok ?ov3 SlotAbsent" by (simp add: origin_ok_def)
    show "content_kept (overlay_set a SlotAbsent ?ov3) (path_key o')"
      if "ov_slots ?ov3 (path_key a) = Some x" "origin_of x = Some o'" for x o'
      using at_a [OF that(1)] that(2) moved by simp
    show "content_kept (overlay_set a SlotAbsent ?ov3) (path_key a)" if "ov_stored ?ov3 (path_key a) = Some (q, Some bs)" for q bs
    proof -
      have "ov_stored ov1 (path_key a) = ov_stored ov2 (path_key a)" using fa(2) fb(6) by (simp add: map_le_def)
      with that have "ov_stored ov1 (path_key a) = Some (q, Some bs)" by (simp add: state_simps)
      from ba(3) [OF this ra(4)] show ?thesis
      proof
        assume "\<exists>o'. origin_of s = Some o' \<and> path_key o' = path_key a"
        then show ?thesis using moved by metis
      next
        assume "content_kept ov1 (path_key a)"
        then have "content_kept ov2 (path_key a)" by (simp add: content_kept_def carried_def fb(3,5))
        then have "content_kept ?ov3 (path_key a)" by (rule content_kept_keep) (erule (1) none)
        then show ?thesis
        proof (rule content_kept_keep)
          fix x o' assume "ov_slots ?ov3 (path_key a) = Some x" "origin_of x = Some o'"
          then show "content_kept (overlay_set a SlotAbsent ?ov3) (path_key o')" using at_a moved by simp
        qed
      qed
    qed
  qed
qed

text \<open>A step that succeeds after reading a slot, by the slot it has read.\<close>

lemma slot_then:
  assumes "rbind (overlay_slot disk index p ov) f = Inr ov'"
  obtains (Absent) ov1 where "overlay_slot disk index p ov = Inr (SlotAbsent, ov1)" "f (SlotAbsent, ov1) = Inr ov'"
  | (Binary) ov1 where "overlay_slot disk index p ov = Inr (SlotBinary, ov1)" "f (SlotBinary, ov1) = Inr ov'"
  | (Present) t fm og ov1 where "overlay_slot disk index p ov = Inr (SlotText t fm og, ov1)" "f (SlotText t fm og, ov1) = Inr ov'"
proof -
  from assms obtain s ov1 where "overlay_slot disk index p ov = Inr (s, ov1)" "f (s, ov1) = Inr ov'" by (auto simp: rbind_Inr_iff)
  with that show thesis by (cases s) auto
qed

lemma overlay_apply_books:
  assumes "overlay_apply disk index ch ov = Inr ov'" "ov_sound disk ov" "ov_books ov"
  shows "ov_books ov'"
proof (cases ch)
  case (ChWrite p content)
  with assms(1) have "rbind (overlay_slot disk index p ov) (\<lambda>(s, ov1). case s of
           SlotBinary \<Rightarrow> Inl (Refused BINARY_REFUSED index p None)
         | SlotAbsent \<Rightarrow> Inr (overlay_set p (SlotText (normalize_text content) (fresh_format content) None) ov1)
         | SlotText _ f origin \<Rightarrow> Inr (overlay_set p (SlotText (normalize_text content) f None) (overlay_touch origin ov1))) = Inr ov'"
    by (simp add: overlay_apply_def)
  then show ?thesis
  proof (cases rule: slot_then)
    case (Absent ov1)
    with books_overwrite [OF Absent(1) assms(2,3), of "SlotText (normalize_text content) (fresh_format content) None"]
    show ?thesis by (auto simp: origin_of_def origin_ok_def)
  next
    case (Present t fm og ov1)
    with books_overwrite [OF Present(1) assms(2,3), of "SlotText (normalize_text content) fm None"]
    show ?thesis by (auto simp: origin_of_def origin_ok_def)
  qed simp
next
  case (ChEdit p edits)
  with assms(1) have "rbind (overlay_slot disk index p ov) (\<lambda>(s, ov1). case s of
           SlotAbsent \<Rightarrow> Inl (Refused FILE_MISSING index p None)
         | SlotBinary \<Rightarrow> Inl (Refused BINARY_REFUSED index p None)
         | SlotText t f origin \<Rightarrow> rbind (edits_loop index p 0 edits t) (\<lambda>t'.
             Inr (overlay_set p (SlotText t' f origin) (overlay_touch origin ov1)))) = Inr ov'"
    by (simp add: overlay_apply_def)
  then show ?thesis
  proof (cases rule: slot_then)
    case (Present t f og ov1)
    then obtain t' where ov': "ov' = overlay_set p (SlotText t' f og) (overlay_touch og ov1)" by (auto simp: rbind_Inr_iff)
    have "origin_ok (overlay_touch og ov1) (SlotText t' f og)"
      using books_read(2) [OF Present(1) assms(2,3)] by (cases og) (auto simp: origin_ok_def state_simps)
    with books_overwrite [OF Present(1) assms(2,3), of "SlotText t' f og"] show ?thesis by (simp add: ov' origin_of_def)
  qed simp_all
next
  case (ChMove a b)
  with assms(1) have ab: "path_key a \<noteq> path_key b" and mv: "rbind (overlay_slot disk index a ov) (\<lambda>(s, ov1). case s of
           SlotAbsent \<Rightarrow> Inl (Refused FILE_MISSING index a None)
         | SlotBinary \<Rightarrow> Inl (Refused BINARY_REFUSED index a None)
         | SlotText _ _ _ \<Rightarrow> rbind (overlay_slot disk index b ov1) (\<lambda>(target, ov2).
             if target \<noteq> SlotAbsent then Inl (Refused MOVE_TARGET_EXISTS index b None)
             else Inr (overlay_set a SlotAbsent (overlay_set b s ov2)))) = Inr ov'"
    by (simp_all add: overlay_apply_def split: if_splits)
  from mv show ?thesis
  proof (cases rule: slot_then)
    case (Present t f og ov1)
    then obtain ov2 where "overlay_slot disk index b ov1 = Inr (SlotAbsent, ov2)"
      "ov' = overlay_set a SlotAbsent (overlay_set b (SlotText t f og) ov2)" by (auto simp: rbind_Inr_iff split: if_splits)
    with books_move [OF Present(1) assms(2,3) _ _ ab] show ?thesis by simp
  qed simp_all
next
  case (ChDelete p)
  with assms(1) have "rbind (overlay_slot disk index p ov) (\<lambda>(s, ov1). case s of
           SlotAbsent \<Rightarrow> Inl (Refused FILE_MISSING index p None)
         | SlotBinary \<Rightarrow> Inl (Refused BINARY_REFUSED index p None)
         | SlotText _ _ origin \<Rightarrow> Inr (overlay_set p SlotAbsent (overlay_touch origin ov1))) = Inr ov'"
    by (simp add: overlay_apply_def)
  then show ?thesis
  proof (cases rule: slot_then)
    case (Present t f og ov1)
    with books_overwrite [OF Present(1) assms(2,3), of SlotAbsent] show ?thesis by (simp add: origin_of_def origin_ok_def)
  qed simp_all
qed

lemma overlay_run_books:
  "names_by_key disk \<Longrightarrow> ov_sound disk ov \<Longrightarrow> ov_books ov \<Longrightarrow> overlay_run disk index chs ov = Inr ov' \<Longrightarrow> ov_books ov'"
proof (induction chs arbitrary: index ov)
  case (Cons ch chs)
  then obtain ov1 where r: "overlay_apply disk index ch ov = Inr ov1" "overlay_run disk (Suc index) chs ov1 = Inr ov'"
    by (auto simp: rbind_Inr_iff)
  moreover have "ov_sound disk ov1" using overlay_apply_refines [OF Cons.prems(1,2), of ch index] r(1) by (simp add: refines_def)
  ultimately show ?case using Cons overlay_apply_books by metis
qed simp

lemma ov_books_start: "ov_books overlay_start"
  by (simp add: ov_books_def overlay_start_def)

lemma fresh_of_plan:
  "fp_fresh (plan_of ov) = List.map_filter (\<lambda>k. map_option fst (ov_stored ov k)) (filter (\<lambda>k. k \<in> file_key ` set (fp_files (plan_of ov))) (ov_fresh ov))"
  by (simp add: plan_of_def Let_def file_key_def image_image o_def)

text \<open>No content the caller may not have seen is lost: what a file held that the plan writes over or
  deletes is either to be checked against what was read (\<open>fp_fresh\<close> names the file), or it is in place
  somewhere after the plan, with the text and the format it had.\<close>

lemma nothing_unread_is_lost:
  assumes "names_by_key disk" "plan_changes disk chs = Inr pl" "f \<in> set (fp_files pl)" "pf_before f = Some bs"
  shows "pf_path f \<in> set (fp_fresh pl)
    \<or> (\<exists>t fm q. decode_file bs = DText t fm \<and> after_plan disk pl q = Some (encode_file t fm))"
proof -
  obtain ov where ov: "ov_sound disk ov" "pl = plan_of ov" "overlay_run disk 0 chs overlay_start = Inr ov"
    using plan_changes_sound [OF assms(1,2)] by blast
  have books: "ov_books ov" by (rule overlay_run_books [OF assms(1) ov_sound_start ov_books_start ov(3)])
  obtain k where k: "k \<in> set (ov_order ov)" "f = fst (final_of ov k)" using assms(3) by (auto simp: ov(2) mem_files)
  note fs = final_of_sound [OF ov(1) k(1)]
  have d: "k \<in> dom (ov_slots ov)" "k \<in> dom (ov_stored ov)" using k(1) ov(1) by (auto simp: ov_sound_def)
  then obtain p b where st: "ov_stored ov k = Some (p, b)" by fastforce
  have p: "pf_path f = p" "b = Some bs"
    using st d(1) assms(4) by (auto simp: k(2) final_of_def split: option.splits file_slot.splits)
  have "content_kept ov k" using books d(1) st p(2) by (auto simp: ov_books_def)
  then show ?thesis
  proof (cases "k \<in> set (ov_fresh ov)")
    case True
    have "file_key f = k" using fs(1) k(2) by (simp add: file_key_def)
    with True have "k \<in> set (filter (\<lambda>k. k \<in> file_key ` set (fp_files (plan_of ov))) (ov_fresh ov))"
      using assms(3) by (force simp: ov(2))
    with st have "p \<in> set (fp_fresh (plan_of ov))"
      unfolding fresh_of_plan by (force simp: List.map_filter_def)
    then show ?thesis by (simp add: ov(2) p(1))
  next
    case False
    with \<open>content_kept ov k\<close> obtain k' t fm og where c: "ov_slots ov k' = Some (SlotText t fm (Some og))" "path_key og = k"
      by (auto simp: content_kept_def carried_def)
    then have "origin_ok ov (SlotText t fm (Some og))" using books by (auto simp: ov_books_def)
    with c(2) st p(2) False have "decode_file bs = DText t fm" by (auto simp: origin_ok_def)
    moreover have "after_plan disk pl k' = Some (encode_file t fm)"
    proof -
      have o: "k' \<in> set (ov_order ov)" using c(1) ov(1) by (auto simp: ov_sound_def)
      with ov(1) have "k' \<in> dom (ov_stored ov)" by (auto simp: ov_sound_def)
      then have "path_key k' = k'" using ov(1) path_key_idem unfolding ov_sound_def dom_def by (metis (mono_tags, lifting) mem_Collect_eq not_None_eq surj_pair)
      with after_plan_of [OF assms(1) ov(1), of k'] o c(1) show ?thesis by (simp add: ov(2) ov_view_def file_of_def written_def)
    qed
    ultimately show ?thesis by blast
  qed
qed

subsection \<open>A batch\<close>

definition sample_disk :: disk where
  "sample_disk p = Inr (if path_key p = [''a''] then Some (as_bytes [97]) else None)"

definition sample_batch :: "file_change list" where
  "sample_batch = [ChMove [''a''] [''b''], ChWrite [''A''] [98]]"

declare as_bytes_simps [simp del]

lemma sample_names: "names_by_key sample_disk"
  by (simp add: names_by_key_def sample_disk_def)

lemma sample_keys [simp]: "path_key [''a''] = [''a'']" "path_key [''b''] = [''b'']" "path_key [''A''] = [''a'']"
  by code_simp+

lemma sample_decodes: "decode_file (as_bytes [97]) = DText [97] \<lparr>tf_bom = False, tf_crlf = False\<rparr>"
proof -
  have "take (length BOM) (as_bytes [97]) \<noteq> BOM" by (simp add: starts_with_BOM scalar_def)
  moreover have "decode_body False (as_bytes [97]) = DText [97] \<lparr>tf_bom = False, tf_crlf = False\<rparr>"
    using decode_body_bytes [of "[97]" False] by (simp add: scalar_def char_bytes_def as_bytes_simps BINARY_PROBE_def)
  ultimately show ?thesis by (simp add: decode_file_def)
qed

lemma sample_runs: "run_changes 0 sample_batch (disk_view sample_disk) =
  Inr ((disk_view sample_disk)([''b''] := Inr (VText [97] \<lparr>tf_bom = False, tf_crlf = False\<rparr>),
    [''a''] := Inr (VText [98] \<lparr>tf_bom = False, tf_crlf = False\<rparr>)))"
  by (simp add: sample_batch_def run_change_def vread_def disk_view_def sample_disk_def vfile_of_def sample_decodes fresh_format_def fun_upd_twist)

lemma plan_is_the_changes_in_turn_witness:
  "\<exists>pl. plan_changes sample_disk sample_batch = Inr pl \<and> after_plan sample_disk pl [''b''] = Some (as_bytes [97])"
proof -
  have t: "path_key [''b''] \<in> (\<Union>ch \<in> set sample_batch. targets ch)" by (simp add: sample_batch_def targets_def)
  obtain pl where pl: "plan_changes sample_disk sample_batch = Inr pl"
    "\<forall>p. after_plan sample_disk pl p = (if path_key p \<in> (\<Union>ch \<in> set sample_batch. targets ch)
       then written (((disk_view sample_disk)([''b''] := Inr (VText [97] \<lparr>tf_bom = False, tf_crlf = False\<rparr>),
         [''a''] := Inr (VText [98] \<lparr>tf_bom = False, tf_crlf = False\<rparr>))) (path_key p))
       else case sample_disk p of Inr bytes \<Rightarrow> bytes | Inl _ \<Rightarrow> None)"
    using plan_is_the_changes_in_turn [OF sample_names, of sample_batch] unfolding sample_runs sum.case by blast
  have "after_plan sample_disk pl [''b''] = Some (as_bytes [97])"
    using pl(2) [rule_format, of "[''b'']"] t by (simp add: written_def encode_file_def)
  with pl(1) show ?thesis by blast
qed

definition sample_plan :: file_plan where
  "sample_plan = projr (plan_changes sample_disk sample_batch)"

lemma sample_plan: "plan_changes sample_disk sample_batch = Inr sample_plan"
proof -
  have "refines sample_disk overlay_start (\<Union>ch \<in> set sample_batch. targets ch) (overlay_run sample_disk 0 sample_batch overlay_start)
      (run_changes 0 sample_batch (disk_view sample_disk))"
    using overlay_run_refines [OF sample_names ov_sound_start] by (simp add: ov_view_start)
  then obtain ov where "overlay_run sample_disk 0 sample_batch overlay_start = Inr ov"
    by (auto simp: refines_def sample_runs split: sum.splits)
  then show ?thesis by (simp add: sample_plan_def plan_changes_def)
qed

lemma sample_files: "fp_files sample_plan =
  [\<lparr>pf_path = [''b''], pf_before = None, pf_after = Some (as_bytes [97])\<rparr>, \<lparr>pf_path = [''a''], pf_before = Some (as_bytes [97]), pf_after = Some (as_bytes [98])\<rparr>]"
  by (simp add: sample_plan_def plan_changes_def sample_batch_def overlay_apply_def overlay_slot_def overlay_stored_def overlay_start_def slot_of_def
      sample_disk_def sample_decodes overlay_set_def plan_of_def finals_def final_of_def encode_file_def fresh_format_def as_bytes_inj scalar_def Let_def)

lemma planned_files_are_faithful_witness:
  "\<exists>d \<in> set (fp_changes sample_plan). shows_file d \<lparr>pf_path = [''a''], pf_before = Some (as_bytes [97]), pf_after = Some (as_bytes [98])\<rparr>"
  using planned_files_are_faithful [OF sample_names sample_plan] by (simp add: sample_files)

end
