(* ===== verification/FileCommit.thy ===== *)
theory FileCommit
  imports FilePlan
begin

text \<open>
  Writing a planned batch, \<^verbatim>\<open>files/commit.rs\<close> of the host, over a file system that may refuse any call.

  \<open>fsys\<close> is the part of the file system the code sees: files with their bytes and folders, both found by
  \<open>path_key\<close>, and the answers the next calls will get (\<open>None\<close> for a call that works, \<open>Some n\<close> for one that
  fails, a write after \<open>n\<close> bytes). The calls are those of \<^verbatim>\<open>std::fs\<close> by their documentation: creating a
  file needs its folder, renaming replaces a file and fails on a folder, removing a folder needs it empty.
  \<^verbatim>\<open>Path::exists\<close> is not refused.

  The staging files of \<open>replace_file\<close> (\<^verbatim>\<open>.<name>.<id>.zvs-tmp\<close>, the id from \<^verbatim>\<open>new_id\<close>) may stay behind when
  removing them fails; the statements are about all other files.
\<close>

subsection \<open>The file system\<close>

datatype io_error = IoNotFound | IoInvalidInput | IoOther

record fsys =
  fs_files :: "(path_key \<times> byte list) list"
  fs_dirs :: "path_key list"
  fs_answers :: "nat option list"
  fs_ids :: "nat \<Rightarrow> string"
  fs_next :: nat

definition file_at :: "fsys \<Rightarrow> path \<Rightarrow> byte list option" where
  "file_at s p = map_of (fs_files s) (path_key p)"

definition is_folder :: "fsys \<Rightarrow> path \<Rightarrow> bool" where
  "is_folder s p \<longleftrightarrow> path_key p \<in> set (fs_dirs s)"

definition path_exists :: "fsys \<Rightarrow> path \<Rightarrow> bool" where
  "path_exists s p \<longleftrightarrow> file_at s p \<noteq> None \<or> is_folder s p"

definition os_answer :: "fsys \<Rightarrow> nat option \<times> fsys" where
  "os_answer s = (case fs_answers s of [] \<Rightarrow> (None, s) | a # as \<Rightarrow> (a, s\<lparr>fs_answers := as\<rparr>))"

definition put_file :: "path \<Rightarrow> byte list \<Rightarrow> fsys \<Rightarrow> fsys" where
  "put_file p bs s = s\<lparr>fs_files := AList.update (path_key p) bs (fs_files s)\<rparr>"

definition drop_file :: "path \<Rightarrow> fsys \<Rightarrow> fsys" where
  "drop_file p s = s\<lparr>fs_files := AList.delete (path_key p) (fs_files s)\<rparr>"

type_synonym 'a io = "(io_error + 'a) \<times> fsys"

definition parent_is_folder :: "fsys \<Rightarrow> path \<Rightarrow> bool" where
  "parent_is_folder s p \<longleftrightarrow> p \<noteq> [] \<and> is_folder s (butlast p)"

definition fs_create :: "path \<Rightarrow> fsys \<Rightarrow> unit io" where
  "fs_create p s = (case os_answer s of (a, s1) \<Rightarrow>
     if a \<noteq> None \<or> is_folder s1 p then (Inl IoOther, s1)
     else if \<not> parent_is_folder s1 p then (Inl IoNotFound, s1)
     else (Inr (), put_file p [] s1))"

definition fs_write_all :: "path \<Rightarrow> byte list \<Rightarrow> fsys \<Rightarrow> unit io" where
  "fs_write_all p bs s = (case os_answer s of (a, s1) \<Rightarrow>
     case a of Some n \<Rightarrow> (Inl IoOther, put_file p (take n bs) s1) | None \<Rightarrow> (Inr (), put_file p bs s1))"

definition fs_sync :: "fsys \<Rightarrow> unit io" where
  "fs_sync s = (case os_answer s of (a, s1) \<Rightarrow> (if a = None then Inr () else Inl IoOther, s1))"

definition fs_rename :: "path \<Rightarrow> path \<Rightarrow> fsys \<Rightarrow> unit io" where
  "fs_rename a b s = (case os_answer s of (ans, s1) \<Rightarrow>
     if ans \<noteq> None \<or> is_folder s1 b then (Inl IoOther, s1)
     else (case file_at s1 a of None \<Rightarrow> (Inl IoNotFound, s1) | Some bs \<Rightarrow> (Inr (), put_file b bs (drop_file a s1))))"

definition fs_remove_file :: "path \<Rightarrow> fsys \<Rightarrow> unit io" where
  "fs_remove_file p s = (case os_answer s of (a, s1) \<Rightarrow>
     if a \<noteq> None \<or> is_folder s1 p then (Inl IoOther, s1)
     else if file_at s1 p = None then (Inl IoNotFound, s1)
     else (Inr (), drop_file p s1))"

definition fs_create_dir :: "path \<Rightarrow> fsys \<Rightarrow> unit io" where
  "fs_create_dir p s = (case os_answer s of (a, s1) \<Rightarrow>
     if a \<noteq> None \<or> path_exists s1 p then (Inl IoOther, s1)
     else if \<not> parent_is_folder s1 p then (Inl IoNotFound, s1)
     else (Inr (), s1\<lparr>fs_dirs := path_key p # fs_dirs s1\<rparr>))"

definition fs_remove_dir :: "path \<Rightarrow> fsys \<Rightarrow> unit io" where
  "fs_remove_dir p s = (case os_answer s of (a, s1) \<Rightarrow>
     if a \<noteq> None \<or> \<not> is_folder s1 p
        \<or> list_ex (\<lambda>k. k \<noteq> [] \<and> butlast k = path_key p) (map fst (fs_files s1) @ fs_dirs s1) then (Inl IoOther, s1)
     else (Inr (), s1\<lparr>fs_dirs := removeAll (path_key p) (fs_dirs s1)\<rparr>))"

fun io_bind :: "'a io \<Rightarrow> ('a \<Rightarrow> fsys \<Rightarrow> 'b io) \<Rightarrow> 'b io" where
  "io_bind (Inl e, s) f = (Inl e, s)"
| "io_bind (Inr x, s) f = f x s"

subsection \<open>The commit\<close>

definition TEMPORARY :: string where "TEMPORARY = ''.zvs-tmp''"

definition temporary :: "path \<Rightarrow> fsys \<Rightarrow> path io" where
  "temporary p s = (if p = [] then (Inl IoInvalidInput, s)
     else (Inr (butlast p @ [''.'' @ last p @ ''.'' @ fs_ids s (fs_next s) @ TEMPORARY]), s\<lparr>fs_next := Suc (fs_next s)\<rparr>))"

definition stage_file :: "path \<Rightarrow> path \<Rightarrow> byte list \<Rightarrow> fsys \<Rightarrow> unit io" where
  "stage_file staged p bs s =
     io_bind (fs_create staged s) (\<lambda>_ s1.
     io_bind (fs_write_all staged bs s1) (\<lambda>_ s2.
     io_bind (fs_sync s2) (\<lambda>_ s3. fs_rename staged p s3)))"

definition replace_file :: "path \<Rightarrow> byte list \<Rightarrow> fsys \<Rightarrow> unit io" where
  "replace_file p bs s = io_bind (temporary p s) (\<lambda>staged s1.
     (case stage_file staged p bs s1 of
        (Inl e, s2) \<Rightarrow> (Inl e, snd (fs_remove_file staged s2))
      | (Inr u, s2) \<Rightarrow> (Inr u, s2)))"

text \<open>\<^verbatim>\<open>Path::ancestors\<close>: the path itself first, the root last.\<close>

fun ancestors_of :: "path \<Rightarrow> path list" where
  "ancestors_of p = (if p = [] then [[]] else p # ancestors_of (butlast p))"

declare ancestors_of.simps [simp del]

fun create_folders :: "path list \<Rightarrow> path list \<Rightarrow> fsys \<Rightarrow> (io_error + unit) \<times> path list \<times> fsys" where
  "create_folders [] created s = (Inr (), created, s)"
| "create_folders (p # ps) created s = (case fs_create_dir p s of
     (Inl e, s1) \<Rightarrow> (Inl e, created, s1)
   | (Inr _, s1) \<Rightarrow> create_folders ps (created @ [p]) s1)"

definition ensure_folders :: "path \<Rightarrow> path list \<Rightarrow> fsys \<Rightarrow> (io_error + unit) \<times> path list \<times> fsys" where
  "ensure_folders folder created s =
     create_folders (rev (takeWhile (\<lambda>p. \<not> path_exists s p) (ancestors_of folder))) created s"

definition apply_file :: "planned_file \<Rightarrow> path list \<Rightarrow> fsys \<Rightarrow> (io_error + unit) \<times> path list \<times> fsys" where
  "apply_file f created s = (case pf_after f of
     Some bs \<Rightarrow>
       (case (if pf_path f = [] then (Inr (), created, s) else ensure_folders (butlast (pf_path f)) created s) of
          (Inl e, created1, s1) \<Rightarrow> (Inl e, created1, s1)
        | (Inr _, created1, s1) \<Rightarrow> (case replace_file (pf_path f) bs s1 of (r, s2) \<Rightarrow> (r, created1, s2)))
   | None \<Rightarrow> (case fs_remove_file (pf_path f) s of (r, s1) \<Rightarrow> (r, created, s1)))"

definition restore_file :: "planned_file \<Rightarrow> fsys \<Rightarrow> bool \<times> fsys" where
  "restore_file f s = (case pf_before f of
     Some bs \<Rightarrow> (case replace_file (pf_path f) bs s of (r, s1) \<Rightarrow> (r = Inr (), s1))
   | None \<Rightarrow> (case fs_remove_file (pf_path f) s of (r, s1) \<Rightarrow> (r = Inr () \<or> r = Inl IoNotFound, s1)))"

fun restore_files :: "planned_file list \<Rightarrow> bool \<Rightarrow> fsys \<Rightarrow> bool \<times> fsys" where
  "restore_files [] restored s = (restored, s)"
| "restore_files (f # fs) restored s = (case restore_file f s of (ok, s1) \<Rightarrow> restore_files fs (restored \<and> ok) s1)"

definition remove_folders :: "path list \<Rightarrow> fsys \<Rightarrow> fsys" where
  "remove_folders ps s = fold (\<lambda>p s. snd (fs_remove_dir p s)) ps s"

definition restore :: "planned_file list \<Rightarrow> path list \<Rightarrow> fsys \<Rightarrow> bool \<times> fsys" where
  "restore done' created s = (case restore_files (rev done') True s of (restored, s1) \<Rightarrow> (restored, remove_folders (rev created) s1))"

record commit_failure =
  cf_index :: nat
  cf_path :: path
  cf_error :: io_error
  cf_restored :: bool

text \<open>The hook stands for \<^verbatim>\<open>Fault\<close>, a failure a test injects before a file is written.\<close>

fun commit_loop :: "(nat \<Rightarrow> path \<Rightarrow> io_error option) \<Rightarrow> planned_file list \<Rightarrow> planned_file list \<Rightarrow> path list \<Rightarrow> fsys
    \<Rightarrow> (commit_failure + unit) \<times> fsys" where
  "commit_loop hook done' [] created s = (Inr (), s)"
| "commit_loop hook done' (f # fs) created s =
     (case (case hook (length done') (pf_path f) of Some e \<Rightarrow> (Inl e, created, s) | None \<Rightarrow> apply_file f created s) of
        (Inl e, created1, s1) \<Rightarrow> (case restore (done' @ [f]) created1 s1 of (restored, s2) \<Rightarrow>
          (Inl \<lparr>cf_index = length done', cf_path = pf_path f, cf_error = e, cf_restored = restored\<rparr>, s2))
      | (Inr _, created1, s1) \<Rightarrow> commit_loop hook (done' @ [f]) fs created1 s1)"

definition commit_files :: "(nat \<Rightarrow> path \<Rightarrow> io_error option) \<Rightarrow> planned_file list \<Rightarrow> fsys \<Rightarrow> (commit_failure + unit) \<times> fsys" where
  "commit_files hook files s = commit_loop hook [] files [] s"

subsection \<open>The end of \<open>fs.apply\<close>\<close>

text \<open>After the user has confirmed the plan the files are compared with it once more, their content before
  goes into a snapshot folder, and the batch is written (\<^verbatim>\<open>FsApplyNode::run\<close>).\<close>

datatype apply_error = ApplyStale path | ApplySnapshotFailed | ApplyCommitFailed path | ApplyRestoreFailed path

definition fs_read :: "path \<Rightarrow> fsys \<Rightarrow> byte list io" where
  "fs_read p s = (case os_answer s of (a, s1) \<Rightarrow>
     if a \<noteq> None \<or> is_folder s1 p then (Inl IoOther, s1)
     else (case file_at s1 p of None \<Rightarrow> (Inl IoNotFound, s1) | Some bs \<Rightarrow> (Inr bs, s1)))"

fun unchanged_since_plan :: "planned_file list \<Rightarrow> fsys \<Rightarrow> (apply_error + unit) \<times> fsys" where
  "unchanged_since_plan [] s = (Inr (), s)"
| "unchanged_since_plan (f # fs) s = (case fs_read (pf_path f) s of (r, s1) \<Rightarrow>
     if (case r of Inr bs \<Rightarrow> Some bs | Inl e \<Rightarrow> if e = IoNotFound then None else Some []) \<noteq> pf_before f
     then (Inl (ApplyStale (pf_path f)), s1) else unchanged_since_plan fs s1)"

definition fs_create_dir_all :: "path \<Rightarrow> fsys \<Rightarrow> unit io" where
  "fs_create_dir_all p s = (if is_folder s p then (Inr (), s)
     else (case ensure_folders p [] s of (r, _, s1) \<Rightarrow> (if r = Inr () \<and> \<not> is_folder s1 p then Inl IoOther else r, s1)))"

definition fs_write :: "path \<Rightarrow> byte list \<Rightarrow> fsys \<Rightarrow> unit io" where
  "fs_write p bs s = io_bind (fs_create p s) (\<lambda>_ s1. fs_write_all p bs s1)"

definition MANIFEST :: string where "MANIFEST = ''manifest.json''"

fun snapshot_files :: "path \<Rightarrow> nat \<Rightarrow> planned_file list \<Rightarrow> fsys \<Rightarrow> unit io" where
  "snapshot_files folder index [] s = (Inr (), s)"
| "snapshot_files folder index (f # fs) s = (case pf_before f of
     Some bs \<Rightarrow> io_bind (fs_write (folder @ [decimal index]) bs s) (\<lambda>_ s1. snapshot_files folder (Suc index) fs s1)
   | None \<Rightarrow> snapshot_files folder (Suc index) fs s)"

text \<open>The bytes of the manifest (\<^verbatim>\<open>serde_json\<close>) are an argument.\<close>

definition snapshot :: "(planned_file list \<Rightarrow> byte list) \<Rightarrow> path \<Rightarrow> planned_file list \<Rightarrow> fsys \<Rightarrow> unit io" where
  "snapshot manifest folder files s =
     io_bind (fs_create_dir_all folder s) (\<lambda>_ s1.
     io_bind (snapshot_files folder 0 files s1) (\<lambda>_ s2. fs_write (folder @ [MANIFEST]) (manifest files) s2))"

definition finish_apply :: "(nat \<Rightarrow> path \<Rightarrow> io_error option) \<Rightarrow> (planned_file list \<Rightarrow> byte list) \<Rightarrow> path \<Rightarrow> planned_file list \<Rightarrow> fsys
    \<Rightarrow> (apply_error + unit) \<times> fsys" where
  "finish_apply hook manifest folder files s = (case unchanged_since_plan files s of
     (Inl e, s1) \<Rightarrow> (Inl e, s1)
   | (Inr _, s1) \<Rightarrow> (case snapshot manifest folder files s1 of
       (Inl _, s2) \<Rightarrow> (Inl ApplySnapshotFailed, s2)
     | (Inr _, s2) \<Rightarrow> (case commit_files hook files s2 of
         (Inl cf, s3) \<Rightarrow> (Inl (if cf_restored cf then ApplyCommitFailed (cf_path cf) else ApplyRestoreFailed (cf_path cf)), s3)
       | (Inr _, s3) \<Rightarrow> (Inr (), s3))))"

subsection \<open>What each call leaves alone\<close>

lemma os_answer_frame [simp]:
  "os_answer s = (a, s1) \<Longrightarrow> file_at s1 p = file_at s p" "os_answer s = (a, s1) \<Longrightarrow> is_folder s1 p = is_folder s p"
  by (auto simp: os_answer_def file_at_def is_folder_def split: list.splits)

lemma put_drop_file [simp]:
  "file_at (put_file p bs s) q = (if path_key p = path_key q then Some bs else file_at s q)"
  "file_at (drop_file p s) q = (if path_key p = path_key q then None else file_at s q)"
  by (auto simp: put_file_def drop_file_def file_at_def update_conv' delete_conv')

lemma file_at_more [simp]: "file_at (s\<lparr>fs_next := n\<rparr>) q = file_at s q" "file_at (s\<lparr>fs_dirs := ds\<rparr>) q = file_at s q"
  by (simp_all add: file_at_def)

lemma fs_create_frame: "fs_create p s = (r, s') \<Longrightarrow> path_key q \<noteq> path_key p \<Longrightarrow> file_at s' q = file_at s q"
  by (auto simp: fs_create_def split: prod.splits if_splits)

lemma fs_write_all_frame: "fs_write_all p bs s = (r, s') \<Longrightarrow> path_key q \<noteq> path_key p \<Longrightarrow> file_at s' q = file_at s q"
  by (auto simp: fs_write_all_def split: prod.splits option.splits)

lemma fs_write_all_ok: "fs_write_all p bs s = (Inr u, s') \<Longrightarrow> file_at s' p = Some bs"
  by (auto simp: fs_write_all_def split: prod.splits option.splits)

lemma fs_sync_frame: "fs_sync s = (r, s') \<Longrightarrow> file_at s' q = file_at s q"
  by (auto simp: fs_sync_def split: prod.splits)

lemma fs_rename_frame:
  "fs_rename a b s = (r, s') \<Longrightarrow> path_key q \<noteq> path_key a \<Longrightarrow> file_at s' q = (if r = Inr () \<and> path_key q = path_key b then file_at s a else file_at s q)"
  by (auto simp: fs_rename_def split: prod.splits if_splits option.splits)

lemma fs_remove_file_frame:
  "fs_remove_file p s = (r, s') \<Longrightarrow> file_at s' q = (if r = Inr () \<and> path_key q = path_key p then None else file_at s q)"
  "fs_remove_file p s = (Inl IoNotFound, s') \<Longrightarrow> file_at s p = None"
  by (auto simp: fs_remove_file_def split: prod.splits if_splits)

lemma fs_create_dir_frame: "fs_create_dir p s = (r, s') \<Longrightarrow> file_at s' q = file_at s q"
  by (auto simp: fs_create_dir_def split: prod.splits if_splits)

lemma fs_remove_dir_frame: "file_at (snd (fs_remove_dir p s)) q = file_at s q"
  by (auto simp: fs_remove_dir_def split: prod.splits)

lemma remove_folders_frame: "file_at (remove_folders ps s) q = file_at s q"
  unfolding remove_folders_def by (induction ps arbitrary: s) (simp_all add: fs_remove_dir_frame)

lemma create_folders_frame: "create_folders ps created s = (r, created', s') \<Longrightarrow> file_at s' q = file_at s q"
  by (induction ps created s rule: create_folders.induct) (auto simp: fs_create_dir_frame split: prod.splits sum.splits)

text \<open>A staging file has the mark of one in its name.\<close>

definition is_temporary :: "path \<Rightarrow> bool" where
  "is_temporary p \<longleftrightarrow> p \<noteq> [] \<and> (\<exists>x. last (path_key p) = x @ TEMPORARY)"

lemma is_temporary_key: "path_key q = path_key p \<Longrightarrow> is_temporary q = is_temporary p"
  by (cases p; cases q) (auto simp: is_temporary_def path_key_def)

lemma temporary_is: "temporary p s = (Inr staged, s1) \<Longrightarrow> is_temporary staged \<and> (\<forall>q. file_at s1 q = file_at s q)"
proof -
  have "lower TEMPORARY = TEMPORARY" by code_simp
  moreover have "lower (a @ b) = lower a @ lower b" for a b by (simp add: lower_def)
  ultimately have "\<exists>x. lower (n @ TEMPORARY) = x @ TEMPORARY" for n by simp
  from this [of "''.'' @ last p @ ''.'' @ fs_ids s (fs_next s)"] show "temporary p s = (Inr staged, s1) \<Longrightarrow> is_temporary staged \<and> (\<forall>q. file_at s1 q = file_at s q)"
    by (auto simp: temporary_def is_temporary_def path_key_def split: if_splits)
qed

lemma stage_file_frame:
  assumes "stage_file staged p bs s = (r, s')" "path_key q \<noteq> path_key staged"
  shows "file_at s' q = (if r = Inr () \<and> path_key q = path_key p then Some bs else file_at s q)"
proof (cases "fs_create staged s")
  case c: (Pair r1 s1)
  note f1 = fs_create_frame [OF c assms(2)]
  show ?thesis
  proof (cases r1)
    case (Inl e)
    with assms c f1 show ?thesis by (auto simp: stage_file_def)
  next
    case (Inr u)
    show ?thesis
    proof (cases "fs_write_all staged bs s1")
      case w: (Pair r2 s2)
      note f2 = fs_write_all_frame [OF w assms(2)]
      show ?thesis
      proof (cases r2)
        case (Inl e)
        with assms c w \<open>r1 = Inr u\<close> f1 f2 show ?thesis by (auto simp: stage_file_def)
      next
        case (Inr u2)
        obtain r3 s3 where y: "fs_sync s2 = (r3, s3)" by (cases "fs_sync s2")
        note f3 = fs_sync_frame [OF y]
        have at: "file_at s3 staged = Some bs" using w Inr fs_write_all_ok f3 by auto
        show ?thesis
        proof (cases r3)
          case (Inl e)
          with assms c w y \<open>r1 = Inr u\<close> \<open>r2 = Inr u2\<close> f1 f2 f3 show ?thesis by (auto simp: stage_file_def)
        next
          case (Inr u3)
          with assms c w y \<open>r1 = Inr u\<close> \<open>r2 = Inr u2\<close> have "fs_rename staged p s3 = (r, s')" by (simp add: stage_file_def)
          from fs_rename_frame [OF this assms(2)] at f1 f2 f3 show ?thesis by simp
        qed
      qed
    qed
  qed
qed

lemma replace_file_frame:
  assumes "replace_file p bs s = (r, s')" "\<not> is_temporary q"
  shows "file_at s' q = (if r = Inr () \<and> path_key q = path_key p then Some bs else file_at s q)"
proof (cases "temporary p s")
  case t: (Pair r0 s0)
  show ?thesis
  proof (cases r0)
    case (Inl e)
    with assms t show ?thesis by (auto simp: replace_file_def temporary_def split: if_splits)
  next
    case (Inr staged)
    with t have st: "is_temporary staged" "\<And>q. file_at s0 q = file_at s q" using temporary_is by blast+
    then have nk: "path_key q \<noteq> path_key staged" using assms(2) is_temporary_key by blast
    obtain r1 s1 where g: "stage_file staged p bs s0 = (r1, s1)" by (cases "stage_file staged p bs s0")
    note f = stage_file_frame [OF g nk]
    obtain r2 s2 where m: "fs_remove_file staged s1 = (r2, s2)" by (cases "fs_remove_file staged s1")
    from fs_remove_file_frame(1) [OF m, of q] nk have "file_at s2 q = file_at s1 q" by simp
    with assms t Inr g m f st(2) show ?thesis by (cases r1) (auto simp: replace_file_def)
  qed
qed

lemma apply_file_frame:
  assumes "apply_file f created s = (r, created', s')" "\<not> is_temporary q"
  shows "file_at s' q = (if r = Inr () \<and> path_key q = file_key f then pf_after f else file_at s q)"
proof (cases "pf_after f")
  case None
  obtain r1 s1 where m: "fs_remove_file (pf_path f) s = (r1, s1)" by (cases "fs_remove_file (pf_path f) s")
  with assms(1) None fs_remove_file_frame(1) [OF m, of q] show ?thesis by (auto simp: apply_file_def file_key_def)
next
  case (Some bs)
  obtain r1 c1 s1 where e: "(if pf_path f = [] then (Inr (), created, s) else ensure_folders (butlast (pf_path f)) created s) = (r1, c1, s1)"
    using prod_cases3 by blast
  then have f1: "file_at s1 q = file_at s q" by (auto simp: ensure_folders_def create_folders_frame split: if_splits)
  show ?thesis
  proof (cases r1)
    case (Inl x)
    with assms(1) Some e f1 show ?thesis by (auto simp: apply_file_def)
  next
    case (Inr u)
    obtain r2 s2 where g: "replace_file (pf_path f) bs s1 = (r2, s2)" by (cases "replace_file (pf_path f) bs s1")
    with assms(1) Some e Inr replace_file_frame [OF g assms(2)] f1 show ?thesis by (auto simp: apply_file_def file_key_def)
  qed
qed

lemma restore_file_frame:
  assumes "restore_file f s = (ok, s')" "\<not> is_temporary q"
  shows "path_key q \<noteq> file_key f \<Longrightarrow> file_at s' q = file_at s q" "ok \<Longrightarrow> path_key q = file_key f \<Longrightarrow> file_at s' q = pf_before f"
proof -
  have "(path_key q \<noteq> file_key f \<longrightarrow> file_at s' q = file_at s q) \<and> (ok \<longrightarrow> path_key q = file_key f \<longrightarrow> file_at s' q = pf_before f)"
  proof (cases "pf_before f")
    case None
    obtain r1 s1 where m: "fs_remove_file (pf_path f) s = (r1, s1)" by (cases "fs_remove_file (pf_path f) s")
    have "file_at s (pf_path f) = file_at s q" if "path_key q = file_key f" using that by (simp add: file_at_def file_key_def)
    with assms(1) None m fs_remove_file_frame [of "pf_path f" s] show ?thesis by (auto simp: restore_file_def file_key_def)
  next
    case (Some bs)
    obtain r1 s1 where g: "replace_file (pf_path f) bs s = (r1, s1)" by (cases "replace_file (pf_path f) bs s")
    with assms(1) Some replace_file_frame [OF g assms(2)] show ?thesis by (auto simp: restore_file_def file_key_def)
  qed
  then show "path_key q \<noteq> file_key f \<Longrightarrow> file_at s' q = file_at s q" "ok \<Longrightarrow> path_key q = file_key f \<Longrightarrow> file_at s' q = pf_before f" by blast+
qed

subsection \<open>All or nothing\<close>

definition planned_at :: "planned_file list \<Rightarrow> path \<Rightarrow> planned_file option" where
  "planned_at files p = List.find (\<lambda>f. file_key f = path_key p) files"

lemma planned_at_None: "planned_at files p = None \<longleftrightarrow> path_key p \<notin> file_key ` set files"
  unfolding planned_at_def find_None_all by (metis imageE imageI)

lemma planned_at_Cons: "planned_at (f # fs) q = (if file_key f = path_key q then Some f else planned_at fs q)"
  by (simp add: planned_at_def)

lemma restore_files_True: "restore_files fs restored s = (True, s') \<Longrightarrow> restored"
  by (induction fs restored s rule: restore_files.induct) (auto split: prod.splits)

lemma restore_files_puts_back:
  assumes "restore_files fs restored s = (True, s')" "\<not> is_temporary q"
    and "\<forall>f \<in> set fs. path_key q = file_key f \<longrightarrow> pf_before f = was" "path_key q \<notin> file_key ` set fs \<longrightarrow> file_at s q = was"
  shows "file_at s' q = was \<and> restored"
  using assms
proof (induction fs arbitrary: restored s)
  case (Cons f fs)
  obtain ok s1 where r: "restore_file f s = (ok, s1)" by (cases "restore_file f s")
  with Cons.prems(1) have r': "restore_files fs (restored \<and> ok) s1 = (True, s')" by simp
  then have ok: "restored \<and> ok" by (rule restore_files_True)
  note f = restore_file_frame [OF r Cons.prems(2)]
  show ?case
    using Cons.IH [OF r' Cons.prems(2)] Cons.prems(3,4) ok f by (cases "path_key q = file_key f") auto
qed simp

lemma commit_loop_done:
  assumes "commit_loop hook done' fs created s = (Inr (), s')" "distinct (map file_key fs)" "\<not> is_temporary q"
  shows "file_at s' q = (case planned_at fs q of Some f \<Rightarrow> pf_after f | None \<Rightarrow> file_at s q)"
  using assms
proof (induction fs arbitrary: done' created s)
  case Nil
  then show ?case by (simp add: planned_at_def)
next
  case (Cons f fs)
  then obtain created1 s1 where a: "apply_file f created s = (Inr (), created1, s1)" "commit_loop hook (done' @ [f]) fs created1 s1 = (Inr (), s')"
    by (auto split: option.splits prod.splits sum.splits)
  note f = apply_file_frame [OF a(1) Cons.prems(3)]
  have ih: "file_at s' q = (case planned_at fs q of Some f \<Rightarrow> pf_after f | None \<Rightarrow> file_at s1 q)"
    using Cons.IH [OF a(2)] Cons.prems(2,3) by simp
  show ?case
  proof (cases "file_key f = path_key q")
    case True
    then have "planned_at fs q = None" using Cons.prems(2) by (simp add: planned_at_None)
    with True ih f show ?thesis by (simp add: planned_at_Cons)
  next
    case False
    then have "file_at s1 q = file_at s q" using f by auto
    with False ih show ?thesis by (simp add: planned_at_Cons cong: option.case_cong)
  qed
qed

text \<open>After a failure whose restoring worked a file is as planned before or untouched.\<close>

lemma commit_loop_undone:
  assumes "commit_loop hook done' fs created s = (Inl cf, s')" "cf_restored cf" "\<not> is_temporary q"
    and "\<forall>f \<in> set (done' @ fs). path_key q = file_key f \<longrightarrow> pf_before f = was" "path_key q \<notin> file_key ` set done' \<longrightarrow> file_at s q = is'"
  shows "file_at s' q = was \<and> path_key q \<in> file_key ` set (done' @ fs) \<or> file_at s' q = is'"
  using assms
proof (induction fs arbitrary: done' created s)
  case (Cons f fs)
  let ?step = "case hook (length done') (pf_path f) of Some e \<Rightarrow> (Inl e, created, s) | None \<Rightarrow> apply_file f created s"
  obtain r created1 s1 where st: "?step = (r, created1, s1)" using prod_cases3 by blast
  have f: "path_key q \<noteq> file_key f \<Longrightarrow> file_at s1 q = file_at s q"
    using st apply_file_frame [of f created s r created1 s1, OF _ Cons.prems(3)] by (auto split: option.splits)
  show ?case
  proof (cases r)
    case (Inl e)
    obtain restored s2 where rs: "restore (done' @ [f]) created1 s1 = (restored, s2)" by (cases "restore (done' @ [f]) created1 s1")
    with Cons.prems(1,2) st Inl have "restored" and s': "s' = s2" by auto
    with rs obtain s3 where r3: "restore_files (rev (done' @ [f])) True s1 = (True, s3)" "s' = remove_folders (rev created1) s3"
      by (auto simp: restore_def split: prod.splits)
    let ?in = "path_key q \<in> file_key ` set (done' @ [f])"
    have "file_at s3 q = (if ?in then was else is')"
      using restore_files_puts_back [OF r3(1) Cons.prems(3), of "if ?in then was else is'"] Cons.prems(4,5) f by auto
    then show ?thesis by (auto simp: r3(2) remove_folders_frame)
  next
    case (Inr u)
    with Cons.prems(1) st have "commit_loop hook (done' @ [f]) fs created1 s1 = (Inl cf, s')" by simp
    from Cons.IH [OF this Cons.prems(2,3)] Cons.prems(4,5) f show ?thesis by auto
  qed
qed simp

definition below :: "path \<Rightarrow> path \<Rightarrow> bool" where
  "below folder q \<longleftrightarrow> take (length folder) (path_key q) = path_key folder"

lemma below_append: "path_key q = path_key (folder @ rest) \<Longrightarrow> below folder q"
  by (simp add: below_def path_key_def)

lemma fs_write_frame: "fs_write p bs s = (r, s') \<Longrightarrow> path_key q \<noteq> path_key p \<Longrightarrow> file_at s' q = file_at s q"
proof -
  assume h: "fs_write p bs s = (r, s')" "path_key q \<noteq> path_key p"
  obtain r1 s1 where c: "fs_create p s = (r1, s1)" by (cases "fs_create p s")
  with h fs_create_frame [OF c h(2)] fs_write_all_frame [OF _ h(2), of bs s1] show ?thesis by (cases r1) (auto simp: fs_write_def)
qed

lemma snapshot_files_frame: "snapshot_files folder index files s = (r, s') \<Longrightarrow> \<not> below folder q \<Longrightarrow> file_at s' q = file_at s q"
proof (induction files arbitrary: index s)
  case (Cons f fs)
  have nk: "path_key q \<noteq> path_key (folder @ [decimal index])" using Cons.prems(2) below_append by blast
  show ?case
  proof (cases "pf_before f")
    case None
    with Cons show ?thesis by simp
  next
    case (Some bs)
    obtain r1 s1 where w: "fs_write (folder @ [decimal index]) bs s = (r1, s1)" by (cases "fs_write (folder @ [decimal index]) bs s")
    with Some Cons fs_write_frame [OF w nk] show ?thesis by (cases r1) auto
  qed
qed simp

lemma fs_create_dir_all_frame: "fs_create_dir_all p s = (r, s') \<Longrightarrow> file_at s' q = file_at s q"
  by (auto simp: fs_create_dir_all_def ensure_folders_def create_folders_frame split: if_splits prod.splits)

lemma snapshot_frame:
  assumes "snapshot manifest folder files s = (r, s')" "\<not> below folder q"
  shows "file_at s' q = file_at s q"
proof -
  obtain r1 s1 where c: "fs_create_dir_all folder s = (r1, s1)" by (cases "fs_create_dir_all folder s")
  obtain r2 s2 where w: "snapshot_files folder 0 files s1 = (r2, s2)" by (cases "snapshot_files folder 0 files s1")
  obtain r3 s3 where m: "fs_write (folder @ [MANIFEST]) (manifest files) s2 = (r3, s3)" by (cases "fs_write (folder @ [MANIFEST]) (manifest files) s2")
  have nk: "path_key q \<noteq> path_key (folder @ [MANIFEST])" using assms(2) below_append by blast
  from assms c w m fs_create_dir_all_frame [OF c, of q] snapshot_files_frame [OF w assms(2)] fs_write_frame [OF m nk]
  show ?thesis by (cases r1; cases r2) (auto simp: snapshot_def)
qed

lemma fs_read_frame: "fs_read p s = (r, s') \<Longrightarrow> file_at s' q = file_at s q"
  by (auto simp: fs_read_def split: prod.splits if_splits option.splits)

text \<open>What has passed the comparison is on the disk as planned, unless it was empty when planned: a file
  that cannot be read is taken for an empty one.\<close>

lemma unchanged_frame: "unchanged_since_plan files s = (r, s') \<Longrightarrow> file_at s' q = file_at s q"
  by (induction files s rule: unchanged_since_plan.induct) (auto simp: fs_read_frame split: prod.splits if_splits)

lemma unchanged_is_as_planned:
  "unchanged_since_plan files s = (Inr (), s') \<Longrightarrow> f \<in> set files \<Longrightarrow> pf_before f \<noteq> Some [] \<Longrightarrow> pf_before f = file_at s (pf_path f)"
proof (induction files s rule: unchanged_since_plan.induct)
  case (2 g fs s)
  obtain r s1 where r: "fs_read (pf_path g) s = (r, s1)" by (cases "fs_read (pf_path g) s")
  with 2(2) have u: "unchanged_since_plan fs s1 = (Inr (), s')"
    and c: "(case r of Inr bs \<Rightarrow> Some bs | Inl e \<Rightarrow> if e = IoNotFound then None else Some []) = pf_before g"
    by (auto split: if_splits)
  show ?case
  proof (cases "f = g")
    case True
    with r c 2(4) show ?thesis by (auto simp: fs_read_def split: prod.splits if_splits option.splits)
  next
    case False
    with 2(1) [OF r [symmetric]] c u 2(3,4) fs_read_frame [OF r] show ?thesis by auto
  qed
qed simp

lemma as_planned_or_empty:
  assumes "unchanged_since_plan files s = (Inr (), s1)" "distinct (map file_key files)"
    and "\<And>was. \<forall>f \<in> set files. path_key q = file_key f \<longrightarrow> pf_before f = was
      \<Longrightarrow> x = was \<and> path_key q \<in> file_key ` set files \<or> x = file_at s q"
  shows "x = file_at s q \<or> map_option pf_before (planned_at files q) = Some (Some []) \<and> x = Some []"
proof (cases "planned_at files q")
  case None
  then have "path_key q \<notin> file_key ` set files" by (simp add: planned_at_None)
  with assms(3) [of "file_at s q"] show ?thesis by auto
next
  case (Some f)
  then have f: "f \<in> set files" "file_key f = path_key q" using find_Some_mem unfolding planned_at_def by fastforce+
  have "g = f" if "g \<in> set files" "path_key q = file_key g" for g
    using assms(2) that f by (auto simp: distinct_map dest: inj_onD)
  with assms(3) [of "pf_before f"] have "x = pf_before f \<or> x = file_at s q" by auto
  moreover have "pf_before f = file_at s q" if "pf_before f \<noteq> Some []"
    using unchanged_is_as_planned [OF assms(1) f(1) that] f(2) by (simp add: file_key_def file_at_def)
  ultimately show ?thesis using Some by auto
qed

lemma unreadable_empty_file_passes:
  "unchanged_since_plan [\<lparr>pf_path = [''a''], pf_before = Some [], pf_after = None\<rparr>]
     \<lparr>fs_files = [([''a''], [1, 2])], fs_dirs = [[]], fs_answers = [Some 0], fs_ids = (\<lambda>_. []), fs_next = 0\<rparr>
   = (Inr (), \<lparr>fs_files = [([''a''], [1, 2])], fs_dirs = [[]], fs_answers = [], fs_ids = (\<lambda>_. []), fs_next = 0\<rparr>)"
  by (simp add: fs_read_def os_answer_def)

text \<open>C30: applying a confirmed batch is all or nothing, for every file but the staging files and the snapshot folder, and
  whatever calls the file system refuses. When it succeeds every planned file is in place and nothing else has
  changed. When it fails with any error but the one that says that files could not be restored, no file has changed,
  with one exception: a file that was empty when the batch was planned may come back empty, whatever it holds by now,
  because the comparison takes a file it cannot read for an empty one.\<close>

theorem apply_is_all_or_nothing:
  assumes "finish_apply hook manifest folder files s = (r, s')" "distinct (map file_key files)"
    and "\<not> is_temporary q" "\<not> below folder q"
  shows "case r of
      Inr _ \<Rightarrow> file_at s' q = (case planned_at files q of Some f \<Rightarrow> pf_after f | None \<Rightarrow> file_at s q)
    | Inl (ApplyRestoreFailed _) \<Rightarrow> True
    | Inl _ \<Rightarrow> file_at s' q = file_at s q
        \<or> map_option pf_before (planned_at files q) = Some (Some []) \<and> file_at s' q = Some []"
proof -
  obtain r1 s1 where u: "unchanged_since_plan files s = (r1, s1)" by (cases "unchanged_since_plan files s")
  obtain r2 s2 where n: "snapshot manifest folder files s1 = (r2, s2)" by (cases "snapshot manifest folder files s1")
  obtain r3 s3 where c: "commit_files hook files s2 = (r3, s3)" by (cases "commit_files hook files s2")
  have f1: "file_at s1 q = file_at s q" using unchanged_frame [OF u] .
  have f2: "file_at s2 q = file_at s q" using snapshot_frame [OF n assms(4)] f1 by simp
  consider (stale) e where "r1 = Inl e" | (snapshot) e where "r1 = Inr ()" "r2 = Inl e"
    | (failed) cf where "r1 = Inr ()" "r2 = Inr ()" "r3 = Inl cf" | (written) "r1 = Inr ()" "r2 = Inr ()" "r3 = Inr ()"
    by (cases r1; cases r2; cases r3) auto
  then show ?thesis
  proof cases
    case stale
    with assms(1) u f1 show ?thesis by (auto simp: finish_apply_def split: apply_error.split)
  next
    case snapshot
    with assms(1) u n f2 show ?thesis by (auto simp: finish_apply_def)
  next
    case failed
    have "file_at s3 q = file_at s q \<or> map_option pf_before (planned_at files q) = Some (Some []) \<and> file_at s3 q = Some []" if "cf_restored cf"
    proof (rule as_planned_or_empty [OF _ assms(2)])
      show "unchanged_since_plan files s = (Inr (), s1)" using u failed by simp
      have loop: "commit_loop hook [] files [] s2 = (Inl cf, s3)" using c failed by (simp add: commit_files_def)
      show "file_at s3 q = was \<and> path_key q \<in> file_key ` set files \<or> file_at s3 q = file_at s q"
        if "\<forall>f \<in> set files. path_key q = file_key f \<longrightarrow> pf_before f = was" for was
        using commit_loop_undone [OF loop \<open>cf_restored cf\<close> assms(3), of was "file_at s q"] that f2 by simp
    qed
    with assms(1) u n c failed show ?thesis by (auto simp: finish_apply_def)
  next
    case written
    then have "commit_loop hook [] files [] s2 = (Inr (), s3)" using c by (simp add: commit_files_def)
    from commit_loop_done [OF this assms(2,3)] f2 assms(1) u n c written show ?thesis
      by (auto simp: finish_apply_def cong: option.case_cong)
  qed
qed

definition sample_fs :: fsys where
  "sample_fs = \<lparr>fs_files = [([''a''], [1])], fs_dirs = [[]], fs_answers = [], fs_ids = (\<lambda>_. ''0''), fs_next = 0\<rparr>"

definition sample_file :: planned_file where
  "sample_file = \<lparr>pf_path = [''a''], pf_before = Some [1], pf_after = Some [2]\<rparr>"

lemma sample_applies: "fst (finish_apply (\<lambda>_ _. None) (\<lambda>_. [3]) [''s''] [sample_file] sample_fs) = Inr ()"
  by code_simp

text \<open>The exception: \<^verbatim>\<open>a\<close> was planned empty, holds two bytes by now and cannot be read; writing \<^verbatim>\<open>b\<close> fails, and \<^verbatim>\<open>a\<close> is put back
  as an empty file. The answer says that the batch was not applied and nothing more.\<close>

lemma unread_content_is_lost:
  "case finish_apply (\<lambda>i _. if i = 1 then Some IoOther else None) (\<lambda>_. [3]) [''s'']
      [\<lparr>pf_path = [''a''], pf_before = Some [], pf_after = Some [7]\<rparr>, \<lparr>pf_path = [''b''], pf_before = None, pf_after = Some [8]\<rparr>]
      (sample_fs\<lparr>fs_files := [([''a''], [1, 2])], fs_answers := [Some 0]\<rparr>) of
     (r, s') \<Rightarrow> r = Inl (ApplyCommitFailed [''b'']) \<and> file_at s' [''a''] = Some []"
  by code_simp

lemma apply_is_all_or_nothing_witness:
  "file_at (snd (finish_apply (\<lambda>_ _. None) (\<lambda>_. [3]) [''s''] [sample_file] sample_fs)) [''a''] = Some [2]"
proof -
  let ?run = "finish_apply (\<lambda>_ _. None) (\<lambda>_. [3]) [''s''] [sample_file] sample_fs"
  have r: "?run = (Inr (), snd ?run)" using sample_applies by (metis prod.collapse)
  have "\<not> is_temporary [''a'']"
    by (auto simp: is_temporary_def TEMPORARY_def dest: arg_cong [of _ _ length])
  moreover have "\<not> below [''s''] [''a'']" by code_simp
  ultimately show ?thesis
    using apply_is_all_or_nothing [OF r, of "[''a'']"] by (simp add: sample_file_def planned_at_def file_key_def)
qed

text \<open>The folders a batch has created are removed only after the files are put back: a file that was
  deleted and whose name a new folder has taken cannot come back, and its content is lost to the disk
  (the snapshot still has it). The order of the plan makes such a batch when the file is deleted first.\<close>

lemma rollback_loses_a_file_that_became_a_folder:
  "case commit_files (\<lambda>i _. if i = 2 then Some IoOther else None)
      [\<lparr>pf_path = [''a''], pf_before = Some [1], pf_after = None\<rparr>,
       \<lparr>pf_path = [''a'', ''b''], pf_before = None, pf_after = Some [2]\<rparr>,
       \<lparr>pf_path = [''c''], pf_before = None, pf_after = Some [3]\<rparr>] sample_fs of
     (Inl cf, s') \<Rightarrow> \<not> cf_restored cf \<and> file_at s' [''a''] = None
   | (Inr _, _) \<Rightarrow> False"
  by code_simp

subsection \<open>From the changes to the disk\<close>

definition disk_of :: "fsys \<Rightarrow> disk" where
  "disk_of s p = (if is_folder s p then Inl ReadIsFolder else Inr (file_at s p))"

lemma disk_of_names: "names_by_key (disk_of s)"
  by (simp add: names_by_key_def disk_of_def is_folder_def file_at_def)

lemma ov_order_start: "ov_order overlay_start = []"
  by (simp add: overlay_start_def)

lemma planned_at_plan_of:
  assumes "ov_sound disk ov" "planned_at (fp_files (plan_of ov)) q = Some f"
  shows "pf_after f = written (ov_view disk ov (path_key q))"
proof -
  have f: "f \<in> set (fp_files (plan_of ov))" "file_key f = path_key q"
    using assms(2) find_Some_mem unfolding planned_at_def by fastforce+
  then obtain k where k: "k \<in> set (ov_order ov)" "f = fst (final_of ov k)" by (auto simp: mem_files)
  with final_of_sound [OF assms(1) k(1)] f(2) show ?thesis by (simp add: file_key_def)
qed

text \<open>C31: a batch that is planned, confirmed and applied leaves each of its files as running the changes in
  turn on the disk of the planning would, and every other file as it is: planning, comparison, snapshot
  and commit together implement the batch. Whatever has changed meanwhile, no planned file had.\<close>

theorem applied_batch_is_the_changes_in_turn:
  assumes "plan_changes (disk_of s0) chs = Inr pl" "finish_apply hook manifest folder (fp_files pl) s = (Inr (), s')"
    and "\<not> is_temporary q" "\<not> below folder q"
  shows "\<exists>v. run_changes 0 chs (disk_view (disk_of s0)) = Inr v
    \<and> file_at s' q = (if path_key q \<in> file_key ` set (fp_files pl) then written (v (path_key q)) else file_at s q)
    \<and> file_key ` set (fp_files pl) \<subseteq> (\<Union>ch \<in> set chs. targets ch)"
proof -
  obtain ov where ov: "ov_sound (disk_of s0) ov" "pl = plan_of ov" "overlay_run (disk_of s0) 0 chs overlay_start = Inr ov"
    using plan_changes_sound [OF disk_of_names assms(1)] by blast
  have v: "run_changes 0 chs (disk_view (disk_of s0)) = Inr (ov_view (disk_of s0) ov)" "set (ov_order ov) = (\<Union>ch \<in> set chs. targets ch)"
    using overlay_run_refines [OF disk_of_names ov_sound_start, of s0 chs 0] ov(3) by (simp_all add: refines_def ov_view_start ov_order_start)
  have t: "file_key ` set (fp_files pl) \<subseteq> (\<Union>ch \<in> set chs. targets ch)"
  proof
    fix k assume "k \<in> file_key ` set (fp_files pl)"
    then obtain k' where "k' \<in> set (ov_order ov)" "k = file_key (fst (final_of ov k'))" by (auto simp: ov(2) mem_files)
    with final_of_sound(1) [OF ov(1)] v(2) show "k \<in> (\<Union>ch \<in> set chs. targets ch)" by (simp add: file_key_def)
  qed
  obtain s1 s2 where c: "unchanged_since_plan (fp_files pl) s = (Inr (), s1)" "snapshot manifest folder (fp_files pl) s1 = (Inr (), s2)"
    "commit_files hook (fp_files pl) s2 = (Inr (), s')"
    using assms(2) by (auto simp: finish_apply_def split: prod.splits sum.splits)
  have "file_at s2 q = file_at s q" using snapshot_frame [OF c(2) assms(4)] unchanged_frame [OF c(1)] by simp
  with commit_loop_done [OF c(3) [unfolded commit_files_def] _ assms(3)] file_keys_distinct [OF ov(1)]
  have "file_at s' q = (case planned_at (fp_files pl) q of Some f \<Rightarrow> pf_after f | None \<Rightarrow> file_at s q)"
    by (simp add: ov(2) cong: option.case_cong)
  also have "\<dots> = (if path_key q \<in> file_key ` set (fp_files pl) then written (ov_view (disk_of s0) ov (path_key q)) else file_at s q)"
    using planned_at_plan_of [OF ov(1)] planned_at_None [of "fp_files pl" q] by (auto simp: ov(2) split: option.split)
  finally show ?thesis using v(1) t by blast
qed

definition sample_change :: "file_change list" where
  "sample_change = [ChWrite [''a''] [98]]"

definition sample_written :: planned_file where
  "sample_written = \<lparr>pf_path = [''a''], pf_before = Some [1], pf_after = Some [98]\<rparr>"

lemma sample_decodes_one: "decode_file [1] = DText [1] \<lparr>tf_bom = False, tf_crlf = False\<rparr>"
  using decode_body_bytes [of "[1]" False] by (simp add: decode_file_def BOM_def scalar_def char_bytes_def as_bytes_simps BINARY_PROBE_def)

lemma sample_plans: "\<exists>pl. plan_changes (disk_of sample_fs) sample_change = Inr pl \<and> fp_files pl = [sample_written]"
proof -
  have "disk_of sample_fs [''a''] = Inr (Some [1])" by (simp add: disk_of_def sample_fs_def is_folder_def file_at_def)
  then show ?thesis
    by (simp add: plan_changes_def sample_change_def overlay_apply_def overlay_slot_def overlay_stored_def overlay_start_def slot_of_def
      sample_decodes_one overlay_set_def overlay_touch_def plan_of_def finals_def final_of_def encode_file_def normalize_text_def as_bytes_simps
      char_bytes_def sample_written_def Let_def u_replace.simps u_starts_def CRLF_def)
qed

lemma sample_finishes: "fst (finish_apply (\<lambda>_ _. None) (\<lambda>_. [3]) [''s''] [sample_written] sample_fs) = Inr ()"
  by code_simp

lemma applied_batch_is_the_changes_in_turn_witness:
  "\<exists>v. run_changes 0 sample_change (disk_view (disk_of sample_fs)) = Inr v
     \<and> file_at (snd (finish_apply (\<lambda>_ _. None) (\<lambda>_. [3]) [''s''] [sample_written] sample_fs)) [''a''] = written (v [''a''])"
proof -
  let ?run = "finish_apply (\<lambda>_ _. None) (\<lambda>_. [3]) [''s''] [sample_written] sample_fs"
  obtain pl where pl: "plan_changes (disk_of sample_fs) sample_change = Inr pl" "fp_files pl = [sample_written]" using sample_plans by blast
  have r: "finish_apply (\<lambda>_ _. None) (\<lambda>_. [3]) [''s''] (fp_files pl) sample_fs = (Inr (), snd ?run)"
    using sample_finishes pl(2) by (metis prod.collapse)
  have t: "\<not> is_temporary [''a'']" by (auto simp: is_temporary_def TEMPORARY_def dest: arg_cong [of _ _ length])
  have b: "\<not> below [''s''] [''a'']" by code_simp
  from applied_batch_is_the_changes_in_turn [OF pl(1) r t b] pl(2) show ?thesis
    by (auto simp: sample_written_def file_key_def)
qed

end
