(* ===== verification/FileRead.thy ===== *)
theory FileRead
  imports FilePlan ChunkText
begin

text \<open>
  Reading before changing: the ledger of what each run has read (\<^verbatim>\<open>files/ledger.rs\<close>), the reading of one
  file with its budget (\<^verbatim>\<open>read_one\<close> of \<^verbatim>\<open>files/nodes.rs\<close>), and the check of a plan against the ledger
  (\<^verbatim>\<open>check_fresh\<close>). The hash of a content is an argument.

  \<open>Ledger\<close>: the runs with their hashes, the one used last at the end; the oldest goes when a run comes to a
  full ledger. \<open>ledger_is_recent\<close> says which runs are there, \<open>hash_is_the_last_record\<close> what an entry means.
  \<open>unread_content_survives\<close> puts both together with the plan and the calls of \<^verbatim>\<open>fs.read\<close> and \<^verbatim>\<open>fs.apply\<close> before it.
\<close>

subsection \<open>The ledger\<close>

definition LEDGER_RUNS :: nat where "LEDGER_RUNS = 64"

type_synonym ledger = "(string \<times> (path_key \<times> string) list) list"

definition ledger_new :: ledger where "ledger_new = []"

definition ledger_entry :: "ledger \<Rightarrow> string \<Rightarrow> (path_key \<times> string) list option" where
  "ledger_entry l run = map_of l run"

definition ledger_record :: "string \<Rightarrow> path \<Rightarrow> string \<Rightarrow> ledger \<Rightarrow> ledger" where
  "ledger_record run p h l =
     (let l1 = (case ledger_entry l run of
          Some hashes \<Rightarrow> AList.delete run l @ [(run, hashes)]
        | None \<Rightarrow> (if LEDGER_RUNS \<le> length l then tl l else l) @ [(run, [])]) in
      butlast l1 @ [(fst (last l1), AList.update (path_key p) h (snd (last l1)))])"

definition ledger_hash :: "string \<Rightarrow> path \<Rightarrow> ledger \<Rightarrow> string option" where
  "ledger_hash run p l = (case ledger_entry l run of None \<Rightarrow> None | Some hashes \<Rightarrow> map_of hashes (path_key p))"

definition ledger_forget :: "string \<Rightarrow> path \<Rightarrow> ledger \<Rightarrow> ledger" where
  "ledger_forget run p l = AList.map_entry run (AList.delete (path_key p)) l"

datatype ledger_op = LRecord string path string | LForget string path

definition ledger_step :: "ledger_op \<Rightarrow> ledger \<Rightarrow> ledger" where
  "ledger_step cmd l = (case cmd of LRecord run p h \<Rightarrow> ledger_record run p h l | LForget run p \<Rightarrow> ledger_forget run p l)"

definition ledger_run :: "ledger_op list \<Rightarrow> ledger" where
  "ledger_run cmds = fold ledger_step cmds ledger_new"

text \<open>A recorded run stands last, with the new hash.\<close>

lemma ledger_record_eq:
  "ledger_record run p h l = (case ledger_entry l run of
      Some hashes \<Rightarrow> AList.delete run l @ [(run, AList.update (path_key p) h hashes)]
    | None \<Rightarrow> (if LEDGER_RUNS \<le> length l then tl l else l) @ [(run, AList.update (path_key p) h [])])"
  by (simp add: ledger_record_def Let_def split: option.split)

definition runs_of :: "ledger_op list \<Rightarrow> string list" where
  "runs_of cmds = List.map_filter (\<lambda>cmd. case cmd of LRecord run _ _ \<Rightarrow> Some run | LForget _ _ \<Rightarrow> None) cmds"

definition last_n :: "nat \<Rightarrow> 'a list \<Rightarrow> 'a list" where
  "last_n n xs = drop (length xs - n) xs"

lemma runs_of_snoc: "runs_of (cmds @ [cmd]) = runs_of cmds @ (case cmd of LRecord run _ _ \<Rightarrow> [run] | LForget _ _ \<Rightarrow> [])"
  by (auto simp: runs_of_def List.map_filter_def split: ledger_op.split)

lemma ledger_forget_keys: "map fst (ledger_forget run p l) = map fst l"
  by (simp add: ledger_forget_def dom_map_entry) (induction l; auto)

lemma remdups_snoc: "remdups (xs @ [x]) = filter (\<lambda>y. y \<noteq> x) (remdups xs) @ [x]"
  by (induction xs) auto

lemma keys_delete: "map fst (AList.delete k l) = filter (\<lambda>y. y \<noteq> k) (map fst l)"
  by (induction l) auto

lemma ledger_record_keys:
  "map fst (ledger_record run p h l) =
     (if run \<in> set (map fst l) then filter (\<lambda>y. y \<noteq> run) (map fst l) else if LEDGER_RUNS \<le> length l then tl (map fst l) else map fst l) @ [run]"
proof (cases "map_of l run")
  case None
  then have "run \<notin> set (map fst l)" by (simp add: map_of_eq_None_iff)
  with None show ?thesis by (simp add: ledger_record_eq ledger_entry_def map_tl)
next
  case (Some hs)
  then have "run \<in> set (map fst l)" by (metis domI dom_map_of_conv_image_fst list.set_map)
  with Some show ?thesis by (simp add: ledger_record_eq ledger_entry_def keys_delete)
qed

lemma last_n_simps: "length xs \<le> n \<Longrightarrow> last_n n xs = xs" "length ys = n \<Longrightarrow> last_n n (xs @ ys) = ys" "length (last_n n xs) \<le> n"
  by (simp_all add: last_n_def)

lemma last_n_split: obtains a where "xs = a @ last_n n xs" "a = [] \<or> length (last_n n xs) = n"
proof
  show "xs = take (length xs - n) xs @ last_n n xs" by (simp add: last_n_def)
  show "take (length xs - n) xs = [] \<or> length (last_n n xs) = n" by (auto simp: last_n_def)
qed

lemma filter_one_out: "distinct k \<Longrightarrow> x \<in> set k \<Longrightarrow> Suc (length (filter (\<lambda>y. y \<noteq> x) k)) = length k"
  by (induction k) (auto simp: filter_id_conv intro: arg_cong [of _ _ length])

lemma last_n_moved:
  assumes "distinct r" "k = last_n n r" "0 < n"
  shows "(if x \<in> set k then filter (\<lambda>y. y \<noteq> x) k else if n \<le> length k then tl k else k) @ [x]
    = last_n n (filter (\<lambda>y. y \<noteq> x) r @ [x])"
proof -
  obtain a where r: "r = a @ k" "a = [] \<or> length k = n" using last_n_split [of r n] assms(2) by metis
  have kn: "length k \<le> n" using assms(2) by (simp add: last_n_simps)
  show ?thesis
  proof (cases "x \<in> set k")
    case True
    then have l: "Suc (length (filter (\<lambda>y. y \<noteq> x) k)) = length k" using assms(1) r(1) by (intro filter_one_out) auto
    have "last_n n ((filter (\<lambda>y. y \<noteq> x) a) @ (filter (\<lambda>y. y \<noteq> x) k @ [x])) = filter (\<lambda>y. y \<noteq> x) k @ [x]"
    proof (cases "a = []")
      case False
      with r(2) l have "length (filter (\<lambda>y. y \<noteq> x) k @ [x]) = n" by simp
      then show ?thesis by (rule last_n_simps)
    qed (use l kn in \<open>simp add: last_n_simps\<close>)
    with True show ?thesis by (simp add: r(1))
  next
    case False
    then have f: "filter (\<lambda>y. y \<noteq> x) k = k" by (auto simp: filter_id_conv)
    show ?thesis
    proof (cases "n \<le> length k")
      case True
      with kn assms(3) have "k \<noteq> []" "length (tl k @ [x]) = n" by auto
      then have "last_n n ((filter (\<lambda>y. y \<noteq> x) a @ [hd k]) @ (tl k @ [x])) = tl k @ [x]" by (intro last_n_simps(2))
      moreover have "(filter (\<lambda>y. y \<noteq> x) a @ [hd k]) @ (tl k @ [x]) = filter (\<lambda>y. y \<noteq> x) a @ k @ [x]" using \<open>k \<noteq> []\<close> by simp
      ultimately have "last_n n (filter (\<lambda>y. y \<noteq> x) a @ k @ [x]) = tl k @ [x]" by metis
      then show ?thesis using False True by (simp add: r(1) f)
    next
      case short: False
      with r(2) kn have "a = []" by auto
      with short False show ?thesis by (simp add: r(1) f last_n_simps)
    qed
  qed
qed

text \<open>The ledger holds the runs that recorded last, in that order, at most \<open>LEDGER_RUNS\<close> of them.\<close>

lemma ledger_is_recent: "map fst (ledger_run cmds) = last_n LEDGER_RUNS (remdups (runs_of cmds))"
proof (induction cmds rule: rev_induct)
  case Nil
  then show ?case by (simp add: ledger_run_def ledger_new_def runs_of_def last_n_def List.map_filter_def)
next
  case (snoc cmd cmds)
  show ?case
  proof (cases cmd)
    case (LRecord run p h)
    have "map fst (ledger_run (cmds @ [cmd])) = map fst (ledger_record run p h (ledger_run cmds))"
      by (simp add: ledger_run_def ledger_step_def LRecord)
    also have "\<dots> = last_n LEDGER_RUNS (filter (\<lambda>y. y \<noteq> run) (remdups (runs_of cmds)) @ [run])"
      unfolding ledger_record_keys
      by (rule last_n_moved [OF distinct_remdups snoc, unfolded length_map]) (simp add: LEDGER_RUNS_def)
    also have "\<dots> = last_n LEDGER_RUNS (remdups (runs_of (cmds @ [cmd])))"
      by (simp only: runs_of_snoc remdups_snoc LRecord ledger_op.case)
    finally show ?thesis .
  next
    case (LForget run p)
    have "map fst (ledger_run (cmds @ [cmd])) = map fst (ledger_forget run p (ledger_run cmds))"
      by (simp add: ledger_run_def ledger_step_def LForget)
    with snoc show ?thesis by (simp add: LForget ledger_forget_keys runs_of_snoc)
  qed
qed

text \<open>An entry is what the run last recorded for the path, and the run has not forgotten it since.\<close>

definition last_word :: "string \<Rightarrow> path_key \<Rightarrow> ledger_op list \<Rightarrow> string option" where
  "last_word run k cmds = fold (\<lambda>cmd w. case cmd of
     LRecord r p h \<Rightarrow> if r = run \<and> path_key p = k then Some h else w
   | LForget r p \<Rightarrow> if r = run \<and> path_key p = k then None else w) cmds None"

lemma ledger_distinct: "distinct (map fst (ledger_run cmds))"
  unfolding ledger_is_recent by (simp add: last_n_def)

lemma map_of_tl: "distinct (map fst l) \<Longrightarrow> map_of (tl l) k = Some v \<Longrightarrow> map_of l k = Some v"
  by (cases l) (force dest: map_of_SomeD)+

lemma ledger_hash_record:
  assumes "distinct (map fst l)" "ledger_hash r q (ledger_record run p h l) = Some g"
  shows "(r = run \<and> path_key q = path_key p \<and> g = h) \<or> (\<not> (r = run \<and> path_key q = path_key p) \<and> ledger_hash r q l = Some g)"
proof (cases "ledger_entry l run")
  case None
  let ?l = "if LEDGER_RUNS \<le> length l then tl l else l"
  have n: "map_of ?l run = None"
  proof (cases "map_of ?l run")
    case (Some v)
    then have "map_of l run = Some v" using map_of_tl [OF assms(1)] by (auto split: if_splits)
    with None show ?thesis by (simp add: ledger_entry_def)
  qed
  have r: "ledger_record run p h l = ?l @ [(run, AList.update (path_key p) h [])]" by (simp add: ledger_record_eq None)
  have t: "map_of ?l r = Some hs \<Longrightarrow> map_of l r = Some hs" for hs using map_of_tl [OF assms(1)] by (auto split: if_splits)
  show ?thesis
  proof (cases "r = run")
    case True
    with n have "ledger_entry (ledger_record run p h l) r = Some (AList.update (path_key p) h [])"
      unfolding r ledger_entry_def by (auto simp: map_add_def)
    with assms(2) True show ?thesis by (simp add: ledger_hash_def split: if_splits)
  next
    case False
    then have "ledger_entry (ledger_record run p h l) r = map_of ?l r"
      unfolding r ledger_entry_def by (auto simp: map_add_def split: option.split)
    with assms(2) obtain hs where "map_of ?l r = Some hs" "map_of hs (path_key q) = Some g"
      unfolding ledger_hash_def by (auto split: option.splits)
    with t [of hs] False show ?thesis by (simp add: ledger_hash_def ledger_entry_def)
  qed
next
  case (Some hs)
  then have r: "ledger_record run p h l = AList.delete run l @ [(run, AList.update (path_key p) h hs)]" by (simp add: ledger_record_eq)
  show ?thesis
  proof (cases "r = run")
    case True
    then have "ledger_entry (ledger_record run p h l) r = Some (AList.update (path_key p) h hs)"
      unfolding r ledger_entry_def by (simp add: map_add_def delete_conv')
    with assms(2) Some True show ?thesis by (auto simp: ledger_hash_def update_conv' split: if_splits)
  next
    case False
    then have "ledger_entry (ledger_record run p h l) r = ledger_entry l r"
      unfolding r ledger_entry_def by (simp add: map_add_def delete_conv' split: option.split)
    with assms(2) False show ?thesis by (simp add: ledger_hash_def)
  qed
qed

lemma ledger_hash_forget:
  "ledger_hash r q (ledger_forget run p l) = (if r = run \<and> path_key q = path_key p then None else ledger_hash r q l)"
  by (auto simp: ledger_hash_def ledger_entry_def ledger_forget_def map_of_map_entry delete_conv' split: option.splits)

lemma last_word_snoc: "last_word run k (cmds @ [cmd]) = (case cmd of
     LRecord r q h \<Rightarrow> if r = run \<and> path_key q = k then Some h else last_word run k cmds
   | LForget r q \<Rightarrow> if r = run \<and> path_key q = k then None else last_word run k cmds)"
  by (cases cmd) (simp_all add: last_word_def)

lemma hash_is_the_last_record: "ledger_hash run p (ledger_run cmds) = Some h \<Longrightarrow> last_word run (path_key p) cmds = Some h"
proof (induction cmds arbitrary: h rule: rev_induct)
  case Nil
  then show ?case by (simp add: ledger_run_def ledger_new_def ledger_hash_def ledger_entry_def)
next
  case (snoc cmd cmds)
  have l: "ledger_run (cmds @ [cmd]) = ledger_step cmd (ledger_run cmds)" by (simp add: ledger_run_def)
  show ?case
  proof (cases cmd)
    case (LRecord r q g)
    with snoc(2) have "ledger_hash run p (ledger_record r q g (ledger_run cmds)) = Some h"
      unfolding l by (simp add: ledger_step_def)
    from ledger_hash_record [OF ledger_distinct this] snoc(1) show ?thesis unfolding last_word_snoc LRecord by auto
  next
    case (LForget r q)
    with snoc(2) have "ledger_hash run p (ledger_forget r q (ledger_run cmds)) = Some h"
      unfolding l by (simp add: ledger_step_def)
    with snoc(1) show ?thesis unfolding last_word_snoc LForget by (auto simp: ledger_hash_forget split: if_splits)
  qed
qed

subsection \<open>The check of a plan against the ledger\<close>

definition NOT_READ :: string where "NOT_READ = ''NOT_READ''"
definition STALE :: string where "STALE = ''STALE''"

text \<open>\<^verbatim>\<open>Path::starts_with\<close> compares whole names.\<close>

definition path_starts_with :: "path \<Rightarrow> path \<Rightarrow> bool" where
  "path_starts_with p base \<longleftrightarrow> take (length base) p = base"

fun check_fresh_loop :: "(byte list \<Rightarrow> string) \<Rightarrow> planned_file list \<Rightarrow> ledger \<Rightarrow> string \<Rightarrow> path list \<Rightarrow> path list \<Rightarrow> (string \<times> path) + unit" where
  "check_fresh_loop hash files l run exempt [] = Inr ()"
| "check_fresh_loop hash files l run exempt (p # ps) =
     (if list_ex (path_starts_with p) exempt then check_fresh_loop hash files l run exempt ps
      else case Option.bind (List.find (\<lambda>f. pf_path f = p) files) pf_before of
        None \<Rightarrow> check_fresh_loop hash files l run exempt ps
      | Some before \<Rightarrow> (case ledger_hash run p l of
          None \<Rightarrow> Inl (NOT_READ, p)
        | Some h \<Rightarrow> if h \<noteq> hash before then Inl (STALE, p) else check_fresh_loop hash files l run exempt ps))"

definition check_fresh :: "(byte list \<Rightarrow> string) \<Rightarrow> file_plan \<Rightarrow> ledger \<Rightarrow> string \<Rightarrow> path list \<Rightarrow> (string \<times> path) + unit" where
  "check_fresh hash pl l run exempt = check_fresh_loop hash (fp_files pl) l run exempt (fp_fresh pl)"

text \<open>What the run knows after a batch it has applied.\<close>

definition ledger_after_apply :: "(byte list \<Rightarrow> string) \<Rightarrow> string \<Rightarrow> planned_file list \<Rightarrow> ledger \<Rightarrow> ledger" where
  "ledger_after_apply hash run files l = fold (\<lambda>f. ledger_step (case pf_after f of
     Some bytes \<Rightarrow> LRecord run (pf_path f) (hash bytes) | None \<Rightarrow> LForget run (pf_path f))) files l"

lemma check_fresh_loop_iff:
  "check_fresh_loop hash files l run exempt ps = Inr () \<longleftrightarrow>
     (\<forall>p \<in> set ps. list_ex (path_starts_with p) exempt \<or>
        (case Option.bind (List.find (\<lambda>f. pf_path f = p) files) pf_before of None \<Rightarrow> True
         | Some before \<Rightarrow> ledger_hash run p l = Some (hash before)))"
  by (induction ps) (auto split: option.split if_split)

lemma find_by_path: "distinct (map file_key files) \<Longrightarrow> f \<in> set files \<Longrightarrow> List.find (\<lambda>g. pf_path g = pf_path f) files = Some f"
proof (induction files)
  case (Cons g files)
  then show ?case by (cases "g = f") (auto simp: file_key_def image_iff)
qed simp

definition known_batch :: "file_change list" where
  "known_batch = [ChWrite [''a''] [98]]"

definition known_plan :: file_plan where
  "known_plan = projr (plan_changes sample_disk known_batch)"

lemma known_plan: "plan_changes sample_disk known_batch = Inr known_plan"
  "fp_files known_plan = [\<lparr>pf_path = [''a''], pf_before = Some (as_bytes [97]), pf_after = Some (as_bytes [98])\<rparr>]"
  "fp_fresh known_plan = [[''a'']]"
  by (simp_all add: known_plan_def plan_changes_def known_batch_def overlay_apply_def overlay_slot_def overlay_stored_def overlay_start_def
      slot_of_def sample_disk_def sample_decodes overlay_set_def overlay_touch_def plan_of_def finals_def final_of_def encode_file_def
      as_bytes_inj scalar_def Let_def List.map_filter_simps Collect_conv_if)

subsection \<open>Reading a file\<close>

definition READ_FILE_CHARS :: nat where "READ_FILE_CHARS = 20000"
definition READ_TOTAL_CHARS :: nat where "READ_TOTAL_CHARS = 60000"
definition READ_MAX_BYTES :: nat where "READ_MAX_BYTES = 8 * 1024 * 1024"

text \<open>\<^verbatim>\<open>(?i)<(/?)(file|listing|matches)\<close>; the long s also matches \<^verbatim>\<open>s\<close> when case is ignored.\<close>

definition fence_word_eq :: "nat \<Rightarrow> nat \<Rightarrow> bool" where
  "fence_word_eq w c \<longleftrightarrow> c = w \<or> c + 32 = w \<or> (w = 115 \<and> c = 383)"

definition FENCE_WORDS :: "utext list" where
  "FENCE_WORDS = [[102, 105, 108, 101], [108, 105, 115, 116, 105, 110, 103], [109, 97, 116, 99, 104, 101, 115]]"

definition word_ahead :: "utext \<Rightarrow> utext \<Rightarrow> bool" where
  "word_ahead t w \<longleftrightarrow> list_all2 fence_word_eq w (take (length w) t)"

definition fence_ahead :: "utext \<Rightarrow> bool" where
  "fence_ahead t \<longleftrightarrow> list_ex (word_ahead t) FENCE_WORDS"

fun fenced_text :: "utext \<Rightarrow> utext" where
  "fenced_text [] = []"
| "fenced_text (c # cs) =
     (if c = 60 then
        (case cs of
           [] \<Rightarrow> [60]
         | d # ds \<Rightarrow>
             if d = 47 \<and> fence_ahead ds then 60 # 47 # 32 # fenced_text ds
             else if fence_ahead cs then 60 # 32 # fenced_text cs
             else 60 # fenced_text cs)
      else c # fenced_text cs)"

record read_target =
  rt_start :: "nat option"
  rt_end :: "nat option"

record read_file =
  rf_path :: path
  rf_status :: string
  rf_lines :: nat
  rf_truncated :: bool

text \<open>A section of the answer; \<^verbatim>\<open>SecLines\<close> has the first and the last line shown, the number of lines, the
  fenced body and whether the note on where to continue follows.\<close>

datatype read_section =
    SecNotFound path
  | SecFolder path
  | SecTooLarge path nat
  | SecUnreadable path
  | SecBinary path nat
  | SecNoLines path nat
  | SecNotShown path nat
  | SecLines path nat nat nat utext bool

definition read_entry :: "path \<Rightarrow> string \<Rightarrow> nat \<Rightarrow> bool \<Rightarrow> read_file" where
  "read_entry p st n truncated = \<lparr>rf_path = p, rf_status = st, rf_lines = n, rf_truncated = truncated\<rparr>"

fun body_loop :: "nat \<Rightarrow> nat \<Rightarrow> utext list \<Rightarrow> nat \<Rightarrow> utext \<Rightarrow> nat \<times> utext" where
  "body_loop allowance start [] latest body = (latest, body)"
| "body_loop allowance start (line # ls) latest body =
     (if allowance < text_bytes body + text_bytes line + 1 \<and> start \<le> latest then (latest, body)
      else body_loop allowance start ls (Suc latest) (body @ u_js_slice line (allowance - text_bytes body) @ [10]))"

text \<open>What the operating system tells of a path (whether it is a folder, its length) and its content.\<close>

record file_source =
  fso_metadata :: "path \<Rightarrow> (bool \<times> nat) option"
  fso_read :: "path \<Rightarrow> byte list option"

text \<open>\<^verbatim>\<open>read_one\<close>: the section, the entry, the rest of the budget and the ledger.\<close>

definition read_text :: "path \<Rightarrow> read_target \<Rightarrow> nat \<Rightarrow> utext \<Rightarrow> read_section \<times> read_file \<times> nat" where
  "read_text p req remaining t =
     (let ls = split_lines t; total = length ls;
          start = (case rt_start req of Some n \<Rightarrow> n | None \<Rightarrow> 1);
          stop = min (case rt_end req of Some n \<Rightarrow> n | None \<Rightarrow> total) total in
      if total = 0 \<or> total < start then (SecNoLines p total, read_entry p ''read'' total False, remaining)
      else let allowance = min READ_FILE_CHARS remaining in
        if allowance = 0 then (SecNotShown p total, read_entry p ''read'' total True, remaining)
        else (case body_loop allowance start (take (stop - (start - 1)) (drop (start - 1) ls)) (start - 1) [] of (latest, body) \<Rightarrow>
          (SecLines p start latest total (fenced_text body) (latest < stop), read_entry p ''read'' total (latest < stop),
           remaining - text_bytes body)))"

definition read_one :: "(byte list \<Rightarrow> string) \<Rightarrow> file_source \<Rightarrow> string \<Rightarrow> path \<Rightarrow> read_target \<Rightarrow> nat \<Rightarrow> ledger
    \<Rightarrow> (read_section \<times> read_file) \<times> nat \<times> ledger" where
  "read_one hash src run p req remaining l =
     (case fso_metadata src p of
        None \<Rightarrow> ((SecNotFound p, read_entry p ''missing'' 0 False), remaining, l)
      | Some (folder, len) \<Rightarrow>
          if folder then ((SecFolder p, read_entry p ''folder'' 0 False), remaining, l)
          else if READ_MAX_BYTES < len then ((SecTooLarge p len, read_entry p ''tooLarge'' 0 False), remaining, l)
          else (case fso_read src p of
              None \<Rightarrow> ((SecUnreadable p, read_entry p ''unreadable'' 0 False), remaining, l)
            | Some bytes \<Rightarrow> (case decode_file bytes of
                DBinary \<Rightarrow> ((SecBinary p (length bytes), read_entry p ''binary'' 0 False), remaining, l)
              | DText t _ \<Rightarrow> (case read_text p req remaining t of (sec, entry, remaining') \<Rightarrow>
                  ((sec, entry), remaining', ledger_record run p (hash bytes) l)))))"

text \<open>\<^verbatim>\<open>FsReadNode::run\<close> on the paths to be read as text: one budget for the call.\<close>

fun read_all :: "(byte list \<Rightarrow> string) \<Rightarrow> file_source \<Rightarrow> string \<Rightarrow> (path \<times> read_target) list \<Rightarrow> nat \<Rightarrow> ledger
    \<Rightarrow> (read_section \<times> read_file) list \<times> nat \<times> ledger" where
  "read_all hash src run [] remaining l = ([], remaining, l)"
| "read_all hash src run ((p, req) # rest) remaining l =
     (case read_one hash src run p req remaining l of (answer, remaining', l') \<Rightarrow>
      (case read_all hash src run rest remaining' l' of (answers, out) \<Rightarrow> (answer # answers, out)))"

subsection \<open>What is read cannot pass for the frame\<close>

definition tag_ahead :: "utext \<Rightarrow> bool" where
  "tag_ahead t \<longleftrightarrow> (case t of [] \<Rightarrow> False | c # cs \<Rightarrow> c = 60 \<and>
     (fence_ahead cs \<or> (case cs of [] \<Rightarrow> False | d # ds \<Rightarrow> d = 47 \<and> fence_ahead ds)))"

text \<open>The words have no less-than sign, space or line end, so a word is ahead in the fenced text just when
  it is in the text.\<close>

definition plain_word :: "utext \<Rightarrow> bool" where
  "plain_word w \<longleftrightarrow> (\<forall>x \<in> set w. \<not> fence_word_eq x 60 \<and> \<not> fence_word_eq x 32 \<and> \<not> fence_word_eq x 10)"

lemma fence_words_plain: "w \<in> set FENCE_WORDS \<Longrightarrow> plain_word w \<and> w \<noteq> []"
  by (auto simp: FENCE_WORDS_def plain_word_def fence_word_eq_def)

lemma word_ahead_simps [simp]:
  "word_ahead t []" "word_ahead [] (x # w) = False" "word_ahead (c # cs) (x # w) \<longleftrightarrow> fence_word_eq x c \<and> word_ahead cs w"
  by (simp_all add: word_ahead_def)

lemma fenced_text_simps:
  "c \<noteq> 60 \<Longrightarrow> fenced_text (c # cs) = c # fenced_text cs"
  "fenced_text (60 # cs) = (if fence_ahead cs then 60 # 32 # fenced_text cs
     else case cs of d # ds \<Rightarrow> if d = 47 \<and> fence_ahead ds then 60 # 47 # 32 # fenced_text ds else 60 # fenced_text cs | [] \<Rightarrow> [60])"
proof -
  have "fence_ahead (47 # ds) = False" for ds by (simp add: fence_ahead_def FENCE_WORDS_def fence_word_eq_def)
  then show "fenced_text (60 # cs) = (if fence_ahead cs then 60 # 32 # fenced_text cs
     else case cs of d # ds \<Rightarrow> if d = 47 \<and> fence_ahead ds then 60 # 47 # 32 # fenced_text ds else 60 # fenced_text cs | [] \<Rightarrow> [60])"
    by (cases cs) (auto simp: fence_ahead_def FENCE_WORDS_def)
qed simp

declare fenced_text.simps(2) [simp del]

lemma word_ahead_fenced: "plain_word w \<Longrightarrow> word_ahead (fenced_text t) w = word_ahead t w"
proof (induction w arbitrary: t)
  case (Cons x w)
  then have w: "plain_word w" "\<not> fence_word_eq x 60" by (auto simp: plain_word_def)
  show ?case
  proof (cases t)
    case (Cons c cs)
    show ?thesis
    proof (cases "c = 60")
      case True
      have "\<exists>r. fenced_text t = 60 # r" unfolding Cons True fenced_text_simps by (auto split: list.split)
      then obtain r where "fenced_text t = 60 # r" by blast
      with w(2) show ?thesis by (simp add: Cons True)
    next
      case False
      with Cons Cons.IH w(1) show ?thesis by (simp add: fenced_text_simps)
    qed
  qed simp
qed simp

lemma fence_ahead_fenced: "fence_ahead (fenced_text t) = fence_ahead t"
  unfolding fence_ahead_def list_ex_iff using word_ahead_fenced fence_words_plain by blast

lemma fence_ahead_space [simp]: "\<not> fence_ahead (32 # t)" "\<not> fence_ahead (47 # t)" "\<not> fence_ahead []"
  by (simp_all add: fence_ahead_def FENCE_WORDS_def fence_word_eq_def)

lemma no_tag_fenced: "\<not> tag_ahead (drop n (fenced_text t))"
proof (induction t arbitrary: n rule: fenced_text.induct)
  case 1
  then show ?case by (simp add: tag_ahead_def)
next
  case (2 c cs)
  show ?case
  proof (cases "c = 60")
    case False
    with 2 show ?thesis by (cases n) (auto simp: fenced_text_simps tag_ahead_def)
  next
    case c: True
    show ?thesis
    proof (cases cs)
      case Nil
      then show ?thesis by (cases n) (simp_all add: c tag_ahead_def fenced_text_simps)
    next
      case (Cons d ds)
      consider (slash) "d = 47" "fence_ahead ds" | (word) "\<not> (d = 47 \<and> fence_ahead ds)" "fence_ahead cs"
        | (none) "\<not> (d = 47 \<and> fence_ahead ds)" "\<not> fence_ahead cs" by blast
      then show ?thesis
      proof cases
        case slash
        have e: "fenced_text (c # cs) = 60 # 47 # 32 # fenced_text ds" using slash by (simp add: c Cons fenced_text_simps)
        have IH: "\<not> tag_ahead (drop k (fenced_text ds))" for k using 2(1) [OF c Cons] slash by simp
        show ?thesis
        proof (cases "n < 3")
          case True
          then have "n = 0 \<or> n = 1 \<or> n = 2" by auto
          then show ?thesis unfolding e by (auto simp: tag_ahead_def)
        next
          case False
          then obtain k where "n = Suc (Suc (Suc k))" by (metis add_2_eq_Suc le_Suc_ex not_less numeral_3_eq_3 plus_nat.simps(2))
          then show ?thesis using IH unfolding e by simp
        qed
      next
        case word
        have e: "fenced_text (c # cs) = 60 # 32 # fenced_text cs" using word by (simp add: c Cons fenced_text_simps)
        have IH: "\<not> tag_ahead (drop k (fenced_text cs))" for k using 2(2) [OF c Cons word(1)] word by simp
        show ?thesis
        proof (cases n)
          case 0
          then show ?thesis unfolding e by (simp add: tag_ahead_def)
        next
          case (Suc m)
          then show ?thesis using IH unfolding e by (cases m) (simp_all add: tag_ahead_def)
        qed
      next
        case none
        have e: "fenced_text (c # cs) = 60 # fenced_text cs" using none by (simp add: c Cons fenced_text_simps)
        have IH: "\<not> tag_ahead (drop k (fenced_text cs))" for k using 2(3) [OF c Cons none(1)] none by simp
        show ?thesis
        proof (cases n)
          case (Suc m)
          with IH show ?thesis unfolding e by simp
        next
          case 0
          have "\<not> fence_ahead (fenced_text cs)" using none(2) by (simp add: fence_ahead_fenced)
          moreover have "\<not> (\<exists>r. fenced_text cs = 47 # r \<and> fence_ahead r)"
          proof
            assume "\<exists>r. fenced_text cs = 47 # r \<and> fence_ahead r"
            then obtain r where r: "fenced_text cs = 47 # r" "fence_ahead r" by blast
            have "d = 47" using r(1) unfolding Cons by (cases "d = 60") (auto simp: fenced_text_simps split: if_splits list.splits)
            with r none(1) fence_ahead_fenced [of ds] show False by (simp add: Cons fenced_text_simps)
          qed
          ultimately show ?thesis unfolding e 0 by (auto simp: tag_ahead_def split: list.split)
        qed
      qed
    qed
  qed
qed

lemma fenced_keeps: "filter (\<lambda>c. c \<noteq> 32) (fenced_text t) = filter (\<lambda>c. c \<noteq> 32) t"
proof (induction t rule: fenced_text.induct)
  case (2 c cs)
  show ?case
  proof (cases "c = 60")
    case c: True
    show ?thesis
    proof (cases cs)
      case (Cons d ds)
      with 2(1) [OF c Cons] 2(2) [OF c Cons] 2(3) [OF c Cons] show ?thesis
        by (cases "d = 47 \<and> fence_ahead ds"; cases "fence_ahead cs"; cases "d = 60") (simp_all add: c fenced_text_simps split: if_splits)
    qed (simp add: c fenced_text_simps)
  qed (use 2(4) in \<open>simp add: fenced_text_simps\<close>)
qed simp

text \<open>Nothing in a fenced text passes for a tag of the answer, wherever one looks, and fencing only puts
  spaces in.\<close>

lemma fenced_text_has_no_tag: "\<not> tag_ahead (drop n (fenced_text t)) \<and> filter (\<lambda>c. c \<noteq> 32) (fenced_text t) = filter (\<lambda>c. c \<noteq> 32) t"
  using no_tag_fenced fenced_keeps by blast

subsection \<open>Reading on\<close>

lemma word_ahead_line: "plain_word w \<Longrightarrow> w \<noteq> [] \<Longrightarrow> word_ahead (a @ 10 # b) w = word_ahead a w"
proof (induction w arbitrary: a)
  case (Cons x w)
  then have x: "plain_word w" "\<not> fence_word_eq x 10" by (auto simp: plain_word_def)
  show ?case
  proof (cases a)
    case Nil
    with x(2) show ?thesis by simp
  next
    case (Cons c cs)
    with Cons.IH [OF x(1), of cs] show ?thesis by (cases "w = []") (auto simp: word_ahead_def)
  qed
qed simp

lemma fence_ahead_line: "fence_ahead (a @ 10 # b) = fence_ahead a"
  unfolding fence_ahead_def list_ex_iff using word_ahead_line fence_words_plain by blast

lemma fenced_line: "fenced_text (a @ 10 # b) = fenced_text a @ 10 # fenced_text b"
proof (induction a rule: fenced_text.induct)
  case (2 c cs)
  show ?case
  proof (cases "c = 60")
    case c: True
    show ?thesis
    proof (cases cs)
      case Nil
      then show ?thesis using fence_ahead_line [of "[]" b] by (simp add: c fenced_text_simps)
    next
      case (Cons d ds)
      with 2(1) [OF c Cons] 2(2) [OF c Cons] 2(3) [OF c Cons] fence_ahead_line [of cs b] fence_ahead_line [of ds b] show ?thesis
        by (cases "d = 47 \<and> fence_ahead ds"; cases "fence_ahead cs") (simp_all add: c fenced_text_simps)
    qed
  qed (use 2(4) in \<open>simp add: fenced_text_simps\<close>)
qed (simp add: fenced_text_simps)

definition as_lines :: "utext list \<Rightarrow> utext" where
  "as_lines ls = concat (map (\<lambda>l. l @ [10]) ls)"

lemma as_lines_simps [simp]: "as_lines [] = []" "as_lines (l # ls) = l @ 10 # as_lines ls" "as_lines (ls @ ks) = as_lines ls @ as_lines ks"
  by (simp_all add: as_lines_def)

lemma fenced_as_lines: "fenced_text (as_lines (ls @ ks)) = fenced_text (as_lines ls) @ fenced_text (as_lines ks)"
  by (induction ls) (simp_all add: fenced_line)

definition units :: "utext \<Rightarrow> nat" where
  "units l = sum_list (map utf16_width l)"

lemma units_bytes: "units l \<le> text_bytes l"
  unfolding units_def text_bytes_def by (rule sum_list_mono) (simp add: utf16_width_def byte_length_def)

lemma u_js_slice_whole: "units l \<le> n \<Longrightarrow> u_js_slice l n = l"
  by (induction l n rule: u_js_slice.induct) (auto simp: units_def)

lemma text_bytes_append: "text_bytes (a @ b) = text_bytes a + text_bytes b"
  by (simp add: text_bytes_def)

text \<open>What the loop shows: whole lines, at least one.\<close>

lemma body_loop_lines:
  assumes "latest < start \<Longrightarrow> body = [] \<and> (\<forall>l \<in> set ls. units l \<le> allowance)" "start \<le> Suc latest"
  shows "\<exists>k \<le> length ls. body_loop allowance start ls latest body = (latest + k, body @ as_lines (take k ls))
    \<and> (latest < start \<longrightarrow> ls \<noteq> [] \<longrightarrow> 0 < k)"
  using assms
proof (induction ls arbitrary: latest body)
  case (Cons l ls)
  show ?case
  proof (cases "allowance < text_bytes body + text_bytes l + 1 \<and> start \<le> latest")
    case True
    then show ?thesis by (intro exI [of _ 0]) simp
  next
    case False
    have "units l \<le> allowance - text_bytes body"
      using False units_bytes [of l] Cons.prems(1) by (cases "latest < start") (auto simp: text_bytes_def)
    then have step: "body_loop allowance start (l # ls) latest body = body_loop allowance start ls (Suc latest) (body @ l @ [10])"
      using False by (auto simp: u_js_slice_whole)
    obtain k where k: "k \<le> length ls" "body_loop allowance start ls (Suc latest) (body @ l @ [10]) = (Suc latest + k, (body @ l @ [10]) @ as_lines (take k ls))"
      using Cons.IH [of "Suc latest" "body @ l @ [10]"] Cons.prems(2) by auto
    then show ?thesis unfolding step by (intro exI [of _ "Suc k"]) simp
  qed
qed simp

text \<open>A reader that goes on at the line the note names, with a call of its own each time.\<close>

fun read_pages :: "nat \<Rightarrow> path \<Rightarrow> utext \<Rightarrow> nat \<Rightarrow> nat \<Rightarrow> utext option" where
  "read_pages 0 p t start stop = None"
| "read_pages (Suc fuel) p t start stop =
     (case read_text p \<lparr>rt_start = Some start, rt_end = Some stop\<rparr> READ_TOTAL_CHARS t of
        (SecLines _ _ latest _ body on, _) \<Rightarrow> if on then map_option ((@) body) (read_pages fuel p t (Suc latest) stop) else Some body
      | _ \<Rightarrow> None)"

definition line_range :: "utext \<Rightarrow> nat \<Rightarrow> nat \<Rightarrow> utext list" where
  "line_range t start stop = take (stop - (start - 1)) (drop (start - 1) (split_lines t))"

lemma read_text_shows:
  assumes "\<forall>l \<in> set (split_lines t). units l \<le> READ_FILE_CHARS" "1 \<le> start" "start \<le> stop" "stop \<le> length (split_lines t)"
  obtains k rest where "0 < k" "k \<le> Suc stop - start"
    "read_text p \<lparr>rt_start = Some start, rt_end = Some stop\<rparr> READ_TOTAL_CHARS t =
       (SecLines p start (start - 1 + k) (length (split_lines t)) (fenced_text (as_lines (take k (line_range t start stop)))) (start - 1 + k < stop), rest)"
proof -
  have len: "length (line_range t start stop) = Suc stop - start" using assms(2-4) by (simp add: line_range_def)
  have u: "\<forall>l \<in> set (line_range t start stop). units l \<le> READ_FILE_CHARS"
    using assms(1) by (auto simp: line_range_def dest!: in_set_takeD in_set_dropD)
  obtain k where k: "k \<le> Suc stop - start" "0 < k"
    "body_loop READ_FILE_CHARS start (line_range t start stop) (start - 1) [] = (start - 1 + k, as_lines (take k (line_range t start stop)))"
    using body_loop_lines [of "start - 1" start "[]" "line_range t start stop" READ_FILE_CHARS] u len assms(2,3) by auto
  have r: "min READ_FILE_CHARS READ_TOTAL_CHARS = READ_FILE_CHARS" "READ_FILE_CHARS \<noteq> 0" by (simp_all add: READ_FILE_CHARS_def READ_TOTAL_CHARS_def)
  have m: "min stop (length (split_lines t)) = stop" "\<not> length (split_lines t) < start" "length (split_lines t) \<noteq> 0" using assms(2-4) by auto
  have "\<exists>rest. read_text p \<lparr>rt_start = Some start, rt_end = Some stop\<rparr> READ_TOTAL_CHARS t =
       (SecLines p start (start - 1 + k) (length (split_lines t)) (fenced_text (as_lines (take k (line_range t start stop)))) (start - 1 + k < stop), rest)"
    using m k(3) unfolding line_range_def by (simp add: read_text_def Let_def r)
  with that [OF k(2,1)] show thesis by blast
qed

lemma read_pages_cover:
  assumes "\<forall>l \<in> set (split_lines t). units l \<le> READ_FILE_CHARS" "stop \<le> length (split_lines t)"
  shows "1 \<le> start \<Longrightarrow> start \<le> stop \<Longrightarrow> Suc stop - start \<le> fuel \<Longrightarrow> read_pages fuel p t start stop = Some (fenced_text (as_lines (line_range t start stop)))"
proof (induction fuel arbitrary: start)
  case (Suc fuel)
  obtain k rest where k: "0 < k" "k \<le> Suc stop - start"
    "read_text p \<lparr>rt_start = Some start, rt_end = Some stop\<rparr> READ_TOTAL_CHARS t =
       (SecLines p start (start - 1 + k) (length (split_lines t)) (fenced_text (as_lines (take k (line_range t start stop)))) (start - 1 + k < stop), rest)"
    using read_text_shows [OF assms(1) Suc.prems(1,2) assms(2)] by metis
  show ?case
  proof (cases "start - 1 + k < stop")
    case False
    with k(1,2) Suc.prems have "k = Suc stop - start" by arith
    then have "take k (line_range t start stop) = line_range t start stop" using Suc.prems by (simp add: line_range_def Suc_diff_le)
    with False k(3) show ?thesis by simp
  next
    case True
    then have "read_pages fuel p t (Suc (start - 1 + k)) stop = Some (fenced_text (as_lines (line_range t (Suc (start - 1 + k)) stop)))"
      using Suc.prems k(1) by (intro Suc.IH) auto
    moreover have "line_range t start stop = take k (line_range t start stop) @ line_range t (Suc (start - 1 + k)) stop"
    proof -
      have "line_range t (Suc (start - 1 + k)) stop = drop k (line_range t start stop)"
        by (simp add: line_range_def drop_take add.commute)
      then show ?thesis by simp
    qed
    ultimately show ?thesis using True k(3) fenced_as_lines [of "take k (line_range t start stop)" "line_range t (Suc (start - 1 + k)) stop"] by simp
  qed
qed simp

text \<open>C33: reading on from where each answer says it stopped ends, after at most as many calls as there are
  lines to show, and has then shown exactly the lines asked for, provided that no line is longer than what
  one answer may hold.\<close>

theorem reading_on_shows_every_line:
  assumes "\<forall>l \<in> set (split_lines t). units l \<le> READ_FILE_CHARS" "1 \<le> start" "start \<le> stop" "stop \<le> length (split_lines t)"
  shows "read_pages (Suc stop - start) p t start stop = Some (fenced_text (as_lines (line_range t start stop)))"
  using read_pages_cover [OF assms(1,4,2,3)] by simp

lemma reading_on_shows_every_line_witness: "read_pages 2 [''a''] [97, 10, 98] 1 2 = Some [97, 10, 98, 10]"
proof -
  have "split_lines [97, 10, 98] = [[97], [98]]" by (simp add: split_lines_def)
  with reading_on_shows_every_line [of "[97, 10, 98]" 1 2 "[''a'']"] show ?thesis
    by (simp add: line_range_def units_def utf16_width_def READ_FILE_CHARS_def fenced_text_simps)
qed

text \<open>A longer line is cut, and the answer does not say so.\<close>

lemma u_js_slice_replicate: "c < 65536 \<Longrightarrow> u_js_slice (replicate n c) k = replicate (min n k) c"
proof (induction n arbitrary: k)
  case (Suc n)
  then show ?case by (cases k) (simp_all add: utf16_width_def)
qed simp

lemma u_split_plain: "c \<notin> set t \<Longrightarrow> u_split c t = [t]"
  by (induction t) auto

lemma long_line_is_cut_unmarked:
  "\<exists>rest. read_text p \<lparr>rt_start = None, rt_end = None\<rparr> READ_TOTAL_CHARS (replicate (Suc READ_FILE_CHARS) 97)
     = (SecLines p 1 1 1 (replicate READ_FILE_CHARS 97 @ [10]) False, read_entry p ''read'' 1 False, rest)"
proof -
  let ?t = "replicate (Suc READ_FILE_CHARS) (97 :: nat)"
  have l: "split_lines ?t = [?t]" unfolding split_lines_def by (subst u_split_plain) auto
  have f: "fenced_text (replicate n 97 @ [10]) = replicate n 97 @ [10]" for n by (induction n) (simp_all add: fenced_text_simps)
  have m: "min READ_FILE_CHARS READ_TOTAL_CHARS = READ_FILE_CHARS" "READ_FILE_CHARS \<noteq> 0"
    by (simp_all add: READ_FILE_CHARS_def READ_TOTAL_CHARS_def)
  have b: "body_loop READ_FILE_CHARS 1 [?t] 0 [] = (1, replicate READ_FILE_CHARS 97 @ [10])"
    using u_js_slice_replicate [of 97 "Suc READ_FILE_CHARS" READ_FILE_CHARS] by (simp add: text_bytes_def)
  show ?thesis by (simp add: read_text_def Let_def l m f b [simplified One_nat_def] del: replicate.simps body_loop.simps)
qed

text \<open>The hash of a file is recorded as read even when the answer shows none of it.\<close>

lemma unshown_file_counts_as_read:
  assumes "fso_metadata src p = Some (False, n)" "n \<le> READ_MAX_BYTES" "fso_read src p = Some bs"
    and "decode_file bs = DText t fm" "split_lines t \<noteq> []"
  shows "read_one hash src run p \<lparr>rt_start = None, rt_end = None\<rparr> 0 l
    = ((SecNotShown p (length (split_lines t)), read_entry p ''read'' (length (split_lines t)) True), 0, ledger_record run p (hash bs) l)"
  using assms by (simp add: read_one_def read_text_def Let_def Suc_le_eq)

text \<open>Every path is answered, in order.\<close>

lemma read_all_answers:
  "map (rf_path \<circ> snd) (fst (read_all hash src run reqs remaining l)) = map fst reqs"
proof (induction hash src run reqs remaining l rule: read_all.induct)
  case (2 hash src run p req rest remaining l)
  have "rf_path (snd (fst (read_one hash src run p req remaining l))) = p"
    by (simp add: read_one_def read_text_def read_entry_def Let_def split: option.split prod.split decoded.split)
  with 2 show ?case by (auto split: prod.split)
qed simp

subsection \<open>What a run knows of a file\<close>

text \<open>The calls that write to the ledger, each with the file system it has met: \<^verbatim>\<open>fs.read\<close>, and \<^verbatim>\<open>fs.apply\<close> with the files it
  has written.\<close>

datatype file_use = UseRead string file_source "(path \<times> read_target) list" | UseApply string "planned_file list"

definition use_file :: "(byte list \<Rightarrow> string) \<Rightarrow> file_use \<Rightarrow> ledger \<Rightarrow> ledger" where
  "use_file hash u l = (case u of
     UseRead run src reqs \<Rightarrow> snd (snd (read_all hash src run reqs READ_TOTAL_CHARS l))
   | UseApply run files \<Rightarrow> ledger_after_apply hash run files l)"

text \<open>What \<^verbatim>\<open>fs.read\<close> opens: a text file that is not too large and can be read, whether or not the answer has room for it.\<close>

definition opened :: "file_source \<Rightarrow> path \<Rightarrow> byte list option" where
  "opened src p = (case fso_metadata src p of
     Some (False, n) \<Rightarrow> if READ_MAX_BYTES < n then None
       else Option.bind (fso_read src p) (\<lambda>bs. if decode_file bs = DBinary then None else Some bs)
   | _ \<Rightarrow> None)"

text \<open>The contents a call has opened or left (\<open>None\<close>: deleted) at a path, for a run, and the last of them.\<close>

definition touches :: "string \<Rightarrow> path_key \<Rightarrow> file_use \<Rightarrow> byte list option list" where
  "touches run k u = (case u of
     UseRead r src reqs \<Rightarrow> if r = run then List.map_filter (\<lambda>(p, _). if path_key p = k then map_option Some (opened src p) else None) reqs else []
   | UseApply r files \<Rightarrow> if r = run then map pf_after (filter (\<lambda>f. file_key f = k) files) else [])"

definition last_content :: "string \<Rightarrow> path_key \<Rightarrow> file_use list \<Rightarrow> byte list option" where
  "last_content run k uses = (case concat (map (touches run k) uses) of [] \<Rightarrow> None | xs \<Rightarrow> last xs)"

definition ops_of :: "(byte list \<Rightarrow> string) \<Rightarrow> file_use \<Rightarrow> ledger_op list" where
  "ops_of hash u = (case u of
     UseRead run src reqs \<Rightarrow> List.map_filter (\<lambda>(p, _). map_option (\<lambda>bs. LRecord run p (hash bs)) (opened src p)) reqs
   | UseApply run files \<Rightarrow> map (\<lambda>f. case pf_after f of Some bytes \<Rightarrow> LRecord run (pf_path f) (hash bytes) | None \<Rightarrow> LForget run (pf_path f)) files)"

lemma read_one_ledger:
  "snd (snd (read_one hash src run p req remaining l)) = (case opened src p of Some bs \<Rightarrow> ledger_record run p (hash bs) l | None \<Rightarrow> l)"
  by (auto simp: read_one_def opened_def split: option.split prod.split decoded.split bool.split)

lemma read_all_ledger:
  "snd (snd (read_all hash src run reqs remaining l)) = fold ledger_step (ops_of hash (UseRead run src reqs)) l"
proof (induction reqs arbitrary: remaining l)
  case (Cons x reqs)
  obtain p req where x: "x = (p, req)" by fastforce
  obtain answer remaining' l' where one: "read_one hash src run p req remaining l = (answer, remaining', l')" by (metis prod_cases3)
  have "snd (snd (read_all hash src run (x # reqs) remaining l)) = snd (snd (read_all hash src run reqs remaining' l'))"
    by (simp add: x one split: prod.split)
  with Cons.IH [of remaining' l'] read_one_ledger [of hash src run p req remaining l] show ?case
    by (cases "opened src p") (simp_all add: x one ops_of_def List.map_filter_simps ledger_step_def)
qed (simp add: ops_of_def List.map_filter_simps)

lemma use_file_ops: "use_file hash u l = fold ledger_step (ops_of hash u) l"
proof (cases u)
  case (UseApply run files)
  then show ?thesis by (simp add: use_file_def ops_of_def ledger_after_apply_def fold_map comp_def)
qed (simp add: use_file_def read_all_ledger)

lemma uses_ops: "fold (use_file hash) uses ledger_new = ledger_run (concat (map (ops_of hash) uses))"
proof -
  have "fold (use_file hash) uses l = fold ledger_step (concat (map (ops_of hash) uses)) l" for l
    by (induction uses arbitrary: l) (simp_all add: use_file_ops)
  then show ?thesis by (simp add: ledger_run_def)
qed

definition word_of :: "string \<Rightarrow> path_key \<Rightarrow> ledger_op \<Rightarrow> string option option" where
  "word_of run k cmd = (case cmd of
     LRecord r p h \<Rightarrow> if r = run \<and> path_key p = k then Some (Some h) else None
   | LForget r p \<Rightarrow> if r = run \<and> path_key p = k then Some None else None)"

lemma last_word_words: "last_word run k cmds = (case List.map_filter (word_of run k) cmds of [] \<Rightarrow> None | ws \<Rightarrow> last ws)"
proof (induction cmds rule: rev_induct)
  case (snoc cmd cmds)
  then show ?case
    by (cases cmd) (auto simp: last_word_snoc word_of_def List.map_filter_def split: list.splits)
qed (simp add: last_word_def List.map_filter_def)

lemma words_of_use: "List.map_filter (word_of run k) (ops_of hash u) = map (map_option hash) (touches run k u)"
proof (cases u)
  case (UseRead r src reqs)
  show ?thesis unfolding UseRead
  proof (induction reqs)
    case (Cons x reqs)
    then show ?case
      by (cases x; cases "opened src (fst x)") (auto simp: ops_of_def touches_def word_of_def List.map_filter_simps)
  qed (simp add: ops_of_def touches_def List.map_filter_simps)
next
  case (UseApply r files)
  show ?thesis unfolding UseApply
  proof (induction files)
    case (Cons f files)
    then show ?case
      by (cases "pf_after f") (auto simp: ops_of_def touches_def word_of_def file_key_def List.map_filter_simps)
  qed (simp add: ops_of_def touches_def List.map_filter_simps)
qed

lemma last_word_of_uses: "last_word run k (concat (map (ops_of hash) uses)) = map_option hash (last_content run k uses)"
proof -
  have "List.map_filter (word_of run k) (concat (map (ops_of hash) uses)) = map (map_option hash) (concat (map (touches run k) uses))"
    by (induction uses) (simp_all add: words_of_use [symmetric], simp add: List.map_filter_def)
  moreover have "(case map (map_option hash) xs of [] \<Rightarrow> None | ws \<Rightarrow> last ws) = map_option hash (case xs of [] \<Rightarrow> None | ws \<Rightarrow> last ws)" for xs
    by (cases xs) (simp_all add: last_map)
  ultimately show ?thesis by (simp only: last_word_words last_content_def)
qed

text \<open>C32: On a file system that finds its files by key, a batch that passes the check of freshness loses nothing its run
  does not know. A content that the batch writes over or deletes lies in one of the folders exempt from the check
  (those of the conversation itself and of its skills, which the call has located as such); or it has the hash of what the run has
  last opened at that path with \<^verbatim>\<open>fs.read\<close> or left there with \<^verbatim>\<open>fs.apply\<close>; or it is in place somewhere after the batch, with the
  text and the format it had. Opened is not shown: a file that no line of the answer had room for counts too.\<close>

theorem unread_content_survives:
  assumes "names_by_key disk" "plan_changes disk chs = Inr pl" "f \<in> set (fp_files pl)" "pf_before f = Some bs"
    and "check_fresh hash pl (fold (use_file hash) uses ledger_new) run exempt = Inr ()"
  shows "list_ex (path_starts_with (pf_path f)) exempt
    \<or> map_option hash (last_content run (file_key f) uses) = Some (hash bs)
    \<or> (\<exists>t fm q. decode_file bs = DText t fm \<and> after_plan disk pl q = Some (encode_file t fm))"
proof (cases "pf_path f \<in> set (fp_fresh pl) \<and> \<not> list_ex (path_starts_with (pf_path f)) exempt")
  case True
  obtain ov where ov: "ov_sound disk ov" "pl = plan_of ov" using plan_changes_sound [OF assms(1,2)] by blast
  have "List.find (\<lambda>g. pf_path g = pf_path f) (fp_files pl) = Some f"
    using find_by_path [OF file_keys_distinct [OF ov(1)]] assms(3) ov(2) by simp
  then have "ledger_hash run (pf_path f) (ledger_run (concat (map (ops_of hash) uses))) = Some (hash bs)"
    using assms(5) True unfolding check_fresh_def check_fresh_loop_iff uses_ops by (auto simp: assms(4) dest!: bspec)
  from hash_is_the_last_record [OF this] show ?thesis by (simp add: last_word_of_uses file_key_def)
next
  case False
  with nothing_unread_is_lost [OF assms(1-4)] show ?thesis by blast
qed

definition known_uses :: "file_use list" where
  "known_uses = [UseApply ''r'' [\<lparr>pf_path = [''A''], pf_before = None, pf_after = Some (as_bytes [97])\<rparr>]]"

lemma known_is_fresh: "check_fresh (\<lambda>_. ''h'') known_plan (fold (use_file (\<lambda>_. ''h'')) known_uses ledger_new) ''r'' [] = Inr ()"
  by (simp add: check_fresh_def known_plan known_uses_def use_file_def ledger_after_apply_def ledger_step_def ledger_record_eq ledger_new_def
      ledger_entry_def LEDGER_RUNS_def ledger_hash_def)

lemma unread_content_survives_witness:
  "map_option (\<lambda>_. ''h'') (last_content ''r'' [''a''] known_uses) = Some ''h''
    \<or> (\<exists>t fm q. decode_file (as_bytes [97]) = DText t fm \<and> after_plan sample_disk known_plan q = Some (encode_file t fm))"
proof -
  have "\<lparr>pf_path = [''a''], pf_before = Some (as_bytes [97]), pf_after = Some (as_bytes [98])\<rparr> \<in> set (fp_files known_plan)"
    by (simp add: known_plan)
  from unread_content_survives [OF sample_names known_plan(1) this _ known_is_fresh] show ?thesis by (simp add: file_key_def)
qed

end
