(* ===== verification/FolderPaths.thy ===== *)
theory FolderPaths
  imports Contract
begin

text \<open>
  Paths and forbidden folders, \<^verbatim>\<open>workspace/paths.rs\<close> of the host, and \<^verbatim>\<open>minimal\<close> of \<^verbatim>\<open>workspace/service.rs\<close>.

  A path is the list of its components, as \<^verbatim>\<open>Path::components\<close> gives them on Windows: a prefix (a drive or
  a share), the root, and names. Two paths are compared by their \<open>keys\<close>, the lower-case texts of the
  components. What the code asks of the file system (\<^verbatim>\<open>metadata\<close>, \<^verbatim>\<open>canonicalize\<close>) and the mounts of removable
  disks are arguments.

  \<open>grant_target_sound\<close> says where a target lies below the folder that access is asked for,
  \<open>forbidden_trees_stay_closed\<close> that a folder which may be granted reaches into no forbidden tree,
  \<open>minimal_asks_once\<close> that the folders asked for are the fewest that cover those needed.
\<close>

datatype component = CPrefix string | CRootDir | CCurDir | CParentDir | CNormal string
type_synonym cpath = "component list"

datatype target_kind = TargetFile | TargetFolder

record grant_target =
  gt_path :: cpath
  gt_folder :: cpath
  gt_creates :: "cpath list"

datatype fs_failure = FailNotFound | FailNotADirectory | FailOther

record folder_fs =
  ff_metadata :: "cpath \<Rightarrow> fs_failure + bool"
  ff_canonicalize :: "cpath \<Rightarrow> fs_failure + cpath"

subsection \<open>Keys\<close>

definition component_key :: "component \<Rightarrow> string option" where
  "component_key c = (case c of CCurDir \<Rightarrow> None | CRootDir \<Rightarrow> Some [CHR 0x5C] | CPrefix s \<Rightarrow> Some (lower s)
     | CNormal s \<Rightarrow> Some (lower s) | CParentDir \<Rightarrow> Some ''..'')"

definition path_keys :: "cpath \<Rightarrow> string list" where
  "path_keys p = List.map_filter component_key p"

definition same_folder :: "cpath \<Rightarrow> cpath \<Rightarrow> bool" where
  "same_folder l r \<longleftrightarrow> path_keys l = path_keys r"

definition covers :: "cpath \<Rightarrow> cpath \<Rightarrow> bool" where
  "covers grant target \<longleftrightarrow> path_keys grant \<noteq> [] \<and> length (path_keys grant) \<le> length (path_keys target)
     \<and> take (length (path_keys grant)) (path_keys target) = path_keys grant"

definition relative_to :: "cpath \<Rightarrow> cpath \<Rightarrow> cpath option" where
  "relative_to base p = (if covers base p then Some (drop (length (path_keys base)) (filter (\<lambda>c. component_key c \<noteq> None) p)) else None)"

definition is_network :: "cpath \<Rightarrow> bool" where
  "is_network p = (case p of CPrefix s # _ \<Rightarrow> take 2 s = [CHR 0x5C, CHR 0x5C] \<or> take 2 s = ''//'' | _ \<Rightarrow> False)"

definition is_drive_root :: "cpath \<Rightarrow> bool" where
  "is_drive_root p \<longleftrightarrow> p = [] \<or> (case last p of CPrefix _ \<Rightarrow> True | CRootDir \<Rightarrow> True | _ \<Rightarrow> False)"

definition is_absolute :: "cpath \<Rightarrow> bool" where
  "is_absolute p = (case p of CPrefix _ # CRootDir # _ \<Rightarrow> True | _ \<Rightarrow> False)"

subsection \<open>Normal form\<close>

fun normal_loop :: "cpath \<Rightarrow> cpath \<Rightarrow> cpath option" where
  "normal_loop [] parts = Some parts"
| "normal_loop (c # cs) parts =
     (case c of
        CCurDir \<Rightarrow> normal_loop cs parts
      | CParentDir \<Rightarrow> (if parts = [] then None
          else case last parts of CNormal _ \<Rightarrow> normal_loop cs (butlast parts) | _ \<Rightarrow> None)
      | _ \<Rightarrow> normal_loop cs (parts @ [c]))"

definition normalized :: "cpath \<Rightarrow> cpath option" where
  "normalized p = normal_loop p []"

text \<open>\<^verbatim>\<open>Path::join\<close>.\<close>

definition path_join :: "cpath \<Rightarrow> cpath \<Rightarrow> cpath" where
  "path_join base p = (case p of
     CPrefix _ # _ \<Rightarrow> p
   | CRootDir # _ \<Rightarrow> (case base of CPrefix s # _ \<Rightarrow> CPrefix s # p | _ \<Rightarrow> p)
   | _ \<Rightarrow> base @ p)"

definition resolve_path :: "cpath option \<Rightarrow> cpath \<Rightarrow> cpath option" where
  "resolve_path base p = (if is_absolute p then normalized p else Option.bind base (\<lambda>b. normalized (path_join b p)))"

subsection \<open>Targets\<close>

text \<open>\<open>names\<close> are the last names of the path, from the first to the last, which do not exist.\<close>

definition target_below :: "target_kind \<Rightarrow> cpath \<Rightarrow> cpath \<Rightarrow> grant_target" where
  "target_below kind folder names =
     \<lparr>gt_path = folder @ names, gt_folder = folder,
      gt_creates = map (\<lambda>n. take n names) [1..<Suc (case kind of TargetFile \<Rightarrow> length names - 1 | TargetFolder \<Rightarrow> length names)]\<rparr>"

function grant_target_loop :: "folder_fs \<Rightarrow> target_kind \<Rightarrow> cpath \<Rightarrow> cpath \<Rightarrow> fs_failure + grant_target" where
  "grant_target_loop fs kind ancestor names =
     (case ff_metadata fs ancestor of
        Inr is_dir \<Rightarrow> (case ff_canonicalize fs ancestor of
            Inl e \<Rightarrow> Inl e
          | Inr real \<Rightarrow>
              if names = [] then
                (if is_dir then Inr \<lparr>gt_path = real, gt_folder = real, gt_creates = []\<rparr>
                 else if is_drive_root real then Inl FailOther
                 else Inr \<lparr>gt_path = real, gt_folder = butlast real, gt_creates = []\<rparr>)
              else if \<not> is_dir then Inl FailNotADirectory
              else Inr (target_below kind real names))
      | Inl FailNotFound \<Rightarrow>
          (if ancestor = [] then Inl FailNotFound
           else case last ancestor of
               CNormal s \<Rightarrow> grant_target_loop fs kind (butlast ancestor) (CNormal s # names)
             | _ \<Rightarrow> Inl FailNotFound)
      | Inl e \<Rightarrow> Inl e)"
  by pat_completeness auto
termination
  by (relation "measure (\<lambda>(fs, kind, ancestor, names). length ancestor)") auto

declare grant_target_loop.simps [simp del]

definition grant_target :: "folder_fs \<Rightarrow> cpath \<Rightarrow> target_kind \<Rightarrow> fs_failure + grant_target" where
  "grant_target fs p kind = (case normalized p of
     None \<Rightarrow> Inl FailOther
   | Some absolute \<Rightarrow> if is_absolute absolute then grant_target_loop fs kind absolute [] else Inl FailOther)"

subsection \<open>Forbidden folders\<close>

record forbidden =
  fb_trees :: "cpath list"
  fb_exact :: "cpath list"

definition settled :: "folder_fs \<Rightarrow> cpath \<Rightarrow> cpath" where
  "settled fs p = (case ff_canonicalize fs p of Inr real \<Rightarrow> real
     | Inl _ \<Rightarrow> (case normalized p of Some q \<Rightarrow> q | None \<Rightarrow> p))"

definition forbidden_new :: "folder_fs \<Rightarrow> cpath list \<Rightarrow> cpath list \<Rightarrow> forbidden" where
  "forbidden_new fs trees exact = \<lparr>fb_trees = map (settled fs) trees, fb_exact = map (settled fs) exact\<rparr>"

definition refuses :: "forbidden \<Rightarrow> cpath list \<Rightarrow> cpath \<Rightarrow> bool" where
  "refuses fb mounts folder \<longleftrightarrow> is_network folder \<or> is_drive_root folder
     \<or> list_ex (\<lambda>t. covers t folder) (fb_trees fb)
     \<or> list_ex (covers folder) (fb_trees fb @ fb_exact fb)
     \<or> list_ex (\<lambda>m. covers m folder) mounts"

subsection \<open>The folders to ask for\<close>

fun minimal_loop :: "cpath list \<Rightarrow> cpath list \<Rightarrow> cpath list" where
  "minimal_loop [] kept = kept"
| "minimal_loop (folder # rest) kept =
     (if list_ex (\<lambda>known. covers known folder) kept then minimal_loop rest kept
      else minimal_loop rest (filter (\<lambda>known. \<not> covers folder known) kept @ [folder]))"

definition minimal :: "cpath list \<Rightarrow> cpath list" where
  "minimal folders = minimal_loop folders []"

subsection \<open>Covering is an order\<close>

lemma covers_iff: "covers g t \<longleftrightarrow> path_keys g \<noteq> [] \<and> (\<exists>r. path_keys t = path_keys g @ r)"
proof -
  have "length xs \<le> length ys \<and> take (length xs) ys = xs \<longleftrightarrow> (\<exists>r. ys = xs @ r)" for xs ys :: "string list"
    by (metis append_eq_conv_conj append_take_drop_id length_append le_add1)
  then show ?thesis by (simp add: covers_def)
qed

lemma covers_refl: "path_keys p \<noteq> [] \<Longrightarrow> covers p p"
  by (simp add: covers_iff)

lemma covers_trans: "covers a b \<Longrightarrow> covers b c \<Longrightarrow> covers a c"
  by (auto simp: covers_iff)

lemma covers_connected: "covers a c \<Longrightarrow> covers b c \<Longrightarrow> covers a b \<or> covers b a"
  unfolding covers_iff by (metis append_eq_append_conv2)

lemma path_keys_append [simp]: "path_keys (a @ b) = path_keys a @ path_keys b"
  by (simp add: path_keys_def List.map_filter_def)

lemma path_keys_Nil [simp]: "path_keys [] = []"
  by (simp add: path_keys_def List.map_filter_def)

lemma covers_append: "path_keys p \<noteq> [] \<Longrightarrow> covers p (p @ names)"
  by (simp add: covers_iff)

lemma absolute_keys: "is_absolute p \<Longrightarrow> path_keys p \<noteq> []"
  by (auto simp: is_absolute_def path_keys_def List.map_filter_simps component_key_def split: list.splits component.splits)

text \<open>A folder that may be granted reaches into no forbidden tree.\<close>

lemma covered_paths_avoid_trees:
  assumes "\<not> refuses fb mounts folder" "covers folder p" "t \<in> set (fb_trees fb)"
  shows "\<not> covers t p"
proof
  assume "covers t p"
  with covers_connected assms(2) have "covers folder t \<or> covers t folder" by blast
  with assms(1,3) show False by (auto simp: refuses_def list_ex_iff)
qed

text \<open>A folder that may be granted reaches into no forbidden tree, and does not hold a forbidden folder:
  no path below it lies in the system folders or in the data of the application.\<close>

lemma forbidden_trees_stay_closed:
  assumes "\<not> refuses fb mounts folder" "covers folder p"
  shows "(\<forall>t \<in> set (fb_trees fb). \<not> covers t p) \<and> (\<forall>x \<in> set (fb_exact fb). \<not> covers folder x)"
proof -
  have "\<not> covers folder x" if "x \<in> set (fb_exact fb)" for x
    using assms(1) that by (simp add: refuses_def list_ex_iff)
  with covered_paths_avoid_trees [OF assms] show ?thesis by blast
qed

subsection \<open>Targets lie below their folder\<close>

text \<open>What \<^verbatim>\<open>canonicalize\<close> documents: an absolute path. The drive letters of the system are as they are there.\<close>

definition canonical_fs :: "folder_fs \<Rightarrow> bool" where
  "canonical_fs fs \<longleftrightarrow> (\<forall>p q. ff_canonicalize fs p = Inr q \<longrightarrow> is_absolute q)"

definition well_targeted :: "grant_target \<Rightarrow> bool" where
  "well_targeted t \<longleftrightarrow> is_absolute (gt_folder t) \<and> covers (gt_folder t) (gt_path t)
     \<and> (\<exists>names. gt_path t = gt_folder t @ names \<and> (\<forall>c \<in> set (gt_creates t). take (length c) names = c))"

lemma absolute_butlast: "is_absolute p \<Longrightarrow> \<not> is_drive_root p \<Longrightarrow> is_absolute (butlast p)"
  by (cases p rule: rev_cases) (auto simp: is_absolute_def is_drive_root_def split: list.splits component.splits)

lemma take_own: "take (length (take k xs)) xs = take k xs"
  by (simp add: min_def)

lemma well_targeted_below: "is_absolute real \<Longrightarrow> well_targeted (target_below kind real names)"
proof -
  assume a: "is_absolute real"
  have "take (length c) names = c" if "c \<in> set (gt_creates (target_below kind real names))" for c
    using that take_own by (auto simp: target_below_def simp del: length_take take_take)
  moreover have "is_absolute (gt_folder (target_below kind real names)) \<and> covers (gt_folder (target_below kind real names)) (gt_path (target_below kind real names))
      \<and> gt_path (target_below kind real names) = gt_folder (target_below kind real names) @ names"
    using a by (simp add: target_below_def covers_append absolute_keys)
  ultimately show ?thesis unfolding well_targeted_def by blast
qed

lemma well_targeted_known: "is_absolute p \<Longrightarrow> is_absolute f \<Longrightarrow> (\<exists>n. p = f @ n) \<Longrightarrow> well_targeted \<lparr>gt_path = p, gt_folder = f, gt_creates = []\<rparr>"
  by (auto simp: well_targeted_def intro!: covers_append absolute_keys)

lemma grant_target_loop_sound: "canonical_fs fs \<Longrightarrow> grant_target_loop fs kind ancestor names = Inr t \<Longrightarrow> well_targeted t"
proof (induction fs kind ancestor names rule: grant_target_loop.induct)
  case (1 fs kind ancestor names)
  show ?case
  proof (cases "ff_metadata fs ancestor")
    case (Inr is_dir)
    with 1(3) obtain real where r: "ff_canonicalize fs ancestor = Inr real"
      unfolding grant_target_loop.simps [of fs kind ancestor names] by (auto split: sum.splits)
    then have a: "is_absolute real" using 1(2) by (simp add: canonical_fs_def)
    have "real \<noteq> []" using a by (auto simp: is_absolute_def)
    from 1(3) Inr r have t: "(if names = [] then
                (if is_dir then Inr \<lparr>gt_path = real, gt_folder = real, gt_creates = []\<rparr>
                 else if is_drive_root real then Inl FailOther
                 else Inr \<lparr>gt_path = real, gt_folder = butlast real, gt_creates = []\<rparr>)
              else if \<not> is_dir then Inl FailNotADirectory
              else Inr (target_below kind real names)) = Inr t"
      unfolding grant_target_loop.simps [of fs kind ancestor names] by simp
    show ?thesis
    proof (cases "names = []")
      case True
      with t a absolute_butlast [OF a] \<open>real \<noteq> []\<close> show ?thesis
        by (auto split: if_splits intro!: well_targeted_known intro: exI [of _ "[last real]"])
    next
      case False
      with t a show ?thesis by (auto split: if_splits intro: well_targeted_below)
    qed
  next
    case (Inl e)
    with 1(3) have "e = FailNotFound \<and> ancestor \<noteq> [] \<and> (\<exists>s. last ancestor = CNormal s
        \<and> grant_target_loop fs kind (butlast ancestor) (CNormal s # names) = Inr t)"
      unfolding grant_target_loop.simps [of fs kind ancestor names]
      by (auto split: fs_failure.splits if_splits component.splits)
    with 1(1) Inl 1(2) show ?thesis by blast
  qed
qed

lemma grant_target_sound: "canonical_fs fs \<Longrightarrow> grant_target fs p kind = Inr t \<Longrightarrow> well_targeted t"
  by (auto simp: grant_target_def split: option.splits if_splits intro: grant_target_loop_sound)

subsection \<open>The fewest folders\<close>

definition antichain :: "cpath list \<Rightarrow> bool" where
  "antichain ps \<longleftrightarrow> distinct ps \<and> (\<forall>a \<in> set ps. \<forall>b \<in> set ps. covers a b \<longrightarrow> a = b)"

lemma minimal_loop_spec:
  assumes "\<forall>f \<in> set folders \<union> set kept. path_keys f \<noteq> []" "antichain kept"
  shows "antichain (minimal_loop folders kept) \<and> set (minimal_loop folders kept) \<subseteq> set folders \<union> set kept
    \<and> (\<forall>f \<in> set folders \<union> set kept. \<exists>k \<in> set (minimal_loop folders kept). covers k f)"
  using assms
proof (induction folders kept rule: minimal_loop.induct)
  case (1 kept)
  then show ?case using covers_refl by fastforce
next
  case (2 folder rest kept)
  show ?case
  proof (cases "list_ex (\<lambda>known. covers known folder) kept")
    case True
    then obtain k where k: "k \<in> set kept" "covers k folder" by (auto simp: list_ex_iff)
    from 2(1) [OF True] 2(3,4) have IH: "antichain (minimal_loop rest kept)" "set (minimal_loop rest kept) \<subseteq> set rest \<union> set kept"
      "\<forall>f \<in> set rest \<union> set kept. \<exists>k \<in> set (minimal_loop rest kept). covers k f" by auto
    from IH(3) k obtain k' where "k' \<in> set (minimal_loop rest kept)" "covers k' k" by blast
    then have "\<exists>k \<in> set (minimal_loop rest kept). covers k folder" using k(2) covers_trans by blast
    with True IH show ?thesis by auto
  next
    case False
    let ?kept = "filter (\<lambda>known. \<not> covers folder known) kept @ [folder]"
    have "folder \<notin> set (filter (\<lambda>known. \<not> covers folder known) kept)" using covers_refl 2(3) by auto
    then have "antichain ?kept" using 2(4) False by (auto simp: antichain_def list_ex_iff)
    with 2(2) [OF False] 2(3) have IH: "antichain (minimal_loop rest ?kept)" "set (minimal_loop rest ?kept) \<subseteq> set rest \<union> set ?kept"
      "\<forall>f \<in> set rest \<union> set ?kept. \<exists>k \<in> set (minimal_loop rest ?kept). covers k f" by auto
    have "\<exists>k \<in> set (minimal_loop rest ?kept). covers k f" if "f \<in> set kept" for f
    proof (cases "covers folder f")
      case True
      from IH(3) obtain k where "k \<in> set (minimal_loop rest ?kept)" "covers k folder" by auto
      with True covers_trans show ?thesis by blast
    qed (use IH(3) that in auto)
    with False IH show ?thesis by auto
  qed
qed

text \<open>What the user is asked for covers every folder needed, is among the folders needed, and has no two of
  which one lies in the other.\<close>

lemma minimal_asks_once:
  assumes "\<forall>f \<in> set folders. path_keys f \<noteq> []"
  shows "set (minimal folders) \<subseteq> set folders \<and> (\<forall>f \<in> set folders. \<exists>k \<in> set (minimal folders). covers k f)
    \<and> (\<forall>a \<in> set (minimal folders). \<forall>b \<in> set (minimal folders). covers a b \<longrightarrow> a = b)"
  using minimal_loop_spec [of folders "[]"] assms by (auto simp: minimal_def antichain_def)

lemma minimal_keys: "\<forall>f \<in> set folders. path_keys f \<noteq> [] \<Longrightarrow> f \<in> set folders \<Longrightarrow> \<exists>k \<in> set (minimal folders). covers k f"
  using minimal_loop_spec [of folders "[]"] by (auto simp: minimal_def antichain_def)

end
