(* ===== verification/FolderAccess.thy ===== *)
theory FolderAccess
  imports FolderPaths Permissions
begin

text \<open>
  Access to folders, \<^verbatim>\<open>workspace/service.rs\<close> and \<^verbatim>\<open>data/repositories/folder_grant.rs\<close> of the host: which
  folders a call of a tool may work in, what the user is asked, and what an answer grants.

  \<open>folder_world\<close> holds the grant table, the conversations with their working folders, the agentic sessions
  with their workspaces and the map of pending requests. The operations are functions on it; \<^verbatim>\<open>confirm\<close> and
  \<^verbatim>\<open>answer\<close> come in the pieces between which other calls may run. The decision of the approval service is
  an argument, as are the clock, new ids and the mounts of removable disks. Failures of the database and
  the details of errors are left out.

  \<open>folder_step\<close> interleaves any number of calls with the user's answers and with everything else that writes to
  the tables; \<open>access_has_consent\<close> says that what goes ahead is granted. A call of a tool may also work in folders of
  the application without asking for access: \<open>FileRoots\<close> has those, and what holds for all the paths of a call.
\<close>

datatype folder_scope = ScopeConversation | ScopeAlways
datatype folder_answer = AnswerOnce | AnswerConversation | AnswerAlways | AnswerDeny
datatype folder_access_state = AccessGranted | AccessMissing

definition FOLDER_SUBJECT :: string where "FOLDER_SUBJECT = ''folder.access''"
definition FOLDER_FORBIDDEN :: string where "FOLDER_FORBIDDEN = ''FOLDER_FORBIDDEN''"
definition FOLDER_ACCESS_DENIED :: string where "FOLDER_ACCESS_DENIED = ''FOLDER_ACCESS_DENIED''"
definition FOLDER_NOT_FOUND :: string where "FOLDER_NOT_FOUND = ''FOLDER_NOT_FOUND''"
definition NOT_A_FOLDER :: string where "NOT_A_FOLDER = ''NOT_A_FOLDER''"
definition INVALID_PATH :: string where "INVALID_PATH = ''INVALID_PATH''"
definition GRANT_NOT_FOUND :: string where "GRANT_NOT_FOUND = ''GRANT_NOT_FOUND''"
definition NO_WORKING_FOLDER :: string where "NO_WORKING_FOLDER = ''NO_WORKING_FOLDER''"
definition CONVERSATION_MISSING :: string where "CONVERSATION_MISSING = ''CONVERSATION_MISSING''"
definition CHANGES_DENIED :: string where "CHANGES_DENIED = ''CHANGES_DENIED''"
definition OUTSIDE_WORKSPACE :: string where "OUTSIDE_WORKSPACE = ''OUTSIDE_WORKSPACE''"
definition FOLDER_NOT_PENDING :: string where "FOLDER_NOT_PENDING = ''NO_LONGER_PENDING''"

record folder_target =
  ft_path :: cpath
  ft_kind :: target_kind

record folder_grant =
  fg_id :: string
  fg_path :: cpath
  fg_scope :: folder_scope
  fg_conversation :: "string option"
  fg_granted_at :: int
  fg_last_used_at :: "int option"

record access_plan =
  ap_resolved :: "grant_target list"
  ap_folders :: "cpath list"
  ap_used :: "string list"

datatype folder_owner = OwnerConversation "cpath option" | OwnerSession cpath

record pending_folder =
  pn_run :: string
  pn_conversation :: string
  pn_folders :: "cpath list"
  pn_answer :: "folder_answer option"

record folder_world =
  fw_grants :: "folder_grant list"
  fw_chats :: "(string \<times> cpath option) list"
  fw_sessions :: "(string \<times> cpath) list"
  fw_pending :: "string \<Rightarrow> pending_folder option"

subsection \<open>The grant table\<close>

definition component_text :: "component \<Rightarrow> string" where
  "component_text c = (case c of CPrefix s \<Rightarrow> s | CRootDir \<Rightarrow> [CHR 0x5C] | CCurDir \<Rightarrow> ''.'' | CParentDir \<Rightarrow> ''..'' | CNormal s \<Rightarrow> s)"

fun path_string :: "cpath \<Rightarrow> string" where
  "path_string [] = []"
| "path_string [c] = component_text c"
| "path_string (c # d # r) =
     component_text c @ (case c of CPrefix _ \<Rightarrow> [] | CRootDir \<Rightarrow> [] | _ \<Rightarrow> [CHR 0x5C]) @ path_string (d # r)"

definition nocase :: "string \<Rightarrow> string" where
  "nocase s = map (\<lambda>c. if 65 \<le> (of_char c :: nat) \<and> (of_char c :: nat) \<le> 90 then char_of ((of_char c :: nat) + 32) else c) s"

definition grants_list :: "folder_world \<Rightarrow> folder_grant list" where
  "grants_list w = sort_key (\<lambda>g. (nocase (path_string (fg_path g)), fg_granted_at g, fg_id g)) (fw_grants w)"

definition grants_applicable :: "string \<Rightarrow> folder_world \<Rightarrow> folder_grant list" where
  "grants_applicable conversation w = sort_key (\<lambda>g. (fg_granted_at g, fg_id g))
     (filter (\<lambda>g. fg_scope g = ScopeAlways \<or> fg_conversation g = Some conversation) (fw_grants w))"

definition grants_remove :: "string \<Rightarrow> folder_world \<Rightarrow> folder_world" where
  "grants_remove i w = w\<lparr>fw_grants := filter (\<lambda>g. fg_id g \<noteq> i) (fw_grants w)\<rparr>"

definition grants_touch :: "string list \<Rightarrow> int \<Rightarrow> folder_world \<Rightarrow> folder_world" where
  "grants_touch ids now w = w\<lparr>fw_grants := map (\<lambda>g. if fg_id g \<in> set ids then g\<lparr>fg_last_used_at := Some now\<rparr> else g) (fw_grants w)\<rparr>"

text \<open>\<^verbatim>\<open>ChatService::branch\<close>: the branch of a conversation starts with copies of the grants made for it.\<close>

definition grants_branch :: "string \<Rightarrow> string \<Rightarrow> (nat \<Rightarrow> string) \<Rightarrow> folder_world \<Rightarrow> folder_world" where
  "grants_branch i branch fresh w = w\<lparr>fw_grants := fw_grants w @
     map (\<lambda>(n, g). g\<lparr>fg_id := fresh n, fg_conversation := Some branch\<rparr>)
       (enumerate 0 (filter (\<lambda>g. fg_scope g = ScopeConversation) (grants_applicable i w)))\<rparr>"

definition folder_io_error :: "fs_failure \<Rightarrow> app_error" where
  "folder_io_error e = (case e of FailNotFound \<Rightarrow> app_error_new NotFound FOLDER_NOT_FOUND
     | FailNotADirectory \<Rightarrow> app_error_new ValidationFailed NOT_A_FOLDER | FailOther \<Rightarrow> app_error_new ValidationFailed INVALID_PATH)"

text \<open>\<^verbatim>\<open>folder_access\<close>: what the list of conversations shows of a working folder.\<close>

definition folder_access :: "cpath option \<Rightarrow> folder_grant list \<Rightarrow> string \<Rightarrow> folder_access_state option" where
  "folder_access folder gs conversation = map_option (\<lambda>f.
     if list_ex (\<lambda>g. (fg_scope g = ScopeAlways \<or> fg_conversation g = Some conversation) \<and> covers (fg_path g) f) gs
     then AccessGranted else AccessMissing) folder"

definition working_folder :: "folder_fs \<Rightarrow> forbidden \<Rightarrow> cpath list \<Rightarrow> cpath \<Rightarrow> app_error + cpath" where
  "working_folder fs fb mounts p =
     (if \<not> is_absolute p then Inl (app_error_new ValidationFailed INVALID_PATH)
      else case ff_canonicalize fs p of
          Inl e \<Rightarrow> Inl (folder_io_error e)
        | Inr folder \<Rightarrow>
            if ff_metadata fs folder \<noteq> Inr True then Inl (app_error_new ValidationFailed NOT_A_FOLDER)
            else if refuses fb mounts folder then Inl (app_error_new PermissionDenied FOLDER_FORBIDDEN)
            else Inr folder)"

definition owner_of :: "string \<Rightarrow> folder_world \<Rightarrow> app_error + folder_owner" where
  "owner_of i w = (case map_of (fw_chats w) i of
     Some folder \<Rightarrow> Inr (OwnerConversation folder)
   | None \<Rightarrow> (case map_of (fw_sessions w) i of
       Some workspace \<Rightarrow> Inr (OwnerSession workspace)
     | None \<Rightarrow> Inl (app_error_new NotFound CONVERSATION_MISSING)))"

definition working_folder_of :: "string \<Rightarrow> folder_world \<Rightarrow> app_error + cpath option" where
  "working_folder_of i w = (if i = [] then Inr None
     else rbind (owner_of i w) (\<lambda>ow. Inr (case ow of OwnerConversation folder \<Rightarrow> folder | OwnerSession workspace \<Rightarrow> Some workspace)))"

definition covering :: "string \<Rightarrow> cpath \<Rightarrow> folder_world \<Rightarrow> folder_grant option" where
  "covering i folder w = List.find (\<lambda>g. covers (fg_path g) folder) (grants_applicable i w)"

definition folder_covered :: "folder_fs \<Rightarrow> string \<Rightarrow> cpath \<Rightarrow> folder_world \<Rightarrow> app_error + bool" where
  "folder_covered fs i folder w = rbind (owner_of i w) (\<lambda>ow. Inr (case ow of
     OwnerSession workspace \<Rightarrow> covers (case ff_canonicalize fs workspace of Inr real \<Rightarrow> real | Inl _ \<Rightarrow> workspace) folder
   | OwnerConversation _ \<Rightarrow> covering i folder w \<noteq> None))"

subsection \<open>Granting\<close>

definition stored_grant :: "forbidden \<Rightarrow> cpath list \<Rightarrow> int \<Rightarrow> string \<Rightarrow> cpath \<Rightarrow> folder_scope \<Rightarrow> string option \<Rightarrow> folder_world
    \<Rightarrow> (app_error + folder_grant \<times> bool) \<times> folder_world" where
  "stored_grant fb mounts now fresh folder scope conversation w =
     (if refuses fb mounts folder then (Inl (app_error_new PermissionDenied FOLDER_FORBIDDEN), w)
      else if scope = ScopeConversation \<and> conversation = None then (Inl (app_error_new ValidationFailed CONVERSATION_MISSING), w)
      else let conv = (case scope of ScopeAlways \<Rightarrow> None | ScopeConversation \<Rightarrow> conversation) in
        case List.find (\<lambda>g. fg_scope g = scope \<and> fg_conversation g = conv \<and> same_folder (fg_path g) folder) (grants_list w) of
          Some existing \<Rightarrow> (Inr (existing, False), w)
        | None \<Rightarrow> let g = \<lparr>fg_id = fresh, fg_path = folder, fg_scope = scope, fg_conversation = conv, fg_granted_at = now, fg_last_used_at = None\<rparr> in
            (Inr (g, True), w\<lparr>fw_grants := fw_grants w @ [g]\<rparr>))"

definition revoke_folder :: "string \<Rightarrow> folder_world \<Rightarrow> (app_error + unit) \<times> folder_world" where
  "revoke_folder i w = (if list_ex (\<lambda>g. fg_id g = i) (fw_grants w) then (Inr (), grants_remove i w)
     else (Inl (app_error_new NotFound GRANT_NOT_FOUND), w))"

subsection \<open>Resolving\<close>

definition target_of :: "folder_fs \<Rightarrow> forbidden \<Rightarrow> cpath list \<Rightarrow> cpath option \<Rightarrow> folder_target \<Rightarrow> app_error + grant_target" where
  "target_of fs fb mounts base t =
     (case resolve_path base (ft_path t) of
        None \<Rightarrow> Inl (app_error_new ValidationFailed (if is_absolute (ft_path t) \<or> base \<noteq> None then INVALID_PATH else NO_WORKING_FOLDER))
      | Some absolute \<Rightarrow> (case grant_target fs absolute (ft_kind t) of
          Inl e \<Rightarrow> Inl (folder_io_error e)
        | Inr r \<Rightarrow> if refuses fb mounts (gt_folder r) then Inl (app_error_new PermissionDenied FOLDER_FORBIDDEN) else Inr r))"

definition targets_of :: "folder_fs \<Rightarrow> forbidden \<Rightarrow> cpath list \<Rightarrow> cpath option \<Rightarrow> folder_target list \<Rightarrow> app_error + grant_target list" where
  "targets_of fs fb mounts base ts = collect_results (target_of fs fb mounts base) ts"

fun cover_loop :: "folder_grant list \<Rightarrow> cpath list \<Rightarrow> grant_target list \<Rightarrow> string list \<Rightarrow> cpath list \<Rightarrow> string list \<times> cpath list" where
  "cover_loop gs once [] used uncovered = (used, uncovered)"
| "cover_loop gs once (t # ts) used uncovered =
     (if list_ex (\<lambda>f. covers f (gt_folder t)) once then cover_loop gs once ts used uncovered
      else case List.find (\<lambda>g. covers (fg_path g) (gt_folder t)) gs of
          Some g \<Rightarrow> cover_loop gs once ts (if fg_id g \<in> set used then used else used @ [fg_id g]) uncovered
        | None \<Rightarrow> cover_loop gs once ts used (uncovered @ [gt_folder t]))"

definition resolve_access :: "folder_fs \<Rightarrow> forbidden \<Rightarrow> cpath list \<Rightarrow> string \<Rightarrow> cpath list \<Rightarrow> folder_target list \<Rightarrow> folder_world
    \<Rightarrow> app_error + access_plan" where
  "resolve_access fs fb mounts conversation once ts w =
     rbind (owner_of conversation w) (\<lambda>ow. case ow of
        OwnerSession workspace \<Rightarrow> rbind (targets_of fs fb mounts (Some workspace) ts) (\<lambda>resolved.
          if list_ex (\<lambda>t. \<not> covers workspace (gt_folder t)) resolved then Inl (app_error_new PermissionDenied OUTSIDE_WORKSPACE)
          else Inr \<lparr>ap_resolved = resolved, ap_folders = [], ap_used = []\<rparr>)
      | OwnerConversation base \<Rightarrow> rbind (targets_of fs fb mounts base ts) (\<lambda>resolved.
          case cover_loop (grants_applicable conversation w) once resolved [] [] of (used, uncovered) \<Rightarrow>
            Inr \<lparr>ap_resolved = resolved, ap_folders = minimal uncovered, ap_used = used\<rparr>))"

subsection \<open>Confirming\<close>

text \<open>The folders a request shows, each with the folders that would be created in it.\<close>

definition request_creates :: "grant_target list \<Rightarrow> cpath \<Rightarrow> string list" where
  "request_creates resolved folder =
     fold (\<lambda>n acc. if n \<in> set acc then acc else acc @ [n])
       (concat (map (\<lambda>t. case relative_to folder (gt_folder t) of None \<Rightarrow> []
          | Some prefix \<Rightarrow> map (\<lambda>c. path_string (prefix @ c)) (gt_creates t)) resolved)) []"

definition request_entries :: "access_plan \<Rightarrow> (string \<times> string list) list" where
  "request_entries plan = map (\<lambda>f. (path_string f, request_creates (ap_resolved plan) f)) (ap_folders plan)"

text \<open>\<^verbatim>\<open>confirm\<close> up to its await. The ticket is the subject and the scope of a deferred approval. A request is
  made for the changes, or for the folders under the id the approval service has given it.\<close>

datatype confirm_next =
    Confirmed
  | AskChanges string string
  | AskFolders string string "(string \<times> string list) list"

definition confirm_begin :: "bool \<Rightarrow> int \<Rightarrow> string \<Rightarrow> string \<Rightarrow> string \<Rightarrow> access_plan \<Rightarrow> (string \<times> string) option \<Rightarrow> folder_world
    \<Rightarrow> (app_error + confirm_next) \<times> folder_world" where
  "confirm_begin is_cancelled now i run conversation plan ticket w =
     (if is_cancelled then (Inl (app_error_new RunCancelled ''CANCELLED_MESSAGE''), w)
      else let w1 = (if ap_used plan = [] then w else grants_touch (ap_used plan) now w) in
        if ap_folders plan = [] then
          (case ticket of None \<Rightarrow> (Inr Confirmed, w1) | Some (subject, scope) \<Rightarrow> (Inr (AskChanges subject scope), w1))
        else (case (case ticket of None \<Rightarrow> (FOLDER_SUBJECT, GLOBAL_SCOPE) | Some t \<Rightarrow> t) of (subject, scope) \<Rightarrow>
          (Inr (AskFolders subject scope (request_entries plan)),
           w1\<lparr>fw_pending := (fw_pending w1)(i \<mapsto>
             \<lparr>pn_run = run, pn_conversation = conversation, pn_folders = ap_folders plan, pn_answer = None\<rparr>)\<rparr>)))"

definition confirm_changes :: "approval_decision \<Rightarrow> app_error + unit" where
  "confirm_changes d = (case d of Approved \<Rightarrow> Inr () | Denied \<Rightarrow> Inl (app_error_new ApprovalDenied CHANGES_DENIED))"

text \<open>\<^verbatim>\<open>confirm\<close> after its await: the entry is taken out, the decision or its error looked at, and the folders
  held by the call.\<close>

definition confirm_folders :: "string \<Rightarrow> app_error + approval_decision \<Rightarrow> cpath list \<Rightarrow> cpath list \<Rightarrow> folder_world
    \<Rightarrow> (app_error + unit) \<times> cpath list \<times> folder_world" where
  "confirm_folders i decision folders once w =
     (let answer = Option.bind (fw_pending w i) pn_answer;
          w1 = w\<lparr>fw_pending := (fw_pending w)(i := None)\<rparr> in
      case decision of
        Inl e \<Rightarrow> (Inl e, once, w1)
      | Inr d \<Rightarrow> (case (d, answer) of
          (Approved, Some a) \<Rightarrow> if a \<noteq> AnswerDeny then (Inr (), once @ folders, w1)
             else (Inl (app_error_new PermissionDenied FOLDER_ACCESS_DENIED), once, w1)
        | _ \<Rightarrow> (Inl (app_error_new PermissionDenied FOLDER_ACCESS_DENIED), once, w1)))"

subsection \<open>Answering\<close>

definition answer_check :: "string \<Rightarrow> string \<Rightarrow> folder_world \<Rightarrow> app_error + string \<times> cpath list" where
  "answer_check run i w = (case fw_pending w i of
     Some entry \<Rightarrow> if pn_run entry = run \<and> pn_answer entry = None then Inr (pn_conversation entry, pn_folders entry)
       else Inl (app_error_new Conflict FOLDER_NOT_PENDING)
   | None \<Rightarrow> Inl (app_error_new Conflict FOLDER_NOT_PENDING))"

definition answer_scope :: "folder_answer \<Rightarrow> folder_scope option" where
  "answer_scope a = (case a of AnswerConversation \<Rightarrow> Some ScopeConversation | AnswerAlways \<Rightarrow> Some ScopeAlways | _ \<Rightarrow> None)"

fun answer_grants :: "forbidden \<Rightarrow> cpath list \<Rightarrow> int \<Rightarrow> (nat \<Rightarrow> string) \<Rightarrow> folder_scope \<Rightarrow> string \<Rightarrow> cpath list \<Rightarrow> string list \<Rightarrow> folder_world
    \<Rightarrow> (app_error + string list) \<times> folder_world" where
  "answer_grants fb mounts now fresh scope conversation [] created w = (Inr created, w)"
| "answer_grants fb mounts now fresh scope conversation (f # fs) created w =
     (case stored_grant fb mounts now (fresh (length fs)) f scope (Some conversation) w of
        (Inl e, w1) \<Rightarrow> (Inl e, w1)
      | (Inr (g, new), w1) \<Rightarrow> answer_grants fb mounts now fresh scope conversation fs (if new then created @ [fg_id g] else created) w1)"

definition answer_mark :: "string \<Rightarrow> folder_answer option \<Rightarrow> folder_world \<Rightarrow> folder_world" where
  "answer_mark i a w = w\<lparr>fw_pending := (fw_pending w)(i := map_option (\<lambda>e. e\<lparr>pn_answer := a\<rparr>) (fw_pending w i))\<rparr>"

definition answer_decision :: "folder_answer \<Rightarrow> approval_decision" where
  "answer_decision a = (if a = AnswerDeny then Denied else Approved)"

definition answer_failed :: "string \<Rightarrow> string list \<Rightarrow> folder_world \<Rightarrow> folder_world" where
  "answer_failed i created w = fold grants_remove created (answer_mark i None w)"

text \<open>A call of \<^verbatim>\<open>answer\<close> with nothing in between; \<open>decide\<close> is the approval service.\<close>

definition answer_request :: "forbidden \<Rightarrow> cpath list \<Rightarrow> int \<Rightarrow> (nat \<Rightarrow> string) \<Rightarrow> (approval_decision \<Rightarrow> app_error option) \<Rightarrow> string \<Rightarrow> string
    \<Rightarrow> folder_answer \<Rightarrow> folder_world \<Rightarrow> (app_error + unit) \<times> folder_world" where
  "answer_request fb mounts now fresh decide run i a w =
     (case answer_check run i w of
        Inl e \<Rightarrow> (Inl e, w)
      | Inr (conversation, folders) \<Rightarrow>
          (case (case answer_scope a of Some scope \<Rightarrow> answer_grants fb mounts now fresh scope conversation folders [] w
                 | None \<Rightarrow> (Inr [], w)) of
             (Inl e, w1) \<Rightarrow> (Inl e, w1)
           | (Inr created, w1) \<Rightarrow> (case decide (answer_decision a) of
               None \<Rightarrow> (Inr (), answer_mark i (Some a) w1)
             | Some e \<Rightarrow> (Inl e, answer_failed i created (answer_mark i (Some a) w1)))))"

subsection \<open>Calls and answers interleaved\<close>

text \<open>
  What the user has agreed to: a folder for all conversations, for one, or for one call, and the workspace
  of a session. Consents are only recorded by an answer that is not a denial and finds its request
  pending, by a grant of the settings and by a new session; a branch of a conversation takes those for
  the conversation with it. They are not part of the program.
\<close>

datatype consent = ConsentAlways cpath | ConsentChat string cpath | ConsentCall nat cpath | ConsentSession string cpath

text \<open>\<open>fy_plans\<close> are the calls resolved, \<open>fy_waiting\<close> those waiting for an answer, by the id of the request,
  \<open>fy_answers\<close> the answers under way: the request, the answer, the conversation, the folders to grant yet and the grants made.\<close>

record folder_sys =
  fy_world :: folder_world
  fy_once :: "nat \<Rightarrow> cpath list"
  fy_plans :: "(nat \<times> access_plan) set"
  fy_waiting :: "string \<Rightarrow> (nat \<times> access_plan) option"
  fy_used_ids :: "string set"
  fy_answers :: "(string \<times> folder_answer \<times> string \<times> cpath list \<times> string list) set"
  fy_ahead :: "(nat \<times> access_plan) set"
  fy_consents :: "consent set"

definition consents_of :: "nat \<Rightarrow> string \<Rightarrow> folder_answer \<Rightarrow> cpath list \<Rightarrow> consent set" where
  "consents_of c conversation a folders = (if a = AnswerDeny then {} else ConsentCall c ` set folders
     \<union> (case a of AnswerAlways \<Rightarrow> ConsentAlways ` set folders | AnswerConversation \<Rightarrow> ConsentChat conversation ` set folders | _ \<Rightarrow> {}))"

text \<open>\<open>conv\<close> is the conversation of a call.\<close>

inductive folder_step :: "forbidden \<Rightarrow> (nat \<Rightarrow> string) \<Rightarrow> folder_sys \<Rightarrow> folder_sys \<Rightarrow> bool" for fb conv where
  fs_resolve: "canonical_fs fs \<Longrightarrow> resolve_access fs fb mounts (conv c) (fy_once s c) ts (fy_world s) = Inr plan \<Longrightarrow>
     folder_step fb conv s (s\<lparr>fy_plans := insert (c, plan) (fy_plans s)\<rparr>)"
| fs_ahead: "(c, plan) \<in> fy_plans s \<Longrightarrow> confirm_begin cancelled now i run (conv c) plan ticket (fy_world s) = (Inr Confirmed, w) \<Longrightarrow>
     folder_step fb conv s (s\<lparr>fy_world := w, fy_ahead := insert (c, plan) (fy_ahead s)\<rparr>)"
| fs_changes: "(c, plan) \<in> fy_plans s \<Longrightarrow>
     confirm_begin cancelled now i run (conv c) plan ticket (fy_world s) = (Inr (AskChanges subject scope), w) \<Longrightarrow>
     folder_step fb conv s (s\<lparr>fy_world := w,
       fy_ahead := (if confirm_changes d = Inr () then insert (c, plan) (fy_ahead s) else fy_ahead s)\<rparr>)"
| fs_ask: "(c, plan) \<in> fy_plans s \<Longrightarrow> i \<notin> fy_used_ids s \<Longrightarrow>
     confirm_begin cancelled now i run (conv c) plan ticket (fy_world s) = (Inr (AskFolders subject scope entries), w) \<Longrightarrow>
     folder_step fb conv s (s\<lparr>fy_world := w, fy_waiting := (fy_waiting s)(i \<mapsto> (c, plan)), fy_used_ids := insert i (fy_used_ids s)\<rparr>)"
| fs_decided: "fy_waiting s i = Some (c, plan) \<Longrightarrow>
     confirm_folders i decision (ap_folders plan) (fy_once s c) (fy_world s) = (r, once, w) \<Longrightarrow>
     folder_step fb conv s (s\<lparr>fy_world := w, fy_once := (fy_once s)(c := once), fy_waiting := (fy_waiting s)(i := None),
       fy_ahead := (if r = Inr () then insert (c, plan) (fy_ahead s) else fy_ahead s)\<rparr>)"
| fs_answer: "answer_check run i (fy_world s) = Inr (conversation, folders) \<Longrightarrow> fy_waiting s i = Some (c, plan) \<Longrightarrow>
     folder_step fb conv s (s\<lparr>fy_answers := insert (i, a, conversation, (if answer_scope a = None then [] else folders), []) (fy_answers s),
       fy_consents := fy_consents s \<union> consents_of c conversation a folders\<rparr>)"
| fs_grant: "(i, a, conversation, f # left, created) \<in> fy_answers s \<Longrightarrow> answer_scope a = Some scope \<Longrightarrow>
     stored_grant fb mounts now fresh f scope (Some conversation) (fy_world s) = (Inr (g, new), w) \<Longrightarrow>
     folder_step fb conv s (s\<lparr>fy_world := w, fy_answers := insert (i, a, conversation, left, if new then created @ [fg_id g] else created) (fy_answers s)\<rparr>)"
| fs_mark: "(i, a, conversation, [], created) \<in> fy_answers s \<Longrightarrow> folder_step fb conv s (s\<lparr>fy_world := answer_mark i (Some a) (fy_world s)\<rparr>)"
| fs_failed: "(i, a, conversation, [], created) \<in> fy_answers s \<Longrightarrow> folder_step fb conv s (s\<lparr>fy_world := answer_failed i created (fy_world s)\<rparr>)"
| fs_settings: "stored_grant fb mounts now fresh f scope conversation (fy_world s) = (Inr (g, new), w) \<Longrightarrow>
     folder_step fb conv s (s\<lparr>fy_world := w, fy_consents := insert (case conversation of
       Some cv \<Rightarrow> if scope = ScopeConversation then ConsentChat cv f else ConsentAlways f | None \<Rightarrow> ConsentAlways f) (fy_consents s)\<rparr>)"
| fs_revoke: "folder_step fb conv s (s\<lparr>fy_world := snd (revoke_folder i (fy_world s))\<rparr>)"
| fs_chats: "folder_step fb conv s (s\<lparr>fy_world := (fy_world s)\<lparr>fw_chats := chats\<rparr>\<rparr>)"
| fs_branch: "map_of (fw_chats (fy_world s)) i = Some folder \<Longrightarrow>
     folder_step fb conv s (s\<lparr>fy_world := grants_branch i branch fresh ((fy_world s)\<lparr>fw_chats := (branch, folder) # fw_chats (fy_world s)\<rparr>),
       fy_consents := fy_consents s \<union> ConsentChat branch ` {f. ConsentChat i f \<in> fy_consents s}\<rparr>)"
| fs_session: "folder_step fb conv s (s\<lparr>fy_world := (fy_world s)\<lparr>fw_sessions := (i, workspace) # fw_sessions (fy_world s)\<rparr>,
     fy_consents := insert (ConsentSession i workspace) (fy_consents s)\<rparr>)"
| fs_session_end: "folder_step fb conv s (s\<lparr>fy_world := (fy_world s)\<lparr>fw_sessions := filter keep (fw_sessions (fy_world s))\<rparr>\<rparr>)"

inductive_cases folder_stepE: "folder_step fb conv s s'"

inductive folder_reachable :: "forbidden \<Rightarrow> (nat \<Rightarrow> string) \<Rightarrow> folder_sys \<Rightarrow> bool" for fb conv where
  folder_start: "folder_reachable fb conv \<lparr>fy_world = \<lparr>fw_grants = [], fw_chats = chats, fw_sessions = [], fw_pending = Map.empty\<rparr>,
     fy_once = (\<lambda>_. []), fy_plans = {}, fy_waiting = Map.empty, fy_used_ids = {}, fy_answers = {}, fy_ahead = {}, fy_consents = {}\<rparr>"
| folder_next: "folder_reachable fb conv s \<Longrightarrow> folder_step fb conv s s' \<Longrightarrow> folder_reachable fb conv s'"

subsection \<open>What the operations do\<close>

lemma collect_results_set: "collect_results f xs = Inr ys \<Longrightarrow> y \<in> set ys \<Longrightarrow> \<exists>x \<in> set xs. f x = Inr y"
  unfolding collect_results_Inr_iff by (induction rule: list_all2_induct) auto

lemma target_of_sound:
  "canonical_fs fs \<Longrightarrow> target_of fs fb mounts base t = Inr r \<Longrightarrow> well_targeted r \<and> \<not> refuses fb mounts (gt_folder r)"
  by (auto simp: target_of_def split: option.splits sum.splits if_splits intro: grant_target_sound)

lemma targets_of_sound:
  "canonical_fs fs \<Longrightarrow> targets_of fs fb mounts base ts = Inr rs \<Longrightarrow> r \<in> set rs \<Longrightarrow> well_targeted r \<and> \<not> refuses fb mounts (gt_folder r)"
  unfolding targets_of_def using collect_results_set [of _ ts rs r] target_of_sound [of fs fb mounts base _ r] by blast

lemma cover_loop_mono: "cover_loop gs once ts used uncovered = (u, un) \<Longrightarrow> set uncovered \<subseteq> set un"
  by (induction ts arbitrary: used uncovered) (fastforce split: if_splits option.splits)+

lemma cover_loop_sound:
  "cover_loop gs once ts used uncovered = (u, un) \<Longrightarrow> t \<in> set ts \<Longrightarrow>
     (\<exists>f \<in> set once. covers f (gt_folder t)) \<or> (\<exists>g \<in> set gs. covers (fg_path g) (gt_folder t)) \<or> gt_folder t \<in> set un"
proof (induction ts arbitrary: used uncovered)
  case (Cons x ts)
  show ?case
  proof (cases "t = x")
    case False
    with Cons show ?thesis by (auto split: if_splits option.splits)
  next
    case True
    consider (once) "list_ex (\<lambda>f. covers f (gt_folder x)) once" | (grant) g where "List.find (\<lambda>g. covers (fg_path g) (gt_folder x)) gs = Some g"
      | (none) "\<not> list_ex (\<lambda>f. covers f (gt_folder x)) once" "List.find (\<lambda>g. covers (fg_path g) (gt_folder x)) gs = None"
      by fastforce
    then show ?thesis
    proof cases
      case once
      with True show ?thesis by (auto simp: list_ex_iff)
    next
      case grant
      then have "g \<in> set gs" "covers (fg_path g) (gt_folder x)" by (auto simp: find_Some_iff)
      with True show ?thesis by blast
    next
      case none
      with Cons.prems(1) have "cover_loop gs once ts used (uncovered @ [gt_folder x]) = (u, un)" by simp
      from cover_loop_mono [OF this] True show ?thesis by auto
    qed
  qed
qed simp

lemma cover_loop_uncovered: "cover_loop gs once ts used uncovered = (u, un) \<Longrightarrow> set un \<subseteq> set uncovered \<union> gt_folder ` set ts"
  by (induction ts arbitrary: used uncovered) (fastforce split: if_splits option.splits)+

lemma stored_grant_cases:
  assumes "stored_grant fb mounts now fresh f scope conversation w = (Inr (g, new), w')"
  obtains "w' = w" "\<not> new" | "w' = w\<lparr>fw_grants := fw_grants w @ [g]\<rparr>" "fg_path g = f" "fg_scope g = scope"
    "fg_conversation g = (case scope of ScopeAlways \<Rightarrow> None | ScopeConversation \<Rightarrow> conversation)" "scope = ScopeConversation \<longrightarrow> conversation \<noteq> None"
    "\<not> refuses fb mounts f"
  using assms by (auto simp: stored_grant_def Let_def split: if_splits option.splits folder_scope.splits)

lemma stored_grant_frame:
  "stored_grant fb mounts now fresh f scope conversation w = (r, w') \<Longrightarrow> fw_pending w' = fw_pending w \<and> fw_sessions w' = fw_sessions w"
  by (auto simp: stored_grant_def Let_def split: if_splits option.splits)

definition grant_consent :: "folder_grant \<Rightarrow> consent option" where
  "grant_consent g = (case (fg_scope g, fg_conversation g) of (ScopeAlways, None) \<Rightarrow> Some (ConsentAlways (fg_path g))
     | (ScopeConversation, Some cv) \<Rightarrow> Some (ConsentChat cv (fg_path g)) | _ \<Rightarrow> None)"

definition consent_allows :: "consent \<Rightarrow> nat \<Rightarrow> string \<Rightarrow> cpath \<Rightarrow> bool" where
  "consent_allows x c cv folder = (case x of ConsentAlways f \<Rightarrow> covers f folder | ConsentChat cv' f \<Rightarrow> cv' = cv \<and> covers f folder
     | ConsentCall c' f \<Rightarrow> c' = c \<and> covers f folder | ConsentSession cv' f \<Rightarrow> cv' = cv \<and> covers f folder)"

subsection \<open>The invariant\<close>

definition consented :: "consent set \<Rightarrow> nat \<Rightarrow> string \<Rightarrow> cpath \<Rightarrow> bool" where
  "consented X c cv folder \<longleftrightarrow> (\<exists>x \<in> X. consent_allows x c cv folder)"

definition grants_ok :: "consent set \<Rightarrow> folder_grant list \<Rightarrow> bool" where
  "grants_ok X gs \<longleftrightarrow> (\<forall>g \<in> set gs. \<exists>x \<in> X. grant_consent g = Some x)"

definition sessions_ok :: "consent set \<Rightarrow> (string \<times> cpath) list \<Rightarrow> bool" where
  "sessions_ok X ss \<longleftrightarrow> (\<forall>(i, ws) \<in> set ss. ConsentSession i ws \<in> X)"

definition calls_ok :: "consent set \<Rightarrow> nat \<Rightarrow> cpath list \<Rightarrow> bool" where
  "calls_ok X c folders \<longleftrightarrow> ConsentCall c ` set folders \<subseteq> X"

definition plan_ok :: "forbidden \<Rightarrow> (nat \<Rightarrow> string) \<Rightarrow> consent set \<Rightarrow> nat \<Rightarrow> access_plan \<Rightarrow> bool" where
  "plan_ok fb conv X c plan \<longleftrightarrow> (\<forall>t \<in> set (ap_resolved plan). well_targeted t \<and> (\<exists>m. \<not> refuses fb m (gt_folder t))
     \<and> (consented X c (conv c) (gt_folder t) \<or> (\<exists>f \<in> set (ap_folders plan). covers f (gt_folder t))))"

definition ahead_ok :: "forbidden \<Rightarrow> (nat \<Rightarrow> string) \<Rightarrow> consent set \<Rightarrow> nat \<Rightarrow> access_plan \<Rightarrow> bool" where
  "ahead_ok fb conv X c plan \<longleftrightarrow> (\<forall>t \<in> set (ap_resolved plan). well_targeted t \<and> (\<exists>m. \<not> refuses fb m (gt_folder t))
     \<and> consented X c (conv c) (gt_folder t))"

definition pending_ok :: "(nat \<Rightarrow> string) \<Rightarrow> consent set \<Rightarrow> nat \<Rightarrow> access_plan \<Rightarrow> pending_folder \<Rightarrow> bool" where
  "pending_ok conv X c plan e \<longleftrightarrow> pn_folders e = ap_folders plan \<and> pn_conversation e = conv c
     \<and> (\<forall>a. pn_answer e = Some a \<longrightarrow> a \<noteq> AnswerDeny \<longrightarrow> calls_ok X c (ap_folders plan))"

definition scope_ok :: "consent set \<Rightarrow> folder_answer \<Rightarrow> string \<Rightarrow> cpath list \<Rightarrow> bool" where
  "scope_ok X a cv left \<longleftrightarrow> (a = AnswerAlways \<longrightarrow> ConsentAlways ` set left \<subseteq> X) \<and> (a = AnswerConversation \<longrightarrow> ConsentChat cv ` set left \<subseteq> X)"

definition answer_ok :: "folder_sys \<Rightarrow> string \<Rightarrow> folder_answer \<Rightarrow> string \<Rightarrow> cpath list \<Rightarrow> bool" where
  "answer_ok s i a cv left \<longleftrightarrow> i \<in> fy_used_ids s \<and> scope_ok (fy_consents s) a cv left
     \<and> (\<forall>c plan. fy_waiting s i = Some (c, plan) \<longrightarrow> a \<noteq> AnswerDeny \<longrightarrow> calls_ok (fy_consents s) c (ap_folders plan))"

definition folder_inv :: "forbidden \<Rightarrow> (nat \<Rightarrow> string) \<Rightarrow> folder_sys \<Rightarrow> bool" where
  "folder_inv fb conv s \<longleftrightarrow> grants_ok (fy_consents s) (fw_grants (fy_world s)) \<and> sessions_ok (fy_consents s) (fw_sessions (fy_world s))
     \<and> (\<forall>c. calls_ok (fy_consents s) c (fy_once s c))
     \<and> (\<forall>(c, plan) \<in> fy_plans s. plan_ok fb conv (fy_consents s) c plan)
     \<and> (\<forall>i c plan. fy_waiting s i = Some (c, plan) \<longrightarrow> (c, plan) \<in> fy_plans s \<and> i \<in> fy_used_ids s
          \<and> (\<forall>e. fw_pending (fy_world s) i = Some e \<longrightarrow> pending_ok conv (fy_consents s) c plan e))
     \<and> (\<forall>(i, a, cv, left, created) \<in> fy_answers s. answer_ok s i a cv left)
     \<and> (\<forall>(c, plan) \<in> fy_ahead s. ahead_ok fb conv (fy_consents s) c plan)"

lemma consents_mono:
  "X \<subseteq> Y \<Longrightarrow> consented X c cv f \<Longrightarrow> consented Y c cv f" "X \<subseteq> Y \<Longrightarrow> grants_ok X gs \<Longrightarrow> grants_ok Y gs"
  "X \<subseteq> Y \<Longrightarrow> sessions_ok X ss \<Longrightarrow> sessions_ok Y ss" "X \<subseteq> Y \<Longrightarrow> calls_ok X c fs \<Longrightarrow> calls_ok Y c fs"
  "X \<subseteq> Y \<Longrightarrow> scope_ok X a cv left \<Longrightarrow> scope_ok Y a cv left"
  unfolding consented_def grants_ok_def sessions_ok_def calls_ok_def scope_ok_def by blast+

lemma plans_mono:
  "X \<subseteq> Y \<Longrightarrow> plan_ok fb conv X c plan \<Longrightarrow> plan_ok fb conv Y c plan" "X \<subseteq> Y \<Longrightarrow> ahead_ok fb conv X c plan \<Longrightarrow> ahead_ok fb conv Y c plan"
  "X \<subseteq> Y \<Longrightarrow> pending_ok conv X c plan e \<Longrightarrow> pending_ok conv Y c plan e"
  using consents_mono unfolding plan_ok_def ahead_ok_def pending_ok_def by meson+

lemma consented_grant:
  assumes "grants_ok X (fw_grants w)" "g \<in> set (grants_applicable cv w)" "covers (fg_path g) folder"
  shows "consented X c cv folder"
proof -
  from assms(2) have g: "g \<in> set (fw_grants w)" "fg_scope g = ScopeAlways \<or> fg_conversation g = Some cv" by (auto simp: grants_applicable_def)
  with assms(1) obtain x where x: "x \<in> X" "grant_consent g = Some x" by (auto simp: grants_ok_def)
  then have "consent_allows x c cv folder"
    using g(2) assms(3) by (auto simp: grant_consent_def consent_allows_def split: folder_scope.splits option.splits)
  with x show ?thesis by (auto simp: consented_def)
qed

lemma consented_once: "calls_ok X c once \<Longrightarrow> f \<in> set once \<Longrightarrow> covers f folder \<Longrightarrow> consented X c cv folder"
  unfolding calls_ok_def consented_def by (intro bexI [of _ "ConsentCall c f"]) (auto simp: consent_allows_def)

lemma resolve_access_ok:
  assumes "resolve_access fs fb mounts (conv c) once ts w = Inr plan" "canonical_fs fs"
    and ok: "grants_ok X (fw_grants w)" "sessions_ok X (fw_sessions w)" "calls_ok X c once"
  shows "plan_ok fb conv X c plan"
proof -
  obtain ow where ow: "owner_of (conv c) w = Inr ow" using assms(1) by (auto simp: resolve_access_def rbind_Inr_iff)
  consider (session) ws where "map_of (fw_sessions w) (conv c) = Some ws" "targets_of fs fb mounts (Some ws) ts = Inr (ap_resolved plan)"
      "\<not> list_ex (\<lambda>t. \<not> covers ws (gt_folder t)) (ap_resolved plan)"
    | (conversation) base u un where "targets_of fs fb mounts base ts = Inr (ap_resolved plan)"
      "cover_loop (grants_applicable (conv c) w) once (ap_resolved plan) [] [] = (u, un)" "ap_folders plan = minimal un"
  proof (cases ow)
    case (OwnerSession ws)
    with ow have "map_of (fw_sessions w) (conv c) = Some ws" by (auto simp: owner_of_def split: option.splits)
    with that(1) assms(1) ow OwnerSession show thesis by (auto simp: resolve_access_def rbind_Inr_iff split: if_splits)
  next
    case (OwnerConversation base)
    with assms(1) ow obtain rs where rs: "targets_of fs fb mounts base ts = Inr rs"
      "(case cover_loop (grants_applicable (conv c) w) once rs [] [] of (used, uncovered) \<Rightarrow>
          Inr \<lparr>ap_resolved = rs, ap_folders = minimal uncovered, ap_used = used\<rparr>) = (Inr plan :: app_error + access_plan)"
      by (auto simp: resolve_access_def rbind_Inr_iff)
    obtain u un where "cover_loop (grants_applicable (conv c) w) once rs [] [] = (u, un)" by fastforce
    with that(2) rs show thesis by auto
  qed
  then show ?thesis
  proof cases
    case session
    have "consented X c (conv c) (gt_folder t)" if "t \<in> set (ap_resolved plan)" for t
    proof -
      have "ConsentSession (conv c) ws \<in> X" using session(1) ok(2) by (auto simp: sessions_ok_def dest!: map_of_SomeD)
      moreover have "covers ws (gt_folder t)" using session(3) that by (auto simp: list_ex_iff)
      ultimately show ?thesis by (auto simp: consented_def consent_allows_def intro!: bexI [of _ "ConsentSession (conv c) ws"])
    qed
    with targets_of_sound [OF assms(2) session(2)] show ?thesis by (auto simp: plan_ok_def)
  next
    case conversation
    note t = targets_of_sound [OF assms(2) conversation(1)]
    have keys: "path_keys f \<noteq> []" if "f \<in> set un" for f
    proof -
      from that cover_loop_uncovered [OF conversation(2)] obtain x where "x \<in> set (ap_resolved plan)" "f = gt_folder x" by auto
      with t absolute_keys show ?thesis unfolding well_targeted_def by blast
    qed
    have "consented X c (conv c) (gt_folder x) \<or> (\<exists>f \<in> set (ap_folders plan). covers f (gt_folder x))" if "x \<in> set (ap_resolved plan)" for x
      using cover_loop_sound [OF conversation(2) that] minimal_keys [of un "gt_folder x"] keys consented_once [OF ok(3)] consented_grant [OF ok(1)]
      unfolding conversation(3) by blast
    with t show ?thesis by (auto simp: plan_ok_def)
  qed
qed

lemma grant_consent_touched [simp]: "grant_consent (g\<lparr>fg_last_used_at := x\<rparr>) = grant_consent g"
  by (cases g) (simp add: grant_consent_def split: folder_scope.split option.split)

lemma touched_grants: "grants_ok X (fw_grants w) \<Longrightarrow> grants_ok X (fw_grants (grants_touch ids now w))"
  by (auto simp: grants_ok_def grants_touch_def)

lemma confirm_begin_frame:
  assumes "confirm_begin cancelled now i run cv plan ticket w = (Inr nxt, w')"
  shows "grants_ok X (fw_grants w) \<Longrightarrow> grants_ok X (fw_grants w')" "fw_sessions w' = fw_sessions w"
    "fw_pending w' j = (if ap_folders plan \<noteq> [] \<and> j = i then Some \<lparr>pn_run = run, pn_conversation = cv, pn_folders = ap_folders plan, pn_answer = None\<rparr> else fw_pending w j)"
    "ap_folders plan = [] \<longleftrightarrow> (case nxt of AskFolders _ _ _ \<Rightarrow> False | _ \<Rightarrow> True)"
  using assms touched_grants by (auto simp: confirm_begin_def Let_def grants_touch_def split: if_splits option.splits prod.splits)

lemma plan_goes_ahead: "plan_ok fb conv X c plan \<Longrightarrow> ap_folders plan = [] \<or> calls_ok X c (ap_folders plan) \<Longrightarrow> ahead_ok fb conv X c plan"
  unfolding plan_ok_def ahead_ok_def using consented_once by fastforce

lemma confirm_folders_cases:
  assumes "confirm_folders i d folders once w = (r, once', w')"
  obtains (granted) e a where "r = Inr ()" "once' = once @ folders" "fw_pending w i = Some e" "pn_answer e = Some a" "a \<noteq> AnswerDeny"
    "w' = w\<lparr>fw_pending := (fw_pending w)(i := None)\<rparr>"
  | (refused) e where "r = Inl e" "once' = once" "w' = w\<lparr>fw_pending := (fw_pending w)(i := None)\<rparr>"
  using assms by (auto simp: confirm_folders_def Let_def Option.bind_eq_Some_conv split: sum.splits approval_decision.splits option.splits if_splits)

text \<open>The parts of the invariant, for a step that touches some of them.\<close>

lemma folder_invI:
  assumes "grants_ok (fy_consents s) (fw_grants (fy_world s))" "sessions_ok (fy_consents s) (fw_sessions (fy_world s))"
    and "\<And>c. calls_ok (fy_consents s) c (fy_once s c)"
    and "\<And>c plan. (c, plan) \<in> fy_plans s \<Longrightarrow> plan_ok fb conv (fy_consents s) c plan"
    and "\<And>i c plan. fy_waiting s i = Some (c, plan) \<Longrightarrow> (c, plan) \<in> fy_plans s \<and> i \<in> fy_used_ids s"
    and "\<And>i c plan e. fy_waiting s i = Some (c, plan) \<Longrightarrow> fw_pending (fy_world s) i = Some e \<Longrightarrow> pending_ok conv (fy_consents s) c plan e"
    and "\<And>i a cv left created. (i, a, cv, left, created) \<in> fy_answers s \<Longrightarrow> answer_ok s i a cv left"
    and "\<And>c plan. (c, plan) \<in> fy_ahead s \<Longrightarrow> ahead_ok fb conv (fy_consents s) c plan"
  shows "folder_inv fb conv s"
  using assms unfolding folder_inv_def by blast

lemma folder_invD:
  assumes "folder_inv fb conv s"
  shows "grants_ok (fy_consents s) (fw_grants (fy_world s))" "sessions_ok (fy_consents s) (fw_sessions (fy_world s))"
    "calls_ok (fy_consents s) c (fy_once s c)"
    "(c, plan) \<in> fy_plans s \<Longrightarrow> plan_ok fb conv (fy_consents s) c plan"
    "fy_waiting s i = Some (c, plan) \<Longrightarrow> (c, plan) \<in> fy_plans s"
    "fy_waiting s i = Some (c, plan) \<Longrightarrow> i \<in> fy_used_ids s"
    "fy_waiting s i = Some (c, plan) \<Longrightarrow> fw_pending (fy_world s) i = Some e \<Longrightarrow> pending_ok conv (fy_consents s) c plan e"
    "(i, a, cv, left, created) \<in> fy_answers s \<Longrightarrow> answer_ok s i a cv left"
    "(c, plan) \<in> fy_ahead s \<Longrightarrow> ahead_ok fb conv (fy_consents s) c plan"
  using assms unfolding folder_inv_def by blast+

text \<open>A step that only changes tables, keeping the grants and the pending requests in order.\<close>

lemma folder_inv_world:
  assumes "folder_inv fb conv s" "grants_ok (fy_consents s) (fw_grants w)" "sessions_ok (fy_consents s) (fw_sessions w)"
    and "\<And>i c plan e. fy_waiting s i = Some (c, plan) \<Longrightarrow> fw_pending w i = Some e \<Longrightarrow> pending_ok conv (fy_consents s) c plan e"
  shows "folder_inv fb conv (s\<lparr>fy_world := w\<rparr>)"
proof (rule folder_invI)
  fix i a cv left created assume "(i, a, cv, left, created) \<in> fy_answers (s\<lparr>fy_world := w\<rparr>)"
  then have "answer_ok s i a cv left" using folder_invD(8) [OF assms(1)] by simp
  then show "answer_ok (s\<lparr>fy_world := w\<rparr>) i a cv left" by (simp add: answer_ok_def)
qed (use assms(2-4) folder_invD [OF assms(1)] in simp_all)

lemma folder_inv_more:
  assumes "folder_inv fb conv s" "fy_consents s \<subseteq> X"
  shows "folder_inv fb conv (s\<lparr>fy_consents := X\<rparr>)"
proof (rule folder_invI)
  fix i a cv left created assume "(i, a, cv, left, created) \<in> fy_answers (s\<lparr>fy_consents := X\<rparr>)"
  then have "answer_ok s i a cv left" using folder_invD(8) [OF assms(1)] by simp
  then show "answer_ok (s\<lparr>fy_consents := X\<rparr>) i a cv left"
    using consents_mono(4,5) [OF assms(2)] by (simp add: answer_ok_def)
qed (use folder_invD [OF assms(1)] consents_mono [OF assms(2)] plans_mono [OF assms(2)] in simp_all)

lemma folder_inv_answers:
  assumes "folder_inv fb conv s" "answer_ok s i a cv left"
  shows "folder_inv fb conv (s\<lparr>fy_answers := insert (i, a, cv, left, created) (fy_answers s)\<rparr>)"
proof (rule folder_invI)
  fix j b cv' left' created'
  assume "(j, b, cv', left', created') \<in> fy_answers (s\<lparr>fy_answers := insert (i, a, cv, left, created) (fy_answers s)\<rparr>)"
  then have "answer_ok s j b cv' left'" using folder_invD(8) [OF assms(1)] assms(2) by auto
  then show "answer_ok (s\<lparr>fy_answers := insert (i, a, cv, left, created) (fy_answers s)\<rparr>) j b cv' left'"
    by (simp add: answer_ok_def)
qed (use folder_invD [OF assms(1)] in simp_all)

lemma folder_inv_ahead:
  assumes "folder_inv fb conv s" "ahead_ok fb conv (fy_consents s) c plan"
  shows "folder_inv fb conv (s\<lparr>fy_ahead := insert (c, plan) (fy_ahead s)\<rparr>)"
proof (rule folder_invI)
  fix j b cv' left' created' assume "(j, b, cv', left', created') \<in> fy_answers (s\<lparr>fy_ahead := insert (c, plan) (fy_ahead s)\<rparr>)"
  then have "answer_ok s j b cv' left'" using folder_invD(8) [OF assms(1)] by auto
  then show "answer_ok (s\<lparr>fy_ahead := insert (c, plan) (fy_ahead s)\<rparr>) j b cv' left'" by (simp add: answer_ok_def)
qed (use folder_invD [OF assms(1)] assms(2) in auto)

lemma grants_ok_subset: "grants_ok X gs \<Longrightarrow> set hs \<subseteq> set gs \<Longrightarrow> grants_ok X hs"
  by (auto simp: grants_ok_def)

lemma grants_removed: "set (fw_grants (fold grants_remove ids w)) \<subseteq> set (fw_grants w)"
proof (induction ids arbitrary: w)
  case (Cons i ids)
  have "set (fw_grants (grants_remove i w)) \<subseteq> set (fw_grants w)" by (auto simp: grants_remove_def)
  with Cons [of "grants_remove i w"] show ?case by auto
qed simp

lemma removed_frame: "fw_pending (fold grants_remove ids w) = fw_pending w" "fw_sessions (fold grants_remove ids w) = fw_sessions w"
  by (induction ids arbitrary: w) (simp_all add: grants_remove_def)

text \<open>A grant that is stored has its consent.\<close>

lemma stored_grant_ok:
  assumes "stored_grant fb mounts now fresh f scope conversation w = (Inr (g, new), w')" "grants_ok X (fw_grants w)"
    and "scope = ScopeAlways \<Longrightarrow> ConsentAlways f \<in> X" "\<And>cv. scope = ScopeConversation \<Longrightarrow> conversation = Some cv \<Longrightarrow> ConsentChat cv f \<in> X"
  shows "grants_ok X (fw_grants w')"
  using assms(1)
proof (cases rule: stored_grant_cases)
  case 1
  with assms(2) show ?thesis by simp
next
  case 2
  then have "\<exists>x \<in> X. grant_consent g = Some x"
    using assms(3,4) by (cases scope) (auto simp: grant_consent_def)
  with 2 assms(2) show ?thesis by (auto simp: grants_ok_def)
qed

lemma grants_branch_ok:
  assumes "grants_ok X (fw_grants w)"
  shows "grants_ok (X \<union> ConsentChat branch ` {f. ConsentChat i f \<in> X}) (fw_grants (grants_branch i branch fresh w))"
  unfolding grants_ok_def
proof
  fix g assume "g \<in> set (fw_grants (grants_branch i branch fresh w))"
  then consider "g \<in> set (fw_grants w)" | n h where "h \<in> set (fw_grants w)" "fg_scope h = ScopeConversation" "fg_conversation h = Some i"
      "g = h\<lparr>fg_id := fresh n, fg_conversation := Some branch\<rparr>"
    by (auto simp: grants_branch_def grants_applicable_def in_set_enumerate_eq dest!: nth_mem)
  then show "\<exists>x \<in> X \<union> ConsentChat branch ` {f. ConsentChat i f \<in> X}. grant_consent g = Some x"
    using assms by cases (fastforce simp: grants_ok_def grant_consent_def)+
qed

lemma folder_inv_begin:
  assumes "folder_inv fb conv s" "confirm_begin cancelled now i run cv plan ticket (fy_world s) = (Inr nxt, w)" "ap_folders plan = []"
  shows "folder_inv fb conv (s\<lparr>fy_world := w\<rparr>)"
proof -
  note f = confirm_begin_frame [OF assms(2)]
  show ?thesis using folder_invD [OF assms(1)] f assms(3) by (intro folder_inv_world [OF assms(1)]) simp_all
qed

lemma folder_inv_ask:
  assumes inv: "folder_inv fb conv s" and p: "(c, plan) \<in> fy_plans s" "i \<notin> fy_used_ids s"
    and b: "confirm_begin cancelled now i run (conv c) plan ticket (fy_world s) = (Inr (AskFolders subject scope entries), w)"
  shows "folder_inv fb conv (s\<lparr>fy_world := w, fy_waiting := (fy_waiting s)(i \<mapsto> (c, plan)), fy_used_ids := insert i (fy_used_ids s)\<rparr>)"
    (is "folder_inv fb conv ?s")
proof (rule folder_invI)
  note f = confirm_begin_frame [OF b]
  have ne: "ap_folders plan \<noteq> []" using f(4) by simp
  show "grants_ok (fy_consents ?s) (fw_grants (fy_world ?s))" "sessions_ok (fy_consents ?s) (fw_sessions (fy_world ?s))"
    using f(1,2) folder_invD(1,2) [OF inv] by simp_all
  show "pending_ok conv (fy_consents ?s) c' plan' e" if "fy_waiting ?s j = Some (c', plan')" "fw_pending (fy_world ?s) j = Some e" for j c' plan' e
  proof (cases "j = i")
    case True
    with that f(3) ne show ?thesis by (auto simp: pending_ok_def)
  next
    case False
    with that f(3) folder_invD(7) [OF inv] show ?thesis by simp
  qed
  show "answer_ok ?s j a cv left" if "(j, a, cv, left, created) \<in> fy_answers ?s" for j a cv left created
  proof -
    have "answer_ok s j a cv left" using folder_invD(8) [OF inv] that by simp
    moreover from this have "j \<noteq> i" using p(2) by (auto simp: answer_ok_def)
    ultimately show ?thesis by (simp add: answer_ok_def)
  qed
qed (use folder_invD [OF inv] p in \<open>auto split: if_splits\<close>)

lemma folder_inv_decided:
  assumes inv: "folder_inv fb conv s" and w: "fy_waiting s i = Some (c, plan)"
    and d: "confirm_folders i decision (ap_folders plan) (fy_once s c) (fy_world s) = (r, once, w)"
  shows "folder_inv fb conv (s\<lparr>fy_world := w, fy_once := (fy_once s)(c := once), fy_waiting := (fy_waiting s)(i := None)\<rparr>)"
      (is "folder_inv fb conv ?s")
    and "r = Inr () \<Longrightarrow> ahead_ok fb conv (fy_consents s) c plan"
proof -
  have g: "r = Inr () \<Longrightarrow> calls_ok (fy_consents s) c (ap_folders plan)"
    using d by (cases rule: confirm_folders_cases) (use folder_invD(7) [OF inv w] in \<open>auto simp: pending_ok_def\<close>)
  have o: "calls_ok (fy_consents s) c once"
    using d by (cases rule: confirm_folders_cases) (use g folder_invD(3) [OF inv, of c] in \<open>auto simp: calls_ok_def\<close>)
  have f: "w = (fy_world s)\<lparr>fw_pending := (fw_pending (fy_world s))(i := None)\<rparr>" using d by (cases rule: confirm_folders_cases) auto
  show "folder_inv fb conv ?s"
  proof (rule folder_invI)
    show "answer_ok ?s j a cv left" if "(j, a, cv, left, created) \<in> fy_answers ?s" for j a cv left created
      using folder_invD(8) [OF inv] that by (auto simp: answer_ok_def)
  qed (use folder_invD [OF inv] o in \<open>auto simp: f split: if_splits\<close>)
  show "r = Inr () \<Longrightarrow> ahead_ok fb conv (fy_consents s) c plan"
    using plan_goes_ahead [OF folder_invD(4) [OF inv folder_invD(5) [OF inv w]]] g by blast
qed

lemma answer_check_iff:
  "answer_check run i w = Inr (cv, folders) \<longleftrightarrow>
     (\<exists>e. fw_pending w i = Some e \<and> pn_run e = run \<and> pn_answer e = None \<and> cv = pn_conversation e \<and> folders = pn_folders e)"
  by (auto simp: answer_check_def split: option.splits)

lemma folder_inv_answer:
  assumes inv: "folder_inv fb conv s" and c: "answer_check run i (fy_world s) = Inr (cv, folders)" "fy_waiting s i = Some (c, plan)"
  shows "folder_inv fb conv (s\<lparr>fy_answers := insert (i, a, cv, (if answer_scope a = None then [] else folders), []) (fy_answers s),
       fy_consents := fy_consents s \<union> consents_of c cv a folders\<rparr>)"
proof -
  let ?X = "fy_consents s \<union> consents_of c cv a folders"
  have more: "folder_inv fb conv (s\<lparr>fy_consents := ?X\<rparr>)" by (rule folder_inv_more [OF inv]) blast
  from c obtain e where "fw_pending (fy_world s) i = Some e" "folders = pn_folders e" by (auto simp: answer_check_iff)
  with folder_invD(7) [OF inv c(2)] have f: "folders = ap_folders plan" by (auto simp: pending_ok_def)
  have "scope_ok ?X a cv (if answer_scope a = None then [] else folders)"
    by (cases a) (auto simp: scope_ok_def answer_scope_def consents_of_def)
  moreover have "a \<noteq> AnswerDeny \<Longrightarrow> calls_ok ?X c (ap_folders plan)" using f by (auto simp: calls_ok_def consents_of_def)
  ultimately have "answer_ok (s\<lparr>fy_consents := ?X\<rparr>) i a cv (if answer_scope a = None then [] else folders)"
    using c(2) folder_invD(6) [OF inv c(2)] by (simp add: answer_ok_def)
  from folder_inv_answers [OF more this, of "[]"]
  have "folder_inv fb conv (s\<lparr>fy_consents := ?X, fy_answers := insert (i, a, cv, (if answer_scope a = None then [] else folders), []) (fy_answers s)\<rparr>)"
    by (simp split del: if_split)
  moreover have "s\<lparr>fy_answers := x, fy_consents := y\<rparr> = s\<lparr>fy_consents := y, fy_answers := x\<rparr>" for x y by simp
  ultimately show ?thesis by (simp only:)
qed

text \<open>Noting an answer, or taking it back.\<close>

lemma folder_inv_mark:
  assumes inv: "folder_inv fb conv s"
    and a: "\<And>b c plan. x = Some b \<Longrightarrow> fy_waiting s i = Some (c, plan) \<Longrightarrow> b \<noteq> AnswerDeny \<Longrightarrow> calls_ok (fy_consents s) c (ap_folders plan)"
  shows "folder_inv fb conv (s\<lparr>fy_world := answer_mark i x (fy_world s)\<rparr>)"
proof (rule folder_inv_world [OF inv])
  fix j c plan e
  assume w: "fy_waiting s j = Some (c, plan)" and e: "fw_pending (answer_mark i x (fy_world s)) j = Some e"
  show "pending_ok conv (fy_consents s) c plan e"
  proof (cases "j = i")
    case True
    with e obtain e0 where e0: "fw_pending (fy_world s) i = Some e0" "e = e0\<lparr>pn_answer := x\<rparr>" by (auto simp: answer_mark_def)
    with folder_invD(7) [OF inv] w True have "pending_ok conv (fy_consents s) c plan e0" by blast
    with a w True e0(2) show ?thesis by (simp add: pending_ok_def)
  next
    case False
    with e folder_invD(7) [OF inv w] show ?thesis by (simp add: answer_mark_def)
  qed
qed (use folder_invD(1,2) [OF inv] in \<open>simp_all add: answer_mark_def\<close>)

lemma folder_step_inv:
  assumes "folder_step fb conv s s'" "folder_inv fb conv s"
  shows "folder_inv fb conv s'"
  using assms(1)
proof (cases rule: folder_stepE [consumes 1])
  case (1 fs mounts c ts plan)
  then have "plan_ok fb conv (fy_consents s) c plan" using resolve_access_ok folder_invD(1-3) [OF assms(2)] by blast
  then show ?thesis unfolding 1(1)
  proof (intro folder_invI)
    fix i a cv left created assume "(i, a, cv, left, created) \<in> fy_answers (s\<lparr>fy_plans := insert (c, plan) (fy_plans s)\<rparr>)"
    then show "answer_ok (s\<lparr>fy_plans := insert (c, plan) (fy_plans s)\<rparr>) i a cv left"
      using folder_invD(8) [OF assms(2)] by (simp add: answer_ok_def)
  qed (use folder_invD [OF assms(2)] in auto)
next
  case (2 c plan cancelled now i run ticket w)
  then have none: "ap_folders plan = []" using confirm_begin_frame(4) [OF 2(3)] by simp
  have "ahead_ok fb conv (fy_consents s) c plan" using plan_goes_ahead folder_invD(4) [OF assms(2) 2(2)] none by blast
  then show ?thesis unfolding 2(1)
    using folder_inv_ahead [OF folder_inv_begin [OF assms(2) 2(3) none], of c plan] by simp
next
  case (3 c plan cancelled now i run ticket subject scope w d)
  then have none: "ap_folders plan = []" using confirm_begin_frame(4) [OF 3(3)] by simp
  have "ahead_ok fb conv (fy_consents s) c plan" using plan_goes_ahead folder_invD(4) [OF assms(2) 3(2)] none by blast
  then show ?thesis unfolding 3(1)
    using folder_inv_ahead [OF folder_inv_begin [OF assms(2) 3(3) none], of c plan] folder_inv_begin [OF assms(2) 3(3) none] by simp
next
  case (4 c plan i cancelled now run ticket subject scope entries w)
  show ?thesis unfolding 4(1) by (rule folder_inv_ask [OF assms(2) 4(2,3,4)])
next
  case (5 i c plan decision r once w)
  note d = folder_inv_decided [OF assms(2) 5(2,3)]
  show ?thesis
  proof (cases "r = Inr ()")
    case True
    with folder_inv_ahead [OF d(1), of c plan] d(2) show ?thesis by (simp add: 5(1))
  next
    case False
    with d(1) show ?thesis by (simp add: 5(1))
  qed
next
  case (6 run i cv folders c plan a)
  show ?thesis unfolding 6(1) by (rule folder_inv_answer [OF assms(2) 6(2,3)])
next
  case (7 i a cv f left created scope mounts now fresh g new w)
  have a: "answer_ok s i a cv (f # left)" using folder_invD(8) [OF assms(2) 7(2)] .
  have "grants_ok (fy_consents s) (fw_grants w)"
    by (rule stored_grant_ok [OF 7(4) folder_invD(1) [OF assms(2)]])
      (use a 7(3) in \<open>cases a; auto simp: answer_ok_def scope_ok_def answer_scope_def\<close>)+
  then have "folder_inv fb conv (s\<lparr>fy_world := w\<rparr>)"
    using folder_invD(2,7) [OF assms(2)] stored_grant_frame [OF 7(4)] by (intro folder_inv_world [OF assms(2)]) simp_all
  moreover have "answer_ok (s\<lparr>fy_world := w\<rparr>) i a cv left" using a by (auto simp: answer_ok_def scope_ok_def)
  ultimately show ?thesis using folder_inv_answers [of fb conv "s\<lparr>fy_world := w\<rparr>" i a cv left] by (simp add: 7(1))
next
  case (8 i a cv created)
  have "answer_ok s i a cv []" using folder_invD(8) [OF assms(2) 8(2)] .
  then show ?thesis unfolding 8(1) by (intro folder_inv_mark [OF assms(2)]) (simp add: answer_ok_def)
next
  case (9 i a cv created)
  have m: "folder_inv fb conv (s\<lparr>fy_world := answer_mark i None (fy_world s)\<rparr>)" by (rule folder_inv_mark [OF assms(2)]) simp
  have "folder_inv fb conv (s\<lparr>fy_world := answer_mark i None (fy_world s), fy_world := answer_failed i created (fy_world s)\<rparr>)"
    using folder_invD(2,7) [OF m] grants_ok_subset [OF folder_invD(1) [OF m, simplified] grants_removed]
    by (intro folder_inv_world [OF m]) (simp_all add: answer_failed_def removed_frame)
  then show ?thesis unfolding 9(1) by simp
next
  case (10 mounts now fresh f scope conversation g new w)
  let ?x = "case conversation of Some cv \<Rightarrow> if scope = ScopeConversation then ConsentChat cv f else ConsentAlways f | None \<Rightarrow> ConsentAlways f"
  have more: "folder_inv fb conv (s\<lparr>fy_consents := insert ?x (fy_consents s)\<rparr>)" by (rule folder_inv_more [OF assms(2)]) blast
  have "grants_ok (insert ?x (fy_consents s)) (fw_grants w)"
    by (rule stored_grant_ok [OF 10(2)]) (use folder_invD(1) [OF more] in \<open>auto split: option.splits\<close>)
  then have "folder_inv fb conv (s\<lparr>fy_consents := insert ?x (fy_consents s), fy_world := w\<rparr>)"
    using folder_invD(2,7) [OF more] stored_grant_frame [OF 10(2)] by (intro folder_inv_world [OF more]) simp_all
  moreover have "s\<lparr>fy_world := w, fy_consents := y\<rparr> = s\<lparr>fy_consents := y, fy_world := w\<rparr>" for y by simp
  ultimately show ?thesis unfolding 10(1) by metis
next
  case (11 i)
  have f: "fw_pending (snd (revoke_folder i (fy_world s))) = fw_pending (fy_world s)" "fw_sessions (snd (revoke_folder i (fy_world s))) = fw_sessions (fy_world s)"
    "set (fw_grants (snd (revoke_folder i (fy_world s)))) \<subseteq> set (fw_grants (fy_world s))"
    by (auto simp: revoke_folder_def grants_remove_def)
  show ?thesis unfolding 11 using folder_invD(2,7) [OF assms(2)] grants_ok_subset [OF folder_invD(1) [OF assms(2)] f(3)]
    by (intro folder_inv_world [OF assms(2)]) (simp_all add: f(1,2))
next
  case (12 chats)
  show ?thesis unfolding 12 using folder_invD(1,2,7) [OF assms(2)] by (intro folder_inv_world [OF assms(2)]) auto
next
  case (13 i folder branch fresh)
  let ?X = "fy_consents s \<union> ConsentChat branch ` {f. ConsentChat i f \<in> fy_consents s}"
  let ?w = "grants_branch i branch fresh ((fy_world s)\<lparr>fw_chats := (branch, folder) # fw_chats (fy_world s)\<rparr>)"
  have more: "folder_inv fb conv (s\<lparr>fy_consents := ?X\<rparr>)" by (rule folder_inv_more [OF assms(2)]) blast
  have "grants_ok ?X (fw_grants ?w)" by (rule grants_branch_ok) (use folder_invD(1) [OF assms(2)] in simp)
  then have "folder_inv fb conv (s\<lparr>fy_consents := ?X, fy_world := ?w\<rparr>)"
    using folder_invD(2,7) [OF more] by (intro folder_inv_world [OF more]) (simp_all add: grants_branch_def)
  moreover have "s\<lparr>fy_world := w, fy_consents := y\<rparr> = s\<lparr>fy_consents := y, fy_world := w\<rparr>" for w y by simp
  ultimately show ?thesis unfolding 13(1) by metis
next
  case (14 i workspace)
  have more: "folder_inv fb conv (s\<lparr>fy_consents := insert (ConsentSession i workspace) (fy_consents s)\<rparr>)" (is "folder_inv fb conv ?s")
    by (rule folder_inv_more [OF assms(2)]) blast
  have "folder_inv fb conv (?s\<lparr>fy_world := (fy_world s)\<lparr>fw_sessions := (i, workspace) # fw_sessions (fy_world s)\<rparr>\<rparr>)"
    using folder_invD(1,2,7) [OF more] by (intro folder_inv_world [OF more]) (auto simp: sessions_ok_def)
  moreover have "s\<lparr>fy_world := w, fy_consents := y\<rparr> = s\<lparr>fy_consents := y, fy_world := w\<rparr>" for w y by simp
  ultimately show ?thesis unfolding 14 by metis
next
  case (15 keep)
  show ?thesis unfolding 15 using folder_invD(1,2,7) [OF assms(2)]
    by (intro folder_inv_world [OF assms(2)]) (auto simp: sessions_ok_def)
qed

lemma folder_reachable_inv: "folder_reachable fb conv s \<Longrightarrow> folder_inv fb conv s"
proof (induction rule: folder_reachable.induct)
  case (folder_start chats)
  show ?case by (rule folder_invI) (auto simp: grants_ok_def sessions_ok_def calls_ok_def)
next
  case (folder_next s s')
  then show ?case using folder_step_inv by blast
qed

text \<open>What goes ahead is granted: each of its targets lies in a folder granted for all conversations, for its
  conversation (or one this was branched from) or for this call, or in the workspace of its session, and in no
  forbidden tree, however calls, answers, grants, branches and revocations interleave and whatever the approval
  service decides.\<close>

lemma access_has_consent:
  assumes "folder_reachable fb conv s" "(c, plan) \<in> fy_ahead s" "t \<in> set (ap_resolved plan)"
  shows "(\<exists>x \<in> fy_consents s. consent_allows x c (conv c) (gt_folder t)) \<and> covers (gt_folder t) (gt_path t)
    \<and> (\<forall>tree \<in> set (fb_trees fb). \<not> covers tree (gt_path t))"
proof -
  have a: "ahead_ok fb conv (fy_consents s) c plan" using folder_invD(9) [OF folder_reachable_inv [OF assms(1)] assms(2)] .
  with assms(3) obtain m where "\<not> refuses fb m (gt_folder t)" "well_targeted t" "consented (fy_consents s) c (conv c) (gt_folder t)"
    by (auto simp: ahead_ok_def)
  with covered_paths_avoid_trees [of fb m "gt_folder t" "gt_path t"] show ?thesis by (auto simp: consented_def well_targeted_def)
qed

subsection \<open>A call and its answer\<close>

definition sample_folder_fs :: folder_fs where
  "sample_folder_fs = \<lparr>ff_metadata = (\<lambda>p. if p = [CPrefix ''C:'', CRootDir, CNormal ''work''] then Inr True else Inl FailNotFound),
     ff_canonicalize = (\<lambda>p. Inr [CPrefix ''C:'', CRootDir, CNormal ''work''])\<rparr>"

definition sample_forbidden :: forbidden where
  "sample_forbidden = \<lparr>fb_trees = [[CPrefix ''C:'', CRootDir, CNormal ''Windows'']], fb_exact = []\<rparr>"

definition sample_access :: access_plan where
  "sample_access = \<lparr>ap_resolved = [\<lparr>gt_path = [CPrefix ''C:'', CRootDir, CNormal ''work'', CNormal ''a''], gt_folder = [CPrefix ''C:'', CRootDir, CNormal ''work''], gt_creates = []\<rparr>],
     ap_folders = [[CPrefix ''C:'', CRootDir, CNormal ''work'']], ap_used = []\<rparr>"

definition sample_start :: folder_world where
  "sample_start = \<lparr>fw_grants = [], fw_chats = [(''chat'', None)], fw_sessions = [], fw_pending = Map.empty\<rparr>"

definition sample_asked :: folder_world where
  "sample_asked = sample_start\<lparr>fw_pending := [''q'' \<mapsto> \<lparr>pn_run = ''r'', pn_conversation = ''chat'', pn_folders = ap_folders sample_access, pn_answer = None\<rparr>]\<rparr>"

lemma sample_canonical: "canonical_fs sample_folder_fs"
  by (simp add: canonical_fs_def sample_folder_fs_def is_absolute_def)

lemma sample_resolves: "resolve_access sample_folder_fs sample_forbidden [] ''chat'' []
    [\<lparr>ft_path = [CPrefix ''C:'', CRootDir, CNormal ''work'', CNormal ''a''], ft_kind = TargetFile\<rparr>] sample_start = Inr sample_access"
  by code_simp

lemma sample_begins: "confirm_begin False 0 ''q'' ''r'' ''chat'' sample_access None sample_start
    = (Inr (AskFolders FOLDER_SUBJECT GLOBAL_SCOPE (request_entries sample_access)), sample_asked)"
  by (simp add: confirm_begin_def sample_access_def sample_asked_def sample_start_def)

lemma sample_goes_ahead:
  "\<exists>s. folder_reachable sample_forbidden (\<lambda>_. ''chat'') s \<and> (0, sample_access) \<in> fy_ahead s \<and> fy_consents s = {ConsentCall 0 [CPrefix ''C:'', CRootDir, CNormal ''work'']}"
proof -
  let ?r = "folder_reachable sample_forbidden (\<lambda>_. ''chat'')"
  let ?s0 = "\<lparr>fy_world = sample_start, fy_once = (\<lambda>_. []), fy_plans = {}, fy_waiting = Map.empty, fy_used_ids = {}, fy_answers = {},
     fy_ahead = {}, fy_consents = {}\<rparr>"
  let ?s1 = "?s0\<lparr>fy_plans := insert (0, sample_access) (fy_plans ?s0)\<rparr>"
  let ?s2 = "?s1\<lparr>fy_world := sample_asked, fy_waiting := (fy_waiting ?s1)(''q'' \<mapsto> (0, sample_access)), fy_used_ids := insert ''q'' (fy_used_ids ?s1)\<rparr>"
  let ?s3 = "?s2\<lparr>fy_answers := insert (''q'', AnswerOnce, ''chat'', (if answer_scope AnswerOnce = None then [] else ap_folders sample_access), []) (fy_answers ?s2),
       fy_consents := fy_consents ?s2 \<union> consents_of 0 ''chat'' AnswerOnce (ap_folders sample_access)\<rparr>"
  let ?s4 = "?s3\<lparr>fy_world := answer_mark ''q'' (Some AnswerOnce) (fy_world ?s3)\<rparr>"
  have "?r ?s0" unfolding sample_start_def by (rule folder_start)
  then have "?r ?s1" by (rule folder_next) (rule fs_resolve [OF sample_canonical], simp, rule sample_resolves)
  then have "?r ?s2" by (rule folder_next) (rule fs_ask, use sample_begins in auto)
  then have "?r ?s3" by (rule folder_next) (rule fs_answer [where run = "''r''"], simp_all add: answer_check_def sample_asked_def)
  then have "?r ?s4" by (rule folder_next) (rule fs_mark [where created = "[]" and conversation = "''chat''"], simp add: answer_scope_def)
  moreover obtain once w where e: "confirm_folders ''q'' (Inr Approved) (ap_folders sample_access) (fy_once ?s4 0) (fy_world ?s4) = (Inr (), once, w)"
    by (simp add: confirm_folders_def answer_mark_def sample_asked_def)
  ultimately have "?r (?s4\<lparr>fy_world := w, fy_once := (fy_once ?s4)(0 := once), fy_waiting := (fy_waiting ?s4)(''q'' := None),
       fy_ahead := (if (Inr () :: app_error + unit) = Inr () then insert (0, sample_access) (fy_ahead ?s4) else fy_ahead ?s4)\<rparr>)"
    by (elim folder_next) (rule fs_decided, simp_all)
  then show ?thesis by (intro exI conjI, assumption) (simp_all add: consents_of_def sample_access_def)
qed

text \<open>An answer that is refused half way leaves the grants it has made: the second folder has become part of a
  removable disk, the first stays granted for all conversations though \<open>answer\<close> fails.\<close>

lemma failed_answer_leaves_grants:
  "case answer_request sample_forbidden [[CPrefix ''E:'', CRootDir]] 5 (\<lambda>n. ''g'') (\<lambda>_. None) ''r'' ''q'' AnswerAlways
      (sample_start\<lparr>fw_pending := [''q'' \<mapsto> \<lparr>pn_run = ''r'', pn_conversation = ''chat'',
         pn_folders = [[CPrefix ''C:'', CRootDir, CNormal ''work''], [CPrefix ''E:'', CRootDir, CNormal ''x'']], pn_answer = None\<rparr>]\<rparr>) of
     (Inl e, w) \<Rightarrow> e = app_error_new PermissionDenied FOLDER_FORBIDDEN \<and> length (fw_grants w) = 1 \<and> fw_pending w ''q'' \<noteq> None
   | (Inr _, _) \<Rightarrow> False"
  by code_simp

end
