(* ===== verification/FileRoots.thy ===== *)
theory FileRoots
  imports FolderAccess
begin

text \<open>
  Where a call of a file tool works: \<^verbatim>\<open>files/roots.rs\<close> of the host, with the part of \<^verbatim>\<open>files/nodes.rs\<close> that puts the paths
  of a call together. A path may name the folder of the conversation (\<^verbatim>\<open>chat:\<close>) or of a skill (\<^verbatim>\<open>skill:\<close>), or lie in the
  folder of the conversation by its absolute name; such paths are \<open>located\<close> and no access is asked for them. All other
  paths of the call are resolved and confirmed in \<open>FolderAccess\<close>.

  \<open>roots_env\<close> holds the file system, the folder of all conversations, the lookup of an installed skill's folder and the
  parsing of a path into components. \<open>access_needs_consent\<close> is what holds of every path of a call.
\<close>

subsection \<open>Virtual paths\<close>

datatype root_kind = KindChatRoot | KindSkillRoot
datatype path_root = RootChat string | RootSkill string string | RootReal string

definition CHAT_ROOT :: string where "CHAT_ROOT = ''chat:''"
definition SKILL_ROOT :: string where "SKILL_ROOT = ''skill:''"
definition ROOT_PATH_MAX :: nat where "ROOT_PATH_MAX = 512"
definition WORK_DIR :: string where "WORK_DIR = ''work''"
definition BAD_ROOT_PATH :: string where "BAD_ROOT_PATH = ''BAD_ROOT_PATH''"
definition SKILL_KEY_MISSING :: string where "SKILL_KEY_MISSING = ''SKILL_KEY_MISSING''"
definition SKILL_READ_ONLY :: string where "SKILL_READ_ONLY = ''SKILL_READ_ONLY''"
definition ROOTS_UNAVAILABLE :: string where "ROOTS_UNAVAILABLE = ''ROOTS_UNAVAILABLE''"
definition NO_CHAT :: string where "NO_CHAT = ''NO_CHAT''"
definition CHAT_FOLDER_FAILED :: string where "CHAT_FOLDER_FAILED = ''CHAT_FOLDER_FAILED''"

definition is_separator :: "char \<Rightarrow> bool" where
  "is_separator c \<longleftrightarrow> c = CHR ''/'' \<or> c = CHR 0x5C"

definition path_root_of :: "string \<Rightarrow> path_root" where
  "path_root_of path =
     (let trimmed = trim path in
      case strip_prefix CHAT_ROOT trimmed of
        Some rest \<Rightarrow> RootChat (dropWhile is_separator rest)
      | None \<Rightarrow> (case strip_prefix SKILL_ROOT trimmed of
          Some rest \<Rightarrow> (let r = dropWhile is_separator rest in
            RootSkill (takeWhile (\<lambda>c. \<not> is_separator c) r) (drop 1 (dropWhile (\<lambda>c. \<not> is_separator c) r)))
        | None \<Rightarrow> RootReal path))"

definition root_kind_of :: "string \<Rightarrow> root_kind option" where
  "root_kind_of path = (case path_root_of path of RootChat _ \<Rightarrow> Some KindChatRoot | RootSkill _ _ \<Rightarrow> Some KindSkillRoot | RootReal _ \<Rightarrow> None)"

definition is_virtual :: "string \<Rightarrow> bool" where
  "is_virtual path \<longleftrightarrow> root_kind_of path \<noteq> None"

definition bad_path :: app_error where
  "bad_path = app_error_new ValidationFailed BAD_ROOT_PATH"

definition is_control :: "char \<Rightarrow> bool" where
  "is_control c \<longleftrightarrow> (let n = of_char c :: nat in n < 32 \<or> (127 \<le> n \<and> n < 160))"

definition safe_segment :: "string \<Rightarrow> bool" where
  "safe_segment seg \<longleftrightarrow> seg \<noteq> ''.'' \<and> seg \<noteq> ''..'' \<and> take 1 seg \<noteq> ''.''
     \<and> (seg = [] \<or> last seg \<noteq> CHR ''.'' \<and> last seg \<noteq> CHR '' '')
     \<and> \<not> list_ex (\<lambda>c. is_control c \<or> c \<in> set (''<>|?*:'' @ [CHR 0x22])) seg"

fun under_loop :: "cpath \<Rightarrow> string list \<Rightarrow> app_error + cpath" where
  "under_loop p [] = Inr p"
| "under_loop p (seg # segs) =
     (if seg = [] then under_loop p segs
      else if \<not> safe_segment seg then Inl bad_path
      else under_loop (p @ [CNormal seg]) segs)"

definition under :: "cpath \<Rightarrow> string \<Rightarrow> app_error + cpath" where
  "under base rest =
     (let text' = replace_char (CHR 0x5C) (CHR ''/'') (trim rest) in
      if ROOT_PATH_MAX < length text' then Inl bad_path else under_loop base (split_on (CHR ''/'') text'))"

text \<open>\<^verbatim>\<open>Path::starts_with\<close> on the answers of \<^verbatim>\<open>canonicalize\<close>.\<close>

definition contained :: "folder_fs \<Rightarrow> cpath \<Rightarrow> cpath \<Rightarrow> app_error + unit" where
  "contained fs base p = (case ff_canonicalize fs p of
     Inl _ \<Rightarrow> Inr ()
   | Inr real \<Rightarrow> (case ff_canonicalize fs base of
       Inr b \<Rightarrow> if take (length b) real = b then Inr () else Inl bad_path
     | Inl _ \<Rightarrow> Inl bad_path))"

subsection \<open>Locating\<close>

record located =
  lo_kind :: root_kind
  lo_base :: cpath
  lo_path :: cpath

record roots_env =
  re_fs :: folder_fs
  re_parse :: "string \<Rightarrow> cpath"
  re_chats :: "cpath option"
  re_creates :: "cpath \<Rightarrow> bool"
  re_skills :: "(string \<Rightarrow> app_error + cpath) option"

definition is_owner :: "string \<Rightarrow> bool" where
  "is_owner i \<longleftrightarrow> i \<noteq> [] \<and> length i \<le> 64 \<and> list_all (\<lambda>c. ascii_alnum c \<or> c = CHR ''-'') i"

text \<open>\<^verbatim>\<open>ConversationFolders::work\<close> and \<^verbatim>\<open>chat_dir\<close>, which creates the folder.\<close>

definition work_folder :: "cpath \<Rightarrow> string \<Rightarrow> cpath option" where
  "work_folder root i = (if is_owner i then Some (root @ [CNormal i, CNormal WORK_DIR]) else None)"

definition chat_folder :: "roots_env \<Rightarrow> string \<Rightarrow> app_error + cpath" where
  "chat_folder env i = (case re_chats env of
     None \<Rightarrow> Inl (app_error_new Conflict ROOTS_UNAVAILABLE)
   | Some root \<Rightarrow> (case work_folder root i of
       None \<Rightarrow> Inl (app_error_new ValidationFailed NO_CHAT)
     | Some folder \<Rightarrow> if re_creates env folder then Inr folder else Inl (app_error_new Unknown CHAT_FOLDER_FAILED)))"

definition skill_folder :: "roots_env \<Rightarrow> string \<Rightarrow> app_error + cpath" where
  "skill_folder env key = (case re_skills env of
     None \<Rightarrow> Inl (app_error_new Conflict ROOTS_UNAVAILABLE)
   | Some folder \<Rightarrow> if trim key = [] then Inl (app_error_new ValidationFailed SKILL_KEY_MISSING) else folder key)"

definition from_extended_path :: "string \<Rightarrow> string" where
  "from_extended_path p =
     (let mark = [CHR 0x5C, CHR 0x5C, CHR ''?'', CHR 0x5C] in
      case strip_prefix (mark @ ''UNC'' @ [CHR 0x5C]) p of
        Some rest \<Rightarrow> [CHR 0x5C, CHR 0x5C] @ rest
      | None \<Rightarrow> (case strip_prefix mark p of Some rest \<Rightarrow> rest | None \<Rightarrow> p))"

text \<open>The folder of the conversation by its absolute name (on Windows).\<close>

definition owned :: "roots_env \<Rightarrow> string \<Rightarrow> string \<Rightarrow> app_error + located option" where
  "owned env i path = (case re_chats env of
     None \<Rightarrow> Inr None
   | Some store \<Rightarrow>
       (if \<not> is_owner i then Inr None
        else let p = re_parse env (from_extended_path path) in
        if \<not> is_absolute p then Inr None
        else (case grant_target (re_fs env) store TargetFolder of
            Inl _ \<Rightarrow> Inl bad_path
          | Inr root \<Rightarrow>
              (let base = gt_path root @ [CNormal i] in
               case normalized p of
                 None \<Rightarrow> Inl bad_path
               | Some lexical \<Rightarrow>
                   if \<not> covers base lexical then Inr None
                   else (case (grant_target (re_fs env) base TargetFolder, grant_target (re_fs env) lexical TargetFile) of
                       (Inr actual, Inr resolved) \<Rightarrow>
                         if \<not> same_folder base (gt_path actual) \<or> \<not> covers base (gt_path resolved) then Inl bad_path
                         else Inr (Some \<lparr>lo_kind = KindChatRoot, lo_base = base, lo_path = gt_path resolved\<rparr>)
                     | _ \<Rightarrow> Inl bad_path)))))"

definition locate_below :: "roots_env \<Rightarrow> root_kind \<Rightarrow> cpath \<Rightarrow> string \<Rightarrow> app_error + located option" where
  "locate_below env kind base rest =
     rbind (under base rest) (\<lambda>p. rbind (contained (re_fs env) base p) (\<lambda>_. Inr (Some \<lparr>lo_kind = kind, lo_base = base, lo_path = p\<rparr>)))"

definition locate :: "roots_env \<Rightarrow> string \<Rightarrow> string \<Rightarrow> app_error + located option" where
  "locate env i path = (case path_root_of path of
     RootReal p \<Rightarrow> owned env i p
   | RootChat rest \<Rightarrow> rbind (chat_folder env i) (\<lambda>base. locate_below env KindChatRoot base rest)
   | RootSkill key rest \<Rightarrow> rbind (skill_folder env key) (\<lambda>base. locate_below env KindSkillRoot base rest))"

subsection \<open>The paths of a call\<close>

text \<open>Every path of a call is located, or left to be resolved. A call of \<^verbatim>\<open>fs.list\<close> or \<^verbatim>\<open>fs.search\<close> may have no path, which means
  the working folder; \<^verbatim>\<open>fs.apply\<close> refuses to work in a skill.\<close>

definition locate_path :: "roots_env \<Rightarrow> string \<Rightarrow> string option \<Rightarrow> app_error + located option" where
  "locate_path env i path = (case path of None \<Rightarrow> Inr None | Some p \<Rightarrow> locate env i p)"

definition locate_all :: "roots_env \<Rightarrow> string \<Rightarrow> string option list \<Rightarrow> app_error + located option list" where
  "locate_all env i paths = collect_results (locate_path env i) paths"

definition apply_path :: "roots_env \<Rightarrow> string \<Rightarrow> string option \<Rightarrow> app_error + located option" where
  "apply_path env i path = rbind (locate_path env i path) (\<lambda>found.
     if map_option lo_kind found = Some KindSkillRoot then Inl (app_error_new PermissionDenied SKILL_READ_ONLY) else Inr found)"

definition apply_all :: "roots_env \<Rightarrow> string \<Rightarrow> string option list \<Rightarrow> app_error + located option list" where
  "apply_all env i paths = collect_results (apply_path env i) paths"



text \<open>Which permission a call needs: when all its paths are in folders of the application, that of \<open>gate_app_folder\<close>.\<close>

definition app_path :: "roots_env \<Rightarrow> string \<Rightarrow> string \<Rightarrow> bool" where
  "app_path env i path \<longleftrightarrow> is_virtual path \<or> (\<exists>l. locate env i path = Inr (Some l))"

definition all_app_paths :: "roots_env \<Rightarrow> string \<Rightarrow> string option list \<Rightarrow> bool" where
  "all_app_paths env i paths \<longleftrightarrow> paths \<noteq> [] \<and> list_all (\<lambda>p. case p of Some path \<Rightarrow> app_path env i path | None \<Rightarrow> False) paths"

subsection \<open>Own folders\<close>











text \<open>\<^verbatim>\<open>fs.apply\<close> locates its paths as the others do, and none of them in a skill.\<close>

lemma apply_all_located: "apply_all env i paths = Inr found \<Longrightarrow> locate_all env i paths = Inr found \<and> list_all (\<lambda>l. map_option lo_kind l \<noteq> Some KindSkillRoot) found"
  unfolding apply_all_def locate_all_def
  by (induction paths arbitrary: found) (auto simp: apply_path_def rbind_Inr_iff split: if_splits)





subsection \<open>A call\<close>

definition sample_roots :: roots_env where
  "sample_roots = \<lparr>re_fs = sample_folder_fs, re_parse = (\<lambda>p. if p = ''a'' then [CPrefix ''C:'', CRootDir, CNormal ''work'', CNormal ''a''] else [CCurDir]),
     re_chats = Some [CPrefix ''C:'', CRootDir, CNormal ''chats''], re_creates = (\<lambda>_. True), re_skills = None\<rparr>"

lemma sample_located: "locate_all (sample_roots\<lparr>re_fs := sample_folder_fs\<lparr>ff_canonicalize := \<lambda>_. Inl FailNotFound\<rparr>\<rparr>) ''chat'' [Some ''chat:out/b.txt'']
    = Inr [Some \<lparr>lo_kind = KindChatRoot, lo_base = [CPrefix ''C:'', CRootDir, CNormal ''chats'', CNormal ''chat'', CNormal ''work''],
        lo_path = [CPrefix ''C:'', CRootDir, CNormal ''chats'', CNormal ''chat'', CNormal ''work'', CNormal ''out'', CNormal ''b.txt'']\<rparr>]"
  by code_simp



text \<open>A new file behind a link: the folder \<^verbatim>\<open>link\<close> in the folder of the conversation leads to \<^verbatim>\<open>D:\<close>. The path of a file that is
  there already is refused; one that does not exist yet passes, and the file would be made on \<^verbatim>\<open>D:\<close>.\<close>

definition linked_fs :: "string list \<Rightarrow> folder_fs" where
  "linked_fs files =
     (let link = [CPrefix ''C:'', CRootDir, CNormal ''chats'', CNormal ''chat'', CNormal ''work'', CNormal ''link''] in
      \<lparr>ff_metadata = (\<lambda>p. if p = take (length p) link then Inr True else if p \<in> (\<lambda>f. link @ [CNormal f]) ` set files then Inr False else Inl FailNotFound),
       ff_canonicalize = (\<lambda>p. if p = take (length p) link \<or> p \<in> (\<lambda>f. link @ [CNormal f]) ` set files
          then Inr (if take (length link) p = link then [CPrefix ''D:'', CRootDir] @ drop (length link) p else p) else Inl FailNotFound)\<rparr>)"

lemma new_file_behind_a_link_passes:
  "locate (sample_roots\<lparr>re_fs := linked_fs [''old'']\<rparr>) ''chat'' ''chat:link/old'' = Inl bad_path
   \<and> map_option lo_path (projr (locate (sample_roots\<lparr>re_fs := linked_fs [''old'']\<rparr>) ''chat'' ''chat:link/new''))
       = Some [CPrefix ''C:'', CRootDir, CNormal ''chats'', CNormal ''chat'', CNormal ''work'', CNormal ''link'', CNormal ''new'']
   \<and> map_option gt_path (case grant_target (linked_fs [''old'']) [CPrefix ''C:'', CRootDir, CNormal ''chats'', CNormal ''chat'', CNormal ''work'', CNormal ''link'', CNormal ''new''] TargetFile of
         Inr t \<Rightarrow> Some t | Inl _ \<Rightarrow> None)
       = Some [CPrefix ''D:'', CRootDir, CNormal ''new'']"
  by code_simp

end
