(* ===== verification/GoalMode.thy ===== *)
theory GoalMode
  imports ToolLoop AgenticPlan
begin

text \<open>
  Goal mode, \<^verbatim>\<open>services/chat_goal.rs\<close> of the host with \<^verbatim>\<open>goal.rs\<close> of the contract and the goal operations of
  \<^verbatim>\<open>services/chat.rs\<close>: a turn goes on until the model reports the goal achieved with its evidence, goes round in
  circles, or has used up its budget; a paused goal may be resumed, an active or paused one stopped.

  \<open>goal_progress\<close> is what \<^verbatim>\<open>GoalHook\<close> keeps behind its lock. \<open>goal_loop_env\<close> puts the hook into the tool loop: its
  three tools are answered by \<open>goal_bridge\<close>, a round ends with \<open>goal_after_round\<close>, everything else is the host's.
  \<open>goal_step\<close> is the goal of a conversation with its turn and the calls of the user, whose reading and writing are
  steps of their own. \<^verbatim>\<open>u64\<close> additions saturate as in the source; \<^verbatim>\<open>serde_json\<close> is an argument. The texts for the
  prompt and the events are left out.
\<close>

definition U64_MAX :: nat where "U64_MAX = 18446744073709551615"
definition GOAL_SUMMARY_MAX :: nat where "GOAL_SUMMARY_MAX = 4000"
definition GOAL_ROUNDS_MAX :: nat where "GOAL_ROUNDS_MAX = 1000"
definition GOAL_TOKENS_MIN :: nat where "GOAL_TOKENS_MIN = 1000"
definition GOAL_TOKENS_MAX :: nat where "GOAL_TOKENS_MAX = 100000000"
definition GOAL_MINUTES_MAX :: nat where "GOAL_MINUTES_MAX = 1440"
definition GOAL_PLAN_TOOL :: string where "GOAL_PLAN_TOOL = ''goal.plan''"
definition GOAL_STEP_TOOL :: string where "GOAL_STEP_TOOL = ''goal.step''"
definition GOAL_TOOL :: string where "GOAL_TOOL = ''goal.complete''"
definition GOAL_TOOLS :: "string list" where "GOAL_TOOLS = [GOAL_PLAN_TOOL, GOAL_STEP_TOOL, GOAL_TOOL]"
definition GOAL_NOT_ACTIVE :: string where "GOAL_NOT_ACTIVE = ''GOAL_NOT_ACTIVE''"
definition GOAL_PLAN_EMPTY :: string where "GOAL_PLAN_EMPTY = ''GOAL_PLAN_EMPTY''"
definition GOAL_NO_STEP :: string where "GOAL_NO_STEP = ''GOAL_NO_STEP''"
definition GOAL_EVIDENCE_REQUIRED :: string where "GOAL_EVIDENCE_REQUIRED = ''GOAL_EVIDENCE_REQUIRED''"
definition GOAL_RECORDED :: string where "GOAL_RECORDED = ''The goal is recorded as achieved.''"
definition GOAL_EVIDENCE_PROBLEM :: string where "GOAL_EVIDENCE_PROBLEM =
  ''Both summary and evidence are required and must not be empty. Verify the result, then call the tool again with the evidence.''"
definition GOAL_NUDGE :: string where "GOAL_NUDGE =
  ''Goal mode is still on. Continue working on the goal with the tools. If it is achieved and verified, call the completion tool with the summary and the evidence.''"
definition NO_STEP_RUNNING :: string where "NO_STEP_RUNNING = ''No plan step is in progress. Call update_plan first.''"
definition PLAN_EMPTY :: string where "PLAN_EMPTY = ''The plan must list at least one step that is not yet done.''"

subsection \<open>Goals\<close>

datatype goal_status = GoalActive | GoalPaused | GoalDone | GoalStopped | GoalFailed

datatype goal_reason = ReasonRounds | ReasonTokens | ReasonMinutes | ReasonRepetition | ReasonRestart | ReasonUser | ReasonError

definition goal_finished :: "goal_status \<Rightarrow> bool" where
  "goal_finished st \<longleftrightarrow> st = GoalDone \<or> st = GoalStopped \<or> st = GoalFailed"

definition has_reason :: "goal_status \<Rightarrow> bool" where
  "has_reason st \<longleftrightarrow> st = GoalPaused \<or> st = GoalStopped \<or> st = GoalFailed"

definition sat_add :: "nat \<Rightarrow> nat \<Rightarrow> nat" where
  "sat_add a b = min U64_MAX (a + b)"

record goal_budget =
  gb_rounds :: nat
  gb_tokens :: nat
  gb_minutes :: nat

definition goal_budget_default :: goal_budget where
  "goal_budget_default = \<lparr>gb_rounds = 40, gb_tokens = 400000, gb_minutes = 30\<rparr>"

record goal_usage =
  gu_rounds :: nat
  gu_tokens :: nat
  gu_elapsed_ms :: nat

definition goal_usage_default :: goal_usage where
  "goal_usage_default = \<lparr>gu_rounds = 0, gu_tokens = 0, gu_elapsed_ms = 0\<rparr>"

definition goal_invalid :: "string \<Rightarrow> string \<Rightarrow> app_error" where
  "goal_invalid field rule = app_error_new ValidationFailed (field @ '' '' @ rule)"

definition int_range :: "string \<Rightarrow> nat \<Rightarrow> nat \<Rightarrow> nat \<Rightarrow> app_error + unit" where
  "int_range field v a b = (if a \<le> v \<and> v \<le> b then Inr () else Inl (goal_invalid field ''range''))"

definition check_limits :: "goal_budget \<Rightarrow> app_error + unit" where
  "check_limits b = rbind (int_range ''rounds'' (gb_rounds b) 1 GOAL_ROUNDS_MAX) (\<lambda>_.
     rbind (int_range ''tokens'' (gb_tokens b) GOAL_TOKENS_MIN GOAL_TOKENS_MAX) (\<lambda>_.
     int_range ''minutes'' (gb_minutes b) 1 GOAL_MINUTES_MAX))"

definition budget_after :: "goal_budget \<Rightarrow> goal_usage \<Rightarrow> goal_budget" where
  "budget_after b u = \<lparr>gb_rounds = sat_add (gu_rounds u) (gb_rounds b), gb_tokens = sat_add (gu_tokens u) (gb_tokens b),
     gb_minutes = sat_add (gu_elapsed_ms u div 60000) (gb_minutes b)\<rparr>"

definition budget_exceeded :: "goal_budget \<Rightarrow> goal_usage \<Rightarrow> goal_reason option" where
  "budget_exceeded b u = (if gb_rounds b \<le> gu_rounds u then Some ReasonRounds
     else if gb_tokens b \<le> gu_tokens u then Some ReasonTokens
     else if min U64_MAX (gb_minutes b * 60000) \<le> gu_elapsed_ms u then Some ReasonMinutes
     else None)"

record chat_goal =
  cg_text :: string
  cg_status :: goal_status
  cg_reason :: "goal_reason option"
  cg_budget :: goal_budget
  cg_usage :: goal_usage
  cg_summary :: "string option"
  cg_plan :: plan
  cg_started_at :: int
  cg_ended_at :: "int option"

definition chat_goal_new :: "string \<Rightarrow> goal_budget \<Rightarrow> int \<Rightarrow> chat_goal" where
  "chat_goal_new text budget now = \<lparr>cg_text = trim text, cg_status = GoalActive, cg_reason = None, cg_budget = budget,
     cg_usage = goal_usage_default, cg_summary = None, cg_plan = [], cg_started_at = now, cg_ended_at = None\<rparr>"

definition goal_active :: "chat_goal \<Rightarrow> bool" where
  "goal_active g \<longleftrightarrow> cg_status g = GoalActive"

text \<open>What \<^verbatim>\<open>ChatGoalDto::validate\<close> asks of the status and what goes with it.\<close>

definition check_goal_status :: "chat_goal \<Rightarrow> app_error + unit" where
  "check_goal_status g =
     (if has_reason (cg_status g) \<noteq> (cg_reason g \<noteq> None) then Inl (goal_invalid ''reason'' ''status'')
      else if (case cg_summary g of Some t \<Rightarrow> GOAL_SUMMARY_MAX < length t | None \<Rightarrow> False) then Inl (goal_invalid ''summary'' ''maxLength'')
      else if cg_summary g \<noteq> None \<and> cg_status g \<noteq> GoalDone then Inl (goal_invalid ''summary'' ''status'')
      else if goal_finished (cg_status g) \<noteq> (cg_ended_at g \<noteq> None) then Inl (goal_invalid ''endedAt'' ''status'')
      else Inr ())"

definition default_budget :: "(string \<Rightarrow> nat option) \<Rightarrow> goal_budget" where
  "default_budget setting =
     (let get = (\<lambda>k d. case setting k of Some n \<Rightarrow> n | None \<Rightarrow> d);
          b = \<lparr>gb_rounds = get ''chat.goal.maxRounds'' (gb_rounds goal_budget_default),
               gb_tokens = get ''chat.goal.maxTokens'' (gb_tokens goal_budget_default),
               gb_minutes = get ''chat.goal.maxMinutes'' (gb_minutes goal_budget_default)\<rparr> in
      if check_limits b = Inr () then b else goal_budget_default)"

definition goal_ended :: "chat_goal \<Rightarrow> goal_status \<Rightarrow> goal_reason option \<Rightarrow> int \<Rightarrow> chat_goal" where
  "goal_ended g st reason now = g\<lparr>cg_status := st, cg_reason := reason, cg_ended_at := (if goal_finished st then Some now else cg_ended_at g)\<rparr>"

datatype run_end = EndOk | EndFailed | EndCancelled

definition goal_settled :: "chat_goal \<Rightarrow> run_end \<Rightarrow> int \<Rightarrow> chat_goal option" where
  "goal_settled g outcome now =
     (if \<not> goal_active g then None
      else Some (case outcome of
          EndCancelled \<Rightarrow> goal_ended g GoalStopped (Some ReasonUser) now
        | _ \<Rightarrow> goal_ended g GoalFailed (Some ReasonError) now))"

definition goal_restarted :: "chat_goal \<Rightarrow> chat_goal option" where
  "goal_restarted g = (if goal_active g then Some (goal_ended g GoalPaused (Some ReasonRestart) 0) else None)"

text \<open>\<^verbatim>\<open>continue_goal\<close> and \<^verbatim>\<open>stop_goal\<close>: the goal they write for the one they have read.\<close>

definition goal_resumed :: "(string \<Rightarrow> nat option) \<Rightarrow> chat_goal \<Rightarrow> chat_goal" where
  "goal_resumed setting g = g\<lparr>cg_status := GoalActive, cg_reason := None, cg_budget := budget_after (default_budget setting) (cg_usage g)\<rparr>"

definition goal_stopped :: "chat_goal \<Rightarrow> int \<Rightarrow> chat_goal" where
  "goal_stopped g now = goal_ended g GoalStopped (Some ReasonUser) now"

subsection \<open>The tools of a goal\<close>

fun line_split :: "string \<Rightarrow> string \<Rightarrow> string list" where
  "line_split acc [] = (if acc = [] then [] else [acc])"
| "line_split acc (c # cs) = (if c = CHR 0x0A then (if acc \<noteq> [] \<and> last acc = CHR 0x0D then butlast acc else acc) # line_split [] cs
     else line_split (acc @ [c]) cs)"

definition text_field :: "json \<Rightarrow> string \<Rightarrow> string" where
  "text_field args k = (case obj_get args k of
     Some (JString t) \<Rightarrow> trim t
   | Some (JArray items) \<Rightarrow> join_lines (filter (\<lambda>i. i \<noteq> []) (map trim (List.map_filter as_str items)))
   | _ \<Rightarrow> [])"

definition completion :: "json \<Rightarrow> string option" where
  "completion args = (let s = text_field args ''summary''; e = text_field args ''evidence'' in
     if s = [] \<or> e = [] then None else Some (take GOAL_SUMMARY_MAX s))"

definition plan_titles :: "json \<Rightarrow> string list" where
  "plan_titles args = (case obj_get args ''steps'' of
     Some (JArray items) \<Rightarrow> List.map_filter as_str items
   | Some (JString t) \<Rightarrow> line_split [] t
   | _ \<Rightarrow> [])"

record goal_progress =
  gp_goal :: chat_goal
  gp_base_elapsed :: nat
  gp_started :: int
  gp_guard :: loop_guard
  gp_completed :: "string option"
  gp_revised :: bool
  gp_names :: "string list"

record bridge_outcome =
  bo_status :: call_status
  bo_error :: "string option"
  bo_result :: "string option"

definition goal_start :: "chat_goal option \<Rightarrow> int \<Rightarrow> offered_tool list \<Rightarrow> app_error + goal_progress" where
  "goal_start row now offered = (case row of
     Some g \<Rightarrow> if goal_active g then Inr \<lparr>gp_goal = g, gp_base_elapsed = gu_elapsed_ms (cg_usage g), gp_started = now, gp_guard = loop_guard_default,
         gp_completed = None, gp_revised = False, gp_names = map of_name (filter (\<lambda>t. of_key t \<in> set GOAL_TOOLS) offered)\<rparr>
       else Inl (app_error_new Conflict GOAL_NOT_ACTIVE)
   | None \<Rightarrow> Inl (app_error_new Conflict GOAL_NOT_ACTIVE))"

definition goal_bridge :: "string \<Rightarrow> json \<Rightarrow> goal_progress \<Rightarrow> bridge_outcome \<times> goal_progress" where
  "goal_bridge key args p =
     (let g = gp_goal p in
      if key = GOAL_PLAN_TOOL then
        (case propose (cg_plan g) (plan_titles args) of (open, proposed) \<Rightarrow>
           if open = 0 then (\<lparr>bo_status = CallFailed, bo_error = Some GOAL_PLAN_EMPTY, bo_result = Some PLAN_EMPTY\<rparr>, p)
           else (case guard_revised (gp_guard p) of (often, guard) \<Rightarrow>
             (\<lparr>bo_status = CallSucceeded, bo_error = None, bo_result = Some (''Plan updated:'' @ NL @ describe_plan proposed)\<rparr>,
              p\<lparr>gp_goal := g\<lparr>cg_plan := proposed\<rparr>, gp_guard := guard, gp_revised := (often \<or> gp_revised p)\<rparr>)))
      else if key = GOAL_STEP_TOOL then
        (case complete (cg_plan g) (case Option.bind (obj_get args ''summary'') as_str of Some t \<Rightarrow> t | None \<Rightarrow> []) of
           (Some title, plan) \<Rightarrow>
             (\<lparr>bo_status = CallSucceeded, bo_error = None,
                bo_result = Some (''Step done: '' @ title @ NL @ ''Current plan:'' @ NL @ describe_plan plan)\<rparr>,
              p\<lparr>gp_goal := g\<lparr>cg_plan := plan\<rparr>, gp_guard := guard_progressed (gp_guard p)\<rparr>)
         | (None, _) \<Rightarrow> (\<lparr>bo_status = CallFailed, bo_error = Some GOAL_NO_STEP, bo_result = Some NO_STEP_RUNNING\<rparr>, p))
      else (case completion args of
          Some t \<Rightarrow> (\<lparr>bo_status = CallSucceeded, bo_error = None, bo_result = Some GOAL_RECORDED\<rparr>, p\<lparr>gp_completed := Some t\<rparr>)
        | None \<Rightarrow> (\<lparr>bo_status = CallFailed, bo_error = Some GOAL_EVIDENCE_REQUIRED, bo_result = Some GOAL_EVIDENCE_PROBLEM\<rparr>, p)))"

text \<open>\<^verbatim>\<open>signature\<close> of \<^verbatim>\<open>agentic/plan.rs\<close>; \<open>parse\<close> gives the canonical text of a JSON text.\<close>

definition calls_signature :: "(string \<Rightarrow> string option) \<Rightarrow> (string \<times> string) list \<Rightarrow> string" where
  "calls_signature parse calls = join_lines (map (\<lambda>(n, a). n @ '':'' @ (case parse a of Some v \<Rightarrow> v | None \<Rightarrow> trim a)) calls)"

subsection \<open>The end of a round\<close>

definition count_usage :: "int \<Rightarrow> nat \<Rightarrow> goal_progress \<Rightarrow> chat_goal" where
  "count_usage now spent p = (let g = gp_goal p; u = cg_usage g in
     g\<lparr>cg_usage := \<lparr>gu_rounds = gu_rounds u + 1, gu_tokens = sat_add (gu_tokens u) spent,
       gu_elapsed_ms = sat_add (gp_base_elapsed p) (nat (now - gp_started p))\<rparr>\<rparr>)"

definition goal_round :: "(string \<Rightarrow> string option) \<Rightarrow> int \<Rightarrow> round_report \<Rightarrow> goal_progress \<Rightarrow> (chat_goal \<times> round_next) \<times> goal_progress" where
  "goal_round parse now report p =
     (let g = count_usage now (rr_tokens report) p;
          watched = map (\<lambda>c. (cl_name c, cl_arguments c)) (filter (\<lambda>c. cl_name c \<notin> set (gp_names p)) (rr_calls report));
          (repeated, guard) = (if watched = [] then (False, gp_guard p) else guard_round (gp_guard p) (calls_signature parse watched));
          tripped = (repeated \<or> gp_revised p);
          p1 = p\<lparr>gp_guard := guard, gp_revised := (repeated \<and> gp_revised p), gp_completed := None\<rparr>;
          (g1, nxt) = (case gp_completed p of
             Some t \<Rightarrow> (goal_ended (g\<lparr>cg_summary := Some t, cg_plan := finish_plan (cg_plan g)\<rparr>) GoalDone None now, NextStop)
           | None \<Rightarrow> if tripped then (goal_ended g GoalStopped (Some ReasonRepetition) now, NextStop)
             else (case budget_exceeded (cg_budget g) (cg_usage g) of
                 Some reason \<Rightarrow> (goal_ended g GoalPaused (Some reason) now, NextStop)
               | None \<Rightarrow> if rr_called report then (g, NextContinue) else (g, NextNudge GOAL_NUDGE))) in
      ((g1, nxt), p1\<lparr>gp_goal := g1\<rparr>))"

record 'w goal_env =
  ge_base :: "'w loop_env"
  ge_now :: "'w \<Rightarrow> int"
  ge_row :: "'w \<Rightarrow> app_error + chat_goal option"
  ge_put :: "chat_goal \<Rightarrow> 'w \<Rightarrow> app_error + 'w"
  ge_parse :: "string \<Rightarrow> string option"
  ge_json :: "string \<Rightarrow> json"
  ge_cap :: "string \<Rightarrow> string"

definition goal_save :: "'w goal_env \<Rightarrow> chat_goal \<Rightarrow> 'w \<Rightarrow> app_error + bool \<times> 'w" where
  "goal_save ge g w = rbind (ge_row ge w) (\<lambda>row. case row of
     Some stored \<Rightarrow> if goal_active stored then rbind (ge_put ge g w) (\<lambda>w'. Inr (True, w')) else Inr (False, w)
   | None \<Rightarrow> Inr (False, w))"

definition goal_after_round :: "'w goal_env \<Rightarrow> 'w \<times> goal_progress \<Rightarrow> round_report \<Rightarrow> (app_error + round_next) \<times> 'w \<times> goal_progress" where
  "goal_after_round ge wp report = (case wp of (w, p) \<Rightarrow>
     case goal_round (ge_parse ge) (ge_now ge w) report p of ((g, nxt), p1) \<Rightarrow>
     case goal_save ge g w of
       Inl e \<Rightarrow> (Inl e, w, p1)
     | Inr (stored, w1) \<Rightarrow> (Inr (if stored then nxt else NextStop), w1, p1))"

text \<open>A call of one of the three tools as \<^verbatim>\<open>call_tool\<close> answers it: through \<^verbatim>\<open>bridge\<close> and \<^verbatim>\<open>settle\<close>. Such a tool is
  neither read-only nor a delegation, so its call is a group of its own.\<close>

definition settled_text :: "('w \<Rightarrow> string \<Rightarrow> string) \<Rightarrow> 'w \<Rightarrow> bridge_outcome \<Rightarrow> string" where
  "settled_text cap env bo = (case bo_result bo of
     None \<Rightarrow> ''Tool call '' @ status_text (bo_status bo) @ '': '' @ (case bo_error bo of Some e \<Rightarrow> e | None \<Rightarrow> ''no result'')
   | Some r \<Rightarrow> cap env r)"

definition goal_group :: "pending_call list \<Rightarrow> (pending_call \<times> offered_tool) option" where
  "goal_group g = (case g of [e] \<Rightarrow> (case pc_tool e of
       Some t \<Rightarrow> if pc_refuse e = None \<and> of_key t \<in> set GOAL_TOOLS then Some (e, t) else None
     | None \<Rightarrow> None) | _ \<Rightarrow> None)"

definition goal_host :: "'w goal_env \<Rightarrow> 'w \<times> goal_progress \<Rightarrow> offered_tool list \<Rightarrow> pending_call list \<Rightarrow> call_record list
    \<Rightarrow> (nat \<Rightarrow> app_error + call_outcome) \<times> call_record list \<times> string list \<times> 'w \<times> goal_progress" where
  "goal_host ge wp offered g recs = (case wp of (w, p) \<Rightarrow>
     case goal_group g of
       Some (e, t) \<Rightarrow> (case goal_bridge (of_key t) (ge_json ge (cr_arguments (recs ! pc_index e))) p of (bo, p1) \<Rightarrow>
         (\<lambda>_. Inr \<lparr>co_content = settled_text ge_cap ge bo, co_compact = None, co_refund = False, co_usage = None\<rparr>,
          recs[pc_index e := (recs ! pc_index e)\<lparr>cr_status := bo_status bo\<rparr>], [], w, p1))
     | None \<Rightarrow> (case le_host (ge_base ge) w offered g recs of (outcomes, recs', loaded, w1) \<Rightarrow> (outcomes, recs', loaded, w1, p)))"

definition goal_loop_env :: "'w goal_env \<Rightarrow> ('w \<times> goal_progress) loop_env" where
  "goal_loop_env ge = (let b = ge_base ge in
     \<lparr>le_estimate = le_estimate b, le_specs_json = le_specs_json b, le_arguments = le_arguments b, le_explores = le_explores b,
      le_tool_images = le_tool_images b, le_excluded = le_excluded b,
      le_stream = (\<lambda>(w, p) q. case le_stream b w q of (deltas, w1) \<Rightarrow> (deltas, w1, p)),
      le_host = goal_host ge, le_hook = goal_after_round ge, le_yields = (\<lambda>(w, p). le_yields b w), le_system = le_system b,
      le_deferred = le_deferred b, le_budget = BudgetOpen, le_context_budget = le_context_budget b\<rparr>)"

section \<open>A goal turn ends within its budget\<close>

lemma count_usage_simps [simp]:
  "cg_budget (count_usage now n p) = cg_budget (gp_goal p)" "gu_rounds (cg_usage (count_usage now n p)) = Suc (gu_rounds (cg_usage (gp_goal p)))"
  "cg_status (count_usage now n p) = cg_status (gp_goal p)" "cg_reason (count_usage now n p) = cg_reason (gp_goal p)"
  "cg_summary (count_usage now n p) = cg_summary (gp_goal p)" "cg_ended_at (count_usage now n p) = cg_ended_at (gp_goal p)"
  by (simp_all add: count_usage_def Let_def)

lemma goal_ended_simps [simp]:
  "cg_status (goal_ended g st r now) = st" "cg_reason (goal_ended g st r now) = r" "cg_summary (goal_ended g st r now) = cg_summary g"
  "cg_ended_at (goal_ended g st r now) = (if goal_finished st then Some now else cg_ended_at g)"
  "cg_budget (goal_ended g st r now) = cg_budget g" "cg_usage (goal_ended g st r now) = cg_usage g"
  by (simp_all add: goal_ended_def)

text \<open>The ways a round of a goal ends.\<close>

lemma goal_round_cases:
  assumes "goal_round parse now report p = ((g, nxt), p')"
  obtains (completed) t where "gp_completed p = Some t" "nxt = NextStop" "cg_status g = GoalDone" "cg_reason g = None" "cg_summary g = Some t"
      "cg_ended_at g = Some now"
  | (circles) "gp_completed p = None" "nxt = NextStop" "g = goal_ended (count_usage now (rr_tokens report) p) GoalStopped (Some ReasonRepetition) now"
  | (spent) r where "gp_completed p = None" "nxt = NextStop" "g = goal_ended (count_usage now (rr_tokens report) p) GoalPaused (Some r) now"
  | (goes_on) "gp_completed p = None" "nxt \<noteq> NextStop" "nxt \<noteq> NextWrap" "g = count_usage now (rr_tokens report) p"
      "budget_exceeded (cg_budget (gp_goal p)) (cg_usage g) = None"
proof (cases "gp_completed p")
  case (Some t)
  with assms show ?thesis by (intro completed [of t]) (auto simp: goal_round_def Let_def goal_finished_def split: prod.splits)
next
  case None
  let ?g = "count_usage now (rr_tokens report) p"
  obtain repeated guard where watched:
    "(if map (\<lambda>c. (cl_name c, cl_arguments c)) (filter (\<lambda>c. cl_name c \<notin> set (gp_names p)) (rr_calls report)) = [] then (False, gp_guard p)
      else guard_round (gp_guard p) (calls_signature parse (map (\<lambda>c. (cl_name c, cl_arguments c))
        (filter (\<lambda>c. cl_name c \<notin> set (gp_names p)) (rr_calls report))))) = (repeated, guard)" by fastforce
  show ?thesis
  proof (cases "repeated \<or> gp_revised p")
    case True
    with assms None watched show ?thesis by (intro circles) (auto simp: goal_round_def Let_def)
  next
    case False
    show ?thesis
    proof (cases "budget_exceeded (cg_budget ?g) (cg_usage ?g)")
      case (Some r)
      with False assms None watched show ?thesis by (intro spent [of r]) (auto simp: goal_round_def Let_def)
    next
      case none: None
      with False assms None watched show ?thesis by (intro goes_on) (auto simp: goal_round_def Let_def split: if_splits)
    qed
  qed
qed

lemma goal_round_progress: "goal_round parse now report p = ((g, nxt), p') \<Longrightarrow> gp_goal p' = g \<and> gp_completed p' = None"
  by (auto simp: goal_round_def Let_def split: prod.splits)

lemma goal_round_counts:
  assumes "goal_round parse now report p = ((g, nxt), p')"
  shows "cg_budget g = cg_budget (gp_goal p)" "gu_rounds (cg_usage g) = Suc (gu_rounds (cg_usage (gp_goal p)))"
  using assms by (auto simp: goal_round_def Let_def split: prod.splits option.splits if_splits)

lemma goal_bridge_keeps:
  "goal_bridge key args p = (bo, p') \<Longrightarrow> cg_budget (gp_goal p') = cg_budget (gp_goal p) \<and> cg_usage (gp_goal p') = cg_usage (gp_goal p)"
  by (auto simp: goal_bridge_def Let_def split: if_splits prod.splits option.splits)

definition rounds_are :: "nat \<Rightarrow> nat \<Rightarrow> 'w \<times> goal_progress \<Rightarrow> bool" where
  "rounds_are b u wp \<longleftrightarrow> gb_rounds (cg_budget (gp_goal (snd wp))) = b \<and> gu_rounds (cg_usage (gp_goal (snd wp))) = u"

text \<open>Between the ends of two rounds nothing changes the budget and the count of a goal.\<close>

interpretation goal_rounds: round_invariant "goal_loop_env ge" "rounds_are b u" for ge b u
proof (unfold_locales, goal_cases)
  case (1 w q)
  then show ?case by (auto simp: rounds_are_def goal_loop_env_def Let_def split: prod.splits)
next
  case (2 w offered g recs outcomes recs' loaded w')
  then show ?case
    by (auto simp: rounds_are_def goal_loop_env_def goal_host_def Let_def dest: goal_bridge_keeps split: prod.splits option.splits)
qed

lemma goal_after_round_ends:
  assumes "after_round (goal_loop_env ge) called l spent r s = (x, s')" "rounds_are b u (lp_world s)"
  shows "rounds_are b (Suc u) (lp_world s')" "lp_wrapped s' = lp_wrapped s" "b \<le> Suc u \<Longrightarrow> x \<noteq> Inr False"
proof -
  obtain w p where world: "lp_world s = (w, p)" by fastforce
  let ?report = "\<lparr>rr_called = called, rr_last = l, rr_calls = ro_calls r, rr_tokens = spent\<rparr>"
  obtain g nxt p1 where round: "goal_round (ge_parse ge) (ge_now ge w) ?report p = ((g, nxt), p1)" by (metis prod.collapse)
  have counts: "rounds_are b (Suc u) (w', p1)" for w' :: 'a
    using goal_round_counts [OF round] goal_round_progress [OF round] assms(2) by (simp add: rounds_are_def world)
  have hook: "le_hook (goal_loop_env ge) (lp_world s) ?report = (case goal_save ge g w of
      Inl e \<Rightarrow> (Inl e, w, p1) | Inr (stored, w1) \<Rightarrow> (Inr (if stored then nxt else NextStop), w1, p1))"
    by (simp add: goal_loop_env_def Let_def goal_after_round_def world round)
  show "rounds_are b (Suc u) (lp_world s')"
    using assms(1) counts by (auto simp: after_round_def hook Let_def split: sum.splits prod.splits round_next.splits if_splits)
  from round have wrap: "nxt \<noteq> NextWrap" by (cases rule: goal_round_cases) auto
  then show "lp_wrapped s' = lp_wrapped s"
    using assms(1) by (auto simp: after_round_def hook Let_def split: sum.splits prod.splits round_next.splits if_splits)
  assume "b \<le> Suc u"
  then have over: "budget_exceeded (cg_budget (gp_goal p)) (cg_usage g) \<noteq> None"
    using goal_round_counts [OF round] assms(2) by (simp add: budget_exceeded_def rounds_are_def world)
  from round over have "nxt = NextStop" by (cases rule: goal_round_cases) auto
  then show "x \<noteq> Inr False"
    using assms(1) by (auto simp: after_round_def hook Let_def split: sum.splits prod.splits if_splits)
qed

lemma goal_rounds_end:
  assumes "rounds_are b u (lp_world s)" "u < b" "b - u \<le> fuel"
  shows "\<exists>result s'. loop_rounds fuel (goal_loop_env ge) s = (Some result, s') \<and> length (lp_sent s') \<le> length (lp_sent s) + (b - u)"
  using assms
proof (induction fuel arbitrary: s u)
  case 0
  then show ?case by simp
next
  case (Suc fuel)
  obtain x s1 where round: "loop_round (goal_loop_env ge) s = (x, s1)" by fastforce
  then show ?case
  proof (cases rule: goal_rounds.round_run [OF _ Suc.prems(1), consumes 1, case_names failed through])
    case (failed e)
    with round Suc.prems show ?thesis by simp
  next
    case (through called spent r s3)
    note ends = goal_after_round_ends [OF through(1,2)]
    have sent: "length (lp_sent s1) = Suc (length (lp_sent s))" using after_round_keeps [OF through(1)] through(3) by simp
    show ?thesis
    proof (cases "x = Inr False")
      case False
      then have "loop_rounds (Suc fuel) (goal_loop_env ge) s = (Some (case x of Inl e \<Rightarrow> Inl e | Inr u \<Rightarrow> Inr ()), s1)"
        using round by (cases x) (auto split: bool.splits)
      with sent Suc.prems show ?thesis by auto
    next
      case True
      with ends(3) have "Suc u < b" by (meson not_le)
      moreover have "b - Suc u \<le> fuel" using Suc.prems(3) by linarith
      ultimately obtain result s' where
        "loop_rounds fuel (goal_loop_env ge) s1 = (Some result, s')" "length (lp_sent s') \<le> length (lp_sent s1) + (b - Suc u)"
        using Suc.IH [OF ends(1)] by blast
      with round True sent \<open>Suc u < b\<close> show ?thesis by auto
    qed
  qed
qed

text \<open>A goal that is started or resumed has a round to go.\<close>

lemma default_budget_rounds: "0 < gb_rounds (default_budget setting)"
  by (auto simp: default_budget_def Let_def check_limits_def int_range_def goal_budget_default_def split: if_splits option.splits)

lemma started_goal_has_rounds: "gu_rounds (cg_usage (chat_goal_new text (default_budget setting) now)) < gb_rounds (cg_budget (chat_goal_new text (default_budget setting) now))"
  by (simp add: chat_goal_new_def goal_usage_default_def default_budget_rounds)

lemma resumed_goal_has_rounds:
  "gu_rounds (cg_usage g) < U64_MAX \<Longrightarrow> gu_rounds (cg_usage (goal_resumed setting g)) < gb_rounds (cg_budget (goal_resumed setting g))"
  using default_budget_rounds [of setting] by (simp add: goal_resumed_def budget_after_def sat_add_def)

section \<open>The goal of a conversation\<close>

text \<open>\<open>gs_row\<close> is the stored goal, \<open>gs_hook\<close> the hook of the running turn, \<open>gs_stop\<close> and \<open>gs_resume\<close> what a call
  of \<^verbatim>\<open>stop_goal\<close> has read and what one of \<^verbatim>\<open>continue_goal\<close> is about to write. \<open>gs_calls\<close> lists the calls of the
  goal's tools the model has made in the turn, each with its key and arguments; the code does not keep it.\<close>

record goal_sys =
  gs_row :: "chat_goal option"
  gs_hook :: "goal_progress option"
  gs_stop :: "chat_goal option"
  gs_resume :: "chat_goal option"
  gs_calls :: "(string \<times> json) list"

definition goal_sys_start :: goal_sys where
  "goal_sys_start = \<lparr>gs_row = None, gs_hook = None, gs_stop = None, gs_resume = None, gs_calls = []\<rparr>"

text \<open>What a reader of the log takes for a report: the texts the model has written under a key, and that one of them
  is more than blanks. \<open>is_report\<close> does not use what the code makes of the arguments.\<close>

definition written_under :: "json \<Rightarrow> string \<Rightarrow> string list" where
  "written_under args k = (case obj_get args k of Some (JString t) \<Rightarrow> [t] | Some (JArray items) \<Rightarrow> List.map_filter as_str items | _ \<Rightarrow> [])"

definition tells :: "json \<Rightarrow> string \<Rightarrow> bool" where
  "tells args k \<longleftrightarrow> (\<exists>t \<in> set (written_under args k). trim t \<noteq> [])"

definition is_report :: "string \<times> json \<Rightarrow> bool" where
  "is_report call \<longleftrightarrow> fst call = GOAL_TOOL \<and> tells (snd call) ''summary'' \<and> tells (snd call) ''evidence''"

definition report_summary :: "string \<times> json \<Rightarrow> string" where
  "report_summary call = take GOAL_SUMMARY_MAX (text_field (snd call) ''summary'')"

inductive goal_step :: "goal_sys \<Rightarrow> goal_sys \<Rightarrow> bool" where
  send: "goal_step s (s\<lparr>gs_row := Some (chat_goal_new text (default_budget setting) now)\<rparr>)"
| resume_read: "gs_row s = Some g \<Longrightarrow> cg_status g = GoalPaused \<Longrightarrow> goal_step s (s\<lparr>gs_resume := Some (goal_resumed setting g)\<rparr>)"
| resume_write: "gs_resume s = Some g \<Longrightarrow> goal_step s (s\<lparr>gs_row := Some g, gs_resume := None\<rparr>)"
| stop_read: "gs_row s = Some g \<Longrightarrow> cg_status g = GoalActive \<or> cg_status g = GoalPaused \<Longrightarrow> goal_step s (s\<lparr>gs_stop := Some g\<rparr>)"
| stop_write: "gs_stop s = Some g \<Longrightarrow> goal_step s (s\<lparr>gs_row := Some (goal_stopped g now), gs_stop := None\<rparr>)"
| turn_start: "goal_start (gs_row s) now offered = Inr p \<Longrightarrow> goal_step s (s\<lparr>gs_hook := Some p, gs_calls := []\<rparr>)"
| turn_call: "gs_hook s = Some p \<Longrightarrow> key \<in> set GOAL_TOOLS \<Longrightarrow> goal_bridge key args p = (bo, p') \<Longrightarrow>
    goal_step s (s\<lparr>gs_hook := Some p', gs_calls := gs_calls s @ [(key, args)]\<rparr>)"
| turn_round: "gs_hook s = Some p \<Longrightarrow> goal_round parse now report p = ((g, nxt), p') \<Longrightarrow> gs_row s = Some stored \<Longrightarrow> goal_active stored \<Longrightarrow>
    goal_step s (s\<lparr>gs_row := Some g, gs_hook := (if nxt = NextStop then None else Some p')\<rparr>)"
| turn_over: "goal_step s (s\<lparr>gs_hook := None\<rparr>)"
| run_ended: "gs_row s = Some g \<Longrightarrow> goal_settled g outcome now = Some g' \<Longrightarrow> goal_step s (s\<lparr>gs_row := Some g'\<rparr>)"
| host_started: "gs_row s = Some g \<Longrightarrow> goal_restarted g = Some g' \<Longrightarrow> goal_step s (s\<lparr>gs_row := Some g'\<rparr>)"

inductive goal_reach :: "goal_sys \<Rightarrow> bool" where
  start: "goal_reach goal_sys_start"
| step: "goal_reach s \<Longrightarrow> goal_step s s' \<Longrightarrow> goal_reach s'"

definition goal_coherent :: "chat_goal \<Rightarrow> bool" where
  "goal_coherent g \<longleftrightarrow> has_reason (cg_status g) = (cg_reason g \<noteq> None) \<and> (cg_status g = GoalDone) = (cg_summary g \<noteq> None)
     \<and> (case cg_summary g of Some t \<Rightarrow> t \<noteq> [] \<and> length t \<le> GOAL_SUMMARY_MAX | None \<Rightarrow> True)
     \<and> goal_finished (cg_status g) = (cg_ended_at g \<noteq> None)"

lemma coherent_check: "goal_coherent g \<Longrightarrow> check_goal_status g = Inr ()"
  by (auto simp: goal_coherent_def check_goal_status_def split: option.splits)

lemmas goal_states = goal_coherent_def goal_finished_def has_reason_def goal_active_def

lemma text_field_tells:
  assumes "text_field args k \<noteq> []"
  shows "tells args k"
proof (cases "obj_get args k")
  case (Some v)
  with assms show ?thesis
  proof (cases v)
    case (JArray items)
    let ?items = "filter (\<lambda>i. i \<noteq> []) (map trim (List.map_filter as_str items))"
    have "text_field args k = join_lines ?items" using JArray Some by (simp add: text_field_def)
    with assms have "?items \<noteq> []" by (metis join_lines.simps(1))
    with JArray Some show ?thesis by (auto simp: tells_def written_under_def filter_empty_conv)
  qed (use Some assms in \<open>auto simp: text_field_def tells_def written_under_def\<close>)
qed (use assms in \<open>simp add: text_field_def\<close>)

lemma completion_Some:
  "completion args = Some t \<Longrightarrow> t \<noteq> [] \<and> length t \<le> GOAL_SUMMARY_MAX \<and> is_report (GOAL_TOOL, args) \<and> t = report_summary (GOAL_TOOL, args)"
  by (auto simp: completion_def Let_def GOAL_SUMMARY_MAX_def is_report_def report_summary_def intro: text_field_tells split: if_splits)

lemma coherent_ended:
  "goal_coherent g \<Longrightarrow> goal_active g \<or> cg_status g = GoalPaused \<Longrightarrow> st = GoalStopped \<or> st = GoalFailed \<or> st = GoalPaused
    \<Longrightarrow> goal_coherent (goal_ended g st (Some r) now)"
  by (auto simp: goal_states split: option.splits)

lemma coherent_count [simp]: "goal_coherent (count_usage now n p) = goal_coherent (gp_goal p)" "goal_active (count_usage now n p) = goal_active (gp_goal p)"
  by (simp_all add: goal_coherent_def goal_active_def)

text \<open>What holds of a running hook.\<close>

definition reported_as :: "(string \<times> json) list \<Rightarrow> string option \<Rightarrow> bool" where
  "reported_as calls summary \<longleftrightarrow> (\<exists>c \<in> set calls. is_report c \<and> summary = Some (report_summary c))"

lemma reported_as_more: "reported_as calls summary \<Longrightarrow> reported_as (calls @ others) summary"
  by (auto simp: reported_as_def)

definition progress_ok :: "(string \<times> json) list \<Rightarrow> goal_progress \<Rightarrow> bool" where
  "progress_ok calls p \<longleftrightarrow> goal_coherent (gp_goal p) \<and> goal_active (gp_goal p)
     \<and> (\<forall>t. gp_completed p = Some t \<longrightarrow> reported_as calls (Some t) \<and> t \<noteq> [] \<and> length t \<le> GOAL_SUMMARY_MAX)"

lemma coherent_plan [simp]: "goal_coherent (g\<lparr>cg_plan := q\<rparr>) = goal_coherent g" "goal_active (g\<lparr>cg_plan := q\<rparr>) = goal_active g"
  by (simp_all add: goal_coherent_def goal_active_def)

lemma goal_bridge_cases:
  assumes "goal_bridge key args p = (bo, p')" "key \<in> set GOAL_TOOLS"
  obtains "p' = p" | q guard rev where "p' = p\<lparr>gp_goal := (gp_goal p)\<lparr>cg_plan := q\<rparr>, gp_guard := guard, gp_revised := rev\<rparr>"
  | t where "key = GOAL_TOOL" "completion args = Some t" "p' = p\<lparr>gp_completed := Some t\<rparr>"
proof (cases "key = GOAL_PLAN_TOOL")
  case True
  with assms show ?thesis
    by (auto simp: goal_bridge_def Let_def split: prod.splits if_splits intro: that(1) that(2))
next
  case False
  show ?thesis
  proof (cases "key = GOAL_STEP_TOOL")
    case True
    obtain title q where "complete (cg_plan (gp_goal p)) (case Option.bind (obj_get args ''summary'') as_str of Some t \<Rightarrow> t | None \<Rightarrow> []) = (title, q)"
      by fastforce
    with True False assms show ?thesis
      by (cases title) (auto simp: goal_bridge_def Let_def intro: that(1) that(2) [where q = q and guard = "guard_progressed (gp_guard p)" and rev = "gp_revised p"])
  next
    case other: False
    with False assms show ?thesis
      by (auto simp: goal_bridge_def Let_def GOAL_TOOLS_def split: option.splits intro: that(1) that(3))
  qed
qed

lemma progress_ok_call:
  assumes "goal_bridge key args p = (bo, p')" "key \<in> set GOAL_TOOLS" "progress_ok calls p"
  shows "progress_ok (calls @ [(key, args)]) p'"
  using assms(1,2)
proof (cases rule: goal_bridge_cases)
  case (3 t)
  with assms(3) completion_Some [OF 3(2)] show ?thesis by (auto simp: progress_ok_def reported_as_def)
qed (use assms(3) in \<open>auto simp: progress_ok_def reported_as_def\<close>)

lemma progress_ok_round:
  assumes "goal_round parse now report p = ((g, nxt), p')" "progress_ok calls p"
  shows "goal_coherent g" "cg_status g = GoalDone \<Longrightarrow> reported_as calls (cg_summary g)" "nxt \<noteq> NextStop \<Longrightarrow> progress_ok calls p'"
proof -
  have ok: "goal_coherent (gp_goal p)" "goal_active (gp_goal p)" using assms(2) by (simp_all add: progress_ok_def)
  from assms(1) have "goal_coherent g \<and> (cg_status g = GoalDone \<longrightarrow> (reported_as calls (cg_summary g)))
      \<and> (nxt \<noteq> NextStop \<longrightarrow> goal_active g)"
  proof (cases rule: goal_round_cases)
    case (completed t)
    then show ?thesis using assms(2) by (auto simp: progress_ok_def goal_coherent_def has_reason_def goal_finished_def)
  next
    case circles
    then show ?thesis using ok by (auto intro: coherent_ended)
  next
    case (spent r)
    then show ?thesis using ok by (auto intro: coherent_ended)
  next
    case goes_on
    then show ?thesis using ok by (auto simp: goal_active_def)
  qed
  then show "goal_coherent g" "cg_status g = GoalDone \<Longrightarrow> reported_as calls (cg_summary g)" "nxt \<noteq> NextStop \<Longrightarrow> progress_ok calls p'"
    using goal_round_progress [OF assms(1)] by (auto simp: progress_ok_def)
qed

definition sys_ok :: "goal_sys \<Rightarrow> bool" where
  "sys_ok s \<longleftrightarrow> pred_option (\<lambda>g. goal_coherent g \<and> (cg_status g = GoalDone \<longrightarrow> reported_as (gs_calls s) (cg_summary g))) (gs_row s)
     \<and> pred_option (progress_ok (gs_calls s)) (gs_hook s)
     \<and> pred_option (\<lambda>g. goal_coherent g \<and> (goal_active g \<or> cg_status g = GoalPaused)) (gs_stop s)
     \<and> pred_option (\<lambda>g. goal_coherent g \<and> goal_active g) (gs_resume s)"

lemma coherent_new: "goal_coherent (chat_goal_new text b now)" "goal_active (chat_goal_new text b now)"
  by (simp_all add: chat_goal_new_def goal_states)

lemma status_written [simp]: "cg_status (chat_goal_new text b now) = GoalActive" "cg_status (goal_resumed setting g) = GoalActive"
  by (simp_all add: chat_goal_new_def goal_resumed_def)

lemma coherent_resumed: "goal_coherent g \<Longrightarrow> cg_status g = GoalPaused \<Longrightarrow> goal_coherent (goal_resumed setting g) \<and> goal_active (goal_resumed setting g)"
  by (auto simp: goal_resumed_def goal_states split: option.splits)

lemma goal_step_ok: "goal_step s s' \<Longrightarrow> sys_ok s \<Longrightarrow> sys_ok s'"
proof (induction rule: goal_step.induct)
  case (turn_start s now offered p)
  then show ?case by (auto simp: sys_ok_def goal_start_def progress_ok_def goal_active_def split: option.splits if_splits)
next
  case (turn_call s p key args bo p')
  then show ?case using progress_ok_call [OF turn_call(3,2)] by (cases "gs_row s") (auto simp: sys_ok_def reported_as_more)
next
  case (turn_round s p parse now report g nxt p' stored)
  then show ?case using progress_ok_round [OF turn_round(2)] by (auto simp: sys_ok_def)
next
  case (run_ended s g outcome now g')
  then show ?case
    by (cases outcome) (auto simp: sys_ok_def goal_settled_def intro!: coherent_ended split: if_splits)
next
  case (host_started s g g')
  then show ?case by (auto simp: sys_ok_def goal_restarted_def intro!: coherent_ended split: if_splits)
qed (auto simp: sys_ok_def goal_stopped_def coherent_new coherent_resumed goal_active_def intro!: coherent_ended)

lemma goal_reach_ok: "goal_reach s \<Longrightarrow> sys_ok s"
proof (induction rule: goal_reach.induct)
  case start
  then show ?case by (simp add: sys_ok_def goal_sys_start_def)
next
  case (step s s')
  then show ?case by (simp add: goal_step_ok)
qed

text \<open>A finished goal stays as it is until a new one is started, unless a call that has read it before still has to
  write.\<close>

lemma finished_goal_stays:
  assumes "goal_step s s'" "gs_row s = Some g" "goal_finished (cg_status g)" "gs_stop s = None" "gs_resume s = None"
  shows "gs_row s' = Some g \<or> (\<exists>text setting now. gs_row s' = Some (chat_goal_new text (default_budget setting) now))"
  using assms by (induction rule: goal_step.induct) (auto simp: goal_active_def goal_finished_def goal_settled_def goal_restarted_def)

subsection \<open>A goal from its start to its end\<close>

definition sample_goal :: chat_goal where
  "sample_goal = chat_goal_new ''add tests'' (default_budget (\<lambda>k. if k = ''chat.goal.maxRounds'' then Some 2 else None)) 0"

definition sample_args :: json where
  "sample_args = JObject [(''summary'', JString ''tests added''), (''evidence'', JString ''12 passed'')]"

definition sample_progress :: goal_progress where
  "sample_progress = (case goal_start (Some sample_goal) 0 [] of Inr p \<Rightarrow> p)"

definition sample_round :: "(chat_goal \<times> round_next) \<times> goal_progress" where
  "sample_round = goal_round Some 1 \<lparr>rr_called = True, rr_last = False, rr_calls = [], rr_tokens = 10\<rparr> (snd (goal_bridge GOAL_TOOL sample_args sample_progress))"

definition sample_stopping :: goal_sys where
  "sample_stopping = goal_sys_start\<lparr>gs_row := Some sample_goal, gs_stop := Some sample_goal\<rparr>"

definition sample_achieved :: goal_sys where
  "sample_achieved = sample_stopping\<lparr>gs_row := Some (fst (fst sample_round)), gs_calls := [(GOAL_TOOL, sample_args)]\<rparr>"

lemma sample_facts:
  "goal_start (Some sample_goal) 0 [] = Inr sample_progress" "GOAL_TOOL \<in> set GOAL_TOOLS" "snd (fst sample_round) = NextStop"
  "cg_status (fst (fst sample_round)) = GoalDone" "goal_active sample_goal"
proof -
  show active: "goal_active sample_goal" by (simp add: sample_goal_def chat_goal_new_def goal_active_def)
  then show "goal_start (Some sample_goal) 0 [] = Inr sample_progress" by (simp add: sample_progress_def goal_start_def)
  have "text_field sample_args ''summary'' = ''tests added''" "text_field sample_args ''evidence'' = ''12 passed''"
    by code_simp+
  then have complete: "completion sample_args = Some ''tests added''" by (simp add: completion_def GOAL_SUMMARY_MAX_def)
  show "GOAL_TOOL \<in> set GOAL_TOOLS" by (simp add: GOAL_TOOLS_def)
  have "snd (goal_bridge GOAL_TOOL sample_args sample_progress) = sample_progress\<lparr>gp_completed := Some ''tests added''\<rparr>"
    using complete by (simp add: goal_bridge_def Let_def GOAL_TOOL_def GOAL_PLAN_TOOL_def GOAL_STEP_TOOL_def)
  then show "snd (fst sample_round) = NextStop" "cg_status (fst (fst sample_round)) = GoalDone"
    by (simp_all add: sample_round_def goal_round_def Let_def)
qed

lemma sample_achieved_reach: "goal_reach sample_achieved"
proof -
  let ?p1 = "snd (goal_bridge GOAL_TOOL sample_args sample_progress)"
  have "goal_reach (goal_sys_start\<lparr>gs_row := Some sample_goal\<rparr>)"
    unfolding sample_goal_def by (rule goal_reach.step [OF goal_reach.start goal_step.send])
  then have "goal_reach sample_stopping"
    using goal_step.stop_read [of "goal_sys_start\<lparr>gs_row := Some sample_goal\<rparr>" sample_goal] sample_facts(5)
    by (auto simp: sample_stopping_def goal_active_def goal_sys_start_def intro: goal_reach.step)
  from goal_reach.step [OF this goal_step.turn_start [of _ 0 "[]" sample_progress]]
  have "goal_reach (sample_stopping\<lparr>gs_hook := Some sample_progress, gs_calls := []\<rparr>)"
    using sample_facts(1) by (simp add: sample_stopping_def)
  from goal_reach.step [OF this goal_step.turn_call [of _ sample_progress GOAL_TOOL sample_args "fst (goal_bridge GOAL_TOOL sample_args sample_progress)" ?p1]]
  have "goal_reach (sample_stopping\<lparr>gs_hook := Some ?p1, gs_calls := [(GOAL_TOOL, sample_args)]\<rparr>)"
    by (simp add: sample_facts)
  from goal_reach.step [OF this goal_step.turn_round [of _ ?p1 Some 1 "\<lparr>rr_called = True, rr_last = False, rr_calls = [], rr_tokens = 10\<rparr>"
      "fst (fst sample_round)" "snd (fst sample_round)" "snd sample_round" sample_goal]]
  have "sample_round = ((fst (fst sample_round), snd (fst sample_round)), snd sample_round) \<Longrightarrow> ?thesis"
    by (simp add: sample_achieved_def sample_stopping_def sample_facts sample_round_def [symmetric] goal_sys_start_def)
  then show ?thesis by simp
qed

text \<open>\<^verbatim>\<open>stop_goal\<close> writes the goal it has read before: a goal achieved in between is recorded as stopped, its summary
  and its plan are lost.\<close>

lemma stop_overwrites_achieved:
  "goal_reach sample_achieved" "cg_status (the (gs_row sample_achieved)) = GoalDone"
  "goal_step sample_achieved (sample_achieved\<lparr>gs_row := Some (goal_stopped sample_goal 2), gs_stop := None\<rparr>)"
  "cg_status (goal_stopped sample_goal 2) = GoalStopped" "cg_summary (goal_stopped sample_goal 2) = None"
  using sample_achieved_reach goal_step.stop_write [of sample_achieved sample_goal 2]
  by (auto simp: sample_facts sample_achieved_def sample_stopping_def goal_stopped_def sample_goal_def chat_goal_new_def)

text \<open>C37: A turn of goal mode ends: with as many requests to the model as the goal has rounds left at most, whatever
  the model answers, the tools do and the user does meanwhile.\<close>

theorem goal_turn_ends:
  assumes "gu_rounds (cg_usage (gp_goal p)) < gb_rounds (cg_budget (gp_goal p))"
  defines "left \<equiv> gb_rounds (cg_budget (gp_goal p)) - gu_rounds (cg_usage (gp_goal p))"
  shows "\<exists>result s. loop_rounds left (goal_loop_env ge) (loop_start (w, p) offered tools ms calls) = (Some result, s) \<and> length (lp_sent s) \<le> left"
  using goal_rounds_end [OF _ assms(1) order_refl, of "loop_start (w, p) offered tools ms calls" ge]
  by (simp add: loop_start_def rounds_are_def left_def)

definition sample_goal_env :: "chat_goal option goal_env" where
  "sample_goal_env = \<lparr>ge_base = \<lparr>le_estimate = length, le_specs_json = (\<lambda>ts. []), le_arguments = (\<lambda>c t. cl_arguments c), le_explores = (\<lambda>a. False),
       le_tool_images = (\<lambda>k m. []), le_excluded = [], le_stream = (\<lambda>w q. ([Inr (DeltaContent ''working'' DeltaText)], w)),
       le_host = (\<lambda>w ts es recs. (\<lambda>i. Inr \<lparr>co_content = ''ok'', co_compact = None, co_refund = False, co_usage = None\<rparr>, recs, [], w)),
       le_hook = chat_turn, le_yields = (\<lambda>w. False), le_system = None, le_deferred = [], le_budget = BudgetOpen, le_context_budget = 1000\<rparr>,
     ge_now = (\<lambda>w. 5), ge_row = Inr, ge_put = (\<lambda>g w. Inr (Some g)), ge_parse = Some, ge_json = JString, ge_cap = id\<rparr>"

lemma goal_turn_ends_witness:
  "\<exists>result s. loop_rounds 2 (goal_loop_env sample_goal_env) (loop_start (Some sample_goal, sample_progress) [read_tool] [] [] []) = (Some result, s)
    \<and> length (lp_sent s) \<le> 2"
proof -
  have counts: "gu_rounds (cg_usage (gp_goal sample_progress)) = 0" "gb_rounds (cg_budget (gp_goal sample_progress)) = 2"
    by (simp_all add: sample_progress_def goal_start_def sample_goal_def chat_goal_new_def goal_active_def goal_usage_default_def default_budget_def
        check_limits_def int_range_def goal_budget_default_def GOAL_ROUNDS_MAX_def GOAL_TOKENS_MIN_def GOAL_TOKENS_MAX_def GOAL_MINUTES_MAX_def)
  show ?thesis
    using goal_turn_ends [of sample_progress sample_goal_env "Some sample_goal" "[read_tool]" "[]" "[]" "[]"] by (simp add: counts)
qed

text \<open>C38: A stored goal is what its status says (a reason exactly when it is paused, stopped or failed, an end exactly
  when it is finished), and a goal recorded as achieved has a report behind it: in that turn the model has called the
  completion tool itself, with a summary and with evidence neither of which is blank, and the stored summary is that of
  the call, cut to its bound. So it is however turns, restarts and the calls of the user interleave; a call without
  evidence, or of another tool, never makes a goal achieved.\<close>

theorem achieved_goals_are_reported:
  assumes "goal_reach s" "gs_row s = Some g"
  shows "check_goal_status g = Inr ()
    \<and> (cg_status g = GoalDone \<longrightarrow> (\<exists>args. (GOAL_TOOL, args) \<in> set (gs_calls s) \<and> tells args ''summary'' \<and> tells args ''evidence''
          \<and> cg_summary g = Some (take GOAL_SUMMARY_MAX (text_field args ''summary''))))"
  using goal_reach_ok [OF assms(1)] assms(2) coherent_check
  by (fastforce simp: sys_ok_def reported_as_def is_report_def report_summary_def)

lemma achieved_goals_are_reported_witness:
  "check_goal_status (the (gs_row sample_achieved)) = Inr () \<and> tells sample_args ''evidence''
    \<and> cg_summary (the (gs_row sample_achieved)) = Some ''tests added''"
proof -
  have row: "gs_row sample_achieved = Some (fst (fst sample_round))" by (simp add: sample_achieved_def)
  have field: "text_field sample_args ''summary'' = ''tests added''" by code_simp
  show ?thesis
    using achieved_goals_are_reported [OF sample_achieved_reach row] sample_facts(4)
    by (auto simp: sample_achieved_def field GOAL_SUMMARY_MAX_def)
qed

end
