(* ===== verification/AgenticSession.thy ===== *)
theory AgenticSession
  imports GoalMode
begin

text \<open>
  Agentic sessions, \<^verbatim>\<open>agentic/node.rs\<close>, \<^verbatim>\<open>agentic/store.rs\<close> and \<^verbatim>\<open>agentic/service.rs\<close> of the host: the loop in which a
  model works towards a goal with tools and a plan, and the user's operations on the stored session meanwhile.

  \<open>session_progress\<close> is what the node keeps on its stack; \<open>session_boundary\<close> takes what the user has left for it,
  \<open>session_round\<close> is one request with its calls, \<open>session_save\<close> writes the row and the new part of the transcript.
  \<open>session_step\<close> lets the node and the user's operations interleave; what the model says, what the tools answer,
  which tools are listed and what the clock shows is free.

  \<open>session_conf\<close> holds what is computed elsewhere: the tokenizer and the driver's excluded tools (\<open>sc_loop\<close>), JSON,
  the texts of descriptions and results, how a request shows the images of messages. \<open>sp_invoked\<close>, \<open>ss_mode\<close>,
  \<open>ss_invoked\<close> and \<open>ss_asked\<close> are kept for the statements only. Counters are natural numbers: the program's are \<^verbatim>\<open>u64\<close> and far from
  overflowing within the budgets. Events, failures of the database, the lookup of the provider and the deletion of a
  session are left out, and one node of a session is at
  work at a time: two extensions at once would start two, of which the later to save meets the entries of the other.
\<close>

datatype agentic_mode = ModeReadOnly | ModeAsk | ModeAuto

datatype session_status = SessRunning | SessPaused | SessCompleted | SessStopped | SessFailed | SessCancelled

datatype stop_reason = StopGoal | StopSteps | StopTokens | StopTime | StopLoop | StopCancelled | StopError

definition session_finished :: "session_status \<Rightarrow> bool" where
  "session_finished st \<longleftrightarrow> st = SessCompleted \<or> st = SessStopped \<or> st = SessFailed \<or> st = SessCancelled"

definition mode_str :: "agentic_mode \<Rightarrow> string" where
  "mode_str m = (case m of ModeReadOnly \<Rightarrow> ''read-only'' | ModeAsk \<Rightarrow> ''ask'' | ModeAuto \<Rightarrow> ''auto'')"

definition AGENTIC_STEPS_MAX :: nat where "AGENTIC_STEPS_MAX = 1000"
definition AGENTIC_TOKENS_MIN :: nat where "AGENTIC_TOKENS_MIN = 1000"
definition AGENTIC_TOKENS_MAX :: nat where "AGENTIC_TOKENS_MAX = 100000000"
definition AGENTIC_MINUTES_MAX :: nat where "AGENTIC_MINUTES_MAX = 1440"

record agentic_budget =
  ab_steps :: nat
  ab_tokens :: nat
  ab_minutes :: nat

definition agentic_budget_default :: agentic_budget where
  "agentic_budget_default = \<lparr>ab_steps = 25, ab_tokens = 200000, ab_minutes = 15\<rparr>"

definition check_agentic_budget :: "agentic_budget \<Rightarrow> app_error + unit" where
  "check_agentic_budget b = rbind (int_range ''maxSteps'' (ab_steps b) 1 AGENTIC_STEPS_MAX) (\<lambda>_.
     rbind (int_range ''maxTokens'' (ab_tokens b) AGENTIC_TOKENS_MIN AGENTIC_TOKENS_MAX) (\<lambda>_.
     int_range ''maxMinutes'' (ab_minutes b) 1 AGENTIC_MINUTES_MAX))"

record agentic_usage =
  au_steps :: nat
  au_tokens :: nat
  au_elapsed_ms :: nat
  au_tool_calls :: nat

definition agentic_usage_default :: agentic_usage where
  "agentic_usage_default = \<lparr>au_steps = 0, au_tokens = 0, au_elapsed_ms = 0, au_tool_calls = 0\<rparr>"

record session_row =
  se_id :: string
  se_goal :: string
  se_status :: session_status
  se_stop_reason :: "stop_reason option"
  se_error :: "string option"
  se_summary :: "string option"
  se_mode :: agentic_mode
  se_pending_mode :: "agentic_mode option"
  se_workspace :: string
  se_provider :: string
  se_model :: string
  se_tools :: "string list"
  se_budget :: agentic_budget
  se_usage :: agentic_usage
  se_plan :: plan
  se_pending_plan :: "plan_edit list option"
  se_instructions :: "string list"
  se_changed :: "changed_file list"
  se_run :: "string option"
  se_created_at :: int
  se_updated_at :: int

record transcript_entry =
  te_images :: "string list"
  te_role :: string
  te_content :: string
  te_call_id :: "string option"
  te_calls :: "chat_call list"

definition role_name :: "chat_role \<Rightarrow> string" where
  "role_name r = (case r of RoleSystem \<Rightarrow> ''system'' | RoleUser \<Rightarrow> ''user'' | RoleAssistant \<Rightarrow> ''assistant'' | RoleTool \<Rightarrow> ''tool'')"

definition to_entry :: "chat_message \<Rightarrow> transcript_entry" where
  "to_entry m = \<lparr>te_images = cm_images m, te_role = role_name (cm_role m), te_content = cm_content m, te_call_id = cm_call_id m,
     te_calls = cm_calls m\<rparr>"

definition from_entry :: "transcript_entry \<Rightarrow> chat_message option" where
  "from_entry e = map_option (\<lambda>m. m\<lparr>cm_images := te_images e\<rparr>)
     (if te_role e = ''user'' then Some (message_new RoleUser (te_content e))
      else if te_role e = ''assistant'' then Some ((message_new RoleAssistant (te_content e))\<lparr>cm_calls := te_calls e\<rparr>)
      else if te_role e = ''tool'' then map_option (\<lambda>i. message_tool i (te_content e)) (te_call_id e)
      else None)"

text \<open>\<^verbatim>\<open>append_transcript\<close>: the place of an entry is a key, the transcript is read in its order.\<close>

definition append_transcript :: "nat \<Rightarrow> transcript_entry list \<Rightarrow> transcript_entry list \<Rightarrow> app_error + transcript_entry list" where
  "append_transcript at' entries t = (if entries \<noteq> [] \<and> at' < length t then Inl (app_error_new DbError ''UNIQUE'') else Inr (t @ entries))"

definition PLAN_TOOL :: string where "PLAN_TOOL = ''update_plan''"
definition COMPLETE_TOOL :: string where "COMPLETE_TOOL = ''complete_step''"
definition FINISH_TOOL :: string where "FINISH_TOOL = ''finish''"
definition BRIDGE_TOOLS :: "string list" where "BRIDGE_TOOLS = [PLAN_TOOL, COMPLETE_TOOL, FINISH_TOOL]"
definition TOOL_NOT_OFFERED :: string where "TOOL_NOT_OFFERED = ''TOOL_NOT_OFFERED''"
definition NOT_THIS_RUN :: string where "NOT_THIS_RUN = ''NOT_THIS_RUN''"
definition REMOVED_DROPPED :: string where "REMOVED_DROPPED = ''Steps the user removed were left out''"
definition FILE_TOOLS :: "string list" where "FILE_TOOLS = [''fs.list'', ''fs.read'', ''fs.search'', ''fs.apply'']"
definition PROCESS_TOOLS :: "string list" where "PROCESS_TOOLS = [''shell.run'']"
definition BACKGROUND_TOOLS :: "string list" where "BACKGROUND_TOOLS = [''shell.output'', ''shell.kill'']"
definition FS_READ :: string where "FS_READ = ''fs.read''"
definition BROWSER_SCREENSHOT :: string where "BROWSER_SCREENSHOT = ''browser.screenshot''"

record tool_done =
  td_step :: string
  td_output :: json
  td_images :: "string list"

record invocation =
  iv_tool :: offered_tool
  iv_input :: json
  iv_tier :: "tool_tier option"

type_synonym tool_answer = "(app_error + tool_done) option"

record session_conf =
  sc_loop :: "unit loop_env"
  sc_canonical :: "string \<Rightarrow> string option"
  sc_arguments :: "string \<Rightarrow> (string \<times> json) list option"
  sc_call_arguments :: "string \<Rightarrow> string \<Rightarrow> (string \<times> json) list option"
  sc_bridge_parameters :: "string \<Rightarrow> string"
  sc_bridge_description :: "string \<Rightarrow> string"
  sc_result_text :: "json \<Rightarrow> string \<times> bool"
  sc_shown :: "string \<Rightarrow> string \<Rightarrow> offered_tool list \<Rightarrow> string"
  sc_failure :: "app_error \<Rightarrow> offered_tool \<Rightarrow> json \<Rightarrow> string option"
  sc_unoffered :: "string \<Rightarrow> offered_tool list \<Rightarrow> string"
  sc_system :: "offered_tool list \<Rightarrow> agentic_mode \<Rightarrow> bool \<Rightarrow> string"
  sc_present :: "bool \<Rightarrow> chat_message list \<Rightarrow> chat_message list"
  sc_model_tool :: "string \<Rightarrow> bool"
  sc_picture_tool :: "string \<Rightarrow> bool"
  sc_describe :: "bool \<Rightarrow> offered_tool \<Rightarrow> string \<times> string"
  sc_uuid :: "string \<Rightarrow> string option"
  sc_change :: "json \<Rightarrow> changed_file option"

record session_progress =
  sp_images :: "string list"
  sp_plan :: plan
  sp_usage :: agentic_usage
  sp_changed :: "changed_file list"
  sp_messages :: "chat_message list"
  sp_saved :: nat
  sp_stored :: nat
  sp_mode :: agentic_mode
  sp_guard :: loop_guard
  sp_id :: string
  sp_tools :: "string list"
  sp_budget :: agentic_budget
  sp_started :: int
  sp_base_elapsed :: nat
  sp_invoked :: "invocation list"

record session_ending =
  en_status :: session_status
  en_reason :: stop_reason
  en_summary :: "string option"

definition session_budget_exceeded :: "agentic_budget \<Rightarrow> agentic_usage \<Rightarrow> stop_reason option" where
  "session_budget_exceeded b u = (if ab_steps b \<le> au_steps u then Some StopSteps
     else if ab_tokens b \<le> au_tokens u then Some StopTokens
     else if min U64_MAX (ab_minutes b * 60000) \<le> au_elapsed_ms u then Some StopTime
     else None)"

subsection \<open>The tools of a session\<close>

definition session_tools :: "session_conf \<Rightarrow> offered_tool list \<Rightarrow> agentic_mode \<Rightarrow> offered_tool list" where
  "session_tools conf listed m =
     (let offered = filter (\<lambda>t. sc_model_tool conf (of_key t) \<and> of_name t \<notin> set BRIDGE_TOOLS) listed in
      if m = ModeReadOnly then filter of_read_only offered else offered)"

text \<open>\<^verbatim>\<open>configure_tools\<close> of \<^verbatim>\<open>images.rs\<close>.\<close>

definition configure_tools :: "session_conf \<Rightarrow> bool \<Rightarrow> offered_tool list \<Rightarrow> offered_tool list" where
  "configure_tools conf supported ts =
     map (\<lambda>t. if of_key t = BROWSER_SCREENSHOT then t\<lparr>of_description := fst (sc_describe conf supported t)\<rparr>
        else if of_key t = FS_READ then t\<lparr>of_description := fst (sc_describe conf supported t), of_parameters := snd (sc_describe conf supported t)\<rparr>
        else t)
       (if supported then ts else filter (\<lambda>t. \<not> sc_picture_tool conf (of_key t)) ts)"

definition minimum_tier :: "offered_tool \<Rightarrow> agentic_mode \<Rightarrow> tool_tier option" where
  "minimum_tier t m = (case m of
     ModeReadOnly \<Rightarrow> None
   | ModeAsk \<Rightarrow> if of_read_only t then None else Some TierAsk
   | ModeAuto \<Rightarrow> if of_destructive t then Some TierAsk else None)"

definition bridge_specs :: "session_conf \<Rightarrow> tool_spec list" where
  "bridge_specs conf = map (\<lambda>n. \<lparr>ts_name = n, ts_description = sc_bridge_description conf n, ts_parameters = sc_bridge_parameters conf n\<rparr>) BRIDGE_TOOLS"

subsection \<open>Between two rounds\<close>

definition goal_message :: "session_row \<Rightarrow> string" where
  "goal_message row = ''Goal:'' @ NL @ se_goal row @ NL @ NL @ ''Workspace folder: '' @ se_workspace row"

fun join_with :: "string \<Rightarrow> string list \<Rightarrow> string" where
  "join_with sep [] = []"
| "join_with sep [x] = x"
| "join_with sep (x # xs) = x @ sep @ join_with sep xs"

definition plan_note :: "plan \<Rightarrow> plan_change \<Rightarrow> string" where
  "plan_note p change = ''Plan changed by the user. Current plan:'' @ NL @ describe_plan p
     @ (if pc_removed change = [] then [] else NL @ ''Removed by the user, do not add back: '' @ join_with ''; '' (pc_removed change))"

definition mode_note :: "agentic_mode \<Rightarrow> string" where
  "mode_note m = ''Instruction from the user: the permission mode is now '' @ mode_str m @ ''. The tools offered reflect it.''"

definition session_begin :: "string \<Rightarrow> int \<Rightarrow> session_row \<Rightarrow> transcript_entry list \<Rightarrow> app_error + session_progress" where
  "session_begin run now row t =
     (if se_status row \<noteq> SessRunning \<or> se_run row \<noteq> Some run then Inl (app_error_new Conflict NOT_THIS_RUN)
      else let ms = List.map_filter from_entry t in
        Inr \<lparr>sp_images = [], sp_plan = se_plan row, sp_usage = se_usage row, sp_changed = se_changed row,
          sp_messages = (if ms = [] then [message_new RoleUser (goal_message row)] else ms), sp_saved = length ms, sp_stored = length t,
          sp_mode = se_mode row, sp_guard = loop_guard_default, sp_id = se_id row, sp_tools = se_tools row, sp_budget = se_budget row,
          sp_started = now, sp_base_elapsed = au_elapsed_ms (se_usage row), sp_invoked = []\<rparr>)"

definition session_boundary :: "int \<Rightarrow> session_progress \<Rightarrow> session_row \<Rightarrow> session_progress \<times> session_row" where
  "session_boundary now p row =
     (let (p1, notes1) = (case se_pending_mode row of
            Some m \<Rightarrow> if m \<noteq> sp_mode p then (p\<lparr>sp_mode := m\<rparr>, [mode_note m]) else (p, [])
          | None \<Rightarrow> (p, []));
          (p2, notes2) = (case se_pending_plan row of
            Some edits \<Rightarrow> (case edit_plan (sp_plan p1) edits of (change, plan) \<Rightarrow>
                if pc_changed change \<or> pc_removed change \<noteq> [] \<or> pc_added change \<noteq> []
                then (p1\<lparr>sp_plan := plan, sp_guard := guard_forbid (sp_guard p1) (pc_removed change)\<rparr>, notes1 @ [plan_note plan change])
                else (p1\<lparr>sp_plan := plan\<rparr>, notes1))
          | None \<Rightarrow> (p1, notes1));
          notes = notes2 @ map (\<lambda>t. ''Instruction from the user: '' @ t) (se_instructions row) in
      (if notes = [] then p2 else p2\<lparr>sp_messages := sp_messages p2 @ [message_new RoleUser (join_with (NL @ NL) notes)]\<rparr>,
       row\<lparr>se_pending_mode := None, se_pending_plan := None, se_instructions := [], se_mode := sp_mode p2, se_plan := sp_plan p2,
         se_usage := sp_usage p2, se_updated_at := now\<rparr>))"

definition session_clock :: "int \<Rightarrow> session_progress \<Rightarrow> session_progress" where
  "session_clock now p = p\<lparr>sp_usage := (sp_usage p)\<lparr>au_elapsed_ms := sp_base_elapsed p + nat (now - sp_started p)\<rparr>\<rparr>"

definition session_save :: "int \<Rightarrow> session_progress \<Rightarrow> session_ending option \<Rightarrow> session_row \<Rightarrow> transcript_entry list
    \<Rightarrow> app_error + session_row \<times> transcript_entry list \<times> session_progress" where
  "session_save now p ending row t =
     (let entries = map to_entry (drop (sp_saved p) (sp_messages p));
          row1 = row\<lparr>se_plan := sp_plan p, se_usage := sp_usage p, se_changed := sp_changed p, se_mode := sp_mode p\<rparr>;
          row2 = (case ending of
             None \<Rightarrow> row1
           | Some e \<Rightarrow> row1\<lparr>se_status := en_status e, se_stop_reason := Some (en_reason e), se_summary := en_summary e\<rparr>) in
      rbind (append_transcript (sp_stored p) entries t) (\<lambda>t'.
        Inr (row2\<lparr>se_updated_at := now\<rparr>, t', p\<lparr>sp_stored := sp_stored p + length entries, sp_saved := length (sp_messages p)\<rparr>)))"

subsection \<open>A round\<close>

fun put_field :: "string \<Rightarrow> json \<Rightarrow> (string \<times> json) list \<Rightarrow> (string \<times> json) list" where
  "put_field k v [] = [(k, v)]"
| "put_field k v ((a, b) # m) = (if a = k then (k, v) # m else (a, b) # put_field k v m)"

definition call_input :: "session_conf \<Rightarrow> string \<Rightarrow> bool \<Rightarrow> offered_tool \<Rightarrow> chat_call \<Rightarrow> json" where
  "call_input conf i supported t c =
     (let a0 = (case sc_call_arguments conf (cl_arguments c) (of_parameters t) of Some m \<Rightarrow> m | None \<Rightarrow> []);
          a1 = (if of_key t \<in> set (FILE_TOOLS @ PROCESS_TOOLS @ BACKGROUND_TOOLS) then put_field ''conversationId'' (JString i) a0 else a0);
          a2 = (if of_key t = BROWSER_SCREENSHOT then put_field ''conversationId'' (JString i) a1 else a1) in
      JObject (if of_key t = FS_READ then put_field ''imageViewing'' (JBool supported) a2 else a2))"

definition session_call :: "session_conf \<Rightarrow> bool \<Rightarrow> offered_tool list \<Rightarrow> (invocation \<Rightarrow> tool_answer) \<Rightarrow> offered_tool \<Rightarrow> chat_call \<Rightarrow> session_progress
    \<Rightarrow> (app_error + string) \<times> session_progress" where
  "session_call conf supported offered answer t c p =
     (let input = call_input conf (sp_id p) supported t c;
          iv = \<lparr>iv_tool = t, iv_input = input, iv_tier = minimum_tier t (sp_mode p)\<rparr>;
          p1 = p\<lparr>sp_usage := (sp_usage p)\<lparr>au_tool_calls := au_tool_calls (sp_usage p) + 1\<rparr>, sp_invoked := sp_invoked p @ [iv]\<rparr>;
          shape = (\<lambda>st text. fence_tool_result (cl_name c) st text) in
      case answer iv of
        None \<Rightarrow> (Inr (shape ''refused'' TOOL_NOT_OFFERED), p1)
      | Some (Inr d) \<Rightarrow> (case sc_result_text conf (td_output d) of (text, is_error) \<Rightarrow>
          (Inr (shape (if is_error then ''failed'' else ''succeeded'') (sc_shown conf (of_key t) text offered)),
           p1\<lparr>sp_plan := link_step (sc_uuid conf) (sp_plan p1) (td_step d),
              sp_changed := record_changes (sc_change conf) (sp_changed p1) (td_output d),
              sp_images := (if is_error then sp_images p1 else sp_images p1 @ td_images d)\<rparr>))
      | Some (Inl e) \<Rightarrow>
          if err_code e = RunCancelled then (Inl e, p1)
          else (Inr (shape (case err_code e of PermissionDenied \<Rightarrow> ''refused'' | ApprovalDenied \<Rightarrow> ''denied'' | _ \<Rightarrow> ''failed'')
             (case sc_failure conf e t input of Some text \<Rightarrow> text | None \<Rightarrow> err_message e)), p1))"

definition text_argument :: "(string \<times> json) list \<Rightarrow> string \<Rightarrow> string" where
  "text_argument args k = (case Option.bind (map_of args k) as_str of Some t \<Rightarrow> t | None \<Rightarrow> [])"

record round_flags =
  rf_tripped :: bool
  rf_finished :: "string option option"

definition session_bridge :: "string \<Rightarrow> (string \<times> json) list \<Rightarrow> round_flags \<Rightarrow> session_progress \<Rightarrow> string \<times> round_flags \<times> session_progress" where
  "session_bridge name args f p =
     (if name = PLAN_TOOL then
        (let titles = (case map_of args ''steps'' of Some (JArray items) \<Rightarrow> List.map_filter as_str items | _ \<Rightarrow> []);
             allowed = guard_allowed (sp_guard p) titles in
         case propose (sp_plan p) allowed of (open, proposed) \<Rightarrow>
           if open = 0 then (PLAN_EMPTY, f, p)
           else (case guard_revised (sp_guard p) of (often, guard) \<Rightarrow>
             (''Plan updated:'' @ NL @ describe_plan proposed @ (if length allowed < length titles then NL @ REMOVED_DROPPED @ ''.'' else []),
              f\<lparr>rf_tripped := (rf_tripped f \<or> often)\<rparr>, p\<lparr>sp_plan := proposed, sp_guard := guard\<rparr>)))
      else if name = COMPLETE_TOOL then
        (case complete (sp_plan p) (text_argument args ''summary'') of
           (Some title, plan) \<Rightarrow> (''Step done: '' @ title @ NL @ ''Current plan:'' @ NL @ describe_plan plan, f,
              p\<lparr>sp_plan := plan, sp_guard := guard_progressed (sp_guard p)\<rparr>)
         | (None, _) \<Rightarrow> (NO_STEP_RUNNING, f, p))
      else (''Session finished.'', f\<lparr>rf_finished := Some (plan_summary (text_argument args ''summary''))\<rparr>, p))"

definition bridge_arguments :: "session_conf \<Rightarrow> chat_call \<Rightarrow> (string \<times> json) list" where
  "bridge_arguments conf c = (case (case List.find (\<lambda>s. ts_name s = cl_name c) (bridge_specs conf) of
       None \<Rightarrow> sc_arguments conf (cl_arguments c)
     | Some s \<Rightarrow> sc_call_arguments conf (cl_arguments c) (ts_parameters s)) of Some m \<Rightarrow> m | None \<Rightarrow> [])"

fun session_calls :: "session_conf \<Rightarrow> bool \<Rightarrow> offered_tool list \<Rightarrow> (nat \<Rightarrow> invocation \<Rightarrow> tool_answer) \<Rightarrow> chat_call list \<Rightarrow> round_flags
    \<Rightarrow> session_progress \<Rightarrow> (app_error + round_flags) \<times> session_progress" where
  "session_calls conf supported offered answers [] f p = (Inr f, p)"
| "session_calls conf supported offered answers (c # cs) f p =
     (let (content, f1, p1) =
        (if cl_name c \<in> set BRIDGE_TOOLS then
           (case session_bridge (cl_name c) (bridge_arguments conf c) f p of (text, f1, p1) \<Rightarrow>
             (Inr (fence_tool_result (cl_name c) ''succeeded'' text), f1, p1))
         else case List.find (\<lambda>t. of_name t = cl_name c) (rev offered) of
             Some t \<Rightarrow> (case session_call conf supported offered (answers (length cs)) t c p of (content, p1) \<Rightarrow> (content, f, p1))
           | None \<Rightarrow> (Inr (fence_tool_result (cl_name c) ''refused'' (TOOL_NOT_OFFERED @ ''. '' @ sc_unoffered conf (cl_name c) offered)), f, p)) in
      case content of
        Inl e \<Rightarrow> (Inl e, p1)
      | Inr text \<Rightarrow> session_calls conf supported offered answers cs f1 (p1\<lparr>sp_messages := sp_messages p1 @ [message_tool (cl_id c) text]\<rparr>))"

definition session_request :: "session_conf \<Rightarrow> bool \<Rightarrow> offered_tool list \<Rightarrow> session_progress \<Rightarrow> gen_request" where
  "session_request conf supported offered p = \<lparr>gq_system = Some (sc_system conf offered (sp_mode p) supported),
     gq_messages = sc_present conf supported (sp_messages p), gq_tools = tool_specs offered @ bridge_specs conf\<rparr>"

definition watch_round :: "session_conf \<Rightarrow> chat_call list \<Rightarrow> loop_guard \<Rightarrow> bool \<times> loop_guard" where
  "watch_round conf calls guard =
     (let watched = map (\<lambda>c. (cl_name c, cl_arguments c)) (filter (\<lambda>c. cl_name c \<noteq> COMPLETE_TOOL \<and> cl_name c \<noteq> FINISH_TOOL) calls) in
      if watched = [] then (False, guard) else guard_round guard (calls_signature (sc_canonical conf) watched))"

definition count_round :: "session_conf \<Rightarrow> gen_request \<Rightarrow> round_output \<Rightarrow> session_progress \<Rightarrow> session_progress" where
  "count_round conf q r p = p\<lparr>sp_usage := (sp_usage p)\<lparr>au_steps := au_steps (sp_usage p) + 1,
       au_tokens := au_tokens (sp_usage p) + (request_tokens (sc_loop conf) q + round_tokens (sc_loop conf) r)\<rparr>,
     sp_messages := sp_messages p @ [(message_new RoleAssistant (ro_text r))\<lparr>cm_calls := ro_calls r\<rparr>]\<rparr>"

definition close_round :: "round_flags \<Rightarrow> session_progress \<Rightarrow> session_ending option \<times> session_progress" where
  "close_round f p =
     (let p1 = (if sp_images p = [] then p
        else p\<lparr>sp_messages := sp_messages p @ [(message_new RoleUser IMAGES_NOTE)\<lparr>cm_images := sp_images p\<rparr>], sp_images := []\<rparr>) in
      case rf_finished f of
        Some summary \<Rightarrow> (Some \<lparr>en_status = SessCompleted, en_reason = StopGoal, en_summary = summary\<rparr>, p1\<lparr>sp_plan := finish_plan (sp_plan p1)\<rparr>)
      | None \<Rightarrow> (if rf_tripped f then Some \<lparr>en_status = SessStopped, en_reason = StopLoop, en_summary = None\<rparr> else None, p1))"

definition session_round :: "session_conf \<Rightarrow> bool \<Rightarrow> offered_tool list \<Rightarrow> (app_error + text_delta) list \<Rightarrow> (nat \<Rightarrow> invocation \<Rightarrow> tool_answer)
    \<Rightarrow> session_progress \<Rightarrow> (app_error + session_ending option) \<times> session_progress" where
  "session_round conf supported listed deltas answers p =
     (let offered = configure_tools conf supported (session_tools conf listed (sp_mode p));
          q = session_request conf supported offered p in
      case generate_round (le_excluded (sc_loop conf)) (gq_tools q) [] deltas of
        Inl e \<Rightarrow> (Inl e, p)
      | Inr r \<Rightarrow>
          (let p1 = count_round conf q r p in
           if ro_calls r = [] then
             (Inr (Some \<lparr>en_status = SessCompleted, en_reason = StopGoal, en_summary = plan_summary (ro_text r)\<rparr>), p1\<lparr>sp_plan := finish_plan (sp_plan p1)\<rparr>)
           else (case watch_round conf (ro_calls r) (sp_guard p1) of (tripped, guard) \<Rightarrow>
             case session_calls conf supported offered answers (ro_calls r) \<lparr>rf_tripped = tripped, rf_finished = None\<rparr> (p1\<lparr>sp_guard := guard\<rparr>) of
               (Inl e, p2) \<Rightarrow> (Inl e, p2)
             | (Inr f, p2) \<Rightarrow> (case close_round f p2 of (ending, p3) \<Rightarrow> (Inr ending, p3)))))"

subsection \<open>The service\<close>

definition SESSION_FINISHED :: string where "SESSION_FINISHED = ''SESSION_FINISHED''"
definition SESSION_NOT_PAUSED :: string where "SESSION_NOT_PAUSED = ''SESSION_NOT_PAUSED''"
definition BUDGET_NOT_ABOVE_USAGE :: string where "BUDGET_NOT_ABOVE_USAGE = ''BUDGET_NOT_ABOVE_USAGE''"
definition RUN_INTERRUPTED :: string where "RUN_INTERRUPTED = ''RUN_INTERRUPTED''"
definition TOOL_UNKNOWN :: string where "TOOL_UNKNOWN = ''TOOL_UNKNOWN''"

definition editable :: "session_row \<Rightarrow> app_error + unit" where
  "editable row = (if session_finished (se_status row) then Inl (app_error_new Conflict SESSION_FINISHED) else Inr ())"

definition above_usage :: "agentic_budget \<Rightarrow> agentic_usage \<Rightarrow> bool" where
  "above_usage b u \<longleftrightarrow> au_steps u < ab_steps b \<and> au_tokens u < ab_tokens b \<and> au_elapsed_ms u < min U64_MAX (ab_minutes b * 60000)"

definition session_default_budget :: "(string \<Rightarrow> nat option) \<Rightarrow> agentic_budget" where
  "session_default_budget setting =
     (let get = (\<lambda>k d. case setting k of Some n \<Rightarrow> n | None \<Rightarrow> d);
          b = \<lparr>ab_steps = get ''agentic.budget.maxSteps'' (ab_steps agentic_budget_default),
               ab_tokens = get ''agentic.budget.maxTokens'' (ab_tokens agentic_budget_default),
               ab_minutes = get ''agentic.budget.maxMinutes'' (ab_minutes agentic_budget_default)\<rparr> in
      if check_agentic_budget b = Inr () then b else agentic_budget_default)"

record listed_tool =
  lt_key :: string
  lt_enabled :: bool
  lt_available :: bool
  lt_tier :: tool_tier

fun keep_requested :: "string set \<Rightarrow> string list \<Rightarrow> string list \<Rightarrow> app_error + string list" where
  "keep_requested known [] kept = Inr kept"
| "keep_requested known (k # ks) kept = (if k \<notin> known then Inl (app_error_new ValidationFailed TOOL_UNKNOWN)
     else keep_requested known ks (if k \<in> set kept then kept else kept @ [k]))"

definition requested_tools :: "listed_tool list \<Rightarrow> string list option \<Rightarrow> app_error + string list" where
  "requested_tools registered requested = (case requested of
     None \<Rightarrow> Inr (map lt_key (filter (\<lambda>t. lt_enabled t \<and> lt_available t \<and> lt_tier t \<noteq> TierOff) registered))
   | Some keys \<Rightarrow> keep_requested (lt_key ` set registered) keys [])"

text \<open>The row \<^verbatim>\<open>create\<close> stores, with the id of its run.\<close>

definition session_created :: "string \<Rightarrow> string \<Rightarrow> string \<Rightarrow> string \<Rightarrow> string \<Rightarrow> agentic_mode \<Rightarrow> string list \<Rightarrow> agentic_budget \<Rightarrow> string \<Rightarrow> int \<Rightarrow> session_row" where
  "session_created i goal workspace provider model m tools budget run now =
     \<lparr>se_id = i, se_goal = trim goal, se_status = SessRunning, se_stop_reason = None, se_error = None, se_summary = None, se_mode = m,
      se_pending_mode = None, se_workspace = workspace, se_provider = provider, se_model = model, se_tools = tools, se_budget = budget,
      se_usage = agentic_usage_default, se_plan = [], se_pending_plan = None, se_instructions = [], se_changed = [], se_run = Some run,
      se_created_at = now, se_updated_at = now\<rparr>"

datatype run_state = RunUnfinished | RunDone | RunWasCancelled | RunHasFailed "string option" | RunGone

definition session_settled :: "run_state \<Rightarrow> int \<Rightarrow> session_row \<Rightarrow> session_row" where
  "session_settled st now row =
     (if se_status row \<noteq> SessRunning \<or> st = RunUnfinished then row
      else (case st of
          RunWasCancelled \<Rightarrow> row\<lparr>se_status := SessCancelled, se_stop_reason := Some StopCancelled, se_error := None, se_plan := fail_plan (se_plan row), se_updated_at := now\<rparr>
        | RunHasFailed e \<Rightarrow> row\<lparr>se_status := SessFailed, se_stop_reason := Some StopError, se_error := e, se_plan := fail_plan (se_plan row), se_updated_at := now\<rparr>
        | _ \<Rightarrow> row\<lparr>se_status := SessFailed, se_stop_reason := Some StopError, se_error := Some RUN_INTERRUPTED, se_plan := fail_plan (se_plan row), se_updated_at := now\<rparr>))"

datatype session_edit = EditPlan "plan_edit list" | EditMode agentic_mode | EditInstruct string

definition session_change :: "session_edit \<Rightarrow> int \<Rightarrow> session_row \<Rightarrow> app_error + session_row" where
  "session_change edit now row = rbind (editable row) (\<lambda>_. Inr ((case edit of
       EditPlan steps \<Rightarrow> row\<lparr>se_pending_plan := Some steps\<rparr>
     | EditMode m \<Rightarrow> row\<lparr>se_pending_mode := (if m \<noteq> se_mode row then Some m else None)\<rparr>
     | EditInstruct text \<Rightarrow> row\<lparr>se_instructions := se_instructions row @ [trim text]\<rparr>)\<lparr>se_updated_at := now\<rparr>))"

text \<open>What \<^verbatim>\<open>extend\<close> makes of the row it has read; \<^verbatim>\<open>launch\<close> writes the whole of it.\<close>

definition session_extended :: "agentic_budget \<Rightarrow> string \<Rightarrow> int \<Rightarrow> session_row \<Rightarrow> app_error + session_row" where
  "session_extended budget run now row =
     rbind (check_agentic_budget budget) (\<lambda>_.
       if se_status row \<noteq> SessPaused then Inl (app_error_new Conflict SESSION_NOT_PAUSED)
       else if \<not> above_usage budget (se_usage row) then Inl (app_error_new ValidationFailed BUDGET_NOT_ABOVE_USAGE)
       else Inr (row\<lparr>se_budget := budget, se_status := SessRunning, se_stop_reason := None, se_error := None, se_run := Some run, se_updated_at := now\<rparr>))"

definition session_cancelled :: "int \<Rightarrow> session_row \<Rightarrow> session_row" where
  "session_cancelled now row = row\<lparr>se_status := SessCancelled, se_stop_reason := Some StopCancelled, se_updated_at := now\<rparr>"

subsection \<open>A session with its node and its user\<close>

record session_sys =
  ss_row :: session_row
  ss_transcript :: "transcript_entry list"
  ss_run :: "session_progress option"
  ss_ready :: bool
  ss_extend :: "session_row option"
  ss_cancel :: bool
  ss_mode :: agentic_mode
  ss_invoked :: "(agentic_mode \<times> invocation) list"
  ss_asked :: nat
  ss_left :: nat

definition session_start :: "session_row \<Rightarrow> session_sys" where
  "session_start row = \<lparr>ss_row = row, ss_transcript = [], ss_run = None, ss_ready = False, ss_extend = None, ss_cancel = False, ss_mode = se_mode row, ss_invoked = [], ss_asked = 0, ss_left = 0\<rparr>"

text \<open>\<open>ss_ready\<close>: the node has passed the boundary of this round. \<open>ss_left\<close>: the rounds the budget left when the node
  began, \<open>ss_asked\<close>: those it has begun since. \<open>ss_mode\<close> is the mode in force: that of the row when the node begins,
  and from the next boundary on the one the user has switched to; \<open>ss_invoked\<close> lists the calls, each with the mode in
  force. What \<^verbatim>\<open>cancel\<close> does to a paused session is two accesses to the database: \<open>ss_cancel\<close> says that one has found
  the session paused and is about to write.\<close>

inductive session_step :: "session_conf \<Rightarrow> session_sys \<Rightarrow> session_sys \<Rightarrow> bool" for conf where
  begins: "ss_run s = None \<Longrightarrow> session_begin run now (ss_row s) (ss_transcript s) = Inr p \<Longrightarrow>
    session_step conf s (s\<lparr>ss_run := Some p, ss_ready := False, ss_mode := se_mode (ss_row s), ss_asked := 0, ss_left := ab_steps (sp_budget p) - au_steps (sp_usage p)\<rparr>)"
| boundary: "ss_run s = Some p \<Longrightarrow> \<not> ss_ready s \<Longrightarrow> session_boundary now p (ss_row s) = (p', row') \<Longrightarrow>
    session_step conf s (s\<lparr>ss_row := row', ss_run := Some (session_clock now' p'), ss_ready := True,
      ss_mode := (case se_pending_mode (ss_row s) of Some m \<Rightarrow> m | None \<Rightarrow> ss_mode s)\<rparr>)"
| pause: "ss_run s = Some p \<Longrightarrow> ss_ready s \<Longrightarrow> session_budget_exceeded (sp_budget p) (sp_usage p) = Some reason \<Longrightarrow>
    session_save now p (Some \<lparr>en_status = SessPaused, en_reason = reason, en_summary = None\<rparr>) (ss_row s) (ss_transcript s) = Inr (row', t', p') \<Longrightarrow>
    session_step conf s (s\<lparr>ss_row := row', ss_transcript := t', ss_run := None\<rparr>)"
| round: "ss_run s = Some p \<Longrightarrow> ss_ready s \<Longrightarrow> session_budget_exceeded (sp_budget p) (sp_usage p) = None \<Longrightarrow>
    session_round conf supported listed deltas answers p = (Inr ending, p1) \<Longrightarrow>
    session_save now p1 ending (ss_row s) (ss_transcript s) = Inr (row', t', p') \<Longrightarrow>
    session_step conf s (s\<lparr>ss_row := row', ss_transcript := t', ss_run := (if ending = None then Some (p'\<lparr>sp_invoked := []\<rparr>) else None), ss_ready := False,
      ss_invoked := ss_invoked s @ map (Pair (ss_mode s)) (sp_invoked p1), ss_asked := ss_asked s + 1\<rparr>)"
| round_fails: "ss_run s = Some p \<Longrightarrow> ss_ready s \<Longrightarrow> session_budget_exceeded (sp_budget p) (sp_usage p) = None \<Longrightarrow>
    session_round conf supported listed deltas answers p = (Inl e, p1) \<Longrightarrow>
    session_step conf s (s\<lparr>ss_run := None, ss_invoked := ss_invoked s @ map (Pair (ss_mode s)) (sp_invoked p1), ss_asked := ss_asked s + 1\<rparr>)"
| dropped: "session_step conf s (s\<lparr>ss_run := None\<rparr>)"
| settle: "ss_run s = None \<Longrightarrow> session_step conf s (s\<lparr>ss_row := session_settled st now (ss_row s)\<rparr>)"
| change: "session_change edit now (ss_row s) = Inr row' \<Longrightarrow> session_step conf s (s\<lparr>ss_row := row'\<rparr>)"
| cancel_read: "se_status (ss_row s) = SessPaused \<Longrightarrow> session_step conf s (s\<lparr>ss_cancel := True\<rparr>)"
| cancel_write: "ss_cancel s \<Longrightarrow> session_step conf s (s\<lparr>ss_row := session_cancelled now (ss_row s), ss_cancel := False\<rparr>)"
| extend_read: "session_extended budget run now (ss_row s) = Inr row' \<Longrightarrow> session_step conf s (s\<lparr>ss_extend := Some row'\<rparr>)"
| extend_write: "ss_extend s = Some row' \<Longrightarrow> session_step conf s (s\<lparr>ss_row := row', ss_extend := None\<rparr>)"

inductive session_reach :: "session_conf \<Rightarrow> session_sys \<Rightarrow> bool" for conf where
  start: "session_reach conf (session_start (session_created i goal workspace provider model m tools budget run now))"
| step: "session_reach conf s \<Longrightarrow> session_step conf s s' \<Longrightarrow> session_reach conf s'"

section \<open>Transcripts\<close>

definition transcript_messages :: "transcript_entry list \<Rightarrow> chat_message list" where
  "transcript_messages t = List.map_filter from_entry t"

definition storable :: "chat_message \<Rightarrow> bool" where
  "storable m \<longleftrightarrow> from_entry (to_entry m) = Some m"

lemma message_eta: "\<lparr>cm_role = cm_role m, cm_content = cm_content m, cm_call_id = cm_call_id m, cm_calls = cm_calls m, cm_images = cm_images m\<rparr> = m"
  by simp

lemma storable_cases:
  "storable m \<longleftrightarrow> (cm_role m = RoleUser \<and> cm_calls m = [] \<and> cm_call_id m = None) \<or> (cm_role m = RoleAssistant \<and> cm_call_id m = None)
     \<or> (cm_role m = RoleTool \<and> cm_calls m = [] \<and> cm_call_id m \<noteq> None)"
  by (cases m; cases "cm_role m")
    (auto simp: storable_def from_entry_def to_entry_def role_name_def message_new_def message_tool_def)

lemma storable_messages [simp]:
  "storable (message_new RoleUser c)" "storable ((message_new RoleUser c)\<lparr>cm_images := im\<rparr>)"
  "storable (message_new RoleAssistant c)" "storable ((message_new RoleAssistant c)\<lparr>cm_calls := cs\<rparr>)" "storable (message_tool i c)"
  by (simp_all add: storable_cases message_new_def message_tool_def)

lemma transcript_append:
  "list_all storable ms \<Longrightarrow> transcript_messages (t @ map to_entry ms) = transcript_messages t @ ms"
  by (induction ms arbitrary: t rule: rev_induct) (auto simp: transcript_messages_def storable_def map_filter_def)

text \<open>What the node may rely on and must keep: its messages are those of the transcript and the ones still to be
  saved, each may be stored, and the calls among them are answered.\<close>

definition run_ok :: "transcript_entry list \<Rightarrow> session_progress \<Rightarrow> bool" where
  "run_ok t p \<longleftrightarrow> list_all storable (sp_messages p) \<and> answered (sp_messages p) \<and> sp_stored p = length t
     \<and> sp_saved p \<le> length (sp_messages p) \<and> take (sp_saved p) (sp_messages p) = transcript_messages t"

lemma from_entry_storable: "from_entry e = Some m \<Longrightarrow> storable m"
  by (auto simp: from_entry_def storable_cases message_new_def message_tool_def split: if_splits)

lemma transcript_storable: "list_all storable (transcript_messages t)"
  by (auto simp: transcript_messages_def map_filter_def list_all_iff dest: from_entry_storable)

lemma session_begin_ok:
  assumes "session_begin run now row t = Inr p" "answered (transcript_messages t)"
  shows "run_ok t p" "sp_budget p = se_budget row" "sp_usage p = se_usage row" "sp_invoked p = []" "sp_mode p = se_mode row"
  using assms transcript_storable [of t]
  by (auto simp: session_begin_def run_ok_def Let_def transcript_messages_def [symmetric] answered_def split: if_splits)

lemma session_clock_ok [simp]: "run_ok t (session_clock now p) = run_ok t p" "sp_budget (session_clock now p) = sp_budget p"
  "au_steps (sp_usage (session_clock now p)) = au_steps (sp_usage p)" "sp_invoked (session_clock now p) = sp_invoked p" "sp_mode (session_clock now p) = sp_mode p"
  by (simp_all add: session_clock_def run_ok_def)

lemma session_boundary_keeps:
  assumes "session_boundary now p row = (p', row')"
  shows "sp_messages p' = sp_messages p \<or> (\<exists>note. sp_messages p' = sp_messages p @ [message_new RoleUser note])"
    "sp_saved p' = sp_saved p" "sp_stored p' = sp_stored p" "sp_budget p' = sp_budget p" "sp_usage p' = sp_usage p" "sp_invoked p' = sp_invoked p"
    "se_status row' = se_status row" "se_stop_reason row' = se_stop_reason row" "se_mode row' = sp_mode p'"
    "sp_mode p' = (case se_pending_mode row of Some m \<Rightarrow> m | None \<Rightarrow> sp_mode p)" "se_pending_mode row' = None"
  using assms by (auto simp: session_boundary_def Let_def split: option.splits prod.splits if_splits)

lemma session_boundary_ok: "session_boundary now p row = (p', row') \<Longrightarrow> run_ok t p \<Longrightarrow> run_ok t p'"
  using session_boundary_keeps [of now p row p' row'] by (auto simp: run_ok_def)

lemma session_bridge_keeps:
  assumes "session_bridge name args f p = (text, f', p')"
  shows "sp_messages p' = sp_messages p" "sp_saved p' = sp_saved p" "sp_stored p' = sp_stored p" "sp_budget p' = sp_budget p"
    "sp_usage p' = sp_usage p" "sp_invoked p' = sp_invoked p" "sp_mode p' = sp_mode p"
  using assms by (auto simp: session_bridge_def Let_def split: if_splits prod.splits option.splits)

definition invocation_ok :: "offered_tool list \<Rightarrow> agentic_mode \<Rightarrow> invocation \<Rightarrow> bool" where
  "invocation_ok offered m iv \<longleftrightarrow> iv_tool iv \<in> set offered \<and> iv_tier iv = minimum_tier (iv_tool iv) m"

lemma session_call_keeps:
  assumes "session_call conf supported offered answer t c p = (x, p')" "t \<in> set offered"
  shows "sp_messages p' = sp_messages p" "sp_saved p' = sp_saved p" "sp_stored p' = sp_stored p" "sp_budget p' = sp_budget p"
    "au_steps (sp_usage p') = au_steps (sp_usage p)" "sp_mode p' = sp_mode p"
    "\<exists>iv. sp_invoked p' = sp_invoked p @ [iv] \<and> invocation_ok offered (sp_mode p) iv"
  using assms by (auto simp: session_call_def Let_def invocation_ok_def split: option.splits sum.splits prod.splits if_splits)

lemma find_rev_in: "List.find P (rev ts) = Some t \<Longrightarrow> t \<in> set ts"
  using nth_mem [of _ "rev ts"] by (auto simp: find_Some_iff)

text \<open>The results of the calls, in their order.\<close>

definition results_of :: "chat_call list \<Rightarrow> string list \<Rightarrow> chat_message list" where
  "results_of cs texts = map2 (\<lambda>c. message_tool (cl_id c)) cs texts"

lemma owed_results: "length texts = length cs \<Longrightarrow> owed (map cl_id cs) (results_of cs texts) = Some []"
  by (induction cs texts rule: list_induct2') (auto simp: results_of_def)

lemma results_storable: "list_all storable (results_of cs texts)"
  by (auto simp: results_of_def list_all_iff)

lemma session_calls_spec:
  assumes "session_calls conf supported offered answers cs f p = (x, p')"
  shows "sp_saved p' = sp_saved p \<and> sp_stored p' = sp_stored p \<and> sp_budget p' = sp_budget p \<and> au_steps (sp_usage p') = au_steps (sp_usage p)
      \<and> sp_mode p' = sp_mode p \<and> (\<exists>ivs. sp_invoked p' = sp_invoked p @ ivs \<and> list_all (invocation_ok offered (sp_mode p)) ivs)
      \<and> (\<forall>f'. x = Inr f' \<longrightarrow> (\<exists>texts. length texts = length cs \<and> sp_messages p' = sp_messages p @ results_of cs texts))"
  using assms
proof (induction cs arbitrary: f p)
  case Nil
  then show ?case by (auto simp: results_of_def)
next
  case (Cons c cs)
  obtain content f1 p1 where first: "(if cl_name c \<in> set BRIDGE_TOOLS then
      (case session_bridge (cl_name c) (bridge_arguments conf c) f p of (text, f1, p1) \<Rightarrow> (Inr (fence_tool_result (cl_name c) ''succeeded'' text), f1, p1))
      else case List.find (\<lambda>t. of_name t = cl_name c) (rev offered) of
          Some t \<Rightarrow> (case session_call conf supported offered (answers (length cs)) t c p of (content, p1) \<Rightarrow> (content, f, p1))
        | None \<Rightarrow> (Inr (fence_tool_result (cl_name c) ''refused'' (TOOL_NOT_OFFERED @ ''. '' @ sc_unoffered conf (cl_name c) offered)), f, p))
      = (content, f1, p1)" (is "?first = _") by (cases ?first) auto
  have kept: "sp_messages p1 = sp_messages p \<and> sp_saved p1 = sp_saved p \<and> sp_stored p1 = sp_stored p \<and> sp_budget p1 = sp_budget p
      \<and> au_steps (sp_usage p1) = au_steps (sp_usage p) \<and> sp_mode p1 = sp_mode p
      \<and> (\<exists>ivs. sp_invoked p1 = sp_invoked p @ ivs \<and> list_all (invocation_ok offered (sp_mode p)) ivs)"
  proof (cases "cl_name c \<in> set BRIDGE_TOOLS")
    case True
    with first session_bridge_keeps show ?thesis by (fastforce split: prod.splits)
  next
    case False
    show ?thesis
    proof (cases "List.find (\<lambda>t. of_name t = cl_name c) (rev offered)")
      case None
      with False first show ?thesis by auto
    next
      case (Some t)
      with False first session_call_keeps [OF _ find_rev_in [OF Some]] show ?thesis by (fastforce split: prod.splits)
    qed
  qed
  show ?case
  proof (cases content)
    case (Inl e)
    with Cons.prems first have "x = Inl e" "p' = p1" by (simp_all add: Let_def)
    with kept show ?thesis by auto
  next
    case (Inr body)
    with Cons.prems first have rest:
      "session_calls conf supported offered answers cs f1 (p1\<lparr>sp_messages := sp_messages p1 @ [message_tool (cl_id c) body]\<rparr>) = (x, p')"
      by (simp add: Let_def)
    have shift: "\<exists>texts'. length texts' = length (c # cs) \<and> ms @ [message_tool (cl_id c) body] @ results_of cs texts = ms @ results_of (c # cs) texts'"
      if "length texts = length cs" for ms texts
      using that by (intro exI [of _ "body # texts"]) (simp add: results_of_def)
    obtain ivs ivs' where ivs: "sp_invoked p1 = sp_invoked p @ ivs" "list_all (invocation_ok offered (sp_mode p)) ivs"
      "sp_invoked p' = sp_invoked p1 @ ivs'" "list_all (invocation_ok offered (sp_mode p)) ivs'"
      using Cons.IH [OF rest] kept by auto
    then have "sp_invoked p' = sp_invoked p @ (ivs @ ivs')" "list_all (invocation_ok offered (sp_mode p)) (ivs @ ivs')" by simp_all
    then have invoked: "\<exists>ivs. sp_invoked p' = sp_invoked p @ ivs \<and> list_all (invocation_ok offered (sp_mode p)) ivs" by blast
    have "\<exists>texts. length texts = length (c # cs) \<and> sp_messages p' = sp_messages p @ results_of (c # cs) texts" if "x = Inr f'" for f'
    proof -
      obtain texts where "length texts = length cs" "sp_messages p' = (sp_messages p1 @ [message_tool (cl_id c) body]) @ results_of cs texts"
        using Cons.IH [OF rest] \<open>x = Inr f'\<close> by auto
      with shift [of texts "sp_messages p"] kept show ?thesis by simp
    qed
    with Cons.IH [OF rest] kept invoked show ?thesis by auto
  qed
qed

lemma close_round_spec:
  assumes "close_round f p = (ending, p')"
  shows "sp_saved p' = sp_saved p \<and> sp_stored p' = sp_stored p \<and> sp_budget p' = sp_budget p \<and> sp_usage p' = sp_usage p \<and> sp_invoked p' = sp_invoked p
      \<and> sp_mode p' = sp_mode p"
    "\<exists>images. sp_messages p' = sp_messages p @ images \<and> (images = [] \<or> (\<exists>im. images = [(message_new RoleUser IMAGES_NOTE)\<lparr>cm_images := im\<rparr>]))"
    "ending = Some e \<Longrightarrow> en_status e \<noteq> SessRunning"
  using assms by (auto simp: close_round_def Let_def split: option.splits if_splits)

lemma count_round_simps [simp]:
  "sp_saved (count_round conf q r p) = sp_saved p" "sp_stored (count_round conf q r p) = sp_stored p" "sp_budget (count_round conf q r p) = sp_budget p"
  "sp_invoked (count_round conf q r p) = sp_invoked p" "sp_mode (count_round conf q r p) = sp_mode p"
  "au_steps (sp_usage (count_round conf q r p)) = Suc (au_steps (sp_usage p))"
  "sp_messages (count_round conf q r p) = sp_messages p @ [(message_new RoleAssistant (ro_text r))\<lparr>cm_calls := ro_calls r\<rparr>]"
  by (simp_all add: count_round_def)

text \<open>The ways a round goes.\<close>

lemma session_round_cases:
  assumes "session_round conf supported listed deltas answers p = (x, p')"
  obtains (unanswered) e where "x = Inl e" "p' = p"
  | (quiet) q r where "ro_calls r = []" "x = Inr (Some \<lparr>en_status = SessCompleted, en_reason = StopGoal, en_summary = plan_summary (ro_text r)\<rparr>)"
      "p' = (count_round conf q r p)\<lparr>sp_plan := finish_plan (sp_plan (count_round conf q r p))\<rparr>"
  | (failed) q r f guard e where "x = Inl e" "session_calls conf supported (configure_tools conf supported (session_tools conf listed (sp_mode p)))
        answers (ro_calls r) f ((count_round conf q r p)\<lparr>sp_guard := guard\<rparr>) = (Inl e, p')"
  | (called) q r f guard f' p2 ending where "x = Inr ending" "session_calls conf supported (configure_tools conf supported (session_tools conf listed (sp_mode p)))
        answers (ro_calls r) f ((count_round conf q r p)\<lparr>sp_guard := guard\<rparr>) = (Inr f', p2)" "close_round f' p2 = (ending, p')"
proof -
  let ?off = "configure_tools conf supported (session_tools conf listed (sp_mode p))"
  let ?q = "session_request conf supported ?off p"
  show thesis
  proof (cases "generate_round (le_excluded (sc_loop conf)) (gq_tools ?q) [] deltas")
    case (Inl e)
    with assms show thesis by (intro unanswered) (auto simp: session_round_def Let_def)
  next
    case (Inr r)
    let ?p1 = "count_round conf ?q r p"
    show thesis
    proof (cases "ro_calls r = []")
      case True
      with assms Inr show thesis by (intro quiet [of r ?q]) (auto simp: session_round_def Let_def)
    next
      case False
      obtain tripped guard where watched: "watch_round conf (ro_calls r) (sp_guard ?p1) = (tripped, guard)" by fastforce
      obtain y p2 where calls: "session_calls conf supported ?off answers (ro_calls r) \<lparr>rf_tripped = tripped, rf_finished = None\<rparr> (?p1\<lparr>sp_guard := guard\<rparr>) = (y, p2)"
        by fastforce
      show thesis
      proof (cases y)
        case (Inl e)
        with assms \<open>generate_round _ _ _ _ = Inr r\<close> False watched calls have "x = Inl e" "p' = p2" by (simp_all add: session_round_def Let_def)
        with calls Inl failed show thesis by blast
      next
        case (Inr f)
        obtain ending p3 where "close_round f p2 = (ending, p3)" by fastforce
        with assms \<open>generate_round _ _ _ _ = Inr r\<close> False watched calls Inr have "x = Inr ending" "close_round f p2 = (ending, p')"
          by (simp_all add: session_round_def Let_def)
        with calls Inr called show thesis by blast
      qed
    qed
  qed
qed

lemma session_round_spec:
  assumes "session_round conf supported listed deltas answers p = (x, p')"
  shows "sp_saved p' = sp_saved p" "sp_stored p' = sp_stored p" "sp_budget p' = sp_budget p"
    "\<exists>ivs. sp_invoked p' = sp_invoked p @ ivs
       \<and> list_all (invocation_ok (configure_tools conf supported (session_tools conf listed (sp_mode p))) (sp_mode p)) ivs"
    "x = Inr ending \<Longrightarrow> au_steps (sp_usage p') = Suc (au_steps (sp_usage p))" "sp_mode p' = sp_mode p"
  using assms
  by (cases rule: session_round_cases; fastforce dest: session_calls_spec close_round_spec(1))+

lemma session_round_messages:
  assumes "session_round conf supported listed deltas answers p = (Inr ending, p')" "answered (sp_messages p)"
  shows "\<exists>new. sp_messages p' = sp_messages p @ new \<and> list_all storable new \<and> answered (sp_messages p')"
  using assms(1)
proof (cases rule: session_round_cases)
  case (quiet q r)
  with assms(2) show ?thesis
    by (intro exI [of _ "[(message_new RoleAssistant (ro_text r))\<lparr>cm_calls := []\<rparr>]"]) (simp add: answered_def owed_append)
next
  case (called q r f guard f' p2 ending')
  let ?turn = "(message_new RoleAssistant (ro_text r))\<lparr>cm_calls := ro_calls r\<rparr>"
  obtain texts where texts: "length texts = length (ro_calls r)" "sp_messages p2 = sp_messages p @ [?turn] @ results_of (ro_calls r) texts"
    using session_calls_spec [OF called(2)] by auto
  obtain images where images: "sp_messages p' = sp_messages p2 @ images" "images = [] \<or> (\<exists>im. images = [(message_new RoleUser IMAGES_NOTE)\<lparr>cm_images := im\<rparr>])"
    using close_round_spec(2) [OF called(3)] by blast
  have "answered (sp_messages p')"
    using images assms(2) by (auto simp: texts answered_def owed_append owed_results [OF texts(1)])
  moreover have "sp_messages p' = sp_messages p @ ([?turn] @ results_of (ro_calls r) texts @ images)" by (simp add: images texts)
  moreover have "list_all storable ([?turn] @ results_of (ro_calls r) texts @ images)" using images results_storable by auto
  ultimately show ?thesis by blast
qed auto

lemma session_save_spec:
  assumes "session_save now p ending row t = Inr (row', t', p')" "run_ok t p"
  shows "run_ok t' p'" "transcript_messages t' = sp_messages p" "sp_messages p' = sp_messages p" "sp_budget p' = sp_budget p" "sp_usage p' = sp_usage p"
    "sp_invoked p' = sp_invoked p" "se_status row' = (case ending of None \<Rightarrow> se_status row | Some e \<Rightarrow> en_status e)"
    "se_stop_reason row' = (case ending of None \<Rightarrow> se_stop_reason row | Some e \<Rightarrow> Some (en_reason e))" "sp_mode p' = sp_mode p"
proof -
  let ?new = "drop (sp_saved p) (sp_messages p)"
  have t': "t' = t @ map to_entry ?new" and p': "p' = p\<lparr>sp_stored := sp_stored p + length ?new, sp_saved := length (sp_messages p)\<rparr>"
    using assms(1) by (auto simp: session_save_def Let_def append_transcript_def split: if_splits)
  have "list_all storable ?new" using assms(2) by (auto simp: run_ok_def list_all_iff dest: in_set_dropD)
  then show messages: "transcript_messages t' = sp_messages p"
    using assms(2) by (simp add: t' transcript_append run_ok_def) (metis append_take_drop_id)
  then show "run_ok t' p'" using assms(2) by (auto simp: run_ok_def p' t')
  show "sp_messages p' = sp_messages p" "sp_budget p' = sp_budget p" "sp_usage p' = sp_usage p" "sp_invoked p' = sp_invoked p" "sp_mode p' = sp_mode p" by (simp_all add: p')
  show "se_status row' = (case ending of None \<Rightarrow> se_status row | Some e \<Rightarrow> en_status e)"
    "se_stop_reason row' = (case ending of None \<Rightarrow> se_stop_reason row | Some e \<Rightarrow> Some (en_reason e))"
    using assms(1) by (auto simp: session_save_def Let_def append_transcript_def split: if_splits option.splits)
qed

text \<open>Saving never meets an entry that is there.\<close>

lemma session_save_succeeds: "run_ok t p \<Longrightarrow> session_save now p ending row t \<noteq> Inl e"
  by (auto simp: session_save_def Let_def append_transcript_def run_ok_def)

section \<open>What a session may do\<close>

definition respects_mode :: "agentic_mode \<times> invocation \<Rightarrow> bool" where
  "respects_mode call \<longleftrightarrow> (case call of (m, iv) \<Rightarrow> case m of
     ModeReadOnly \<Rightarrow> of_read_only (iv_tool iv)
   | ModeAsk \<Rightarrow> of_read_only (iv_tool iv) \<or> iv_tier iv = Some TierAsk
   | ModeAuto \<Rightarrow> \<not> of_destructive (iv_tool iv) \<or> iv_tier iv = Some TierAsk)"

lemma configure_keeps_flags:
  assumes "t \<in> set (configure_tools conf supported ts)"
  shows "\<exists>u \<in> set ts. of_key t = of_key u \<and> of_read_only t = of_read_only u \<and> of_destructive t = of_destructive u \<and> of_name t = of_name u"
proof -
  let ?edit = "\<lambda>t. if of_key t = BROWSER_SCREENSHOT then t\<lparr>of_description := fst (sc_describe conf supported t)\<rparr>
     else if of_key t = FS_READ then t\<lparr>of_description := fst (sc_describe conf supported t), of_parameters := snd (sc_describe conf supported t)\<rparr> else t"
  obtain u where "u \<in> set ts" "t = ?edit u" using assms by (auto simp: configure_tools_def split: if_splits)
  then show ?thesis by (intro bexI [of _ u]) auto
qed

lemma invocation_respects_mode:
  "invocation_ok (configure_tools conf supported (session_tools conf listed m)) m iv \<Longrightarrow> respects_mode (m, iv)"
  by (cases m) (auto simp: invocation_ok_def respects_mode_def minimum_tier_def session_tools_def Let_def dest!: configure_keeps_flags)

definition status_has_reason :: "session_row \<Rightarrow> bool" where
  "status_has_reason row \<longleftrightarrow> (se_status row = SessRunning) = (se_stop_reason row = None)"

definition session_ok :: "session_sys \<Rightarrow> bool" where
  "session_ok s \<longleftrightarrow> answered (transcript_messages (ss_transcript s))
     \<and> pred_option (\<lambda>p. run_ok (ss_transcript s) p \<and> sp_invoked p = [] \<and> sp_mode p = ss_mode s
          \<and> ab_steps (sp_budget p) - au_steps (sp_usage p) = ss_left s - ss_asked s) (ss_run s)
     \<and> ss_asked s \<le> ss_left s \<and> list_all respects_mode (ss_invoked s)
     \<and> status_has_reason (ss_row s) \<and> pred_option status_has_reason (ss_extend s)"

lemma budget_left: "session_budget_exceeded b u = None \<Longrightarrow> au_steps u < ab_steps b"
  by (auto simp: session_budget_exceeded_def split: if_splits)

lemma round_ending_reason: "session_round conf supported listed deltas answers p = (Inr (Some e), p') \<Longrightarrow> en_status e \<noteq> SessRunning"
  by (cases rule: session_round_cases) (auto dest: close_round_spec(3))

lemma run_ok_invoked [simp]: "run_ok t (p\<lparr>sp_invoked := ivs\<rparr>) = run_ok t p"
  by (simp add: run_ok_def)

lemma run_ok_after_round:
  assumes "session_round conf supported listed deltas answers p = (Inr ending, p1)" "run_ok t p"
  shows "run_ok t p1"
proof -
  from session_round_messages [OF assms(1)] assms(2) obtain new where
    "sp_messages p1 = sp_messages p @ new" "list_all storable new" "answered (sp_messages p1)" by (auto simp: run_ok_def)
  with session_round_spec(1,2) [OF assms(1)] assms(2) show ?thesis by (auto simp: run_ok_def)
qed

lemma session_round_invoked:
  assumes "session_round conf supported listed deltas answers p = (x, p1)" "sp_invoked p = []"
  shows "list_all respects_mode (map (Pair (sp_mode p)) (sp_invoked p1))"
  using session_round_spec(4) [OF assms(1)] assms(2) invocation_respects_mode by (fastforce simp: list_all_iff)

lemma change_keeps_status: "session_change edit now row = Inr row' \<Longrightarrow> status_has_reason row' = status_has_reason row"
  by (auto simp: session_change_def editable_def status_has_reason_def split: if_splits session_edit.splits)

lemma settle_keeps_status: "status_has_reason row \<Longrightarrow> status_has_reason (session_settled st now row)"
  by (auto simp: session_settled_def status_has_reason_def split: run_state.splits)

lemma extended_status: "session_extended budget run now row = Inr row' \<Longrightarrow> status_has_reason row'"
  by (auto simp: session_extended_def status_has_reason_def check_agentic_budget_def int_range_def split: if_splits)

lemma session_step_ok:
  assumes "session_step conf s s'" "session_ok s"
  shows "session_ok s'"
  using assms
proof (induction rule: session_step.induct)
  case (begins s run now p)
  then have "run_ok (ss_transcript s) p" "sp_invoked p = []" "sp_mode p = se_mode (ss_row s)" using session_begin_ok [OF begins(2)] by (auto simp: session_ok_def)
  with begins show ?case by (simp add: session_ok_def)
next
  case (boundary s p now p' row' now')
  with session_boundary_keeps [OF boundary(3)] session_boundary_ok [OF boundary(3)] show ?case
    by (auto simp: session_ok_def status_has_reason_def split: option.splits)
next
  case (pause s p reason now row' t' p')
  then have ok: "run_ok (ss_transcript s) p" by (simp add: session_ok_def)
  note saved = session_save_spec [OF pause(4) ok]
  have "answered (transcript_messages t')" using ok saved(2) by (simp add: run_ok_def)
  with pause saved show ?case by (simp add: session_ok_def status_has_reason_def)
next
  case (round s p supported listed deltas answers ending p1 now row' t' p')
  then have ok: "run_ok (ss_transcript s) p" "sp_invoked p = []" "sp_mode p = ss_mode s" "ab_steps (sp_budget p) - au_steps (sp_usage p) = ss_left s - ss_asked s"
    by (simp_all add: session_ok_def)
  note ok1 = run_ok_after_round [OF round(4) ok(1)]
  note saved = session_save_spec [OF round(5) ok1]
  note spec = session_round_spec [OF round(4)]
  have answered': "answered (transcript_messages t')" using ok1 saved(2) by (simp add: run_ok_def)
  have "au_steps (sp_usage p) < ab_steps (sp_budget p)" using budget_left [OF round(3)] .
  with ok(4) spec(3) spec(5) [OF refl] saved(4,5) have left:
    "ss_asked s + 1 \<le> ss_left s" "ab_steps (sp_budget p') - au_steps (sp_usage p') = ss_left s - (ss_asked s + 1)" by auto
  have "status_has_reason row'"
    using round saved(7,8) round_ending_reason [of conf supported listed deltas answers p] by (cases ending) (auto simp: session_ok_def status_has_reason_def)
  with round.prems saved(1) answered' left session_round_invoked [OF round(4) ok(2)] spec(6) saved(9) ok(3) show ?case
    by (auto simp: session_ok_def)
next
  case (round_fails s p supported listed deltas answers e p1)
  then have "sp_invoked p = []" "sp_mode p = ss_mode s" "ab_steps (sp_budget p) - au_steps (sp_usage p) = ss_left s - ss_asked s" by (simp_all add: session_ok_def)
  with round_fails budget_left [OF round_fails(3)] session_round_invoked [OF round_fails(4)] show ?case by (auto simp: session_ok_def)
next
  case (settle s st now)
  then show ?case by (simp add: session_ok_def settle_keeps_status)
next
  case (change edit now s row')
  then show ?case by (simp add: session_ok_def change_keeps_status)
next
  case (extend_read budget run now s row')
  then show ?case by (simp add: session_ok_def extended_status)
qed (auto simp: session_ok_def session_cancelled_def status_has_reason_def)

lemma session_reach_ok: "session_reach conf s \<Longrightarrow> session_ok s"
proof (induction rule: session_reach.induct)
  case (start i goal workspace provider model m tools budget run now)
  then show ?case by (simp add: session_ok_def session_start_def session_created_def status_has_reason_def transcript_messages_def answered_def)
next
  case (step s s')
  then show ?case by (simp add: session_step_ok)
qed

text \<open>The service: a budget that is allowed, tools that are registered, and an extension that lets the node go on.\<close>

lemma default_budget_valid: "check_agentic_budget (session_default_budget setting) = Inr ()"
  by (simp add: session_default_budget_def Let_def agentic_budget_default_def check_agentic_budget_def int_range_def AGENTIC_STEPS_MAX_def
      AGENTIC_TOKENS_MIN_def AGENTIC_TOKENS_MAX_def AGENTIC_MINUTES_MAX_def)

lemma keep_requested_spec:
  "keep_requested known keys kept = Inr ks \<Longrightarrow> distinct kept \<Longrightarrow> distinct ks \<and> set ks = set kept \<union> set keys \<and> set keys \<subseteq> known"
  by (induction keys arbitrary: kept) (fastforce split: if_splits)+

lemma requested_tools_known:
  "requested_tools registered requested = Inr ks \<Longrightarrow> set ks \<subseteq> lt_key ` set registered \<and> (requested \<noteq> None \<longrightarrow> distinct ks \<and> set ks = set (the requested))"
  by (cases requested) (auto simp: requested_tools_def dest!: keep_requested_spec [OF _ distinct.simps(1) [THEN iffD2, OF TrueI]])

lemma extension_gives_room: "session_extended budget run now row = Inr row' \<Longrightarrow> session_budget_exceeded (se_budget row') (se_usage row') = None"
  by (auto simp: session_extended_def above_usage_def session_budget_exceeded_def check_agentic_budget_def int_range_def split: if_splits)

text \<open>Within a run the model cannot bring back a step whose title the user has removed: of its proposals those with
  such a title are left out. The guard is new in the next run of the session, which has forgotten them.\<close>

lemma removed_titles_are_left_out:
  assumes "edit_plan (sp_plan p) edits = (change, plan)" "se_pending_plan row = Some edits" "se_pending_mode row = None"
    "session_boundary now p row = (p', row')" "text \<in> set (guard_allowed (sp_guard p') titles)" "plan_title text = Some t"
  shows "t \<notin> set (pc_removed change)"
proof -
  have "sp_guard p' = guard_forbid (sp_guard p) (pc_removed change) \<or> pc_removed change = []"
    using assms(1-4) by (auto simp: session_boundary_def Let_def split: if_splits)
  with assms(5,6) forbidden_titles_stay_out show ?thesis by fastforce
qed

lemma next_run_forgets_removed_titles: "session_begin run now row t = Inr p \<Longrightarrow> guard_allowed (sp_guard p) titles = titles"
  by (auto simp: session_begin_def Let_def guard_allowed_def loop_guard_default_def split: if_splits option.split intro!: filter_True)

subsection \<open>A sample session\<close>

definition sample_conf :: session_conf where
  "sample_conf = \<lparr>sc_loop = shed_example\<lparr>le_estimate := \<lambda>_. 1\<rparr>, sc_canonical = Some, sc_arguments = (\<lambda>_. Some []), sc_call_arguments = (\<lambda>_ _. Some []),
     sc_bridge_parameters = id, sc_bridge_description = id, sc_result_text = (\<lambda>_. (''text'', False)), sc_shown = (\<lambda>_ t _. t), sc_failure = (\<lambda>_ _ _. None),
     sc_unoffered = (\<lambda>_ _. []), sc_system = (\<lambda>_ _ _. []), sc_present = (\<lambda>_ ms. ms), sc_model_tool = (\<lambda>_. True), sc_picture_tool = (\<lambda>_. False),
     sc_describe = (\<lambda>_ t. (of_description t, of_parameters t)), sc_uuid = Some, sc_change = (\<lambda>_. None)\<rparr>"

definition sample_row :: session_row where
  "sample_row = session_created ''s'' ''tidy up'' ''C:'' ''p'' ''m'' ModeAsk [''fs.read''] agentic_budget_default ''run'' 0"

definition sample_begun :: session_progress where
  "sample_begun = (case session_begin ''run'' 0 sample_row [] of Inr p \<Rightarrow> p)"

definition sample_ready :: "session_progress \<times> session_row" where
  "sample_ready = session_boundary 0 sample_begun sample_row"

definition sample_mail :: offered_tool where
  "sample_mail = read_tool\<lparr>of_key := ''mail.send'', of_name := ''send'', of_read_only := False\<rparr>"

definition sample_rounded :: "(app_error + session_ending option) \<times> session_progress" where
  "sample_rounded = session_round sample_conf True [sample_mail] [Inr (DeltaCall \<lparr>cl_id = ''c1'', cl_name = ''send'', cl_arguments = ''{}''\<rparr>)]
     (\<lambda>_ _. Some (Inr \<lparr>td_step = ''step'', td_output = JNull, td_images = []\<rparr>)) (session_clock 0 (fst sample_ready))"

lemma sample_begun_ok: "session_begin ''run'' 0 sample_row [] = Inr sample_begun"
  by (simp add: sample_begun_def session_begin_def sample_row_def session_created_def Let_def)

lemma sample_budget: "sp_budget (fst sample_ready) = agentic_budget_default" "sp_usage (fst sample_ready) = agentic_usage_default"
  "sp_base_elapsed (fst sample_ready) = 0" "sp_started (fst sample_ready) = 0" "se_status (snd sample_ready) = SessRunning"
  by (simp_all add: sample_ready_def session_boundary_def sample_begun_def session_begin_def sample_row_def session_created_def Let_def agentic_usage_default_def)

lemma sample_progress_facts: "sp_mode (fst sample_ready) = ModeAsk" "sp_guard (fst sample_ready) = loop_guard_default" "sp_images (fst sample_ready) = []"
  "sp_invoked (fst sample_ready) = []" "sp_plan (fst sample_ready) = []"
  by (simp_all add: sample_ready_def session_boundary_def sample_begun_def session_begin_def sample_row_def session_created_def Let_def)

lemma sample_round_facts: "fst sample_rounded = Inr None" "map iv_tool (sp_invoked (snd sample_rounded)) = [sample_mail]"
  by (simp_all add: sample_rounded_def session_round_def Let_def session_tools_def configure_tools_def sample_conf_def shed_example_def sample_mail_def read_tool_def BRIDGE_TOOLS_def
      PLAN_TOOL_def COMPLETE_TOOL_def FINISH_TOOL_def BROWSER_SCREENSHOT_def FS_READ_def generate_round_def watch_round_def guard_round_def loop_guard_default_def
      REPEAT_LIMIT_def session_call_def close_round_def count_round_def session_clock_def sample_progress_facts link_step_def current_index_def)

definition sample_sys :: "int \<Rightarrow> session_sys" where
  "sample_sys now = (session_start sample_row)\<lparr>ss_row := snd sample_ready, ss_run := Some (session_clock now (fst sample_ready)), ss_ready := True, ss_left := 25\<rparr>"

lemma sample_sys_reach: "session_reach sample_conf (sample_sys now)"
proof -
  let ?s1 = "(session_start sample_row)\<lparr>ss_run := Some sample_begun, ss_left := 25\<rparr>"
  have "session_reach sample_conf (session_start sample_row)"
    unfolding sample_row_def by (rule session_reach.start)
  moreover have "ab_steps (sp_budget sample_begun) - au_steps (sp_usage sample_begun) = 25"
    using session_begin_ok(2,3) [OF sample_begun_ok]
    by (simp add: sample_row_def session_created_def agentic_budget_default_def agentic_usage_default_def transcript_messages_def answered_def)
  ultimately have "session_reach sample_conf ?s1"
    using session_reach.step [OF _ session_step.begins [of "session_start sample_row" "''run''" 0 sample_begun]] sample_begun_ok
    by (simp add: session_start_def)
  from session_reach.step [OF this session_step.boundary [of ?s1 sample_begun 0 "fst sample_ready" "snd sample_ready" _ now]]
  moreover have "se_pending_mode sample_row = None" by (simp add: sample_row_def session_created_def)
  ultimately show ?thesis by (simp add: sample_sys_def session_start_def sample_ready_def)
qed

lemma sample_sys_ok: "run_ok [] (session_clock now (fst sample_ready))"
  using session_reach_ok [OF sample_sys_reach, of now] by (simp add: session_ok_def sample_sys_def session_start_def)

lemma sample_sys_round:
  "\<exists>s. session_reach sample_conf s \<and> map (map_prod id iv_tool) (ss_invoked s) = [(ModeAsk, sample_mail)] \<and> ss_asked s = 1 \<and> ss_left s = 25"
proof -
  let ?p = "session_clock 0 (fst sample_ready)" and ?p1 = "snd sample_rounded"
  have round: "session_round sample_conf True [sample_mail] [Inr (DeltaCall \<lparr>cl_id = ''c1'', cl_name = ''send'', cl_arguments = ''{}''\<rparr>)]
     (\<lambda>_ _. Some (Inr \<lparr>td_step = ''step'', td_output = JNull, td_images = []\<rparr>)) ?p = (Inr None, ?p1)"
    using sample_round_facts(1) by (simp add: sample_rounded_def [symmetric] prod_eq_iff)
  have "run_ok [] ?p1" by (rule run_ok_after_round [OF round sample_sys_ok])
  then obtain row' t' p' where saved: "session_save 1 ?p1 None (snd sample_ready) [] = Inr (row', t', p')"
    using session_save_succeeds by (metis old.sum.exhaust prod.collapse)
  have within: "session_budget_exceeded (sp_budget ?p) (sp_usage ?p) = None"
    using sample_budget by (simp add: session_budget_exceeded_def session_clock_def agentic_budget_default_def agentic_usage_default_def U64_MAX_def)
  let ?s = "(sample_sys 0)\<lparr>ss_row := row', ss_transcript := t', ss_run := Some (p'\<lparr>sp_invoked := []\<rparr>), ss_ready := False,
     ss_invoked := ss_invoked (sample_sys 0) @ map (Pair ModeAsk) (sp_invoked ?p1), ss_asked := ss_asked (sample_sys 0) + 1\<rparr>"
  have sys: "ss_run (sample_sys 0) = Some ?p" "ss_ready (sample_sys 0)" "ss_row (sample_sys 0) = snd sample_ready" "ss_transcript (sample_sys 0) = []"
    "ss_invoked (sample_sys 0) = []" "ss_asked (sample_sys 0) = 0" "ss_left (sample_sys 0) = 25" "ss_mode (sample_sys 0) = ModeAsk"
    by (simp_all add: sample_sys_def session_start_def sample_row_def session_created_def)
  have "session_step sample_conf (sample_sys 0) ?s"
    using session_step.round [OF sys(1,2) within round, of 1 row' t' p'] saved by (simp add: sys)
  with sample_sys_reach have "session_reach sample_conf ?s" by (rule session_reach.step)
  moreover have "map (map_prod id iv_tool) (map (Pair ModeAsk) (sp_invoked ?p1)) = map (Pair ModeAsk) (map iv_tool (sp_invoked ?p1))" by simp
  ultimately show ?thesis using sample_round_facts(2) sys by (intro exI [of _ ?s]) simp
qed

text \<open>\<^verbatim>\<open>extend\<close> writes the whole row it has read: a session the user has cancelled in between runs again.\<close>

lemma extend_overwrites_cancel:
  "\<exists>s s'. session_reach sample_conf s \<and> session_step sample_conf s s' \<and> se_status (ss_row s) = SessCancelled \<and> se_status (ss_row s') = SessRunning"
proof -
  let ?p = "session_clock 900000 (fst sample_ready)"
  let ?pausing = "Some \<lparr>en_status = SessPaused, en_reason = StopTime, en_summary = None\<rparr>"
  obtain row' t' p' where saved: "session_save 1 ?p ?pausing (snd sample_ready) [] = Inr (row', t', p')"
    using session_save_succeeds [OF sample_sys_ok] by (metis old.sum.exhaust prod.collapse)
  have over: "session_budget_exceeded (sp_budget ?p) (sp_usage ?p) = Some StopTime"
    using sample_budget by (simp add: session_budget_exceeded_def session_clock_def agentic_budget_default_def agentic_usage_default_def U64_MAX_def)
  let ?s1 = "(sample_sys 900000)\<lparr>ss_row := row', ss_transcript := t', ss_run := None\<rparr>"
  have reach1: "session_reach sample_conf ?s1"
    by (rule session_reach.step [OF sample_sys_reach session_step.pause [OF _ _ over]]) (use saved in \<open>simp_all add: sample_sys_def session_start_def\<close>)
  let ?budget = "\<lparr>ab_steps = 1000, ab_tokens = 100000000, ab_minutes = 1440\<rparr>"
  have ended: "se_status row' = SessPaused" "se_usage row' = sp_usage ?p"
    using session_save_spec(7) [OF saved sample_sys_ok] saved by (auto simp: session_save_def Let_def append_transcript_def split: if_splits)
  have above: "above_usage ?budget (sp_usage ?p)"
    using sample_budget by (simp add: above_usage_def session_clock_def agentic_usage_default_def U64_MAX_def)
  from ended above obtain row2 where extended: "session_extended ?budget ''run2'' 2 row' = Inr row2" "se_status row2 = SessRunning"
    by (simp add: session_extended_def check_agentic_budget_def int_range_def AGENTIC_STEPS_MAX_def AGENTIC_TOKENS_MIN_def AGENTIC_TOKENS_MAX_def AGENTIC_MINUTES_MAX_def)
  let ?s2 = "?s1\<lparr>ss_extend := Some row2\<rparr>"
  have reach2: "session_reach sample_conf ?s2"
    by (rule session_reach.step [OF reach1 session_step.extend_read]) (use extended in simp)
  let ?s3 = "?s2\<lparr>ss_row := session_cancelled 3 row', ss_cancel := False\<rparr>"
  have paused: "se_status (ss_row ?s2) = SessPaused" using ended(1) by simp
  note reading = session_reach.step [OF reach2 session_step.cancel_read [OF paused]]
  have "session_reach sample_conf ?s3"
    using session_reach.step [OF reading session_step.cancel_write [where now = 3]] by simp
  moreover have "session_step sample_conf ?s3 (?s3\<lparr>ss_row := row2, ss_extend := None\<rparr>)"
    by (rule session_step.extend_write) simp
  moreover have "se_status (ss_row ?s3) = SessCancelled" by (simp add: session_cancelled_def)
  ultimately show ?thesis using extended(2)
    by (intro exI [of _ ?s3] exI [of _ "?s3\<lparr>ss_row := row2, ss_extend := None\<rparr>"]) simp
qed

text \<open>Every call a session has made keeps to the mode in force.\<close>

lemma session_calls_keep_mode: "session_reach conf s \<Longrightarrow> list_all respects_mode (ss_invoked s)"
  using session_reach_ok by (auto simp: session_ok_def)

text \<open>C40: The stored transcript of a session is always one a provider accepts (every call answered at once, in order), the
  node works on exactly what it reads back from it and what is still to be saved, and in a run it asks the model at
  most as often as the budget has rounds left, however the user's operations come in between.\<close>

theorem session_transcript_is_sound:
  assumes "session_reach conf s"
  shows "answered (transcript_messages (ss_transcript s)) \<and> ss_asked s \<le> ss_left s
    \<and> pred_option (\<lambda>p. answered (sp_messages p) \<and> take (sp_saved p) (sp_messages p) = transcript_messages (ss_transcript s)) (ss_run s)"
  using session_reach_ok [OF assms] by (cases "ss_run s") (auto simp: session_ok_def run_ok_def)

lemma session_transcript_is_sound_witness:
  "\<exists>s. session_reach sample_conf s \<and> ss_asked s = 1 \<and> answered (transcript_messages (ss_transcript s)) \<and> ss_asked s \<le> ss_left s"
proof -
  from sample_sys_round obtain s where s: "session_reach sample_conf s \<and> map (map_prod id iv_tool) (ss_invoked s) = [(ModeAsk, sample_mail)] \<and> ss_asked s = 1 \<and> ss_left s = 25" ..
  note reach = conjunct1 [OF s] and called = conjunct1 [OF conjunct2 [OF s]] and asked = conjunct1 [OF conjunct2 [OF conjunct2 [OF s]]]
  note sound = session_transcript_is_sound [OF reach]
  from reach asked conjunct1 [OF sound] conjunct1 [OF conjunct2 [OF sound]] show ?thesis by (intro exI [of _ s] conjI)
qed

end
