(* ===== verification/ToolInvocation.thy ===== *)
theory ToolInvocation
  imports Gate StepRules AgenticSession
begin

text \<open>
  A tool call of the model on its way to the tool's node: \<^verbatim>\<open>invoke_tool\<close> of \<^verbatim>\<open>kernel/scheduler.rs\<close>, with the registry
  (\<open>for_tool\<close>) and the gate (\<open>gate_hook\<close>), and what this makes of the mode of an agentic session.

  \<open>invoke_env\<close> holds the registry, the admission hook, what the nodes do when they are executed and what each look at
  the run's cancellation shows; a fresh id and the clock are arguments too. \<open>invoke_tool\<close> gives the result, the rows it
  writes for the step in turn, the world in which the node was started, if it was (for the statements only), and the
  world afterwards. Failures of the database and the observer of approvals are left out.
\<close>

definition NO_TOOL_NODE :: string where "NO_TOOL_NODE = ''NO_TOOL_NODE''"
definition NO_PERMISSION_SERVICE :: string where "NO_PERMISSION_SERVICE = ''NO_PERMISSION_SERVICE''"

type_synonym tool_result = "app_error + json \<times> json option"

record 're invoke_env =
  ie_registry :: registry
  ie_admit :: "'re gate_env option"
  ie_execute :: "string \<Rightarrow> step_context \<Rightarrow> json \<Rightarrow> gate_world \<Rightarrow> tool_result \<times> gate_world"
  ie_cancelled :: "nat \<Rightarrow> bool"
  ie_id :: string
  ie_now :: int
  ie_later :: int

definition tool_node :: "registry \<Rightarrow> string \<Rightarrow> registered_node option" where
  "tool_node reg key = (case for_tool reg key of
     Some d \<Rightarrow> if tool_key (rn_permission d) \<noteq> None then Some d else None
   | None \<Rightarrow> None)"

definition tool_context :: "string \<Rightarrow> registered_node \<Rightarrow> step_context" where
  "tool_context run d = \<lparr>sc_run_id = run, sc_deferring = rn_defers_approval d, sc_recording = True\<rparr>"

text \<open>The one place where a node is executed for a call of the model.\<close>

definition start_node :: "'re invoke_env \<Rightarrow> string \<Rightarrow> registered_node \<Rightarrow> json \<Rightarrow> gate_world \<Rightarrow> tool_result \<times> gate_world option \<times> gate_world" where
  "start_node e run d input w = (case ie_execute e (rn_type d) (tool_context run d) input w of (r, w1) \<Rightarrow> (r, Some w, w1))"

definition admit_and_start :: "'re invoke_env \<Rightarrow> string \<Rightarrow> registered_node \<Rightarrow> invocation \<Rightarrow> gate_world \<Rightarrow> tool_result \<times> gate_world option \<times> gate_world" where
  "admit_and_start e run d iv w = (case ie_admit e of
     None \<Rightarrow> (Inl (app_error_new PermissionDenied NO_PERMISSION_SERVICE), None, w)
   | Some g \<Rightarrow>
       (case gate_hook g (raise_requirement (iv_tier iv) (rn_permission_for d (iv_input iv))) (tool_context run d) OriginModel w of
          (Inl x, w1) \<Rightarrow> (Inl x, None, w1)
        | (Inr _, w1) \<Rightarrow>
            if ie_cancelled e 1 then (Inl cancelled_error, None, w1)
            else (case start_node e run d (iv_input iv) w1 of
                (Inl x, started, w2) \<Rightarrow> (Inl x, started, w2)
              | (Inr executed, started, w2) \<Rightarrow> (if ie_cancelled e 2 then Inl cancelled_error else Inr executed, started, w2))))"

definition tool_step :: "'re invoke_env \<Rightarrow> string \<Rightarrow> string \<Rightarrow> string \<Rightarrow> registered_node \<Rightarrow> invocation \<Rightarrow> step_row" where
  "tool_step e run parent label d iv = \<lparr>step_id = ie_id e, step_run_id = run, step_node_id = parent @ ''.'' @ label, step_type = rn_type d,
     step_status_of = StepRunning, step_input = iv_input iv, step_output = JNull, step_error = None, step_started_at = ie_now e,
     step_finished_at = None, attempt = 1\<rparr>"

definition settled_step :: "'re invoke_env \<Rightarrow> tool_result \<Rightarrow> step_row \<Rightarrow> step_row" where
  "settled_step e outcome row = (let row = row\<lparr>step_finished_at := Some (ie_later e)\<rparr> in
     case outcome of
       Inr (output, _) \<Rightarrow> row\<lparr>step_status_of := StepSucceeded, step_output := output\<rparr>
     | Inl x \<Rightarrow> if ie_cancelled e 3 then row\<lparr>step_status_of := StepCancelled, step_error := Some ''CANCELLED_MESSAGE''\<rparr>
         else row\<lparr>step_status_of := StepFailed, step_error := Some (err_message x)\<rparr>)"

definition invoke_tool :: "'re invoke_env \<Rightarrow> string \<Rightarrow> string \<Rightarrow> string \<Rightarrow> invocation \<Rightarrow> gate_world
    \<Rightarrow> tool_result \<times> step_row list \<times> gate_world option \<times> gate_world" where
  "invoke_tool e run parent label iv w =
     (if ie_cancelled e 0 then (Inl cancelled_error, [], None, w)
      else (case tool_node (ie_registry e) (of_key (iv_tool iv)) of
          None \<Rightarrow> (Inl (app_error_new NotFound NO_TOOL_NODE), [], None, w)
        | Some d \<Rightarrow>
            let step = tool_step e run parent label d iv in
            (case admit_and_start e run d iv (w\<lparr>gw_deferred := None, gw_authorisation := None\<rparr>) of
               (outcome, started, w1) \<Rightarrow> (outcome, [step, settled_step e outcome step], started, w1))))"

text \<open>A call that the gate refuses starts nothing, and neither does one whose tool has no node.\<close>

lemma started_passed_the_gate:
  assumes "invoke_tool e run parent label iv w = (result, rows, Some w1, w')" "for_tool (ie_registry e) (of_key (iv_tool iv)) = Some d"
  obtains g where "ie_admit e = Some g"
    "gate_hook g (raise_requirement (iv_tier iv) (rn_permission_for d (iv_input iv))) (tool_context run d) OriginModel
      (w\<lparr>gw_deferred := None, gw_authorisation := None\<rparr>) = (Inr (), w1)"
  using assms
  by (auto simp: invoke_tool_def tool_node_def admit_and_start_def start_node_def Let_def
      split: if_splits option.splits prod.splits sum.splits)

text \<open>The rows of a step: one that is running, then the same one settled, succeeded exactly when there is a result.\<close>

lemma step_rows:
  assumes "invoke_tool e run parent label iv w = (result, rows, started, w')" "rows \<noteq> []"
  shows "\<exists>running settled. rows = [running, settled] \<and> step_status_of running = StepRunning \<and> step_id settled = step_id running
    \<and> step_status_of settled \<noteq> StepRunning \<and> (step_status_of settled = StepSucceeded \<longleftrightarrow> (\<exists>r. result = Inr r))"
  using assms
  by (auto simp: invoke_tool_def settled_step_def tool_step_def Let_def split: if_splits option.splits prod.splits sum.splits)

section \<open>The mode of a session\<close>

definition sample_mail_node :: registered_node where
  "sample_mail_node = \<lparr>rn_type = ''mail.send'', rn_permission = ReqTool ''mail.send'' None, rn_defers_approval = False, rn_side_effect = True,
     rn_input_schema = JNull, rn_output_schema = JNull, rn_permission_for = (\<lambda>_. ReqTool ''mail.send'' None)\<rparr>"

definition sample_invoke_env :: "string invoke_env" where
  "sample_invoke_env = \<lparr>ie_registry = [sample_mail_node], ie_admit = Some sample_gate_env,
     ie_execute = (\<lambda>_ _ _ w. (Inr (JNull, None), w)), ie_cancelled = (\<lambda>_. False), ie_id = ''s1'', ie_now = 1, ie_later = 3\<rparr>"

lemma sample_for_tool: "for_tool [sample_mail_node] ''mail.send'' = Some sample_mail_node"
  by (simp add: for_tool_def sample_mail_node_def tool_key_def Let_def)

lemma sample_invocation_starts:
  assumes "of_key (iv_tool iv) = ''mail.send''" "iv_tier iv = Some TierAsk"
  shows "\<exists>result rows w1 w'. invoke_tool sample_invoke_env ''r'' ''agent'' ''call1'' iv (sample_world (sample_db [])) = (result, rows, Some w1, w')"
  using assms sample_for_tool
  by (simp add: invoke_tool_def sample_invoke_env_def tool_node_def admit_and_start_def start_node_def gate_hook_def raise_requirement_def
      sample_mail_node_def tool_context_def tool_key_def sample_gate_simps)

text \<open>C39: A session keeps to its mode. The mode of a round is the one in force at the boundary before it: the session's
  own when its node began, from the next boundary on the one the user has switched to (a switch during a round does not
  touch that round). In the read-only mode the session invokes only tools that read. In the mode that asks, a call of
  any other tool, and in the automatic mode a call of a destructive one, starts the tool's node only after the question
  of its permission has come up, whatever the permissions grant: the execution policy of the run has reviewed the
  declared question and lets the call run, or the user has approved this very request; a node that puts its question
  itself starts with the question deferred to it. This is for nodes that name a tool in what they require of the call.\<close>

theorem session_respects_its_mode:
  assumes "session_reach conf s" and "(m, iv) \<in> set (ss_invoked s)"
  shows "(m = ModeReadOnly \<longrightarrow> of_read_only (iv_tool iv))
    \<and> ((m = ModeAsk \<and> \<not> of_read_only (iv_tool iv) \<or> m = ModeAuto \<and> of_destructive (iv_tool iv))
        \<and> invoke_tool e run parent label iv w = (result, rows, Some w1, w')
        \<and> for_tool (ie_registry e) (of_key (iv_tool iv)) = Some d \<and> tool_key (rn_permission_for d (iv_input iv)) = Some tool
      \<longrightarrow> (\<exists>g r. ie_admit e = Some g \<and> read_run g run = Inr r
          \<and> (if rn_defers_approval d then map_option def_subject (gw_deferred w1) = Some tool
             else (\<exists>a ex. review_of g TierAsk (tool_context run d) w = (Inr (VRun a), ex)) \<or> approved_by_user g r tool)))"
proof -
  have kept: "respects_mode (m, iv)" using session_calls_keep_mode [OF assms(1)] assms(2) by (auto simp: list_all_iff)
  show ?thesis
  proof (intro conjI impI, goal_cases)
    case 1
    with kept show ?case by (simp add: respects_mode_def)
  next
    case 2
    then have tier: "iv_tier iv = Some TierAsk" using kept by (auto simp: respects_mode_def)
    from 2 obtain g where g: "ie_admit e = Some g"
      "gate_hook g (raise_requirement (iv_tier iv) (rn_permission_for d (iv_input iv))) (tool_context run d) OriginModel
        (w\<lparr>gw_deferred := None, gw_authorisation := None\<rparr>) = (Inr (), w1)"
      by (auto elim: started_passed_the_gate)
    from raised_gate_asks [OF g(2) [unfolded tier]] 2 show ?case
      by (auto simp: g(1) tool_context_def review_of_def split: if_splits)
  qed
qed

lemma session_respects_its_mode_witness:
  "\<exists>s iv run. session_reach sample_conf s \<and> (ModeAsk, iv) \<in> set (ss_invoked s) \<and> approved_by_user sample_gate_env run ''mail.send''"
proof -
  from sample_sys_round obtain s where s:
    "session_reach sample_conf s \<and> map (map_prod id iv_tool) (ss_invoked s) = [(ModeAsk, sample_mail)] \<and> ss_asked s = 1 \<and> ss_left s = 25" ..
  then obtain iv where iv: "ss_invoked s = [(ModeAsk, iv)]" "iv_tool iv = sample_mail" by (auto simp: map_eq_Cons_conv)
  have mail: "of_key sample_mail = ''mail.send''" "\<not> of_read_only sample_mail" by (simp_all add: sample_mail_def)
  have "respects_mode (ModeAsk, iv)" using session_calls_keep_mode [OF conjunct1 [OF s]] iv(1) by simp
  then have "iv_tier iv = Some TierAsk" using iv(2) mail by (simp add: respects_mode_def)
  with iv(2) mail obtain result rows w1 w' where started:
    "invoke_tool sample_invoke_env ''r'' ''agent'' ''call1'' iv (sample_world (sample_db [])) = (result, rows, Some w1, w')"
    using sample_invocation_starts by metis
  have node: "for_tool (ie_registry sample_invoke_env) (of_key (iv_tool iv)) = Some sample_mail_node"
    "tool_key (rn_permission_for sample_mail_node (iv_input iv)) = Some ''mail.send''" "\<not> rn_defers_approval sample_mail_node"
    by (simp_all add: sample_invoke_env_def sample_for_tool iv(2) mail) (simp_all add: sample_mail_node_def tool_key_def)
  have reviewed: "review_of sample_gate_env TierAsk (tool_context ''r'' d) w \<noteq> (Inr (VRun a), ex)" for d w a ex
    by (simp add: review_of_def sample_gate_env_def review_action_def)
  have "\<exists>r. approved_by_user sample_gate_env r ''mail.send''"
    using session_respects_its_mode [OF conjunct1 [OF s], of ModeAsk iv sample_invoke_env "''r''" "''agent''" "''call1''"
        "sample_world (sample_db [])" result rows w1 w' sample_mail_node "''mail.send''"] started node iv mail reviewed
    by (auto simp: sample_invoke_env_def)
  with s iv(1) show ?thesis by auto
qed

end
