(* ===== verification/Spec2Isabelle.thy ===== *)
theory Spec2Isabelle
  imports UserRules Gate SchedulerProps RunStream ScenarioCompile
    AgenticPlan ChatQueue ChunkText FrameDecoder Questions FileCommit FileRead FileRoots ToolInvocation
begin

text \<open>
  A verification library for the host of ZVS AI Studio (\<^verbatim>\<open>src/crates/zvs-host\<close>, with the wire types of
  \<^verbatim>\<open>src/crates/zvs-contract\<close> and the chunking of \<^verbatim>\<open>src/crates/zvs-core\<close>).

  \<^bold>\<open>The program.\<close> The studio runs chats, agentic sessions and scenarios on a user's machine. Each is a run: a graph
  of nodes the kernel schedules. A node of a run may call tools; a tool call passes a gate (permissions, the
  execution policy, a question to the user) before it touches files or starts programs. What a run does is
  published as a stream of numbered events that are stored before they are seen. The components modelled here are
  those that decide: who may do what, in which order, and what is left behind when something fails.

  \<^bold>\<open>How the theories follow the code.\<close> A theory stands for one or two source files, in the order of the calls; it
  opens with a text that says what is an argument (the clock, fresh ids, the regular expressions, the file system,
  the tokenizer, a driver) and what is left out. Structs are records, enums are datatypes with the names of the
  source, \<^verbatim>\<open>Result\<close> is a sum, \<^verbatim>\<open>?\<close> is \<open>rbind\<close>, a section under a lock or a transaction is one step.

  \<^bold>\<open>Shared ground.\<close>
  \<^item> \<open>Prelude\<close>: text, results, JSON, tables, the lemmas all components use. \<open>Utf8\<close>: decoding and encoding, text
    as Unicode scalar values. \<open>Contract\<close>: the DTOs and enums of the wire.

  \<^bold>\<open>Who may do what.\<close>
  \<^item> \<open>ExecTable\<close> (\<^verbatim>\<open>policy/table.rs\<close>, \<^verbatim>\<open>policy/action.rs\<close>): the table of modes and families.
  \<^item> \<open>PolicyRules\<close> (\<^verbatim>\<open>policy/rules.rs\<close>): compiling rule packs, matching files, argument vectors and scripts,
    resolving. A vendor denial is final, an allowed file action is covered on every operation.
  \<^item> \<open>UserRules\<close> (\<^verbatim>\<open>policy/user_rules.rs\<close>): the narrowest rule for an action, written to its pack.
  \<^item> \<open>ExecReview\<close> (\<^verbatim>\<open>policy/service.rs\<close>, \<^verbatim>\<open>policy/judge.rs\<close>): verdicts, the fence of the judge's prompt, the cap on
    its calls.
  \<^item> \<open>Permissions\<close> (\<^verbatim>\<open>services/permissions.rs\<close>, \<^verbatim>\<open>data/repositories/permission.rs\<close>): tiers, scopes, ceilings.
    \<open>Approvals\<close> (\<^verbatim>\<open>services/approvals.rs\<close>): requests and decisions as a machine of atomic steps.
    The locale \<open>admission_port\<close> is what approvals rely on; \<open>perms\<close> interprets it on the permission service.
  \<^item> \<open>Gate\<close> (\<^verbatim>\<open>services/runs.rs\<close>): permissions, policy and the user together, with everything that may change while
    the user thinks.
  \<^item> \<open>FolderPaths\<close>, \<open>FolderAccess\<close> (\<^verbatim>\<open>workspace/paths.rs\<close>, \<^verbatim>\<open>workspace/service.rs\<close>): which folders a call may work in,
    the forbidden trees, what is asked and what an answer grants, under any interleaving. \<open>FileRoots\<close>
    (\<^verbatim>\<open>files/roots.rs\<close>, \<^verbatim>\<open>conversations.rs\<close>): the app's own folders a call may use without asking, and what then holds of
    every path of a call of a file tool.
  \<^item> \<open>ToolInvocation\<close> (\<^verbatim>\<open>invoke_tool\<close> of \<^verbatim>\<open>kernel/scheduler.rs\<close>): a call of the model from the registry through the gate to the
    node that carries it out; with \<open>AgenticSession\<close>, what a session's mode means for its calls.

  \<^bold>\<open>Runs.\<close>
  \<^item> \<open>NodeRegistry\<close> (\<^verbatim>\<open>kernel/registry.rs\<close>): node types and the validation of a graph.
  \<^item> \<open>StepRules\<close>, \<open>Scheduler\<close>, \<open>SchedulerProps\<close> (\<^verbatim>\<open>kernel/scheduler.rs\<close>): binding, retries and checkpoints; the
    driver, its tasks, gates, cancellation and a failing database as a step relation; its invariants.
  \<^item> \<open>EventBus\<close> (\<^verbatim>\<open>platform/events.rs\<close>) and \<open>RunStream\<close> (\<^verbatim>\<open>kernel/stream.rs\<close>, \<^verbatim>\<open>data/repositories/run.rs\<close>): numbering,
    sinks, the merging of tokens; the locale \<open>event_log\<close> is what the stream relies on in a store, \<open>run_log\<close>
    interprets it on the repository. The stored events refine the published ones.
  \<^item> \<open>Questions\<close> (\<^verbatim>\<open>services/questions.rs\<close>): the questions of a run and the answers it hears.

  \<^bold>\<open>Scenarios.\<close>
  \<^item> \<open>ScenarioGraph\<close>, \<open>ScenarioValidation\<close>, \<open>ScenarioCycles\<close>, \<open>ScenarioSpec\<close>, \<open>ScenarioCompile\<close>
    (\<^verbatim>\<open>scenarios/catalogue.rs\<close>, \<^verbatim>\<open>validation.rs\<close>, \<^verbatim>\<open>compile.rs\<close>): the catalogue, the issues of a graph (with Tarjan's
    search), what a valid scenario is without the order of the checks, and the graph it compiles to, which
    \<open>NodeRegistry\<close> accepts.

  \<^bold>\<open>Talking to a model.\<close>
  \<^item> \<open>FrameDecoder\<close> (\<^verbatim>\<open>drivers/ai/sse.rs\<close>): the locale \<open>frame_decoder\<close> with both decoders as interpretations: where
    the transport cuts the bytes does not matter.
  \<^item> \<open>ToolLoop\<close> (\<^verbatim>\<open>services/tool_loop.rs\<close>, \<^verbatim>\<open>generate_round\<close>): the rounds of a turn, its budget and context, the groups
    of calls. Its messages keep the order a provider asks for, and a turn with limited calls ends.
  \<^item> \<open>GoalMode\<close> (\<^verbatim>\<open>services/chat_goal.rs\<close>, \<^verbatim>\<open>zvs-contract/src/goal.rs\<close>): the hook that keeps a turn going towards a goal, and
    the stored goal under turns, restarts and the user. The locale \<open>round_invariant\<close> of \<open>ToolLoop\<close> is what a hook's owner
    knows of the world between two rounds; \<open>goal_rounds\<close> interprets it.
  \<^item> \<open>AgenticPlan\<close> (\<^verbatim>\<open>agentic/plan.rs\<close>): the plan of a session and the guard against circles.
  \<^item> \<open>AgenticSession\<close> (\<^verbatim>\<open>agentic/node.rs\<close>, \<^verbatim>\<open>store.rs\<close>, \<^verbatim>\<open>service.rs\<close>, \<^verbatim>\<open>zvs-contract/src/agentic.rs\<close>): a session works in rounds on
    a goal while the user changes its plan and mode, extends and cancels it: its permission mode, its budget, the
    transcript it leaves.
  \<^item> \<open>ChatQueue\<close> (\<^verbatim>\<open>services/chat/queue.rs\<close>): the messages that wait while a turn runs.
  \<^item> \<open>ChunkText\<close> (\<^verbatim>\<open>zvs-core/src/chunk.rs\<close>): the splitting of documents.

  \<^bold>\<open>Files.\<close>
  \<^item> \<open>FileText\<close>, \<open>LineDiff\<close> (\<^verbatim>\<open>files/text.rs\<close>, \<^verbatim>\<open>files/diff.rs\<close>): encodings and line ends, the diff that is confirmed.
  \<^item> \<open>FilePlan\<close> (\<^verbatim>\<open>files/plan.rs\<close>): a batch planned on an overlay; the plan is the changes run in turn on a map.
  \<^item> \<open>FileCommit\<close> (\<^verbatim>\<open>files/commit.rs\<close>): writing over a file system that may refuse any call.
  \<^item> \<open>FileRead\<close> (\<^verbatim>\<open>files/ledger.rs\<close>, \<^verbatim>\<open>files/nodes.rs\<close>): the ledger, reading with its budget, the freshness check.

  \<^bold>\<open>Bounds and fuel.\<close> Unbounded numbers stand for machine integers where a bound of the program keeps them small;
  the theory says which. \<open>ScenarioCycles\<close> recurses with the number of nodes as fuel (\<open>visit_spec\<close>: enough).
  \<open>ToolLoop\<close> counts its rounds as fuel (\<open>tool_loop_ends\<close>: one more than the budget is enough; \<open>goal_turn_ends\<close>: the
  rounds a goal has left). \<open>FileRead\<close> pages with
  one unit for each line (\<open>reading_on_shows_every_line\<close>). \<open>ChunkText\<close> is a \<open>partial_function\<close> (\<open>chunking_ends\<close>).

  \<^bold>\<open>Not modelled.\<close> The renderer and the packages in TypeScript; the Tauri shell, its browser and windows; the terminal
  client; the sidecars and the crates of single providers; in the host the drivers of providers and of MCP servers,
  retrieval, vector stores, memory, mail, telegram and git integrations, browser and computer control, skills,
  runtimes, toolchain and downloads, voice, documents and artifacts, the IPC glue, the SQL of most repositories and
  the migrations. They are input and output, glue to code outside the repository, or wait for a model of their own;
  the manifest lists each with its reason.
\<close>

end
